(* ===== verification/Prelude.thy ===== *)
theory Prelude
  imports Main "HOL-Library.Word" "HOL-Library.List_Lexorder"
begin

text \<open>
  Shared vocabulary of the development: names for the machine types of the C code, the
  \<^verbatim>\<open>errno\<close> results of the management commands, \<open>memcmp\<close>, and the lemmas on
  lists, folds and words that the component theories use.
\<close>

unbundle bit_operations_syntax

named_theorems wf_intros \<open>preservation of well-formedness invariants\<close>
named_theorems frame_simps \<open>fields that an operation leaves alone\<close>

type_synonym u8 = "8 word"
type_synonym u16 = "16 word"
type_synonym u32 = "32 word"
type_synonym u64 = "64 word"
type_synonym bytes = "u8 list"
type_synonym fd = int

text \<open>The results of the management functions: \<open>EOK\<close> is the return value 0.\<close>

datatype errno =
    EOK | EPERM | ENOENT | ENXIO | EBADF | ENOMEM | EEXIST | ENODEV
  | EINVAL | ENOSPC | ENOSYS | EADDRINUSE

text \<open>
  The C library's \<open>memcmp\<close> on two blocks: the sign of the first difference of the bytes
  read as \<open>unsigned char\<close>, and 0 when the compared bytes are equal.
\<close>

fun memcmp :: "bytes \<Rightarrow> bytes \<Rightarrow> int" where
  "memcmp (x # xs) (y # ys) = (if x = y then memcmp xs ys else if x < y then -1 else 1)"
| "memcmp _ _ = 0"

lemma memcmp_refl [simp]: "memcmp xs xs = 0"
  by (induction xs) auto

lemma memcmp_eq_0_iff: "length xs = length ys \<Longrightarrow> memcmp xs ys = 0 \<longleftrightarrow> xs = ys"
  by (induction xs ys rule: memcmp.induct) auto

lemma memcmp_less_iff: "length xs = length ys \<Longrightarrow> memcmp xs ys < 0 \<longleftrightarrow> xs < ys"
  by (induction xs ys rule: memcmp.induct) (auto simp: Cons_less_Cons)

lemma memcmp_greater_iff: "length xs = length ys \<Longrightarrow> 0 < memcmp xs ys \<longleftrightarrow> ys < xs"
  by (induction xs ys rule: memcmp.induct) (auto simp: Cons_less_Cons)

lemmas memcmp_iffs = memcmp_eq_0_iff memcmp_less_iff memcmp_greater_iff

section \<open>Lists\<close>

text \<open>Blocks of memory: overwriting a run of bytes in a buffer (\<open>memmove\<close>, \<open>memcpy\<close>).\<close>

definition blit :: "'a list \<Rightarrow> nat \<Rightarrow> 'a list \<Rightarrow> 'a list" where
  "blit dst off src = take off dst @ src @ drop (off + length src) dst"

lemma length_blit [simp]: "off + length src \<le> length dst \<Longrightarrow> length (blit dst off src) = length dst"
  by (simp add: blit_def)

lemma take_blit [simp]: "n \<le> off \<Longrightarrow> off \<le> length dst \<Longrightarrow> take n (blit dst off src) = take n dst"
  by (simp add: blit_def min_def)

lemma drop_blit [simp]:
  "off + length src \<le> n \<Longrightarrow> off + length src \<le> length dst \<Longrightarrow> drop n (blit dst off src) = drop n dst"
  by (simp add: blit_def)

lemma nth_blit:
  assumes "off + length src \<le> length dst" and "i < length dst"
  shows "blit dst off src ! i =
    (if i < off then dst ! i else if i < off + length src then src ! (i - off) else dst ! i)"
  using assms by (auto simp: blit_def nth_append)

lemma filter_upt_Suc: "filter P [a..<Suc b] = filter P [a..<b] @ (if a \<le> b \<and> P b then [b] else [])"
  by auto

lemma map_add_upt': "map (\<lambda>i. i + n) [a..<b] = [a + n..<b + n]"
  by (induction b) auto

lemma filter_shift_upt: "map (\<lambda>j. c + j) (filter P [0..<n]) = filter (\<lambda>k. P (k - c)) [c..<c + n]"
proof (induction n)
  case (Suc n)
  then show ?case by (simp add: add.commute)
qed simp

lemma fold_invariant_list:
  "I s \<Longrightarrow> (\<And>k s. k \<in> set ks \<Longrightarrow> I s \<Longrightarrow> I (f k s)) \<Longrightarrow> I (fold f ks s)"
  by (induction ks arbitrary: s) auto

text \<open>An invariant that mentions the elements already processed.\<close>

lemma fold_processed:
  assumes "I {} s" and "\<And>S k s. k \<in> set ks \<Longrightarrow> I S s \<Longrightarrow> I (insert k S) (f k s)"
  shows "I (set ks) (fold f ks s)"
proof -
  have "I (S \<union> set ks) (fold f ks s)" if "I S s" for S
    using that assms(2)
  proof (induction ks arbitrary: S s)
    case (Cons k ks)
    have "I (insert k S) (f k s)" using Cons.prems by simp
    then have "I (insert k S \<union> set ks) (fold f ks (f k s))" using Cons.prems by (intro Cons.IH) auto
    then show ?case by simp
  qed simp
  from this [OF assms(1)] show ?thesis by simp
qed

text \<open>A fold whose steps leave a projection alone leaves it alone.\<close>

lemma fold_frame: "(\<And>k s. k \<in> set ks \<Longrightarrow> p (f k s) = p s) \<Longrightarrow> p (fold f ks s) = p s"
  by (induction ks arbitrary: s) auto

lemma ball_map_cong: "map f xs = map f ys \<Longrightarrow> (\<forall>x \<in> set xs. P (f x)) = (\<forall>y \<in> set ys. P (f y))"
  by (drule arg_cong [where f = "\<lambda>l. \<forall>y \<in> set l. P y"]) simp

section \<open>Words\<close>

lemma bit_push_1: "bit (2 ^ n :: 'a::len word) i \<longleftrightarrow> i = n \<and> i < LENGTH('a)"
  by (auto simp: bit_exp_iff)

lemma bit_64_bound: "bit (w :: u64) i \<Longrightarrow> i < 64"
  using bit_imp_le_length [of w i] by simp

lemma or_exp_eq_iff: "m < 64 \<Longrightarrow> (w :: u64) OR 2 ^ m = w \<longleftrightarrow> bit w m"
proof
  assume m: "m < 64" and "w OR 2 ^ m = w"
  from m have "bit (w OR 2 ^ m) m" by (simp add: bit_or_iff bit_push_1)
  with \<open>w OR 2 ^ m = w\<close> show "bit w m" by simp
next
  assume "bit w m"
  then show "w OR 2 ^ m = w"
    by (intro bit_word_eqI) (auto simp: bit_or_iff bit_push_1)
qed

lemma and_not_exp_eq_iff: "(w :: u64) AND NOT (2 ^ m) = w \<longleftrightarrow> \<not> bit w m"
proof
  assume eq: "w AND NOT (2 ^ m) = w"
  show "\<not> bit w m"
  proof
    assume "bit w m"
    then have "bit (w AND NOT (2 ^ m)) m" using eq by simp
    then show False by (auto simp: bit_and_iff bit_not_iff bit_push_1)
  qed
next
  assume "\<not> bit w m"
  then show "w AND NOT (2 ^ m) = w"
    by (intro bit_word_eqI) (auto simp: bit_and_iff bit_not_iff bit_push_1)
qed

end
