(* ===== verification/Cstring.thy ===== *)
theory Cstring
  imports Prelude
begin

text \<open>
  What the management commands use of the C library to read their arguments: \<open>isspace\<close>,
  \<open>isdigit\<close>, \<open>atoi\<close> and \<open>sscanf\<close> with the formats \<open>%i\<close>, \<open>%i %i\<close> and \<open>%i %i %i\<close>. Strings are
  character lists without the final NUL. A number is read as an integer and cut to the 32
  bits of an \<open>int\<close>.
\<close>

definition isspace :: "char \<Rightarrow> bool" where
  "isspace c = (let n = of_char c :: nat in n = 32 \<or> 9 \<le> n \<and> n \<le> 13)"

definition isdigit :: "char \<Rightarrow> bool" where
  "isdigit c = (let n = of_char c :: nat in 48 \<le> n \<and> n \<le> 57)"

text \<open>The value of a digit in a base of at most 16.\<close>

definition digit_val :: "nat \<Rightarrow> char \<Rightarrow> nat option" where
  "digit_val base c =
     (let n = of_char c :: nat;
          v = (if 48 \<le> n \<and> n \<le> 57 then n - 48
               else if 97 \<le> n \<and> n \<le> 102 then n - 87
               else if 65 \<le> n \<and> n \<le> 70 then n - 55
               else 16)
      in if v < base then Some v else None)"

fun scan_digits :: "nat \<Rightarrow> int \<Rightarrow> string \<Rightarrow> int \<times> string" where
  "scan_digits base acc [] = (acc, [])"
| "scan_digits base acc (c # cs) =
     (case digit_val base c of
        None \<Rightarrow> (acc, c # cs)
      | Some d \<Rightarrow> scan_digits base (acc * int base + int d) cs)"

definition starts_digit :: "nat \<Rightarrow> string \<Rightarrow> bool" where
  "starts_digit base s = (case s of [] \<Rightarrow> False | c # _ \<Rightarrow> digit_val base c \<noteq> None)"

definition to_int32 :: "int \<Rightarrow> int" where
  "to_int32 x = signed_take_bit 31 x"

definition scan_sign :: "string \<Rightarrow> int \<times> string" where
  "scan_sign s =
     (case s of
        [] \<Rightarrow> (1, [])
      | c # cs \<Rightarrow> if c = CHR ''-'' then (- 1, cs) else if c = CHR ''+'' then (1, cs) else (1, s))"

text \<open>One conversion \<open>%i\<close>: the value and what is left of the input.\<close>

definition scan_i :: "string \<Rightarrow> (int \<times> string) option" where
  "scan_i s =
     (case scan_sign (dropWhile isspace s) of (sg, t) \<Rightarrow>
        let hex = (2 \<le> length t \<and> t ! 0 = CHR ''0'' \<and> (t ! 1 = CHR ''x'' \<or> t ! 1 = CHR ''X''));
            base = (if hex then 16 else if t \<noteq> [] \<and> t ! 0 = CHR ''0'' then 8 else 10);
            u = (if hex then drop 2 t else t)
        in if starts_digit base u
           then (case scan_digits base 0 u of (n, rest) \<Rightarrow> Some (to_int32 (sg * n), rest))
           else None)"

text \<open>\<open>sscanf\<close> with a format of \<open>n\<close> conversions \<open>%i\<close>: the values assigned.\<close>

fun scan_ints :: "nat \<Rightarrow> string \<Rightarrow> int list" where
  "scan_ints 0 s = []"
| "scan_ints (Suc n) s =
     (case scan_i s of None \<Rightarrow> [] | Some (v, rest) \<Rightarrow> v # scan_ints n rest)"

definition atoi :: "string \<Rightarrow> int" where
  "atoi s =
     (case scan_sign (dropWhile isspace s) of (sg, t) \<Rightarrow> to_int32 (sg * fst (scan_digits 10 0 t)))"

text \<open>
  One conversion \<open>%x\<close>, and \<open>sscanf\<close> with \<open>n\<close> conversions \<open>%x\<close> separated by the character
  \<open>sep\<close>: the values assigned.
\<close>

definition scan_x :: "string \<Rightarrow> (int \<times> string) option" where
  "scan_x s =
     (case scan_sign (dropWhile isspace s) of (sg, t) \<Rightarrow>
        let hex = (2 \<le> length t \<and> t ! 0 = CHR ''0'' \<and> (t ! 1 = CHR ''x'' \<or> t ! 1 = CHR ''X''));
            u = (if hex then drop 2 t else t)
        in if starts_digit 16 u
           then (case scan_digits 16 0 u of (n, rest) \<Rightarrow> Some (to_int32 (sg * n), rest))
           else None)"

fun scan_hexs :: "char \<Rightarrow> nat \<Rightarrow> string \<Rightarrow> int list" where
  "scan_hexs sep 0 s = []"
| "scan_hexs sep (Suc n) s =
     (case scan_x s of
        None \<Rightarrow> []
      | Some (v, rest) \<Rightarrow>
          v # (case rest of [] \<Rightarrow> [] | c # cs \<Rightarrow> if c = sep then scan_hexs sep n cs else []))"

lemma length_scan_hexs: "length (scan_hexs sep n s) \<le> n"
  by (induction sep n s rule: scan_hexs.induct) (auto split: option.splits list.splits)

lemma length_scan_ints: "length (scan_ints n s) \<le> n"
  by (induction n arbitrary: s) (auto split: option.splits)

end
