(* ===== verification/Bitarray.thy ===== *)
theory Bitarray
  imports Prelude
begin

text \<open>
  The bit arrays of \<^verbatim>\<open>vde_switch/bitarray.h\<close> on a 64-bit machine: sets of small
  numbers packed in an array of \<open>unsigned long\<close>, and their variant \<open>bac_\<close> with the
  cardinality in one more trailing word. An array is the list of its words; a NULL pointer
  has no words and is the empty list. An access outside the array is not defined in C: the
  reading operations return the empty answer there and the writing ones change nothing,
  and the bounds lemmas say when no such access happens; where the code itself makes one
  (\<open>ba_realloc\<close>, \<open>bac_FORALL\<close>) the model returns \<open>None\<close>.
\<close>

type_synonym bitarray = "u64 list"

definition WORDSIZEROUND :: "nat \<Rightarrow> nat" where
  "WORDSIZEROUND vx = (vx + 63) div 64"

definition ba_mask :: "nat \<Rightarrow> u64" where
  "ba_mask i = push_bit (i mod 64) 1"

definition ba_alloc :: "nat \<Rightarrow> bitarray" where
  "ba_alloc n = replicate (WORDSIZEROUND n) 0"

text \<open>
  \<open>mem\<close> says whether \<open>realloc\<close> succeeds. The last word of the old size is changed whether it
  did or not: \<open>None\<close> is a write through NULL, a write behind an array that has become shorter, or a
  change of a word that the old array does not have.
\<close>

definition ba_realloc :: "bool \<Rightarrow> bitarray \<Rightarrow> nat \<Rightarrow> nat \<Rightarrow> bitarray option" where
  "ba_realloc mem b n m =
     (let nb = take (WORDSIZEROUND m) b @ replicate (WORDSIZEROUND m - WORDSIZEROUND n) 0;
          k = WORDSIZEROUND n - 1
      in if mem \<and> 0 < WORDSIZEROUND n \<and> k < WORDSIZEROUND m \<and> k < length b
         then Some (nb[k := nb ! k AND drop_bit ((64 - n mod 64) mod 64) (- 1)])
         else None)"

definition ba_check :: "bitarray \<Rightarrow> nat \<Rightarrow> bool" where
  "ba_check x i = (i div 64 < length x \<and> (x ! (i div 64)) AND ba_mask i \<noteq> 0)"

definition ba_set :: "bitarray \<Rightarrow> nat \<Rightarrow> bitarray" where
  "ba_set x i = x[i div 64 := x ! (i div 64) OR ba_mask i]"

definition ba_clr :: "bitarray \<Rightarrow> nat \<Rightarrow> bitarray" where
  "ba_clr x i = x[i div 64 := x ! (i div 64) AND NOT (ba_mask i)]"

definition ba_zap :: "bitarray \<Rightarrow> nat \<Rightarrow> bitarray" where
  "ba_zap x n = replicate (min (WORDSIZEROUND n) (length x)) 0 @ drop (WORDSIZEROUND n) x"

text \<open>
  \<open>ba_FORALL\<close> and \<open>ba_FORALLFUN\<close> read one word at a time and shift it right 64 times.
  The body may change the array it walks over, so the loop reads each word from the state
  \<open>s\<close> it has reached (\<open>rd s\<close> is the array in that state).
\<close>

fun ba_word_loop :: "(nat \<Rightarrow> 's \<Rightarrow> 's) \<Rightarrow> nat \<Rightarrow> nat \<Rightarrow> nat \<Rightarrow> u64 \<Rightarrow> 's \<Rightarrow> 's" where
  "ba_word_loop f i j 0 v s = s"
| "ba_word_loop f i j (Suc fuel) v s =
     ba_word_loop f i (Suc j) fuel (drop_bit 1 v)
       (if v AND 1 \<noteq> 0 then f (i * 64 + j) s else s)"

fun ba_FORALL_from :: "('s \<Rightarrow> bitarray) \<Rightarrow> (nat \<Rightarrow> 's \<Rightarrow> 's) \<Rightarrow> nat \<Rightarrow> nat \<Rightarrow> 's \<Rightarrow> 's" where
  "ba_FORALL_from rd f i 0 s = s"
| "ba_FORALL_from rd f i (Suc k) s =
     ba_FORALL_from rd f (Suc i) k
       (ba_word_loop f i 0 64 (if i < length (rd s) then rd s ! i else 0) s)"

definition ba_FORALL :: "('s \<Rightarrow> bitarray) \<Rightarrow> nat \<Rightarrow> (nat \<Rightarrow> 's \<Rightarrow> 's) \<Rightarrow> 's \<Rightarrow> 's" where
  "ba_FORALL rd n f s = ba_FORALL_from rd f 0 (WORDSIZEROUND n) s"

definition ba_card :: "bitarray \<Rightarrow> nat \<Rightarrow> nat" where
  "ba_card x n = snd (ba_FORALL fst n (\<lambda>_ (y, c). (y, Suc c)) (x, 0))"

definition ba_copy :: "bitarray \<Rightarrow> bitarray \<Rightarrow> nat \<Rightarrow> bitarray" where
  "ba_copy dst src n = take (WORDSIZEROUND n) src @ drop (WORDSIZEROUND n) dst"

definition ba_add :: "bitarray \<Rightarrow> bitarray \<Rightarrow> nat \<Rightarrow> bitarray" where
  "ba_add dst src n =
     map2 (\<lambda>d s. d OR s) (take (WORDSIZEROUND n) dst) (take (WORDSIZEROUND n) src)
       @ drop (WORDSIZEROUND n) dst"

definition ba_remove :: "bitarray \<Rightarrow> bitarray \<Rightarrow> nat \<Rightarrow> bitarray" where
  "ba_remove dst src n =
     map2 (\<lambda>d s. d AND NOT s) (take (WORDSIZEROUND n) dst) (take (WORDSIZEROUND n) src)
       @ drop (WORDSIZEROUND n) dst"

definition ba_negate :: "bitarray \<Rightarrow> nat \<Rightarrow> bitarray" where
  "ba_negate x n = map (\<lambda>w. NOT w) (take (WORDSIZEROUND n) x) @ drop (WORDSIZEROUND n) x"

text \<open>
  The variant with cardinality: \<open>x ! WORDSIZEROUND n\<close> counts the set bits. The loops of
  \<open>bac_FORALL\<close> and \<open>bac_FORALLFUN\<close> run until that many set bits have been seen; if the
  array ends before, the code reads past it, which is \<open>None\<close> here. No body in the switch
  changes the array it walks over, so the words are those at the start.
\<close>

definition bac_alloc :: "nat \<Rightarrow> bitarray" where
  "bac_alloc n = replicate (WORDSIZEROUND n + 1) 0"

definition bac_check :: "bitarray \<Rightarrow> nat \<Rightarrow> bool" where
  "bac_check x i = ba_check x i"

definition bac_set :: "bitarray \<Rightarrow> nat \<Rightarrow> nat \<Rightarrow> bitarray" where
  "bac_set x n i =
     (let w = x ! (i div 64); v = w OR ba_mask i; k = WORDSIZEROUND n
      in if v \<noteq> w then (let y = x[i div 64 := v] in y[k := y ! k + 1]) else x)"

definition bac_clr :: "bitarray \<Rightarrow> nat \<Rightarrow> nat \<Rightarrow> bitarray" where
  "bac_clr x n i =
     (let w = x ! (i div 64); v = w AND NOT (ba_mask i); k = WORDSIZEROUND n
      in if v \<noteq> w then (let y = x[i div 64 := v] in y[k := y ! k - 1]) else x)"

definition bac_zap :: "bitarray \<Rightarrow> nat \<Rightarrow> bitarray" where
  "bac_zap x n = replicate (min (WORDSIZEROUND n + 1) (length x)) 0 @ drop (WORDSIZEROUND n + 1) x"

fun bac_FORALL_from :: "(nat \<Rightarrow> 's \<Rightarrow> 's) \<Rightarrow> nat \<Rightarrow> u64 list \<Rightarrow> int \<Rightarrow> 's \<Rightarrow> 's option" where
  "bac_FORALL_from f i [] c s = (if 0 < c then None else Some s)"
| "bac_FORALL_from f i (v # vs) c s =
     (if 0 < c
      then case ba_word_loop (\<lambda>k (s, c). (f k s, c - 1)) i 0 64 v (s, c) of
             (s', c') \<Rightarrow> bac_FORALL_from f (Suc i) vs c' s'
      else Some s)"

definition bac_card :: "bitarray \<Rightarrow> nat \<Rightarrow> int" where
  "bac_card x n = sint (ucast (x ! WORDSIZEROUND n) :: u32)"

definition bac_empty :: "bitarray \<Rightarrow> nat \<Rightarrow> bool" where
  "bac_empty x n = (x ! WORDSIZEROUND n = 0)"

definition bac_FORALL :: "bitarray \<Rightarrow> nat \<Rightarrow> (nat \<Rightarrow> 's \<Rightarrow> 's) \<Rightarrow> 's \<Rightarrow> 's option" where
  "bac_FORALL x n f s = bac_FORALL_from f 0 x (bac_card x n) s"

section \<open>A bit array is a set\<close>

text \<open>
  The interface the port, VLAN and spanning-tree code uses: membership after setting and
  clearing a bit. \<open>cap b i\<close> says that bit \<open>i\<close> lies inside the array.
\<close>

locale bit_set =
  fixes check :: "'b \<Rightarrow> nat \<Rightarrow> bool"
    and insert_bit :: "'b \<Rightarrow> nat \<Rightarrow> 'b"
    and remove_bit :: "'b \<Rightarrow> nat \<Rightarrow> 'b"
    and cap :: "'b \<Rightarrow> nat \<Rightarrow> bool"
  assumes check_insert: "cap b i \<Longrightarrow> check (insert_bit b i) j \<longleftrightarrow> j = i \<or> check b j"
    and check_remove: "check (remove_bit b i) j \<longleftrightarrow> j \<noteq> i \<and> check b j"
    and cap_insert [simp]: "cap (insert_bit b i) j = cap b j"
    and cap_remove [simp]: "cap (remove_bit b i) j = cap b j"
    and check_cap: "check b i \<Longrightarrow> cap b i"
begin

lemma check_insert_other: "i \<noteq> j \<Longrightarrow> cap b i \<Longrightarrow> check (insert_bit b i) j = check b j"
  by (simp add: check_insert)

lemma Collect_insert: "cap b i \<Longrightarrow> Collect (check (insert_bit b i)) = insert i (Collect (check b))"
  by (auto simp: check_insert)

lemma Collect_remove: "Collect (check (remove_bit b i)) = Collect (check b) - {i}"
  by (auto simp: check_remove)

lemma Collect_fold_remove:
  "Collect (check (fold (\<lambda>i b. remove_bit b i) is b)) = Collect (check b) - set is"
proof (induction "is" arbitrary: b)
  case (Cons a "is")
  then show ?case by (auto simp: Collect_remove)
qed simp

end

definition ba_cap :: "bitarray \<Rightarrow> nat \<Rightarrow> bool" where
  "ba_cap x i \<longleftrightarrow> i div 64 < length x"

lemma ba_check_bit: "ba_check x i \<longleftrightarrow> ba_cap x i \<and> bit (x ! (i div 64)) (i mod 64)"
proof -
  have "(w AND ba_mask i \<noteq> 0) = bit w (i mod 64)" for w :: u64
    by (simp add: ba_mask_def and_exp_eq_0_iff_not_bit)
  then show ?thesis by (simp add: ba_check_def ba_cap_def)
qed

lemma div_mod_64_eq: "i div 64 = j div 64 \<Longrightarrow> i mod 64 = j mod 64 \<Longrightarrow> i = (j::nat)"
  by (metis div_mult_mod_eq)

interpretation ba: bit_set ba_check ba_set ba_clr ba_cap
proof (unfold_locales, goal_cases)
  case (1 b i j)
  then show ?case
    by (auto simp: ba_check_bit ba_cap_def ba_set_def nth_list_update bit_or_iff ba_mask_def
        bit_push_1 dest: div_mod_64_eq)
next
  case (2 b i j)
  have mask: "bit (NOT (ba_mask i)) (k mod 64) \<longleftrightarrow> k mod 64 \<noteq> i mod 64" for k
    by (simp add: bit_not_iff ba_mask_def bit_push_1)
  show ?case
  proof (cases "i div 64 = j div 64")
    case True
    then have "j = i \<longleftrightarrow> j mod 64 = i mod 64"
      using div_mod_64_eq by metis
    with True show ?thesis
      by (auto simp: ba_check_bit ba_cap_def ba_clr_def bit_and_iff mask)
  next
    case False
    then show ?thesis
      by (auto simp: ba_check_bit ba_cap_def ba_clr_def nth_list_update)
  qed
qed (auto simp: ba_cap_def ba_set_def ba_clr_def ba_check_bit)


section \<open>The loops visit the set bits in ascending order\<close>

text \<open>The set an array of \<open>n\<close> bits represents, as the ascending list of its elements.\<close>

definition ba_members :: "bitarray \<Rightarrow> nat \<Rightarrow> nat list" where
  "ba_members x n = filter (ba_check x) [0..<64 * WORDSIZEROUND n]"

lemma less_WORDSIZEROUND: "n \<le> 64 * WORDSIZEROUND n"
  by (simp add: WORDSIZEROUND_def)

lemma set_ba_members: "set (ba_members x n) = {k. k < 64 * WORDSIZEROUND n \<and> ba_check x k}"
  by (auto simp: ba_members_def)

lemma WORDSIZEROUND_bound: "n \<le> 64 * WORDSIZEROUND n"
  unfolding WORDSIZEROUND_def by arith

lemma div_less_WORDSIZEROUND: "i < n \<Longrightarrow> i div 64 < WORDSIZEROUND n"
  unfolding WORDSIZEROUND_def by arith

lemma odd_word_bit: "(v :: u64) AND 1 \<noteq> 0 \<longleftrightarrow> bit v 0"
  using and_exp_eq_0_iff_not_bit [of v 0] by simp

lemma filter_bit_Suc:
  "filter (bit v) [0..<Suc m] =
     (if bit v 0 then [0] else []) @ map Suc (filter (bit (drop_bit 1 (v::u64))) [0..<m])"
proof -
  have "filter (bit v) [0..<Suc m] = filter (bit v) (0 # map Suc [0..<m])"
    by (simp add: map_Suc_upt upt_conv_Cons del: upt_Suc)
  also have "\<dots> = (if bit v 0 then [0] else []) @ map Suc (filter (\<lambda>i. bit v (Suc i)) [0..<m])"
    by (simp add: filter_map comp_def)
  also have "(\<lambda>i. bit v (Suc i)) = bit (drop_bit 1 v)"
    by (auto simp: bit_drop_bit_eq fun_eq_iff)
  finally show ?thesis .
qed

lemma ba_word_loop_fold:
  "ba_word_loop f i j m v s = fold f (map (\<lambda>t. i * 64 + j + t) (filter (bit v) [0..<m])) s"
proof (induction m arbitrary: j v s)
  case (Suc m)
  then show ?case
    by (simp add: filter_bit_Suc odd_word_bit comp_def del: upt_Suc)
qed simp

text \<open>Words past the end read as 0 in the model of the loop.\<close>

definition word_at :: "bitarray \<Rightarrow> nat \<Rightarrow> u64" where
  "word_at x i = (if i < length x then x ! i else 0)"

lemma ba_check_word_at: "ba_check x k \<longleftrightarrow> bit (word_at x (k div 64)) (k mod 64)"
  by (simp add: ba_check_bit ba_cap_def word_at_def)

definition members_from :: "bitarray \<Rightarrow> nat \<Rightarrow> nat \<Rightarrow> nat list" where
  "members_from x i k = filter (ba_check x) [64 * i..<64 * (i + k)]"

lemma members_from_Suc:
  "members_from x i (Suc k) =
     map (\<lambda>t. i * 64 + t) (filter (bit (word_at x i)) [0..<64]) @ members_from x (Suc i) k"
proof -
  have "[64 * i..<64 * (i + Suc k)] = [64 * i..<64 * i + 64] @ [64 * Suc i..<64 * (Suc i + k)]"
    using upt_add_eq_append [of "64 * i" "64 * i + 64" "64 * k"] by (simp add: algebra_simps)
  moreover have "filter (ba_check x) [64 * i..<64 * i + 64] =
      map (\<lambda>t. i * 64 + t) (filter (bit (word_at x i)) [0..<64])"
    unfolding filter_shift_upt
  proof (rule filter_cong)
    fix k assume "k \<in> set [i * 64..<i * 64 + 64]"
    then have "k div 64 = i" by (auto intro: div_nat_eqI)
    then have "k div 64 = i" and "k mod 64 = k - i * 64" by (simp_all add: modulo_nat_def)
    then show "ba_check x k = bit (word_at x i) (k - i * 64)" by (simp add: ba_check_word_at)
  qed (simp add: mult.commute)
  ultimately show ?thesis by (simp add: members_from_def)
qed


lemma ba_members_from: "ba_members x n = members_from x 0 (WORDSIZEROUND n)"
  by (simp add: ba_members_def members_from_def)

lemma members_from_cong:
  "(\<And>j. i \<le> j \<Longrightarrow> word_at x j = word_at y j) \<Longrightarrow> members_from x i k = members_from y i k"
  unfolding members_from_def
  by (rule filter_cong) (auto simp: ba_check_word_at)

text \<open>
  A body that only changes words already read (in the switch: the bit being visited, or
  other arrays) is run once for each bit set when the loop starts, in ascending order.
\<close>

lemma fold_words_frame:
  assumes "\<And>k s j. k div 64 < j \<Longrightarrow> word_at (rd (f k s)) j = word_at (rd s) j"
    and "\<And>k. k \<in> set ks \<Longrightarrow> k div 64 < j"
  shows "word_at (rd (fold f ks s)) j = word_at (rd s) j"
  using assms(2) by (induction ks arbitrary: s) (auto simp: assms(1))

lemma ba_FORALL_from_fold:
  assumes frame: "\<And>k s j. k div 64 < j \<Longrightarrow> word_at (rd (f k s)) j = word_at (rd s) j"
  shows "ba_FORALL_from rd f i m s = fold f (members_from (rd s) i m) s"
proof (induction m arbitrary: i s)
  case (Suc m)
  let ?ks = "map (\<lambda>t. i * 64 + t) (filter (bit (word_at (rd s) i)) [0..<64])"
  have "word_at (rd (fold f ?ks s)) j = word_at (rd s) j" if "Suc i \<le> j" for j
    by (rule fold_words_frame [where rd = rd and f = f, OF frame]) (use that in auto)
  then have "members_from (rd (fold f ?ks s)) (Suc i) m = members_from (rd s) (Suc i) m"
    by (rule members_from_cong)
  then show ?case
    using Suc.IH [of "Suc i" "fold f ?ks s"]
    by (simp add: ba_word_loop_fold members_from_Suc flip: word_at_def)
qed (simp add: members_from_def)

lemma ba_FORALL_fold:
  assumes "\<And>k s j. k div 64 < j \<Longrightarrow> word_at (rd (f k s)) j = word_at (rd s) j"
  shows "ba_FORALL rd n f s = fold f (ba_members (rd s) n) s"
  using ba_FORALL_from_fold [of rd f 0 "WORDSIZEROUND n" s] assms
  by (simp add: ba_FORALL_def ba_members_from)

lemma word_at_ba_set [simp]: "k div 64 \<noteq> j \<Longrightarrow> word_at (ba_set x k) j = word_at x j"
  by (simp add: word_at_def ba_set_def)

lemma word_at_ba_clr [simp]: "k div 64 \<noteq> j \<Longrightarrow> word_at (ba_clr x k) j = word_at x j"
  by (simp add: word_at_def ba_clr_def)


text \<open>
  An invariant of the body is an invariant of the loop; \<open>Q\<close> holds of the elements visited.
\<close>

lemma ba_word_loop_inv:
  assumes step: "\<And>k s. I s \<Longrightarrow> Q k \<Longrightarrow> I (f k s)"
    and bits: "\<And>t. bit v t \<Longrightarrow> t < m \<Longrightarrow> Q (i * 64 + j + t)" and "I s"
  shows "I (ba_word_loop f i j m v s)"
  unfolding ba_word_loop_fold
  by (rule fold_invariant_list) (use assms in auto)

lemma ba_FORALL_inv:
  assumes step: "\<And>k s. I s \<Longrightarrow> Q k \<Longrightarrow> I (f k s)"
    and visit: "\<And>k s. I s \<Longrightarrow> ba_check (rd s) k \<Longrightarrow> Q k" and "I s"
  shows "I (ba_FORALL rd n f s)"
proof -
  have "I (ba_FORALL_from rd f i m s)" if "I s" for i m s
    using that
  proof (induction m arbitrary: i s)
    case (Suc m)
    have "Q (i * 64 + 0 + t)" if "bit (word_at (rd s) i) t" "t < 64" for t
    proof -
      have "(i * 64 + t) div 64 = i" "(i * 64 + t) mod 64 = t" using that by simp_all
      then have "ba_check (rd s) (i * 64 + t)" using that by (simp only: ba_check_word_at)
      with visit [OF Suc.prems] show ?thesis by simp
    qed
    note visited = this
    have "I (ba_word_loop f i 0 64 (word_at (rd s) i) s)"
      using step visited Suc.prems by (rule ba_word_loop_inv [where I = I and Q = Q])
    then show ?case using Suc.IH by (simp add: word_at_def)
  qed simp
  then show ?thesis using assms(3) by (simp add: ba_FORALL_def)
qed

lemma ba_FORALL_const: "ba_FORALL (\<lambda>_. x) n f s = fold f (ba_members x n) s"
  by (simp add: ba_FORALL_fold)

lemma ba_card_eq: "ba_card x n = card {k. k < 64 * WORDSIZEROUND n \<and> ba_check x k}"
proof -
  have "fold (\<lambda>_ (y, c). (y, Suc c)) ks (x, m) = (x, m + length ks)" for ks :: "nat list" and m
    by (induction ks arbitrary: m) auto
  then have "ba_card x n = length (ba_members x n)"
    by (simp add: ba_card_def ba_FORALL_fold split: prod.splits)
  also have "\<dots> = card (set (ba_members x n))"
    by (rule distinct_card [symmetric]) (simp add: ba_members_def)
  finally show ?thesis by (simp add: set_ba_members)
qed

section \<open>The arrays with cardinality\<close>

text \<open>
  The invariant of a \<open>bac\<close> array: the trailing word is the number of set bits. The bound
  keeps the counter inside the \<open>int\<close> it is read into.
\<close>

definition bac_wf :: "bitarray \<Rightarrow> nat \<Rightarrow> bool" where
  "bac_wf x n \<longleftrightarrow> length x = WORDSIZEROUND n + 1 \<and> 64 * WORDSIZEROUND n < 2 ^ 31 \<and>
     unat (x ! WORDSIZEROUND n) = length (ba_members x n)"

lemma length_ba_members_le: "length (ba_members x n) \<le> 64 * WORDSIZEROUND n"
  unfolding ba_members_def using length_filter_le [of "ba_check x" "[0..<64 * WORDSIZEROUND n]"] by simp

lemma sint_ucast_small: "unat (w::u64) < 2 ^ 31 \<Longrightarrow> sint (ucast w :: u32) = int (unat w)"
proof -
  assume a: "unat w < 2 ^ 31"
  have u: "unat (ucast w :: u32) = unat w"
    using a by (simp add: unsigned_ucast_eq take_bit_eq_mod)
  then have "uint (ucast w :: u32) = int (unat w)"
    by (metis uint_nat)
  moreover have "int (unat w) < int (2 ^ 31)"
    using a by (rule of_nat_less_iff [THEN iffD2])
  ultimately show ?thesis
    by (auto simp: sint_uint intro!: signed_take_bit_int_eq_self order_trans [OF _ uint_ge_0])
qed

lemma bac_card_members: "bac_wf x n \<Longrightarrow> bac_card x n = int (length (ba_members x n))"
  using length_ba_members_le [of x n]
  by (simp add: bac_wf_def bac_card_def sint_ucast_small)

lemma fold_count: "fold (\<lambda>k (s, c). (f k s, c - 1)) ks (s, c) = (fold f ks s, c - int (length ks))"
  by (induction ks arbitrary: s c) auto

lemma bac_FORALL_from_fold:
  assumes "i + m < length x" and "c = int (length (members_from x i m))"
  shows "bac_FORALL_from f i (drop i x) c s = Some (fold f (members_from x i m) s)"
  using assms
proof (induction m arbitrary: i c s)
  case 0
  then show ?case by (simp add: members_from_def flip: Cons_nth_drop_Suc)
next
  case (Suc m)
  let ?ks = "map (\<lambda>t. i * 64 + t) (filter (bit (x ! i)) [0..<64])"
  have mem: "members_from x i (Suc m) = ?ks @ members_from x (Suc i) m"
    using Suc.prems(1) by (simp add: members_from_Suc word_at_def)
  have "drop i x = x ! i # drop (Suc i) x"
    using Suc.prems(1) by (simp add: Cons_nth_drop_Suc)
  moreover have "bac_FORALL_from f (Suc i) (drop (Suc i) x) (c - int (length ?ks)) (fold f ?ks s) =
      Some (fold f (members_from x (Suc i) m) (fold f ?ks s))"
    by (rule Suc.IH) (use Suc.prems mem in auto)
  moreover have "ba_word_loop (\<lambda>k (s, c). (f k s, c - 1)) i 0 64 (x ! i) (s, c) =
      (fold f ?ks s, c - int (length ?ks))"
    by (simp add: ba_word_loop_fold fold_count)
  moreover have "0 < c \<or> members_from x i (Suc m) = []"
    using Suc.prems(2) by (cases "members_from x i (Suc m)") auto
  ultimately show ?case by (auto simp: mem)
qed

lemma bac_FORALL_fold: "bac_wf x n \<Longrightarrow> bac_FORALL x n f s = Some (fold f (ba_members x n) s)"
  using bac_FORALL_from_fold [of 0 "WORDSIZEROUND n" x "bac_card x n" f s]
  by (simp add: bac_FORALL_def bac_card_members ba_members_from bac_wf_def)


lemma ba_check_bac_set_low:
  assumes "length x = WORDSIZEROUND n + 1" and "i < 64 * WORDSIZEROUND n" and "k < 64 * WORDSIZEROUND n"
  shows "ba_check (bac_set x n i) k \<longleftrightarrow> k = i \<or> ba_check x k"
proof -
  have "i div 64 < WORDSIZEROUND n" and kd: "k div 64 < WORDSIZEROUND n"
    using assms(2,3) by (simp_all add: less_mult_imp_div_less mult.commute)
  then have cap: "ba_cap x i" using assms(1) by (simp add: ba_cap_def)
  have "ba_check (bac_set x n i) k = ba_check (ba_set x i) k"
    using kd by (auto simp: bac_set_def ba_set_def Let_def ba_check_word_at word_at_def list_update_id)
  then show ?thesis using ba.check_insert [OF cap] by simp
qed


lemma ba_check_bac_clr_low:
  assumes "k < 64 * WORDSIZEROUND n"
  shows "ba_check (bac_clr x n i) k \<longleftrightarrow> k \<noteq> i \<and> ba_check x k"
proof -
  have kd: "k div 64 < WORDSIZEROUND n"
    using assms by (simp add: less_mult_imp_div_less mult.commute)
  have "ba_check (bac_clr x n i) k = ba_check (ba_clr x i) k"
    using kd by (auto simp: bac_clr_def ba_clr_def Let_def ba_check_word_at word_at_def)
  then show ?thesis by (simp add: ba.check_remove)
qed

lemma length_ba_members: "length (ba_members x n) = card {k. k < 64 * WORDSIZEROUND n \<and> ba_check x k}"
proof -
  have "length (ba_members x n) = card (set (ba_members x n))"
    by (rule distinct_card [symmetric]) (simp add: ba_members_def)
  then show ?thesis by (simp add: set_ba_members)
qed

lemma bac_set_counter:
  assumes "length x = WORDSIZEROUND n + 1" and "i < 64 * WORDSIZEROUND n"
  shows "bac_set x n i ! WORDSIZEROUND n = x ! WORDSIZEROUND n + (if ba_check x i then 0 else 1)"
    and "length (bac_set x n i) = length x"
proof -
  have id: "i div 64 < WORDSIZEROUND n"
    using assms(2) by (simp add: less_mult_imp_div_less mult.commute)
  have "(x ! (i div 64) OR ba_mask i = x ! (i div 64)) = ba_check x i"
    using id assms(1) by (simp add: ba_check_bit ba_cap_def ba_mask_def or_exp_eq_iff)
  then show "bac_set x n i ! WORDSIZEROUND n = x ! WORDSIZEROUND n + (if ba_check x i then 0 else 1)"
    using id assms(1) by (auto simp: bac_set_def Let_def)
qed (simp add: bac_set_def Let_def)


lemma bac_clr_counter:
  assumes "length x = WORDSIZEROUND n + 1" and "i < 64 * WORDSIZEROUND n"
  shows "bac_clr x n i ! WORDSIZEROUND n = x ! WORDSIZEROUND n - (if ba_check x i then 1 else 0)"
    and "length (bac_clr x n i) = length x"
proof -
  have id: "i div 64 < WORDSIZEROUND n"
    using assms(2) by (simp add: less_mult_imp_div_less mult.commute)
  have "(x ! (i div 64) AND NOT (ba_mask i) = x ! (i div 64)) = (\<not> ba_check x i)"
    using id assms(1) by (simp add: ba_check_bit ba_cap_def ba_mask_def and_not_exp_eq_iff)
  then show "bac_clr x n i ! WORDSIZEROUND n = x ! WORDSIZEROUND n - (if ba_check x i then 1 else 0)"
    using id assms(1) by (auto simp: bac_clr_def Let_def)
qed (simp add: bac_clr_def Let_def)

lemma unat_Suc_64: "unat (w::u64) < 2 ^ 31 \<Longrightarrow> unat (w + 1) = Suc (unat w)"
  by (simp add: unat_word_ariths)

lemma bac_wf_set [wf_intros]:
  assumes wf: "bac_wf x n" and i: "i < 64 * WORDSIZEROUND n"
  shows "bac_wf (bac_set x n i) n"
proof -
  let ?S = "\<lambda>x. {k. k < 64 * WORDSIZEROUND n \<and> ba_check x k}"
  have len: "length x = WORDSIZEROUND n + 1" and small: "64 * WORDSIZEROUND n < 2 ^ 31"
    and cnt: "unat (x ! WORDSIZEROUND n) = card (?S x)"
    using wf by (simp_all add: bac_wf_def length_ba_members)
  have "?S (bac_set x n i) = insert i (?S x)"
    using ba_check_bac_set_low [OF len i] i by auto
  then have card: "card (?S (bac_set x n i)) = card (?S x) + (if ba_check x i then 0 else 1)"
    using i by (simp add: card_insert_if)
  have "card (?S x) \<le> 64 * WORDSIZEROUND n"
    using length_ba_members_le [of x n] by (simp add: length_ba_members)
  then have "unat (x ! WORDSIZEROUND n) < 2 ^ 31" using cnt small by simp
  then show ?thesis
    using bac_set_counter [OF len i] len small cnt
    by (simp add: bac_wf_def length_ba_members card unat_Suc_64)
qed

lemma bac_wf_clr [wf_intros]:
  assumes wf: "bac_wf x n" and i: "i < 64 * WORDSIZEROUND n"
  shows "bac_wf (bac_clr x n i) n"
proof -
  let ?S = "\<lambda>x. {k. k < 64 * WORDSIZEROUND n \<and> ba_check x k}"
  have len: "length x = WORDSIZEROUND n + 1" and small: "64 * WORDSIZEROUND n < 2 ^ 31"
    and cnt: "unat (x ! WORDSIZEROUND n) = card (?S x)"
    using wf by (simp_all add: bac_wf_def length_ba_members)
  have "?S (bac_clr x n i) = ?S x - {i}"
    using ba_check_bac_clr_low [where x = x and n = n and i = i] by auto
  then have card: "card (?S (bac_clr x n i)) = card (?S x) - (if ba_check x i then 1 else 0)"
    using i by (simp add: card_Diff_singleton_if)
  have "ba_check x i \<Longrightarrow> 0 < card (?S x)"
    using i by (auto simp: card_gt_0_iff)
  then have "unat (x ! WORDSIZEROUND n - (if ba_check x i then 1 else 0)) =
      card (?S x) - (if ba_check x i then 1 else 0)"
    using cnt by (auto simp: unat_sub_if')
  then show ?thesis
    using bac_clr_counter [OF len i] len small
    by (simp add: bac_wf_def length_ba_members card)
qed

lemma bac_wf_alloc [wf_intros]: "64 * WORDSIZEROUND n < 2 ^ 31 \<Longrightarrow> bac_wf (bac_alloc n) n"
  by (auto simp: bac_wf_def bac_alloc_def ba_members_def ba_check_bit ba_cap_def nth_append
      filter_empty_conv simp del: replicate_Suc)


section \<open>Bulk operations and reallocation\<close>

lemma ba_check_alloc [simp]: "\<not> ba_check (ba_alloc n) i"
  by (simp add: ba_check_bit ba_cap_def ba_alloc_def)

lemma length_ba_ops [simp]:
  "length (ba_alloc n) = WORDSIZEROUND n"
  "length (ba_set x i) = length x"
  "length (ba_clr x i) = length x"
  "length (ba_zap x n) = length x"
  by (simp_all add: ba_alloc_def ba_set_def ba_clr_def ba_zap_def)

lemma ba_cap_length: "length x = WORDSIZEROUND n \<Longrightarrow> i < n \<Longrightarrow> ba_cap x i"
  by (simp add: ba_cap_def div_less_WORDSIZEROUND)

lemma ba_check_zap [simp]: "length x = WORDSIZEROUND n \<Longrightarrow> \<not> ba_check (ba_zap x n) i"
  by (auto simp: ba_check_bit ba_cap_def ba_zap_def)

lemma ba_check_add:
  assumes "length dst = WORDSIZEROUND n" and "length src = WORDSIZEROUND n"
  shows "ba_check (ba_add dst src n) i \<longleftrightarrow> ba_check dst i \<or> ba_check src i"
  using assms by (auto simp: ba_check_bit ba_cap_def ba_add_def bit_or_iff)

lemma ba_check_remove_all:
  assumes "length dst = WORDSIZEROUND n" and "length src = WORDSIZEROUND n"
  shows "ba_check (ba_remove dst src n) i \<longleftrightarrow> ba_check dst i \<and> \<not> ba_check src i"
  using assms by (auto simp: ba_check_bit ba_cap_def ba_remove_def bit_and_iff bit_not_iff)

lemma ba_check_negate:
  assumes "length x = WORDSIZEROUND n"
  shows "ba_check (ba_negate x n) i \<longleftrightarrow> i < 64 * WORDSIZEROUND n \<and> \<not> ba_check x i"
proof -
  have "i div 64 < WORDSIZEROUND n \<longleftrightarrow> i < 64 * WORDSIZEROUND n"
    by (simp add: div_less_iff_less_mult mult.commute)
  then show ?thesis
    using assms by (auto simp: ba_check_bit ba_cap_def ba_negate_def bit_not_iff)
qed

lemma ba_check_copy:
  assumes "length dst = WORDSIZEROUND n" and "length src = WORDSIZEROUND n"
  shows "ba_check (ba_copy dst src n) i = ba_check src i"
  using assms by (simp add: ba_copy_def)

lemma realloc_shift: "n + (64 - n mod 64) mod 64 = 64 * WORDSIZEROUND n"
proof (cases "n mod 64 = 0")
  case True
  then show ?thesis unfolding WORDSIZEROUND_def by auto
next
  case False
  define q r where "q = n div 64" and "r = n mod 64"
  have n: "n = 64 * q + r" and r: "0 < r" "r < 64" using False by (simp_all add: q_def r_def)
  have "(n + 63) div 64 = Suc q"
    by (rule div_nat_eqI) (use n r in auto)
  moreover have "(64 - n mod 64) mod 64 = 64 - r" using r by (simp add: r_def)
  ultimately show ?thesis using n r unfolding WORDSIZEROUND_def by simp
qed

lemma bit_realloc_mask:
  "i div 64 = WORDSIZEROUND n - 1 \<Longrightarrow> 0 < n \<Longrightarrow>
     bit (drop_bit ((64 - n mod 64) mod 64) (- 1 :: u64)) (i mod 64) \<longleftrightarrow> i < n"
proof -
  assume i: "i div 64 = WORDSIZEROUND n - 1" and n: "0 < n"
  let ?s = "(64 - n mod 64) mod 64"
  have "0 < WORDSIZEROUND n" using n by (simp add: WORDSIZEROUND_def)
  then have "i = 64 * WORDSIZEROUND n - 64 + i mod 64"
    using i div_mult_mod_eq [of i 64] by (simp add: right_diff_distrib')
  moreover have "n = 64 * WORDSIZEROUND n - ?s" and "?s \<le> 64 * WORDSIZEROUND n"
    using realloc_shift [of n] by linarith+
  ultimately have "i < n \<longleftrightarrow> ?s + i mod 64 < 64"
    using \<open>0 < WORDSIZEROUND n\<close> by linarith
  then show ?thesis by (auto simp: bit_mask_iff less_diff_conv)
qed

lemma ba_realloc_words:
  assumes len: "length b = WORDSIZEROUND n" and n: "0 < n" and nm: "WORDSIZEROUND n \<le> WORDSIZEROUND m"
  obtains nb where "ba_realloc True b n m = Some nb" and "length nb = WORDSIZEROUND m"
    and "\<And>i. ba_check nb i \<longleftrightarrow> i < n \<and> ba_check b i"
proof -
  let ?k = "WORDSIZEROUND n - 1"
  let ?m = "drop_bit ((64 - n mod 64) mod 64) (- 1 :: u64)"
  let ?z = "b @ replicate (WORDSIZEROUND m - WORDSIZEROUND n) (0::u64)"
  let ?nb = "?z[?k := b ! ?k AND ?m]"
  have R: "0 < WORDSIZEROUND n" "WORDSIZEROUND n \<le> WORDSIZEROUND m"
    using n nm unfolding WORDSIZEROUND_def by linarith+
  have "ba_realloc True b n m = Some ?nb"
    using len R by (simp add: ba_realloc_def Let_def nth_append)
  moreover have "length ?nb = WORDSIZEROUND m" using len R by simp
  moreover have "ba_check ?nb i \<longleftrightarrow> i < n \<and> ba_check b i" for i
  proof -
    consider "i div 64 < ?k" | "i div 64 = ?k" | "WORDSIZEROUND n \<le> i div 64" by linarith
    then show ?thesis
    proof cases
      case 1
      then have "i < n" using realloc_shift [of n] div_less_WORDSIZEROUND
        unfolding WORDSIZEROUND_def by linarith
      with 1 len R show ?thesis
        by (auto simp: ba_check_bit ba_cap_def nth_append)
    next
      case 2
      with len R bit_realloc_mask [OF 2 n] show ?thesis
        by (auto simp: ba_check_bit ba_cap_def bit_and_iff)
    next
      case 3
      then have "n \<le> i" using div_less_WORDSIZEROUND [of i n] by linarith
      with 3 len R show ?thesis
        by (auto simp: ba_check_bit ba_cap_def nth_append nth_list_update)
    qed
  qed
  ultimately show ?thesis by (rule that)
qed

lemma WORDSIZEROUND_mono: "n \<le> m \<Longrightarrow> WORDSIZEROUND n \<le> WORDSIZEROUND m"
  by (simp add: WORDSIZEROUND_def div_le_mono)

lemma ba_realloc_grow:
  assumes "length b = WORDSIZEROUND n" and "0 < n" and "n \<le> m"
  obtains nb where "ba_realloc True b n m = Some nb" and "length nb = WORDSIZEROUND m"
    and "\<And>i. ba_check nb i \<longleftrightarrow> i < n \<and> ba_check b i"
  using ba_realloc_words [OF assms(1,2) WORDSIZEROUND_mono [OF assms(3)]] by blast


section \<open>Properties\<close>

text \<open>
  C28: \<open>ba_FORALL\<close> re-reads the array word by word while its body runs. As long as the
  body for bit \<open>k\<close> leaves the words after the one of \<open>k\<close> alone, the loop runs the body
  exactly once for every bit that was set when it started, in ascending order.
\<close>

theorem ba_FORALL_visits_members:
  assumes "\<And>k s j. k div 64 < j \<Longrightarrow> word_at (rd (f k s)) j = word_at (rd s) j"
  shows "ba_FORALL rd n f s = fold f (ba_members (rd s) n) s \<and>
    sorted (ba_members (rd s) n) \<and> distinct (ba_members (rd s) n) \<and>
    set (ba_members (rd s) n) = {k. k < 64 * WORDSIZEROUND n \<and> ba_check (rd s) k}"
  using ba_FORALL_fold [of rd f n s, OF assms]
  by (simp add: ba_members_def sorted_wrt_filter)

theorem ba_FORALL_visits_members_witness:
  "ba_FORALL (\<lambda>x. x) 64 (\<lambda>k x. ba_clr x k) [5] = fold (\<lambda>k x. ba_clr x k) (ba_members [5] 64) [5]"
  using ba_FORALL_visits_members [of "\<lambda>x. x" "\<lambda>k x. ba_clr x k" 64 "[5]"] by simp

text \<open>
  A \<open>bac\<close> array whose trailing word counts its set bits stays so under \<open>bac_set\<close> and
  \<open>bac_clr\<close>, its cardinality is the number of its elements, and \<open>bac_FORALL\<close>, which stops
  only when it has seen that many bits, never reads past the end: it returns, having run
  its body once for every element in ascending order.
\<close>

theorem bac_count_invariant:
  assumes "bac_wf x n" and "i < 64 * WORDSIZEROUND n"
  shows "bac_wf (bac_set x n i) n \<and> bac_wf (bac_clr x n i) n \<and>
    bac_card x n = int (card {k. k < 64 * WORDSIZEROUND n \<and> bac_check x k}) \<and>
    bac_FORALL x n f s = Some (fold f (ba_members x n) s)"
  using assms bac_wf_set bac_wf_clr bac_FORALL_fold bac_card_members
  by (simp add: length_ba_members bac_check_def)

theorem bac_count_invariant_witness:
  "bac_wf (bac_set (bac_alloc 100) 100 70) 100 \<and>
   bac_FORALL (bac_alloc 100) 100 (\<lambda>k c. c + k) 0 = Some 0"
proof -
  have wf: "bac_wf (bac_alloc 100) 100" by (rule bac_wf_alloc) (simp add: WORDSIZEROUND_def)
  have i: "70 < 64 * WORDSIZEROUND 100" by (simp add: WORDSIZEROUND_def)
  have "ba_members (bac_alloc 100) 100 = []"
    using wf by (simp add: bac_wf_def bac_alloc_def WORDSIZEROUND_def)
  then show ?thesis using bac_count_invariant [OF wf i, of "\<lambda>k c. c + k" 0] by simp
qed

text \<open>
  Enlarging an array of \<open>n\<close> bits to \<open>m\<close> bits with \<open>ba_realloc\<close> succeeds, gives an array
  with room for \<open>m\<close> bits, keeps the first \<open>n\<close> bits and clears every other one, stray bits
  above \<open>n\<close> in the last old word included.
\<close>

theorem ba_realloc_keeps_members:
  assumes "length b = WORDSIZEROUND n" and "0 < n" and "n \<le> m"
  shows "\<exists>nb. ba_realloc True b n m = Some nb \<and> length nb = WORDSIZEROUND m \<and>
    (\<forall>i. ba_check nb i \<longleftrightarrow> i < n \<and> ba_check b i)"
  using ba_realloc_grow [OF assms] by blast

theorem ba_realloc_keeps_members_witness:
  "\<exists>nb. ba_realloc True [6] 2 100 = Some nb \<and> length nb = WORDSIZEROUND 100 \<and>
    (\<forall>i. ba_check nb i \<longleftrightarrow> i < 2 \<and> ba_check [6] i)"
  by (rule ba_realloc_keeps_members) (simp_all add: WORDSIZEROUND_def)

text \<open>
  C29: seen through \<open>ba_check\<close>, the arrays of \<open>n\<close> bits are sets: a fresh array is empty,
  \<open>ba_set\<close> inserts, \<open>ba_clr\<close> deletes, \<open>ba_zap\<close> empties, \<open>ba_add\<close> is union, \<open>ba_remove\<close> is
  difference, and \<open>ba_card\<close> is the number of elements.
\<close>

theorem ba_refines_set:
  assumes "length x = WORDSIZEROUND n" and "length y = WORDSIZEROUND n" and "i < n"
  shows "Collect (ba_check (ba_alloc n)) = {} \<and>
    Collect (ba_check (ba_set x i)) = insert i (Collect (ba_check x)) \<and>
    Collect (ba_check (ba_clr x i)) = Collect (ba_check x) - {i} \<and>
    Collect (ba_check (ba_zap x n)) = {} \<and>
    Collect (ba_check (ba_add x y n)) = Collect (ba_check x) \<union> Collect (ba_check y) \<and>
    Collect (ba_check (ba_remove x y n)) = Collect (ba_check x) - Collect (ba_check y) \<and>
    ba_card x n = card (Collect (ba_check x))"
proof -
  have "{k. k < 64 * WORDSIZEROUND n \<and> ba_check x k} = Collect (ba_check x)"
    using assms(1) by (auto simp: ba_check_bit ba_cap_def div_less_iff_less_mult mult.commute)
  then show ?thesis
    using assms ba.Collect_insert [OF ba_cap_length] ba.Collect_remove
    by (auto simp: ba_check_add ba_check_remove_all ba_card_eq)
qed

theorem ba_refines_set_witness:
  "Collect (ba_check (ba_set [0] 7)) = insert 7 (Collect (ba_check [0]))"
  using ba_refines_set [of "[0]" 64 "[0]" 7] by (simp add: WORDSIZEROUND_def)

end
