(* ===== verification/Qtimer.thy ===== *)
theory Qtimer
  imports Prelude
begin

text \<open>
  The second-granularity timers of \<^verbatim>\<open>vde_switch/qtimer.c\<close>. The global clock
  \<open>gqtime\<close> advances by one at every SIGALRM; the handler \<open>sig_alarm\<close> runs the callbacks
  that are due and compacts the array of active timers. \<open>qth\<close> is the active part of the
  array (its length is the \<open>activeqt\<close> of the code), \<open>qtf\<close> the length of the list of free
  timer structures. The callbacks of the switch never add or delete timers, so the handler
  returns the list of the callbacks it has called, in order, and its caller runs them.
  Allocation is taken to succeed.
\<close>

record 'c qt_timer =
  qt_n :: int
  qt_period :: int
  qt_nextcall :: int
  qt_times :: u32
  qt_call :: 'c

record 'c qtimer_state =
  gqtime :: int
  qth :: "'c qt_timer list"
  qtf :: nat
  maxqt :: nat
  countqt :: int

definition QT_ALLOC_STEP :: nat where
  "QT_ALLOC_STEP = 4"

definition qtimer_start :: "'c qtimer_state" where
  "qtimer_start = \<lparr>gqtime = 0, qth = [], qtf = 0, maxqt = 0, countqt = 0\<rparr>"

definition qtime :: "'c qtimer_state \<Rightarrow> int" where
  "qtime q = gqtime q"

text \<open>The callbacks the switch registers: \<open>hash_gc\<close> of hash.c and \<open>fst_hello\<close> of fstp.c.\<close>

datatype timer_call = HASH_GC | FST_HELLO

type_synonym switch_timers = "timer_call qtimer_state"

text \<open>The identifier of the new timer, or \<open>-1\<close>.\<close>

definition qtimer_add :: "int \<Rightarrow> int \<Rightarrow> 'c \<Rightarrow> 'c qtimer_state \<Rightarrow> int \<times> 'c qtimer_state" where
  "qtimer_add period ntimes call q =
     (if 0 < period \<and> 0 \<le> ntimes
      then (countqt q,
            q\<lparr>maxqt := (if maxqt q \<le> length (qth q) then maxqt q + QT_ALLOC_STEP else maxqt q),
              qtf := qtf q - 1,
              qth := qth q @ [\<lparr>qt_n = countqt q, qt_period = period,
                               qt_nextcall = gqtime q + period,
                               qt_times = (if ntimes = 0 then - 1 else word_of_int ntimes),
                               qt_call = call\<rparr>],
              countqt := countqt q + 1\<rparr>)
      else (- 1, q))"

fun qtimer_del_loop :: "int \<Rightarrow> 'c qt_timer list \<Rightarrow> 'c qt_timer list" where
  "qtimer_del_loop n [] = []"
| "qtimer_del_loop n (t # ts) =
     (if n = qt_n t then t\<lparr>qt_times := 0\<rparr> # ts else t # qtimer_del_loop n ts)"

definition qtimer_del :: "int \<Rightarrow> 'c qtimer_state \<Rightarrow> 'c qtimer_state" where
  "qtimer_del n q = q\<lparr>qth := qtimer_del_loop n (qth q)\<rparr>"

text \<open>The loop of \<open>sig_alarm\<close>: the timers kept, the number freed, the callbacks called.\<close>

fun sig_alarm_loop :: "int \<Rightarrow> 'c qt_timer list \<Rightarrow> 'c qt_timer list \<times> nat \<times> 'c list" where
  "sig_alarm_loop now [] = ([], 0, [])"
| "sig_alarm_loop now (t # ts) =
     (case sig_alarm_loop now ts of (kept, freed, calls) \<Rightarrow>
        if qt_times t = 0 then (kept, Suc freed, calls)
        else if qt_nextcall t \<le> now
        then (t\<lparr>qt_nextcall := qt_nextcall t + qt_period t,
                qt_times := (if 0 < qt_times t then qt_times t - 1 else qt_times t)\<rparr> # kept,
              freed, qt_call t # calls)
        else (t # kept, freed, calls))"

definition sig_alarm :: "'c qtimer_state \<Rightarrow> 'c qtimer_state \<times> 'c list" where
  "sig_alarm q =
     (let now = gqtime q + 1
      in case sig_alarm_loop now (qth q) of (kept, freed, calls) \<Rightarrow>
           (q\<lparr>gqtime := now, qth := kept, qtf := qtf q + freed\<rparr>, calls))"

text \<open>A run of \<open>m\<close> alarms, with the times at which the callbacks were called.\<close>

fun ticks :: "nat \<Rightarrow> 'c qtimer_state \<Rightarrow> 'c qtimer_state \<times> (int \<times> 'c) list" where
  "ticks 0 q = (q, [])"
| "ticks (Suc m) q =
     (case sig_alarm q of (q', calls) \<Rightarrow>
        case ticks m q' of (q'', log) \<Rightarrow> (q'', map (Pair (gqtime q')) calls @ log))"

section \<open>Identifiers\<close>

definition qtimer_wf :: "'c qtimer_state \<Rightarrow> bool" where
  "qtimer_wf q \<longleftrightarrow> distinct (map qt_n (qth q)) \<and> (\<forall>t \<in> set (qth q). 0 \<le> qt_n t \<and> qt_n t < countqt q) \<and>
     0 \<le> countqt q \<and> length (qth q) \<le> maxqt q \<and> (\<forall>t \<in> set (qth q). 0 < qt_period t)"

lemma qtimer_del_loop_ids [simp]: "map qt_n (qtimer_del_loop n ts) = map qt_n ts"
  by (induction ts) auto

lemma qtimer_del_loop_periods [simp]: "map qt_period (qtimer_del_loop n ts) = map qt_period ts"
  by (induction ts) auto

lemma length_qtimer_del_loop [simp]: "length (qtimer_del_loop n ts) = length ts"
  by (induction ts) auto

lemma sig_alarm_loop_sub:
  "sig_alarm_loop now ts = (kept, freed, calls) \<Longrightarrow>
     map (\<lambda>t. (qt_n t, qt_period t, qt_call t)) kept =
       map (\<lambda>t. (qt_n t, qt_period t, qt_call t)) (filter (\<lambda>t. qt_times t \<noteq> 0) ts) \<and>
     length kept + freed = length ts"
  by (induction ts arbitrary: kept freed calls) (auto split: prod.splits if_splits)

lemma qtimer_wf_start [wf_intros]: "qtimer_wf qtimer_start"
  by (simp add: qtimer_wf_def qtimer_start_def)

lemma qtimer_wf_add [wf_intros]: "qtimer_wf q \<Longrightarrow> qtimer_wf (snd (qtimer_add p k c q))"
  by (auto simp: qtimer_wf_def qtimer_add_def QT_ALLOC_STEP_def)

lemma qtimer_wf_del [wf_intros]: "qtimer_wf q \<Longrightarrow> qtimer_wf (qtimer_del n q)"
  unfolding qtimer_wf_def qtimer_del_def
  using ball_map_cong [OF qtimer_del_loop_ids [of n "qth q"], of "\<lambda>i. 0 \<le> i \<and> i < countqt q"]
    ball_map_cong [OF qtimer_del_loop_periods [of n "qth q"], of "\<lambda>p. 0 < p"]
  by simp

lemma qtimer_wf_alarm [wf_intros]: "qtimer_wf q \<Longrightarrow> qtimer_wf (fst (sig_alarm q))"
proof -
  assume wf: "qtimer_wf q"
  obtain kept freed calls where loop: "sig_alarm_loop (gqtime q + 1) (qth q) = (kept, freed, calls)"
    by (cases "sig_alarm_loop (gqtime q + 1) (qth q)") auto
  let ?key = "\<lambda>t :: 'a qt_timer. (qt_n t, qt_period t, qt_call t)"
  have key: "map ?key kept = map ?key (filter (\<lambda>t. qt_times t \<noteq> 0) (qth q))"
    and len: "length kept \<le> length (qth q)"
    using sig_alarm_loop_sub [OF loop] by auto
  have "map qt_n kept = map qt_n (filter (\<lambda>t. qt_times t \<noteq> 0) (qth q))"
    using arg_cong [OF key, of "map fst"] by (simp add: comp_def)
  then have "distinct (map qt_n kept)"
    using wf by (simp add: qtimer_wf_def distinct_map_filter)
  moreover have "\<forall>t \<in> set kept. 0 \<le> qt_n t \<and> qt_n t < countqt q \<and> 0 < qt_period t"
    using ball_map_cong [OF key, of "\<lambda>(i, p, _). 0 \<le> i \<and> i < countqt q \<and> 0 < p"] wf
    by (simp add: qtimer_wf_def)
  ultimately show ?thesis
    using wf len by (auto simp: qtimer_wf_def sig_alarm_def loop Let_def)
qed


section \<open>When a timer fires\<close>

text \<open>
  The timers of one callback live on their own: the loop treats every timer separately.
\<close>

definition of_call :: "'c \<Rightarrow> 'c qt_timer list \<Rightarrow> 'c qt_timer list" where
  "of_call c ts = filter (\<lambda>t. qt_call t = c) ts"

lemma sig_alarm_loop_of_call:
  assumes "sig_alarm_loop now ts = (kept, freed, calls)"
  shows "\<exists>fr. sig_alarm_loop now (of_call c ts) = (of_call c kept, fr, filter ((=) c) calls)"
  using assms
proof (induction ts arbitrary: kept freed calls)
  case (Cons t ts)
  obtain k' f' c' where rest: "sig_alarm_loop now ts = (k', f', c')"
    by (cases "sig_alarm_loop now ts") auto
  obtain fr where "sig_alarm_loop now (of_call c ts) = (of_call c k', fr, filter ((=) c) c')"
    using Cons.IH [OF rest] by blast
  then show ?case
    using Cons.prems rest by (auto simp: of_call_def split: if_splits)
qed (auto simp: of_call_def)

lemma of_call_alarm:
  "sig_alarm q = (q', calls) \<Longrightarrow>
     gqtime q' = gqtime q + 1 \<and>
     (\<exists>fr. sig_alarm_loop (gqtime q + 1) (of_call c (qth q)) = (of_call c (qth q'), fr, filter ((=) c) calls))"
  using sig_alarm_loop_of_call [of "gqtime q + 1" "qth q"]
  by (fastforce simp: sig_alarm_def Let_def split: prod.splits)

definition fire_times :: "'c \<Rightarrow> (int \<times> 'c) list \<Rightarrow> int list" where
  "fire_times c log = map fst (filter (\<lambda>e. c = snd e) log)"

lemma fire_times_now: "fire_times c (map (Pair now) calls) = map (\<lambda>_. now) (filter ((=) c) calls)"
  by (simp add: fire_times_def filter_map comp_def)

lemma fire_times_append [simp]: "fire_times c (xs @ ys) = fire_times c xs @ fire_times c ys"
  by (simp add: fire_times_def)

lemma ticks_Suc_fire:
  "sig_alarm q = (q', calls) \<Longrightarrow>
     fire_times c (snd (ticks (Suc m) q)) =
       map (\<lambda>_. gqtime q + 1) (filter ((=) c) calls) @ fire_times c (snd (ticks m q'))"
  using of_call_alarm [of q q' calls c]
  by (auto simp: fire_times_now split: prod.splits)

lemma fire_times_none:
  assumes "of_call c (qth q) = [] \<or> (\<exists>t. of_call c (qth q) = [t] \<and> qt_times t = 0)"
  shows "fire_times c (snd (ticks m q)) = []"
  using assms
proof (induction m arbitrary: q)
  case (Suc m)
  obtain q' calls where a: "sig_alarm q = (q', calls)" by fastforce
  then have "of_call c (qth q') = [] \<and> filter ((=) c) calls = []"
    using of_call_alarm [OF a, of c] Suc.prems by auto
  then show ?case
    using ticks_Suc_fire [OF a, of c m] Suc.IH [of q'] by simp
qed (simp add: fire_times_def)

text \<open>
  One timer of period \<open>p\<close> that is due in \<open>r\<close> seconds and has \<open>k\<close> calls left: its calls
  during the next \<open>m\<close> seconds.
\<close>

definition due_times :: "int \<Rightarrow> nat \<Rightarrow> nat \<Rightarrow> nat \<Rightarrow> nat \<Rightarrow> int list" where
  "due_times g p r k m = map (\<lambda>i. g + int r + int i * int p) [0..<min k ((m + p - r) div p)]"

lemma due_times_wait:
  "1 < r \<Longrightarrow> r \<le> p \<Longrightarrow> due_times g p r k (Suc m) = due_times (g + 1) p (r - 1) k m"
  by (simp add: due_times_def of_nat_diff algebra_simps)

lemma due_times_fire:
  assumes "0 < p" and "0 < k"
  shows "due_times g p 1 k (Suc m) = (g + 1) # due_times (g + 1) p p (k - 1) m"
proof -
  have "(Suc m + p - 1) div p = Suc (m div p)"
    using assms(1) by (simp add: div_add_self2)
  then have "min k ((Suc m + p - 1) div p) = Suc (min (k - 1) (m div p))"
    using assms(2) by simp
  then show ?thesis
    by (simp add: due_times_def upt_rec [of 0] map_Suc_upt [symmetric] comp_def algebra_simps del: upt_Suc)
qed


lemma fire_times_timer:
  assumes "of_call c (qth q) = [t]" and "qt_period t = int p" and "0 < p"
    and "qt_nextcall t = gqtime q + int r" and "0 < r" and "r \<le> p"
    and "qt_times t \<noteq> 0"
  shows "fire_times c (snd (ticks m q)) = due_times (gqtime q) p r (unat (qt_times t)) m"
  using assms
proof (induction m arbitrary: q t r)
  case 0
  then show ?case by (simp add: fire_times_def due_times_def)
next
  case (Suc m)
  have call: "qt_call t = c"
    using Suc.prems(1) by (metis (mono_tags) filter_eq_Cons_iff of_call_def)
  obtain q' calls where a: "sig_alarm q = (q', calls)" by fastforce
  have g: "gqtime q' = gqtime q + 1" using of_call_alarm [OF a] by blast
  have pos: "0 < qt_times t" using Suc.prems(7) by (simp add: word_neq_0_conv)
  show ?case
  proof (cases "r = 1")
    case True
    let ?t = "t\<lparr>qt_nextcall := qt_nextcall t + qt_period t, qt_times := qt_times t - 1\<rparr>"
    have k: "unat (qt_times ?t) = unat (qt_times t) - 1"
      using Suc.prems(7) by (simp add: unat_minus_one)
    have q': "of_call c (qth q') = [?t]" and calls: "filter ((=) c) calls = [c]"
      using of_call_alarm [OF a, of c] Suc.prems(1,4,7) True pos call by (auto split: if_splits)
    have "fire_times c (snd (ticks m q')) = due_times (gqtime q') p p (unat (qt_times ?t)) m"
    proof (cases "qt_times ?t = 0")
      case True
      have "fire_times c (snd (ticks m q')) = []"
        by (rule fire_times_none) (use q' True in auto)
      with True show ?thesis by (simp add: due_times_def)
    next
      case False
      show ?thesis
        by (rule Suc.IH [OF q']) (use Suc.prems True False g in auto)
    qed
    then show ?thesis
      using ticks_Suc_fire [OF a, of c m] calls g k Suc.prems(3,7) True
        due_times_fire [OF Suc.prems(3), of "unat (qt_times t)" "gqtime q" m]
      by (simp add: unat_gt_0)
  next
    case False
    then have r: "1 < r" using Suc.prems(5) by simp
    have q': "of_call c (qth q') = [t]" and calls: "filter ((=) c) calls = []"
      using of_call_alarm [OF a, of c] Suc.prems(1,4,7) r by auto
    have "fire_times c (snd (ticks m q')) = due_times (gqtime q') p (r - 1) (unat (qt_times t)) m"
      by (rule Suc.IH [OF q']) (use Suc.prems g r in auto)
    then show ?thesis
      using ticks_Suc_fire [OF a, of c m] calls g due_times_wait [OF r Suc.prems(6)] by simp
  qed
qed


lemma of_call_add:
  "0 < p \<Longrightarrow> 0 \<le> k \<Longrightarrow> of_call c (qth q) = [] \<Longrightarrow> qtimer_add p k c q = (n, q') \<Longrightarrow>
     n = countqt q \<and> gqtime q' = gqtime q \<and>
     of_call c (qth q') = [\<lparr>qt_n = countqt q, qt_period = p, qt_nextcall = gqtime q + p,
       qt_times = (if k = 0 then - 1 else word_of_int k), qt_call = c\<rparr>]"
  by (auto simp: qtimer_add_def of_call_def)

lemma unat_word_of_int_u32: "0 \<le> k \<Longrightarrow> k < 2 ^ 32 \<Longrightarrow> unat (word_of_int k :: u32) = nat k"
  by (simp add: unat_eq_nat_uint uint_word_of_int_eq take_bit_int_eq_self)

lemma qtimer_del_loop_absent: "n \<notin> set (map qt_n ts) \<Longrightarrow> qtimer_del_loop n ts = ts"
  by (induction ts) auto

lemma qtimer_del_loop_append:
  "n \<notin> set (map qt_n ts) \<Longrightarrow> qtimer_del_loop n (ts @ [t]) = ts @ qtimer_del_loop n [t]"
  by (induction ts) auto

section \<open>Properties\<close>

text \<open>
  C30: a timer added at time \<open>g\<close> with period \<open>p\<close> and a count runs its callback at \<open>g + p\<close>,
  \<open>g + 2p\<close>, and so on, at no other time, until the count is used up; in \<open>m\<close> seconds these
  are \<open>min k (m div p)\<close> calls. The count 0, which asks for a timer without end, is stored as
  \<open>-1\<close> in an unsigned field that is decremented like any other: such a timer stops after
  \<open>2\<^sup>3\<^sup>2 - 1\<close> calls.
\<close>

theorem qtimer_fires_on_schedule:
  assumes "0 < p" and "0 \<le> k" and "k < 2 ^ 32" and "of_call c (qth q) = []"
    and "qtimer_add (int p) k c q = (n, q')"
  shows "fire_times c (snd (ticks m q')) =
    map (\<lambda>i. gqtime q + int (Suc i) * int p)
      [0..<min (if k = 0 then 2 ^ 32 - 1 else nat k) (m div p)]"
proof -
  have t: "of_call c (qth q') = [\<lparr>qt_n = countqt q, qt_period = int p, qt_nextcall = gqtime q + int p,
       qt_times = (if k = 0 then - 1 else word_of_int k), qt_call = c\<rparr>]"
    and g: "gqtime q' = gqtime q"
    using of_call_add [OF _ assms(2,4,5)] assms(1) by auto
  have k: "unat (if k = 0 then - 1 else word_of_int k :: u32) = (if k = 0 then 2 ^ 32 - 1 else nat k)"
    using assms(2,3) by (simp add: unat_word_of_int_u32 unsigned_minus_1_eq_mask mask_eq_exp_minus_1)
  have "unat (if k = 0 then - 1 else word_of_int k :: u32) \<noteq> 0"
    unfolding k using assms(2) by auto
  then have "(if k = 0 then - 1 else word_of_int k :: u32) \<noteq> 0" by auto
  then have "fire_times c (snd (ticks m q')) =
      due_times (gqtime q) p p (if k = 0 then 2 ^ 32 - 1 else nat k) m"
    using fire_times_timer [OF t, of p p m] assms(1) g k by simp
  then show ?thesis by (simp add: due_times_def algebra_simps)
qed

theorem qtimer_fires_on_schedule_witness:
  "fire_times ''gc'' (snd (ticks 7 (snd (qtimer_add 2 0 ''gc'' qtimer_start)))) = [2, 4, 6]"
  using qtimer_fires_on_schedule [of 2 0 "''gc''" qtimer_start _ _ 7]
  by (simp add: qtimer_start_def qtimer_add_def of_call_def upt_rec)

text \<open>
  The identifiers of the active timers stay distinct, so deleting a timer by the
  identifier \<open>qtimer_add\<close> returned stops that timer: its callback is never called again,
  however long the switch runs.
\<close>

theorem qtimer_del_stops:
  assumes "qtimer_wf q" and "0 < p" and "0 \<le> k" and "of_call c (qth q) = []"
    and "qtimer_add p k c q = (n, q')"
  shows "qtimer_wf (qtimer_del n q') \<and> fire_times c (snd (ticks m (qtimer_del n q'))) = []"
proof
  have "qtimer_wf q'" using qtimer_wf_add [OF assms(1), of p k c] assms(5) by simp
  then show "qtimer_wf (qtimer_del n q')" by (rule qtimer_wf_del)
  have "n \<notin> set (map qt_n (qth q))"
    using assms(1,2,3,5) by (auto simp: qtimer_wf_def qtimer_add_def)
  then have "\<exists>t. of_call c (qth (qtimer_del n q')) = [t] \<and> qt_times t = 0"
    using assms(2-5)
    by (auto simp: qtimer_add_def qtimer_del_def qtimer_del_loop_append of_call_def)
  then show "fire_times c (snd (ticks m (qtimer_del n q'))) = []"
    by (intro fire_times_none) simp
qed

theorem qtimer_del_stops_witness:
  "fire_times ''gc'' (snd (ticks 100 (qtimer_del 0 (snd (qtimer_add 2 0 ''gc'' qtimer_start))))) = []"
  using qtimer_del_stops [OF qtimer_wf_start, of 2 0 "''gc''" 0 _ 100]
  by (simp add: qtimer_start_def qtimer_add_def of_call_def)

end
