(* ===== verification/Hash.thy ===== *)
theory Hash
  imports Prelude Bitarray Qtimer
begin

text \<open>
  The MAC address table of \<^verbatim>\<open>vde_switch/hash.c\<close>: an array of \<open>2 ^ hash_bits\<close>
  buckets, each the list of its entries from the head of the chain on. A key is a MAC
  address and a VLAN packed into 64 bits by \<open>extmac\<close> (the little-endian layout). The static
  variables of the file are the fields of \<open>hash_state\<close>; the time is an argument, and the
  operations that register timers take the timer state as well. The functions called
  through \<open>for_all_hash\<close> look at one entry and either delete it or do nothing, so they are
  predicates here. Ports are C \<open>int\<close>s. The \<open>bool\<close> argument \<open>mem\<close> says whether \<open>malloc\<close>
  succeeds.
\<close>

record hash_entry =
  he_dst :: u64
  he_port :: int
  he_last_seen :: int

record hash_state =
  hash_bits :: nat
  hh :: "hash_entry list list"
  min_persistence :: int
  gc_interval :: int
  gc_expire :: int
  gc_timerno :: int

definition HASH_SIZE :: "hash_state \<Rightarrow> nat" where
  "HASH_SIZE st = 2 ^ hash_bits st"

definition hash_mask :: "hash_state \<Rightarrow> u64" where
  "hash_mask st = 2 ^ hash_bits st - 1"

definition calc_hash :: "hash_state \<Rightarrow> u64 \<Rightarrow> nat" where
  "calc_hash st src =
     (let s1 = src XOR drop_bit 33 src;
          s2 = s1 * 0xff51afd7ed558ccd;
          s3 = s2 XOR drop_bit 33 s2;
          s4 = s3 * 0xc4ceb9fe1a85ec53
      in unat (s4 AND hash_mask st))"

definition extmac :: "bytes \<Rightarrow> int \<Rightarrow> u64" where
  "extmac mac vlan =
     (ucast (mac ! 0) + push_bit 8 (ucast (mac ! 1)) + push_bit 16 (ucast (mac ! 2))
        + push_bit 24 (ucast (mac ! 3)))
     + push_bit 32 ((ucast (mac ! 4) + push_bit 8 (ucast (mac ! 5))) + push_bit 16 (word_of_int vlan))"

definition EMAC2VLAN :: "u64 \<Rightarrow> u16" where
  "EMAC2VLAN x = ucast (drop_bit 48 x)"

definition find_entry :: "hash_state \<Rightarrow> u64 \<Rightarrow> hash_entry option" where
  "find_entry st mac = find (\<lambda>e. he_dst e = mac) (hh st ! calc_hash st mac)"

definition find_in_hash :: "hash_state \<Rightarrow> bytes \<Rightarrow> int \<Rightarrow> int" where
  "find_in_hash st dst vlan =
     (case find_entry st (extmac dst vlan) of None \<Rightarrow> - 1 | Some e \<Rightarrow> he_port e)"

text \<open>Change the entry of a key in its chain.\<close>

fun upd_chain :: "u64 \<Rightarrow> (hash_entry \<Rightarrow> hash_entry) \<Rightarrow> hash_entry list \<Rightarrow> hash_entry list" where
  "upd_chain d f [] = []"
| "upd_chain d f (e # es) = (if he_dst e = d then f e # es else e # upd_chain d f es)"

definition upd_bucket :: "nat \<Rightarrow> (hash_entry list \<Rightarrow> hash_entry list) \<Rightarrow> hash_state \<Rightarrow> hash_state" where
  "upd_bucket k f st = st\<lparr>hh := (hh st)[k := f (hh st ! k)]\<rparr>"

definition find_in_hash_update ::
    "bool \<Rightarrow> int \<Rightarrow> bytes \<Rightarrow> int \<Rightarrow> int \<Rightarrow> hash_state \<Rightarrow> int \<times> hash_state" where
  "find_in_hash_update mem now src vlan port st =
     (let esrc = extmac src vlan;
          k = calc_hash st esrc
      in case find (\<lambda>e. he_dst e = esrc) (hh st ! k) of
           None \<Rightarrow>
             if \<not> mem then (- 1, st)
             else (port, upd_bucket k (\<lambda>es. \<lparr>he_dst = esrc, he_port = port, he_last_seen = now\<rparr> # es) st)
         | Some e \<Rightarrow>
             (he_port e,
              if he_port e \<noteq> port
              then (if now - he_last_seen e > min_persistence st
                    then upd_bucket k (upd_chain esrc (\<lambda>e. e\<lparr>he_port := port, he_last_seen := now\<rparr>)) st
                    else st)
              else upd_bucket k (upd_chain esrc (\<lambda>e. e\<lparr>he_last_seen := now\<rparr>)) st))"

fun del_chain :: "u64 \<Rightarrow> hash_entry list \<Rightarrow> hash_entry list" where
  "del_chain d [] = []"
| "del_chain d (e # es) = (if he_dst e = d then es else e # del_chain d es)"

definition delete_hash :: "bytes \<Rightarrow> int \<Rightarrow> hash_state \<Rightarrow> hash_state" where
  "delete_hash dst vlan st =
     (let d = extmac dst vlan
      in case find_entry st d of
           None \<Rightarrow> st
         | Some old \<Rightarrow> upd_bucket (calc_hash st d) (del_chain d) st)"

text \<open>
  \<open>for_all_hash\<close> with an iterator that deletes the entries satisfying \<open>del\<close>: the successor is
  read before the iterator runs, so every entry of every chain is visited once.
\<close>

fun for_all_chain :: "(hash_entry \<Rightarrow> bool) \<Rightarrow> hash_entry list \<Rightarrow> hash_entry list" where
  "for_all_chain del [] = []"
| "for_all_chain del (e # es) = (if del e then for_all_chain del es else e # for_all_chain del es)"

definition for_all_hash :: "(hash_entry \<Rightarrow> bool) \<Rightarrow> hash_state \<Rightarrow> hash_state" where
  "for_all_hash del st =
     st\<lparr>hh := map (for_all_chain del) (take (HASH_SIZE st) (hh st)) @ drop (HASH_SIZE st) (hh st)\<rparr>"

definition delete_port_iterator :: "int \<Rightarrow> hash_entry \<Rightarrow> bool" where
  "delete_port_iterator port e = (he_port e = port)"

definition hash_delete_port :: "int \<Rightarrow> hash_state \<Rightarrow> hash_state" where
  "hash_delete_port port st = for_all_hash (delete_port_iterator port) st"

definition delete_vlan_iterator :: "int \<Rightarrow> hash_entry \<Rightarrow> bool" where
  "delete_vlan_iterator vlan e = (EMAC2VLAN (he_dst e) = word_of_int vlan)"

definition hash_delete_vlan :: "int \<Rightarrow> hash_state \<Rightarrow> hash_state" where
  "hash_delete_vlan vlan st = for_all_hash (delete_vlan_iterator vlan) st"

definition delete_vlanport_iterator :: "int \<Rightarrow> int \<Rightarrow> hash_entry \<Rightarrow> bool" where
  "delete_vlanport_iterator vlan port e =
     (EMAC2VLAN (he_dst e) = word_of_int vlan \<and> he_port e = port)"

definition hash_delete_vlanport :: "int \<Rightarrow> int \<Rightarrow> hash_state \<Rightarrow> hash_state" where
  "hash_delete_vlanport vlan port st = for_all_hash (delete_vlanport_iterator vlan port) st"

definition delete_vlansetofports_iterator :: "int \<Rightarrow> bitarray \<Rightarrow> hash_entry \<Rightarrow> bool" where
  "delete_vlansetofports_iterator vlan setofports e =
     (EMAC2VLAN (he_dst e) = word_of_int vlan \<and> ba_check setofports (nat (he_port e)))"

definition hash_delete_vlanports :: "int \<Rightarrow> bitarray \<Rightarrow> hash_state \<Rightarrow> hash_state" where
  "hash_delete_vlanports vlan setofports st =
     for_all_hash (delete_vlansetofports_iterator vlan setofports) st"

definition flush_iterator :: "hash_entry \<Rightarrow> bool" where
  "flush_iterator e = True"

definition hash_flush :: "hash_state \<Rightarrow> hash_state" where
  "hash_flush st = for_all_hash flush_iterator st"

definition gc_iterator :: "hash_state \<Rightarrow> int \<Rightarrow> hash_entry \<Rightarrow> bool" where
  "gc_iterator st t e = (he_last_seen e + gc_expire st < t)"

definition hash_gc :: "int \<Rightarrow> hash_state \<Rightarrow> hash_state" where
  "hash_gc now st = for_all_hash (gc_iterator st now) st"

text \<open>
  \<open>po2round\<close> of an \<open>int\<close> of 32 bits: the loop halves \<open>x\<close> with an arithmetic shift, which
  never reaches 0 from a negative number; such a call does not return. For the least \<open>int\<close> the
  difference \<open>vx - 1\<close> overflows and nothing is defined. All are \<open>None\<close>.
\<close>

partial_function (option) po2_loop :: "int \<Rightarrow> nat \<Rightarrow> nat option" where
  "po2_loop x i = (if x = 0 then Some i else po2_loop (x div 2) (Suc i))"

definition po2round :: "int \<Rightarrow> nat option" where
  "po2round vx = (if vx = 0 then Some 0 else if vx = - (2 ^ 31) then None else po2_loop (vx - 1) 0)"

definition empty_hash :: "nat \<Rightarrow> hash_state \<Rightarrow> hash_state" where
  "empty_hash bits st = st\<lparr>hash_bits := bits, hh := replicate (2 ^ bits) []\<rparr>"

text \<open>
  \<open>None\<close>: the program exits because \<open>calloc\<close> fails, as \<open>mem\<close> says or because the size \<open>1 << 31\<close>
  overflows: it is a negative \<open>int\<close>, and converted to the type of the argument of \<open>calloc\<close> larger than any memory.
\<close>

definition HASH_INIT :: "bool \<Rightarrow> nat \<Rightarrow> hash_state \<Rightarrow> hash_state option" where
  "HASH_INIT mem bits st = (if mem \<and> bits < 31 then Some (empty_hash bits st) else None)"

text \<open>\<open>None\<close>: the program exits or the call does not return.\<close>

definition hash_resize :: "bool \<Rightarrow> int \<Rightarrow> hash_state \<Rightarrow> (errno \<times> hash_state) option" where
  "hash_resize mem hash_size st =
     (if 0 < hash_size
      then Option.bind (po2round hash_size) (\<lambda>bits. map_option (Pair EOK) (HASH_INIT mem bits (hash_flush st)))
      else Some (EINVAL, st))"

definition hash_set_gc_interval ::
    "int \<Rightarrow> hash_state \<times> switch_timers \<Rightarrow> errno \<times> hash_state \<times> switch_timers" where
  "hash_set_gc_interval p = (\<lambda>(st, q).
     case qtimer_add p 0 HASH_GC (qtimer_del (gc_timerno st) q) of
       (n, q') \<Rightarrow> (EOK, st\<lparr>gc_interval := p, gc_timerno := n\<rparr>, q'))"

definition hash_set_gc_expire :: "int \<Rightarrow> hash_state \<Rightarrow> errno \<times> hash_state" where
  "hash_set_gc_expire e st = (EOK, st\<lparr>gc_expire := e\<rparr>)"

definition hash_set_minper :: "int \<Rightarrow> hash_state \<Rightarrow> errno \<times> hash_state" where
  "hash_set_minper e st = (EOK, st\<lparr>min_persistence := e\<rparr>)"

definition hash_get_gc_interval :: "hash_state \<Rightarrow> int" where
  "hash_get_gc_interval st = gc_interval st"

definition hash_get_gc_expire :: "hash_state \<Rightarrow> int" where
  "hash_get_gc_expire st = gc_expire st"

definition GC_INTERVAL :: int where "GC_INTERVAL = 2"
definition GC_EXPIRE :: int where "GC_EXPIRE = 100"
definition MIN_PERSISTENCE_DFL :: int where "MIN_PERSISTENCE_DFL = 3"

definition hash_zero :: hash_state where
  "hash_zero = \<lparr>hash_bits = 0, hh = [], min_persistence = MIN_PERSISTENCE_DFL,
     gc_interval = 0, gc_expire = 0, gc_timerno = 0\<rparr>"

definition hash_init :: "bool \<Rightarrow> int \<Rightarrow> switch_timers \<Rightarrow> (hash_state \<times> switch_timers) option" where
  "hash_init mem hash_size q =
     Option.bind (po2round hash_size) (\<lambda>bits. map_option (\<lambda>st.
       case qtimer_add GC_INTERVAL 0 HASH_GC q of
         (n, q') \<Rightarrow> (st\<lparr>gc_interval := GC_INTERVAL, gc_expire := GC_EXPIRE, gc_timerno := n\<rparr>, q'))
       (HASH_INIT mem bits hash_zero))"


section \<open>The table as a map\<close>

definition hash_look :: "hash_state \<Rightarrow> u64 \<Rightarrow> (int \<times> int) option" where
  "hash_look st d = map_option (\<lambda>e. (he_port e, he_last_seen e)) (find_entry st d)"

definition chain_wf :: "hash_state \<Rightarrow> nat \<Rightarrow> hash_entry list \<Rightarrow> bool" where
  "chain_wf st i es \<longleftrightarrow> distinct (map he_dst es) \<and> (\<forall>e \<in> set es. calc_hash st (he_dst e) = i)"

definition hash_wf :: "hash_state \<Rightarrow> bool" where
  "hash_wf st \<longleftrightarrow> length (hh st) = HASH_SIZE st \<and> (\<forall>i < HASH_SIZE st. chain_wf st i (hh st ! i))"

lemma calc_hash_less: "calc_hash st d < HASH_SIZE st"
  by (simp add: calc_hash_def Let_def hash_mask_def HASH_SIZE_def unsigned_take_bit_eq
      flip: mask_eq_exp_minus_1 take_bit_eq_mask)

lemma calc_hash_cong: "hash_bits st = hash_bits st' \<Longrightarrow> calc_hash st = calc_hash st'"
  by (simp add: fun_eq_iff calc_hash_def hash_mask_def)

lemma chain_wf_cong: "hash_bits st = hash_bits st' \<Longrightarrow> chain_wf st = chain_wf st'"
  by (simp add: fun_eq_iff chain_wf_def calc_hash_cong [of st st'])

lemma find_upd_chain:
  "(\<And>e. he_dst (f e) = he_dst e) \<Longrightarrow>
     find (\<lambda>e. he_dst e = d') (upd_chain d f es) =
       (if d' = d then map_option f (find (\<lambda>e. he_dst e = d) es) else find (\<lambda>e. he_dst e = d') es)"
  by (induction es) auto

lemma upd_chain_dst: "(\<And>e. he_dst (f e) = he_dst e) \<Longrightarrow> map he_dst (upd_chain d f es) = map he_dst es"
  by (induction es) auto

lemma for_all_chain_filter: "for_all_chain del es = filter (\<lambda>e. \<not> del e) es"
  by (induction es) auto

lemma del_chain_filter: "distinct (map he_dst es) \<Longrightarrow> del_chain d es = filter (\<lambda>e. he_dst e \<noteq> d) es"
  by (induction es) (auto intro!: filter_True [symmetric], metis image_eqI)

lemma find_None_dst: "find (\<lambda>e. he_dst e = d) es = None \<longleftrightarrow> d \<notin> he_dst ` set es"
  by (auto simp: find_None_iff)

lemma find_Some_dst: "find (\<lambda>e. he_dst e = d) es = Some e \<Longrightarrow> he_dst e = d"
  by (induction es) (auto split: if_splits)

lemma find_filter_distinct:
  "distinct (map he_dst es) \<Longrightarrow>
     find (\<lambda>e. he_dst e = d) (filter P es) =
       (case find (\<lambda>e. he_dst e = d) es of None \<Rightarrow> None | Some e \<Rightarrow> if P e then Some e else None)"
proof (induction es)
  case (Cons a es)
  show ?case
  proof (cases "he_dst a = d")
    case True
    then have "find (\<lambda>e. he_dst e = d) es = None" and "find (\<lambda>e. he_dst e = d) (filter P es) = None"
      using Cons.prems by (auto simp: find_None_dst)
    with True show ?thesis by simp
  next
    case False
    with Cons show ?thesis by simp
  qed
qed simp

lemma chain_wf_map_dst: "map he_dst es' = map he_dst es \<Longrightarrow> chain_wf st i es \<Longrightarrow> chain_wf st i es'"
  using ball_map_cong [of he_dst es' es "\<lambda>d. calc_hash st d = i"] by (simp add: chain_wf_def)

lemma chain_wf_filter: "chain_wf st i es \<Longrightarrow> chain_wf st i (filter P es)"
  by (auto simp: chain_wf_def distinct_map_filter)

lemma hash_wf_upd_bucket:
  assumes "hash_wf st" and "k < HASH_SIZE st" and "chain_wf st k (f (hh st ! k))"
  shows "hash_wf (upd_bucket k f st)"
  using assms chain_wf_cong [of "upd_bucket k f st" st]
  by (auto simp: hash_wf_def upd_bucket_def HASH_SIZE_def nth_list_update)

lemma find_entry_upd_bucket:
  assumes "hash_wf st" and "k < HASH_SIZE st"
  shows "find_entry (upd_bucket k f st) d =
    (if calc_hash st d = k then find (\<lambda>e. he_dst e = d) (f (hh st ! k)) else find_entry st d)"
  using assms calc_hash_cong [of "upd_bucket k f st" st]
  by (auto simp: find_entry_def upd_bucket_def hash_wf_def)

lemma hash_bits_upd_bucket [frame_simps]: "hash_bits (upd_bucket k f st) = hash_bits st"
  by (simp add: upd_bucket_def)

text \<open>What hearing a station on a port does to the entry of its address.\<close>

definition learn_entry :: "int \<Rightarrow> int \<Rightarrow> int \<Rightarrow> (int \<times> int) option \<Rightarrow> (int \<times> int) option" where
  "learn_entry minper now port old =
     (case old of
        None \<Rightarrow> Some (port, now)
      | Some (p, seen) \<Rightarrow>
          if p = port \<or> minper < now - seen then Some (port, now) else Some (p, seen))"

lemma find_in_hash_update_cases:
  assumes wf: "hash_wf st" and upd: "find_in_hash_update mem now src vlan port st = (lastp, st')"
  shows "hash_wf st' \<and>
    (if mem \<or> hash_look st (extmac src vlan) \<noteq> None
     then hash_look st' =
       (hash_look st)(extmac src vlan := learn_entry (min_persistence st) now port (hash_look st (extmac src vlan)))
     else st' = st) \<and>
    lastp = (case hash_look st (extmac src vlan) of None \<Rightarrow> if mem then port else - 1 | Some (p, _) \<Rightarrow> p)"
proof -
  let ?d = "extmac src vlan"
  let ?k = "calc_hash st ?d"
  have k: "?k < HASH_SIZE st" by (rule calc_hash_less)
  have chain: "chain_wf st ?k (hh st ! ?k)" using wf k by (simp add: hash_wf_def)
  show ?thesis
  proof (cases "find (\<lambda>e. he_dst e = ?d) (hh st ! ?k)")
    case None
    then have new: "chain_wf st ?k (\<lparr>he_dst = ?d, he_port = port, he_last_seen = now\<rparr> # hh st ! ?k)"
      using chain find_None_dst [of ?d "hh st ! ?k"] by (simp add: chain_wf_def)
    have look: "hash_look st ?d = None" using None by (simp add: hash_look_def find_entry_def)
    show ?thesis
    proof (cases mem)
      case True
      then have st': "lastp = port"
          "st' = upd_bucket ?k (\<lambda>es. \<lparr>he_dst = ?d, he_port = port, he_last_seen = now\<rparr> # es) st"
        using upd None by (auto simp: find_in_hash_update_def Let_def)
      have "hash_look st' d = ((hash_look st)(?d := Some (port, now))) d" for d
        using find_entry_upd_bucket [OF wf k] unfolding st' hash_look_def
        by (auto simp: find_entry_def)
      then show ?thesis
        using True st' look new
          hash_wf_upd_bucket [OF wf k, of "\<lambda>es. \<lparr>he_dst = ?d, he_port = port, he_last_seen = now\<rparr> # es"]
        by (auto simp: learn_entry_def fun_eq_iff)
    next
      case False
      then show ?thesis
        using upd None wf look by (auto simp: find_in_hash_update_def Let_def)
    qed
  next
    case (Some e)
    have look: "hash_look st ?d = Some (he_port e, he_last_seen e)"
      using Some by (simp add: hash_look_def find_entry_def)
    have upd': "hash_wf (upd_bucket ?k (upd_chain ?d f) st) \<and>
        hash_look (upd_bucket ?k (upd_chain ?d f) st) =
          (hash_look st)(?d := Some (he_port (f e), he_last_seen (f e)))"
      if f: "\<And>e. he_dst (f e) = he_dst e" for f
      using hash_wf_upd_bucket [OF wf k, of "upd_chain ?d f"]
        chain_wf_map_dst [OF upd_chain_dst [OF f] chain, of ?d]
        find_entry_upd_bucket [OF wf k] f Some
      by (auto simp: fun_eq_iff hash_look_def find_upd_chain find_entry_def)
    show ?thesis
      using upd Some wf look upd' [of "\<lambda>e. e\<lparr>he_port := port, he_last_seen := now\<rparr>"]
        upd' [of "\<lambda>e. e\<lparr>he_last_seen := now\<rparr>"]
      by (auto simp: find_in_hash_update_def Let_def learn_entry_def split: if_splits)
  qed
qed


section \<open>Keys\<close>

text \<open>The number of a MAC address read as a little-endian number of six bytes.\<close>

definition mac_int :: "bytes \<Rightarrow> int" where
  "mac_int mac = uint (mac ! 0) + 256 * (uint (mac ! 1) + 256 * (uint (mac ! 2) + 256 * (uint (mac ! 3)
     + 256 * (uint (mac ! 4) + 256 * uint (mac ! 5)))))"

lemma byte_bounds: "0 \<le> uint (b::u8)" "uint (b::u8) < 256"
  using uint_lt2p [of b] by simp_all

lemma mac_int_bounds: "0 \<le> mac_int mac" "mac_int mac < 2 ^ 48"
  using byte_bounds [of "mac ! 0"] byte_bounds [of "mac ! 1"] byte_bounds [of "mac ! 2"]
    byte_bounds [of "mac ! 3"] byte_bounds [of "mac ! 4"] byte_bounds [of "mac ! 5"]
  unfolding mac_int_def by simp_all

lemma ucast_word_of_int: "ucast (b::u8) = (word_of_int (uint b) :: u64)"
  by simp

lemma extmac_word_of_int: "extmac mac vlan = word_of_int (mac_int mac + 2 ^ 48 * vlan)"
proof -
  have p: "push_bit n (word_of_int k :: u64) = word_of_int (2 ^ n * k)" for n k
    by (simp add: push_bit_eq_mult mult.commute)
  show ?thesis
    unfolding extmac_def ucast_word_of_int p wi_hom_add mac_int_def
    by (simp add: algebra_simps)
qed

lemma uint_extmac: "uint (extmac mac vlan) = mac_int mac + 2 ^ 48 * (vlan mod 2 ^ 16)"
proof -
  let ?r = "mac_int mac + 2 ^ 48 * (vlan mod 2 ^ 16)"
  have "2 ^ 48 * vlan = 2 ^ 48 * (2 ^ 16 * (vlan div 2 ^ 16) + vlan mod 2 ^ 16)" by simp
  also have "\<dots> = 2 ^ 48 * (vlan mod 2 ^ 16) + (vlan div 2 ^ 16) * 2 ^ 64" by (simp only: distrib_left) simp
  finally have "mac_int mac + 2 ^ 48 * vlan = ?r + (vlan div 2 ^ 16) * 2 ^ 64" by simp
  moreover have "0 \<le> ?r" and "?r < 2 ^ 64"
    using mac_int_bounds [of mac] pos_mod_bound [of "2 ^ 16" vlan] pos_mod_sign [of "2 ^ 16" vlan]
    by simp_all
  ultimately have "(mac_int mac + 2 ^ 48 * vlan) mod 2 ^ 64 = ?r"
    by (metis mod_mult_self1 mod_pos_pos_trivial)
  then show ?thesis
    unfolding extmac_word_of_int uint_word_of_int by simp
qed


lemma digit_eq:
  assumes "0 \<le> a" "a < m" "0 \<le> a'" "a' < m"
  shows "a + m * b = a' + m * b' \<longleftrightarrow> a = a' \<and> b = (b'::int)"
proof
  assume eq: "a + m * b = a' + m * b'"
  have "(a + m * b) mod m = a" and "(a' + m * b') mod m = a'" using assms by simp_all
  with eq have "a = a'" by simp
  with eq assms show "a = a' \<and> b = b'" by auto
qed simp

lemma mac_int_inject:
  assumes "length mac = 6" and "length mac' = 6" and "mac_int mac = mac_int mac'"
  shows "mac = mac'"
proof -
  have "mac ! 0 = mac' ! 0 \<and> mac ! 1 = mac' ! 1 \<and> mac ! 2 = mac' ! 2 \<and> mac ! 3 = mac' ! 3 \<and>
      mac ! 4 = mac' ! 4 \<and> mac ! 5 = mac' ! 5"
    using assms(3) unfolding mac_int_def
    by (simp only: digit_eq byte_bounds word_uint_eq_iff)
  then have "mac ! i = mac' ! i" if "i < 6" for i
    using that less_Suc_eq by (auto simp: numeral_eq_Suc less_Suc_eq)
  then show ?thesis using assms(1,2) by (simp add: list_eq_iff_nth_eq)
qed

lemma extmac_inject:
  assumes "length mac = 6" and "length mac' = 6"
    and "0 \<le> vlan" and "vlan < 2 ^ 16" and "0 \<le> vlan'" and "vlan' < 2 ^ 16"
  shows "extmac mac vlan = extmac mac' vlan' \<longleftrightarrow> mac = mac' \<and> vlan = vlan'"
proof
  assume "extmac mac vlan = extmac mac' vlan'"
  then have eq: "mac_int mac + 2 ^ 48 * vlan = mac_int mac' + 2 ^ 48 * vlan'"
    using uint_extmac [of mac vlan] uint_extmac [of mac' vlan'] assms(3-6) by simp
  have "vlan = vlan'" and "mac_int mac = mac_int mac'"
    using eq digit_eq [OF mac_int_bounds [of mac] mac_int_bounds [of mac']] by auto
  then show "mac = mac' \<and> vlan = vlan'" using mac_int_inject [OF assms(1,2)] by simp
qed simp

lemma EMAC2VLAN_extmac: "EMAC2VLAN (extmac mac vlan) = word_of_int vlan"
proof -
  have "drop_bit 48 (uint (extmac mac vlan)) = vlan mod 2 ^ 16"
    using mac_int_bounds [of mac] by (simp add: uint_extmac drop_bit_eq_div)
  moreover have "uint (extmac mac vlan) mod 2 ^ 64 = uint (extmac mac vlan)"
    using uint_lt2p [of "extmac mac vlan"] by simp
  ultimately show ?thesis
    by (intro word_uint_eqI) (simp add: EMAC2VLAN_def unsigned_ucast_eq unsigned_drop_bit_eq
        uint_word_of_int take_bit_eq_mod)
qed


section \<open>Deleting\<close>

lemma hash_wf_for_all:
  assumes "hash_wf st"
  shows "hash_wf (for_all_hash del st)"
    and "hash_look (for_all_hash del st) d =
      (case find_entry st d of None \<Rightarrow> None
       | Some e \<Rightarrow> if del e then None else Some (he_port e, he_last_seen e))"
proof -
  have h: "hh (for_all_hash del st) = map (filter (\<lambda>e. \<not> del e)) (hh st)"
    and len: "length (hh st) = HASH_SIZE st"
    using assms by (auto simp: for_all_hash_def hash_wf_def for_all_chain_filter fun_eq_iff)
  have cong: "calc_hash (for_all_hash del st) = calc_hash st"
    "chain_wf (for_all_hash del st) = chain_wf st"
    by (rule calc_hash_cong chain_wf_cong, simp add: for_all_hash_def)+
  show "hash_wf (for_all_hash del st)"
    using assms h cong unfolding hash_wf_def
    by (auto simp: HASH_SIZE_def for_all_hash_def intro: chain_wf_filter)
  have k: "calc_hash st d < HASH_SIZE st" by (rule calc_hash_less)
  then have "distinct (map he_dst (hh st ! calc_hash st d))"
    using assms by (simp add: hash_wf_def chain_wf_def)
  then show "hash_look (for_all_hash del st) d =
      (case find_entry st d of None \<Rightarrow> None
       | Some e \<Rightarrow> if del e then None else Some (he_port e, he_last_seen e))"
    using k len
    by (simp add: hash_look_def find_entry_def h cong find_filter_distinct split: option.splits)
qed

text \<open>The deletions whose condition only looks at the key, the port and the time.\<close>

definition purge :: "(u64 \<Rightarrow> int \<Rightarrow> int \<Rightarrow> bool) \<Rightarrow> hash_state \<Rightarrow> hash_state" where
  "purge P st = for_all_hash (\<lambda>e. P (he_dst e) (he_port e) (he_last_seen e)) st"

lemma hash_look_purge:
  assumes "hash_wf st"
  shows "hash_look (purge P st) d =
    (case hash_look st d of None \<Rightarrow> None | Some (p, t) \<Rightarrow> if P d p t then None else Some (p, t))"
  unfolding purge_def hash_wf_for_all(2) [OF assms]
  by (auto simp: hash_look_def find_entry_def split: option.splits dest!: find_Some_dst)

lemma purge_frame [frame_simps]:
  "min_persistence (purge P st) = min_persistence st" "gc_expire (purge P st) = gc_expire st"
  "gc_interval (purge P st) = gc_interval st" "gc_timerno (purge P st) = gc_timerno st"
  "hash_bits (purge P st) = hash_bits st"
  by (simp_all add: purge_def for_all_hash_def)

lemma hash_deletes_purge:
  "hash_delete_port port = purge (\<lambda>_ p _. p = port)"
  "hash_delete_vlan vlan = purge (\<lambda>d _ _. EMAC2VLAN d = word_of_int vlan)"
  "hash_delete_vlanport vlan port = purge (\<lambda>d p _. EMAC2VLAN d = word_of_int vlan \<and> p = port)"
  "hash_delete_vlanports vlan ports =
     purge (\<lambda>d p _. EMAC2VLAN d = word_of_int vlan \<and> ba_check ports (nat p))"
  "hash_flush = purge (\<lambda>_ _ _. True)"
  "hash_gc now st = purge (\<lambda>_ _ t. t + gc_expire st < now) st"
  by (simp_all add: fun_eq_iff purge_def hash_delete_port_def hash_delete_vlan_def
      hash_delete_vlanport_def hash_delete_vlanports_def hash_flush_def hash_gc_def
      delete_port_iterator_def [abs_def] delete_vlan_iterator_def [abs_def]
      delete_vlanport_iterator_def [abs_def] delete_vlansetofports_iterator_def [abs_def]
      flush_iterator_def [abs_def] gc_iterator_def [abs_def])

lemma delete_hash_spec:
  assumes wf: "hash_wf st"
  shows "hash_wf (delete_hash mac vlan st) \<and>
    hash_look (delete_hash mac vlan st) = (hash_look st)(extmac mac vlan := None)"
proof -
  let ?d = "extmac mac vlan"
  let ?k = "calc_hash st ?d"
  have k: "?k < HASH_SIZE st" by (rule calc_hash_less)
  have chain: "chain_wf st ?k (hh st ! ?k)" using wf k by (simp add: hash_wf_def)
  then have dist: "distinct (map he_dst (hh st ! ?k))" by (simp add: chain_wf_def)
  have "chain_wf st ?k (del_chain ?d (hh st ! ?k))"
    using chain_wf_filter [OF chain] by (simp add: del_chain_filter [OF dist])
  then have "hash_wf (upd_bucket ?k (del_chain ?d) st)"
    by (rule hash_wf_upd_bucket [OF wf k])
  moreover have "hash_look (upd_bucket ?k (del_chain ?d) st) d = ((hash_look st)(?d := None)) d" for d
    using find_entry_upd_bucket [OF wf k, of "del_chain ?d" d]
    by (auto simp: hash_look_def find_entry_def del_chain_filter [OF dist] find_filter_distinct [OF dist]
        split: option.splits dest: find_Some_dst)
  ultimately have upd: "hash_wf (upd_bucket ?k (del_chain ?d) st) \<and>
      hash_look (upd_bucket ?k (del_chain ?d) st) = (hash_look st)(?d := None)" by blast
  show ?thesis
  proof (cases "find_entry st ?d")
    case None
    then have "hash_look st ?d = None" by (simp add: hash_look_def)
    with None wf show ?thesis by (simp add: delete_hash_def fun_upd_idem)
  next
    case (Some e)
    with upd show ?thesis by (simp add: delete_hash_def Let_def)
  qed
qed

section \<open>The contract of the MAC table\<close>

text \<open>
  What the switch relies on: an address is mapped to a port only after it has been learned
  on that port, and purging removes what it is asked to remove and nothing else.
\<close>

locale mac_table =
  fixes inv :: "'s \<Rightarrow> bool"
    and look :: "'s \<Rightarrow> u64 \<Rightarrow> (int \<times> int) option"
    and learn :: "bytes \<Rightarrow> int \<Rightarrow> int \<Rightarrow> 's \<Rightarrow> 's"
    and forget :: "(u64 \<Rightarrow> int \<Rightarrow> int \<Rightarrow> bool) \<Rightarrow> 's \<Rightarrow> 's"
  assumes inv_learn: "inv s \<Longrightarrow> inv (learn mac vlan port s)"
    and inv_forget: "inv s \<Longrightarrow> inv (forget P s)"
    and look_learn: "inv s \<Longrightarrow> look (learn mac vlan port s) d = Some (p, t) \<Longrightarrow>
      look s d = Some (p, t) \<or> d = extmac mac vlan \<and> (p = port \<or> (\<exists>t'. look s d = Some (p, t')))"
    and look_forget: "inv s \<Longrightarrow> look (forget P s) d = Some (p, t) \<longleftrightarrow>
      look s d = Some (p, t) \<and> \<not> P d p t"
begin

text \<open>A relation between keys and ports that holds of the table.\<close>

definition all_entries :: "(u64 \<Rightarrow> int \<Rightarrow> bool) \<Rightarrow> 's \<Rightarrow> bool" where
  "all_entries R s \<longleftrightarrow> (\<forall>d p t. look s d = Some (p, t) \<longrightarrow> R d p)"

lemma all_entries_learn:
  "inv s \<Longrightarrow> all_entries R s \<Longrightarrow> R (extmac mac vlan) port \<Longrightarrow> all_entries R (learn mac vlan port s)"
  unfolding all_entries_def by (blast dest: look_learn)

lemma all_entries_forget: "inv s \<Longrightarrow> all_entries R s \<Longrightarrow> all_entries R (forget P s)"
  unfolding all_entries_def by (simp add: look_forget)

lemma all_entries_forget_restrict:
  "inv s \<Longrightarrow> all_entries R s \<Longrightarrow> (\<And>d p t. R d p \<Longrightarrow> \<not> P d p t \<Longrightarrow> R' d p) \<Longrightarrow>
     all_entries R' (forget P s)"
  unfolding all_entries_def by (fastforce simp: look_forget)

end

definition hash_learn :: "bool \<Rightarrow> int \<Rightarrow> bytes \<Rightarrow> int \<Rightarrow> int \<Rightarrow> hash_state \<Rightarrow> hash_state" where
  "hash_learn mem now mac vlan port st = snd (find_in_hash_update mem now mac vlan port st)"

interpretation hash: mac_table hash_wf hash_look "hash_learn mem now" purge
proof (unfold_locales, goal_cases)
  case (1 s mac vlan port)
  then show ?case
    using find_in_hash_update_cases [OF 1 prod.collapse [symmetric]] by (simp add: hash_learn_def)
next
  case (2 s P)
  then show ?case by (simp add: purge_def hash_wf_for_all)
next
  case (3 s mac vlan port d p t)
  then show ?case
    using find_in_hash_update_cases [OF 3(1) prod.collapse [symmetric], of mem now mac vlan port]
    by (auto simp: hash_learn_def learn_entry_def split: if_splits option.splits)
next
  case (4 s P d p t)
  then show ?case by (auto simp: hash_look_purge split: option.splits)
qed


section \<open>Sizes\<close>

declare po2_loop.simps [code]

lemma po2_loop_returns:
  "0 \<le> x \<Longrightarrow> \<exists>r. po2_loop x i = Some (i + r) \<and> x < 2 ^ r \<and> (r = 0 \<or> 2 ^ (r - 1) \<le> x)"
proof (induction "nat x" arbitrary: x i rule: less_induct)
  case less
  show ?case
  proof (cases "x = 0")
    case True
    then show ?thesis by (intro exI [of _ 0]) (simp add: po2_loop.simps)
  next
    case False
    with less.prems have "nat (x div 2) < nat x" and "0 \<le> x div 2" by auto
    from less.hyps [OF this, of "Suc i"] obtain r where
      r: "po2_loop (x div 2) (Suc i) = Some (Suc i + r)" "x div 2 < 2 ^ r" "r = 0 \<or> 2 ^ (r - 1) \<le> x div 2"
      by blast
    from r(3) have "(2::int) ^ r \<le> x"
      using False less.prems by (cases r) auto
    with r False show ?thesis
      by (intro exI [of _ "Suc r"]) (auto simp: po2_loop.simps [of x])
  qed
qed

lemma po2_loop_negative:
  assumes ret: "po2_loop x i = Some r"
  shows "0 \<le> x"
proof -
  have "(case (x, i) of (x, i) \<Rightarrow> \<lambda>r. 0 \<le> x) r"
  proof (rule po2_loop.raw_induct [of "\<lambda>x i r. 0 \<le> x" "(x, i)" r])
    fix f :: "int \<Rightarrow> nat \<Rightarrow> nat option" and x i y
    assume IH: "\<And>i b y. f i b = Some y \<Longrightarrow> (0::int) \<le> i"
      and eq: "(if x = 0 then Some i else f (x div 2) (Suc i)) = Some y"
    show "0 \<le> x"
      using IH [of "x div 2" "Suc i" y] eq by (auto split: if_splits)
  qed (simp add: ret)
  then show ?thesis by simp
qed

lemma hash_wf_empty_hash [wf_intros]: "hash_wf (empty_hash bits st)"
  by (simp add: hash_wf_def empty_hash_def HASH_SIZE_def chain_wf_def)

lemma hash_look_empty_hash: "hash_look (empty_hash bits st) d = None"
  using calc_hash_less [of "empty_hash bits st" d]
  by (simp add: hash_look_def find_entry_def empty_hash_def HASH_SIZE_def)

section \<open>Properties\<close>

text \<open>
  C11: hearing a frame from a station on a port (\<open>find_in_hash_update\<close>) keeps the table well
  formed and changes the entry of that address and VLAN only: a new station is entered with
  that port and the current time; a known one on the same port is refreshed; one that shows
  up on another port is moved only when its entry is older than the minimum persistence,
  and otherwise keeps port and age. The result is the port the station was known on.
\<close>

theorem find_in_hash_update_learns:
  assumes "hash_wf st" and "find_in_hash_update True now src vlan port st = (lastp, st')"
  shows "hash_wf st' \<and>
    hash_look st' = (hash_look st)(extmac src vlan :=
      learn_entry (min_persistence st) now port (hash_look st (extmac src vlan))) \<and>
    lastp = (case hash_look st (extmac src vlan) of None \<Rightarrow> port | Some (p, _) \<Rightarrow> p)"
  using find_in_hash_update_cases [OF assms] by simp

theorem find_in_hash_update_learns_witness:
  "hash_look (snd (find_in_hash_update True 5 [2, 0, 0, 0, 0, 1] 7 3 (empty_hash 7 hash_zero)))
     (extmac [2, 0, 0, 0, 0, 1] 7) = Some (3, 5)"
proof -
  obtain l st' where u: "find_in_hash_update True 5 [2, 0, 0, 0, 0, 1] 7 3 (empty_hash 7 hash_zero) = (l, st')"
    by fastforce
  show ?thesis
    using find_in_hash_update_learns [OF hash_wf_empty_hash u]
    by (simp add: u hash_look_empty_hash learn_entry_def)
qed

text \<open>
  The function \<open>find_in_hash\<close> returns the port last learned for an address and VLAN, or \<open>-1\<close>; and an
  address looked up in one VLAN is never answered by the entry of another address or of
  another VLAN, because \<open>extmac\<close> packs the pair without loss.
\<close>

theorem find_in_hash_keys:
  assumes "hash_wf st" and "length mac = 6" and "length mac' = 6"
    and "0 \<le> vlan" and "vlan < 2 ^ 16" and "0 \<le> vlan'" and "vlan' < 2 ^ 16"
    and "hash_look st (extmac mac vlan) = None"
    and "find_in_hash_update True now mac vlan port st = (lastp, st')"
  shows "find_in_hash st' mac vlan = port \<and>
    (mac' \<noteq> mac \<or> vlan' \<noteq> vlan \<longrightarrow> find_in_hash st' mac' vlan' = find_in_hash st mac' vlan') \<and>
    EMAC2VLAN (extmac mac vlan) = word_of_int vlan"
proof -
  have look: "find_in_hash s m v = (case hash_look s (extmac m v) of None \<Rightarrow> - 1 | Some (p, _) \<Rightarrow> p)" for s m v
    by (auto simp: find_in_hash_def hash_look_def split: option.splits)
  have "hash_look st' = (hash_look st)(extmac mac vlan := Some (port, now))"
    using find_in_hash_update_cases [OF assms(1,9)] assms(8) by (simp add: learn_entry_def)
  then show ?thesis
    using extmac_inject [OF assms(3,2,6,7,4,5)] EMAC2VLAN_extmac by (auto simp: look)
qed

theorem find_in_hash_keys_witness:
  "find_in_hash (snd (find_in_hash_update True 5 [2, 0, 0, 0, 0, 1] 7 3 (empty_hash 7 hash_zero)))
     [2, 0, 0, 0, 0, 1] 7 = 3"
proof -
  obtain l st' where u: "find_in_hash_update True 5 [2, 0, 0, 0, 0, 1] 7 3 (empty_hash 7 hash_zero) = (l, st')"
    by fastforce
  show ?thesis
    using find_in_hash_keys [OF hash_wf_empty_hash, of "[2, 0, 0, 0, 0, 1]" "[2, 0, 0, 0, 0, 1]" 7 7 7 hash_zero 5 3 l st'] u
    by (simp add: hash_look_empty_hash)
qed

text \<open>
  The garbage collector, run at time \<open>now\<close>, drops exactly the entries that have not been
  refreshed for more than \<open>gc_expire\<close> seconds and keeps every other entry as it is.
\<close>

theorem hash_gc_exact:
  assumes "hash_wf st"
  shows "hash_wf (hash_gc now st) \<and>
    (hash_look (hash_gc now st) d = Some (p, t) \<longleftrightarrow>
       hash_look st d = Some (p, t) \<and> now \<le> t + gc_expire st)"
  using hash.inv_forget [OF assms] hash.look_forget [OF assms]
  by (auto simp: hash_deletes_purge)

theorem hash_gc_exact_witness:
  "hash_wf (hash_gc 9 (empty_hash 3 hash_zero))"
  using hash_gc_exact [OF hash_wf_empty_hash] by blast

text \<open>
  The selective deletions remove what they name and nothing else: all the entries of a
  port, of a VLAN, of a port in a VLAN, of a set of ports in a VLAN, or everything; and
  \<open>delete_hash\<close> the one entry of its address and VLAN.
\<close>

theorem hash_deletes_exact:
  assumes "hash_wf st"
  shows "(hash_look (hash_delete_port port st) d = Some (p, t) \<longleftrightarrow>
      hash_look st d = Some (p, t) \<and> p \<noteq> port) \<and>
    (hash_look (hash_delete_vlan vlan st) d = Some (p, t) \<longleftrightarrow>
      hash_look st d = Some (p, t) \<and> EMAC2VLAN d \<noteq> word_of_int vlan) \<and>
    (hash_look (hash_delete_vlanport vlan port st) d = Some (p, t) \<longleftrightarrow>
      hash_look st d = Some (p, t) \<and> (p \<noteq> port \<or> EMAC2VLAN d \<noteq> word_of_int vlan)) \<and>
    (hash_look (hash_delete_vlanports vlan ports st) d = Some (p, t) \<longleftrightarrow>
      hash_look st d = Some (p, t) \<and> (\<not> ba_check ports (nat p) \<or> EMAC2VLAN d \<noteq> word_of_int vlan)) \<and>
    hash_look (hash_flush st) d = None \<and>
    hash_look (delete_hash mac vlan st) = (hash_look st)(extmac mac vlan := None)"
  using hash.look_forget [OF assms] delete_hash_spec [OF assms] hash_look_purge [OF assms]
  by (auto simp: hash_deletes_purge split: option.splits)

theorem hash_deletes_exact_witness:
  "hash_look (hash_flush (empty_hash 3 hash_zero)) 77 = None"
  using hash_deletes_exact [OF hash_wf_empty_hash] by blast

text \<open>
  C31: sizes of the MAC table. For a size of \<open>int\<close> from 1 to \<open>2^30\<close> the rounding loop of
  \<open>po2round\<close> returns, and \<open>hash_resize\<close>, when memory can be had, gives an empty well-formed
  table whose number of buckets is the least power of two that is not smaller than the request. When the allocation
  fails, and for every larger size, for which \<open>1 << 31\<close> overflows, the program exits. Other
  sizes are refused with \<open>EINVAL\<close>. For a negative size the loop itself would never end: only
  the check in \<open>hash_resize\<close> prevents it, and \<open>hash_init\<close>, called with the value of the option
  \<open>--hashsize\<close>, has no such check.
\<close>

theorem hash_resize_rounds:
  assumes "- (2 ^ 31) \<le> n" and "n < 2 ^ 31"
  shows "if 0 < n
   then (if mem \<and> n \<le> 2 ^ 30
         then \<exists>bits st'. hash_resize mem n st = Some (EOK, st') \<and> hash_wf st' \<and> HASH_SIZE st' = 2 ^ bits \<and> bits \<le> 30 \<and>
           n \<le> 2 ^ bits \<and> (bits = 0 \<or> 2 ^ (bits - 1) < n) \<and> (\<forall>d. hash_look st' d = None)
         else (\<exists>bits. po2round n = Some bits) \<and> hash_resize mem n st = None)
   else hash_resize mem n st = Some (EINVAL, st) \<and> (n < 0 \<longrightarrow> po2round n = None \<and> hash_init mem n q = None)"
proof (cases "0 < n")
  case True
  then obtain r where r: "po2_loop (n - 1) 0 = Some r" "n \<le> 2 ^ r" "r = 0 \<or> 2 ^ (r - 1) < n"
    using po2_loop_returns [of "n - 1" 0] by force
  have po: "po2round n = Some r" using True r(1) by (simp add: po2round_def)
  have "r \<le> 30 \<longleftrightarrow> n \<le> 2 ^ 30"
  proof
    assume "r \<le> 30" then show "n \<le> 2 ^ 30" using r(2) power_increasing [of r 30 "2 :: int"] by simp
  next
    assume n: "n \<le> 2 ^ 30"
    show "r \<le> 30"
    proof (rule ccontr)
      assume "\<not> r \<le> 30"
      then have "(2 :: int) ^ 30 \<le> 2 ^ (r - 1)" by (intro power_increasing) auto
      then show False using r(3) n \<open>\<not> r \<le> 30\<close> by auto
    qed
  qed
  then show ?thesis
    using True po r(2,3) hash_wf_empty_hash hash_look_empty_hash
    by (auto simp: hash_resize_def HASH_INIT_def HASH_SIZE_def empty_hash_def)
next
  case False
  have "po2_loop (n - 1) 0 = None" if "n < 0"
    using that po2_loop_negative [of "n - 1" 0] by (cases "po2_loop (n - 1) 0") auto
  then show ?thesis
    using False by (simp add: hash_resize_def po2round_def hash_init_def)
qed

theorem hash_resize_rounds_witness:
  "(\<exists>bits st'. hash_resize True 100 hash_zero = Some (EOK, st') \<and> hash_wf st' \<and> HASH_SIZE st' = 2 ^ bits) \<and>
   hash_resize True (2 ^ 30 + 1) hash_zero = None"
proof
  show "\<exists>bits st'. hash_resize True 100 hash_zero = Some (EOK, st') \<and> hash_wf st' \<and> HASH_SIZE st' = 2 ^ bits"
    using hash_resize_rounds [of 100 True hash_zero] by auto
  show "hash_resize True (2 ^ 30 + 1) hash_zero = None"
    using hash_resize_rounds [of "2 ^ 30 + 1" True hash_zero] by simp
qed

end
