(* ===== verification/Portbase.thy ===== *)
theory Portbase
  imports Prelude Cstring Bitarray Qtimer Hash
begin

text \<open>
  The state of the switch and the part of \<^verbatim>\<open>vde_switch/port.c\<close> that the spanning-tree
  code calls: ports and endpoints, the VLAN tables, sending a packet to a port, the port
  status. The build modelled is the one with \<open>FSTP\<close>, \<open>DEBUGOPT\<close> and \<open>PORTCOUNTERS\<close> and
  without the packet queues (\<open>VDE_PQ2\<close>); debug and log output is not modelled.

  The static variables of port.c, fstp.c, hash.c and qtimer.c are the fields of one record,
  \<open>switch\<close>. What the switch does to the outside is a list of events, \<open>outs\<close>. A NULL pointer
  dereference or a write outside a bit array sets the field \<open>fault\<close>, so that the absence of
  such errors is a statement about the model.
\<close>

record endpoint =
  ep_port :: nat
  ep_fd_ctl :: fd
  ep_fd_data :: fd
  ep_descr :: "string option"

record port =
  p_ep :: "endpoint list"
  p_flag :: u32
  p_ms :: "string option"
  p_vlanuntag :: nat
  p_user :: int
  p_group :: int
  p_curuser :: int
  p_cost :: int
  p_pktsin :: int
  p_pktsout :: int
  p_bytesin :: int
  p_bytesout :: int

text \<open>The bit arrays of an element of \<open>vlant\<close> and of a \<open>struct vlst\<close> of fstp.c, by name.\<close>

datatype vfield = Table | Bctag | Bcuntag | Notlearning

datatype ffield = Untag | Tagged | Backup | Edge | Rcvhist0 | Rcvhist1

record vlst =
  v_root :: bytes
  v_rootcost :: bytes
  v_dessw :: bytes
  v_port :: bytes
  v_rootport :: nat
  v_bonusport :: nat
  v_bonuscost :: int
  v_tctime :: u32
  v_roottimestamp :: u32
  v_bits :: "ffield \<Rightarrow> bitarray"

text \<open>
  \<open>Sent m c d bs p\<close>: the sender of module \<open>m\<close> has been called for an endpoint with
  descriptors \<open>c\<close> and \<open>d\<close> of port \<open>p\<close>. \<open>DelEp\<close>: the module has been told that an endpoint is
  gone.
\<close>

datatype event =
    Sent string fd fd bytes nat
  | DelEp string fd fd "string option"

type_synonym pfilter = "nat \<Rightarrow> bytes \<Rightarrow> int \<Rightarrow> int"

record switch =
  numports :: nat
  pflag :: u32
  portv :: "port option list"
  vlant :: "nat \<Rightarrow> vfield \<Rightarrow> bitarray"
  validvlan :: bitarray
  hash :: hash_state
  timers :: switch_timers
  fst_numports :: nat
  fst_pflag :: u32
  fsttab :: "nat \<Rightarrow> vlst option"
  rcvhistindex :: nat
  hellocounter :: u32
  helloperiod :: int
  maxage :: int
  fst_timerno :: int
  switchmac :: bytes
  priority :: u32
  myid :: bytes
  out_src :: bytes
  out_bridge :: bytes
  out_hello :: bytes
  out_maxage :: bytes
  pkt_in :: "pfilter list"
  pkt_out :: "pfilter list"
  outs :: "event list"
  fault :: bool

definition NUMOFVLAN :: nat where "NUMOFVLAN = 4095"
definition NOVLAN :: nat where "NOVLAN = 0xfff"
definition NOTINPOOL :: u32 where "NOTINPOOL = 0x8000"
definition HUB_TAG :: u32 where "HUB_TAG = 1"
definition DEFAULT_COST :: int where "DEFAULT_COST = 20000000"
definition ETH_ALEN :: nat where "ETH_ALEN = 6"

definition IS_BROADCAST :: "bytes \<Rightarrow> bool" where
  "IS_BROADCAST addr = (addr ! 0 AND 1 = 1)"

definition crash :: "switch \<Rightarrow> switch" where
  "crash sw = sw\<lparr>fault := True\<rparr>"

section \<open>Accessors\<close>

definition get_port :: "nat \<Rightarrow> switch \<Rightarrow> port option" where
  "get_port i sw = (if i < length (portv sw) then portv sw ! i else None)"

definition upd_port :: "nat \<Rightarrow> (port \<Rightarrow> port) \<Rightarrow> switch \<Rightarrow> switch" where
  "upd_port i f sw =
     (case get_port i sw of
        None \<Rightarrow> crash sw
      | Some p \<Rightarrow> sw\<lparr>portv := (portv sw)[i := Some (f p)]\<rparr>)"

definition vlan_set :: "nat \<Rightarrow> vfield \<Rightarrow> nat \<Rightarrow> switch \<Rightarrow> switch" where
  "vlan_set v f i sw =
     (if ba_cap (vlant sw v f) i
      then sw\<lparr>vlant := (vlant sw)(v := (vlant sw v)(f := ba_set (vlant sw v f) i))\<rparr>
      else crash sw)"

definition vlan_clr :: "nat \<Rightarrow> vfield \<Rightarrow> nat \<Rightarrow> switch \<Rightarrow> switch" where
  "vlan_clr v f i sw =
     (if ba_cap (vlant sw v f) i
      then sw\<lparr>vlant := (vlant sw)(v := (vlant sw v)(f := ba_clr (vlant sw v f) i))\<rparr>
      else crash sw)"

definition vlan_check :: "switch \<Rightarrow> nat \<Rightarrow> vfield \<Rightarrow> nat \<Rightarrow> bool" where
  "vlan_check sw v f i = ba_check (vlant sw v f) i"

text \<open>
  The loops \<open>ba_FORALL\<close> over an array that holds a set of ports: the code reads all the words
  of \<open>numports\<close> bits, so a NULL or short array is an error.
\<close>

definition forall_ports ::
    "(switch \<Rightarrow> bitarray) \<Rightarrow> nat \<Rightarrow> (nat \<Rightarrow> switch \<Rightarrow> switch) \<Rightarrow> switch \<Rightarrow> switch" where
  "forall_ports rd n f sw = (if length (rd sw) < WORDSIZEROUND n then crash sw else ba_FORALL rd n f sw)"

definition forall_vlans :: "(nat \<Rightarrow> switch \<Rightarrow> switch) \<Rightarrow> switch \<Rightarrow> switch" where
  "forall_vlans f sw =
     (case bac_FORALL (validvlan sw) NUMOFVLAN f sw of None \<Rightarrow> crash sw | Some sw' \<Rightarrow> sw')"

section \<open>Allocating ports\<close>

text \<open>The search for a free port: the first slot that is empty or holds an unused port of the pool.\<close>

fun alloc_scan :: "nat \<Rightarrow> port option list \<Rightarrow> nat" where
  "alloc_scan i [] = i"
| "alloc_scan i (None # ps) = i"
| "alloc_scan i (Some p # ps) =
     (if p_ep p \<noteq> [] \<or> p_flag p AND NOTINPOOL \<noteq> 0 then alloc_scan (Suc i) ps else i)"

definition new_port :: port where
  "new_port = \<lparr>p_ep = [], p_flag = 0, p_ms = None, p_vlanuntag = 0, p_user = - 1, p_group = - 1,
     p_curuser = - 1, p_cost = DEFAULT_COST, p_pktsin = 0, p_pktsout = 0, p_bytesin = 0, p_bytesout = 0\<rparr>"

definition alloc_port :: "bool \<Rightarrow> int \<Rightarrow> switch \<Rightarrow> int \<times> switch" where
  "alloc_port mem portno sw =
     (let i = (if portno = 0 then int (alloc_scan 1 (drop 1 (portv sw)))
               else if portno < 0 then 0 else portno)
      in if int (numports sw) \<le> i then (- 1, sw)
         else if get_port (nat i) sw = None
         then (if \<not> mem then (- 1, sw)
               else (i, vlan_set 0 Table (nat i) (sw\<lparr>portv := (portv sw)[nat i := Some new_port]\<rparr>)))
         else (i, sw))"

definition free_port :: "nat \<Rightarrow> switch \<Rightarrow> switch" where
  "free_port portno sw =
     (if portno < numports sw
      then (case get_port portno sw of
              None \<Rightarrow> sw
            | Some p \<Rightarrow>
                if p_ep p = []
                then forall_vlans (\<lambda>i. vlan_clr i Table portno) (sw\<lparr>portv := (portv sw)[portno := None]\<rparr>)
                else sw)
      else sw)"

section \<open>Access control\<close>

text \<open>
  The user and group databases of the system: primary group and name of a user, and the
  groups with their members.
\<close>

record userdb =
  getpwuid :: "int \<Rightarrow> (int \<times> string) option"
  getgrent :: "(int \<times> string list) list"

definition user_belongs_to_group :: "userdb \<Rightarrow> int \<Rightarrow> int \<Rightarrow> bool" where
  "user_belongs_to_group db uid gid =
     (case getpwuid db uid of
        None \<Rightarrow> False
      | Some (pw_gid, pw_name) \<Rightarrow>
          gid = pw_gid \<or> list_ex (\<lambda>(g, mem). g = gid \<and> list_ex (\<lambda>m. m = pw_name) mem) (getgrent db))"

definition checkport_ac :: "userdb \<Rightarrow> port \<Rightarrow> int \<Rightarrow> bool" where
  "checkport_ac db p uid =
     (if p_user p = - 1 \<and> p_group p = - 1 then True
      else if uid = 0 \<or> p_user p \<noteq> - 1 \<and> p_user p = uid then True
      else if p_group p \<noteq> - 1 \<and> user_belongs_to_group db uid (p_group p) then True
      else False)"

section \<open>Flags\<close>

datatype flag_op = P_GETFLAG | P_SETFLAG | P_ADDFLAG | P_CLRFLAG

fun flag_step :: "flag_op \<Rightarrow> u32 \<Rightarrow> u32 \<Rightarrow> u32 \<times> u32" where
  "flag_step P_GETFLAG f old = (old AND f, old)"
| "flag_step P_SETFLAG f old = (old, f)"
| "flag_step P_ADDFLAG f old = (old, old OR f)"
| "flag_step P_CLRFLAG f old = (old, old AND NOT f)"

definition portflag :: "flag_op \<Rightarrow> u32 \<Rightarrow> switch \<Rightarrow> u32 \<times> switch" where
  "portflag op f sw = (case flag_step op f (pflag sw) of (r, new) \<Rightarrow> (r, sw\<lparr>pflag := new\<rparr>))"

section \<open>Sending\<close>

text \<open>
  The packet filters of the plugins (consmgmt.c): each is called with the port, the buffer
  and the length the caller gave, and a result other than 0 replaces the length; the loop
  stops when the length is not positive. A filter is a function of plugin code, any function here, that reads the buffer:
  those of the plugins of the repository do not write to it.
\<close>

fun packetfilter_loop :: "pfilter list \<Rightarrow> nat \<Rightarrow> bytes \<Rightarrow> int \<Rightarrow> int \<Rightarrow> int" where
  "packetfilter_loop [] port buf arg len = len"
| "packetfilter_loop (f # fs) port buf arg len =
     (if 0 < len
      then (let rv = f port buf arg in packetfilter_loop fs port buf arg (if rv \<noteq> 0 then rv else len))
      else len)"

definition packetfilter :: "pfilter list \<Rightarrow> nat \<Rightarrow> bytes \<Rightarrow> int \<Rightarrow> int" where
  "packetfilter fs port buf len =
     (let r = packetfilter_loop fs port buf len len in if r < 0 then 0 else r)"

text \<open>The macro \<open>PACKETFILTER\<close>: whether to go on, and the value its argument \<open>LEN\<close> has then.\<close>

definition PACKETFILTER :: "pfilter list \<Rightarrow> nat \<Rightarrow> bytes \<Rightarrow> int \<Rightarrow> bool \<times> int" where
  "PACKETFILTER fs port buf len =
     (if fs = [] then (True, len)
      else (let l = packetfilter fs port buf len in (l \<noteq> 0, l)))"

text \<open>
  \<open>buf\<close> is what the packet pointer points at, up to the end of the buffer; the macro
  assigns to the length variable of the caller, so the new length is returned.
\<close>

definition SEND_PACKET_PORT :: "nat \<Rightarrow> bytes \<Rightarrow> int \<Rightarrow> switch \<Rightarrow> int \<times> switch" where
  "SEND_PACKET_PORT portno buf len sw =
     (case PACKETFILTER (pkt_out sw) portno buf len of (ok, len') \<Rightarrow>
        (len',
         if ok
         then (case get_port portno sw of
                 None \<Rightarrow> crash sw
               | Some p \<Rightarrow>
                   (let sw' = upd_port portno
                          (\<lambda>p. p\<lparr>p_pktsout := p_pktsout p + 1, p_bytesout := p_bytesout p + len'\<rparr>) sw
                    in case p_ms p of
                         None \<Rightarrow> if p_ep p = [] then sw' else crash sw'
                       | Some m \<Rightarrow>
                           sw'\<lparr>outs := outs sw' @
                             map (\<lambda>e. Sent m (ep_fd_ctl e) (ep_fd_data e) (take (nat len') buf) (ep_port e))
                               (p_ep p)\<rparr>))
         else sw))"

definition port_send_packet :: "nat \<Rightarrow> bytes \<Rightarrow> switch \<Rightarrow> switch" where
  "port_send_packet portno packet sw = snd (SEND_PACKET_PORT portno packet (int (length packet)) sw)"

definition portset_send_packet :: "bitarray \<Rightarrow> bytes \<Rightarrow> switch \<Rightarrow> switch" where
  "portset_send_packet portset packet sw =
     (if length portset < WORDSIZEROUND (numports sw) then crash sw else
     snd (ba_FORALL (\<lambda>_. portset) (numports sw) (\<lambda>i (len, sw). SEND_PACKET_PORT i packet len sw)
       (int (length packet), sw)))"

section \<open>Port status\<close>

datatype status = DISCARDING | LEARNING | FORWARDING

text \<open>The numbers of port.h: forwarding implies learning.\<close>

fun status_code :: "status \<Rightarrow> u8" where
  "status_code DISCARDING = 0"
| "status_code LEARNING = 1"
| "status_code FORWARDING = 3"

definition port_set_status :: "nat \<Rightarrow> nat \<Rightarrow> status \<Rightarrow> switch \<Rightarrow> switch" where
  "port_set_status portno vlan st sw =
     (if vlan_check sw vlan Table portno
      then (case st of
              DISCARDING \<Rightarrow>
                vlan_clr vlan Bcuntag portno (vlan_clr vlan Bctag portno (vlan_set vlan Notlearning portno sw))
            | LEARNING \<Rightarrow>
                vlan_clr vlan Bcuntag portno (vlan_clr vlan Bctag portno (vlan_clr vlan Notlearning portno sw))
            | FORWARDING \<Rightarrow>
                (let sw1 = vlan_clr vlan Notlearning portno sw
                 in case get_port portno sw1 of
                      None \<Rightarrow> crash sw1
                    | Some p \<Rightarrow>
                        if p_vlanuntag p = vlan then vlan_set vlan Bcuntag portno sw1
                        else vlan_set vlan Bctag portno sw1))
      else sw)"

definition port_get_status :: "nat \<Rightarrow> nat \<Rightarrow> switch \<Rightarrow> status" where
  "port_get_status portno vlan sw =
     (if vlan_check sw vlan Notlearning portno then DISCARDING
      else if vlan_check sw vlan Bctag portno \<or> vlan_check sw vlan Bcuntag portno then FORWARDING
      else LEARNING)"

definition port_getcost :: "nat \<Rightarrow> switch \<Rightarrow> int" where
  "port_getcost i sw = (case get_port i sw of None \<Rightarrow> 0 | Some p \<Rightarrow> p_cost p)"

end
