(* ===== verification/Fstp.thy ===== *)
theory Fstp
  imports Portbase
begin

text \<open>
  The fast spanning tree protocol, \<^verbatim>\<open>vde_switch/fstp.c\<close>: one record \<open>vlst\<close> for each
  valid VLAN with the best root seen, the root port and the sets of untagged, tagged, backup
  and edge ports, the BPDUs sent and received, the hello timer and the commands. The two
  static packet prototypes of the file differ from one BPDU to the next only in the fields
  filled before each send, so a BPDU is built from the state; what \<open>fstinitpkt\<close> writes into
  them is kept in \<open>out_src\<close>, \<open>out_bridge\<close>, \<open>out_hello\<close> and \<open>out_maxage\<close>. Times are \<open>unsigned
  int\<close>.
\<close>

section \<open>Numbers and bytes\<close>

definition ltonstring :: "u64 \<Rightarrow> bytes" where
  "ltonstring l = [ucast (drop_bit 24 l), ucast (drop_bit 16 l), ucast (drop_bit 8 l), ucast l]"

text \<open>The sum is computed in \<open>int\<close> and then converted to \<open>unsigned long\<close>.\<close>

definition nstringtol :: "bytes \<Rightarrow> u64" where
  "nstringtol s =
     scast (push_bit 24 (ucast (s ! 0)) + push_bit 16 (ucast (s ! 1)) + push_bit 8 (ucast (s ! 2))
       + ucast (s ! 3) :: u32)"

definition STP_PORTROLEMASK :: u8 where "STP_PORTROLEMASK = 0x0c"
definition STP_ROOT :: u8 where "STP_ROOT = 0x04"
definition STP_TC :: u8 where "STP_TC = 0x01"
definition FSTP_TAG :: u32 where "FSTP_TAG = 1"
definition SWITCHID_LEN :: nat where "SWITCHID_LEN = 8"
definition STDHELLOPERIOD :: int where "STDHELLOPERIOD = 4"
definition bpduaddrp :: bytes where "bpduaddrp = [0x01, 0x80, 0xc2, 0x00, 0x00, 0x00]"

definition ISBPDU :: "bytes \<Rightarrow> bool" where
  "ISBPDU buf = (memcmp (take ETH_ALEN buf) bpduaddrp = 0)"

definition SETFSTID :: "bytes \<Rightarrow> u32 \<Rightarrow> bytes" where
  "SETFSTID mac prio = [ucast (drop_bit 8 prio), ucast prio] @ take ETH_ALEN mac"

section \<open>The table of the VLANs\<close>

definition now_u32 :: "switch \<Rightarrow> u32" where
  "now_u32 sw = word_of_int (qtime (timers sw))"

definition upd_fst :: "nat \<Rightarrow> (vlst \<Rightarrow> vlst) \<Rightarrow> switch \<Rightarrow> switch" where
  "upd_fst vlan f sw =
     (case fsttab sw vlan of
        None \<Rightarrow> crash sw
      | Some v \<Rightarrow> sw\<lparr>fsttab := (fsttab sw)(vlan \<mapsto> f v)\<rparr>)"

definition fst_bits :: "switch \<Rightarrow> nat \<Rightarrow> ffield \<Rightarrow> bitarray" where
  "fst_bits sw vlan fl = (case fsttab sw vlan of None \<Rightarrow> [] | Some v \<Rightarrow> v_bits v fl)"

definition fst_check :: "switch \<Rightarrow> nat \<Rightarrow> ffield \<Rightarrow> nat \<Rightarrow> bool" where
  "fst_check sw vlan fl port = ba_check (fst_bits sw vlan fl) port"

definition fst_set :: "nat \<Rightarrow> ffield \<Rightarrow> nat \<Rightarrow> switch \<Rightarrow> switch" where
  "fst_set vlan fl port sw =
     (if ba_cap (fst_bits sw vlan fl) port
      then upd_fst vlan (\<lambda>v. v\<lparr>v_bits := (v_bits v)(fl := ba_set (v_bits v fl) port)\<rparr>) sw
      else crash sw)"

definition fst_clr :: "nat \<Rightarrow> ffield \<Rightarrow> nat \<Rightarrow> switch \<Rightarrow> switch" where
  "fst_clr vlan fl port sw =
     (if ba_cap (fst_bits sw vlan fl) port
      then upd_fst vlan (\<lambda>v. v\<lparr>v_bits := (v_bits v)(fl := ba_clr (v_bits v fl) port)\<rparr>) sw
      else crash sw)"

definition rcvhist :: "nat \<Rightarrow> ffield" where
  "rcvhist index = (if index = 0 then Rcvhist0 else Rcvhist1)"

definition FSTP_ACTIVE :: "switch \<Rightarrow> nat \<Rightarrow> nat \<Rightarrow> bool" where
  "FSTP_ACTIVE sw vlan port \<longleftrightarrow> fst_check sw vlan Rcvhist0 port \<or> fst_check sw vlan Rcvhist1 port"

definition fstflag :: "flag_op \<Rightarrow> u32 \<Rightarrow> switch \<Rightarrow> u32 \<times> switch" where
  "fstflag op f sw = (case flag_step op f (fst_pflag sw) of (r, new) \<Rightarrow> (r, sw\<lparr>fst_pflag := new\<rparr>))"

definition new_vlst :: "nat \<Rightarrow> vlst" where
  "new_vlst n = \<lparr>v_root = [], v_rootcost = [], v_dessw = [], v_port = [], v_rootport = 0,
     v_bonusport = 0, v_bonuscost = 0, v_tctime = 0, v_roottimestamp = 0, v_bits = (\<lambda>_. ba_alloc n)\<rparr>"

text \<open>
  What is left of a new VLAN when one of the allocations for it failed: the arrays that had been
  allocated before; the pointers to the others were never set, and using one is an error, as with NULL.
\<close>

definition partial_vlst :: "nat \<Rightarrow> nat \<Rightarrow> vlst" where
  "partial_vlst k n = (new_vlst n)\<lparr>v_bits := (\<lambda>fl.
     if fl \<in> set (take k [Untag, Tagged, Edge, Rcvhist0, Rcvhist1, Backup]) then ba_alloc n else [])\<rparr>"

text \<open>
  The part of \<open>fstnewvlan\<close> after the allocation. (The code clears four bytes from \<open>port\<close>, which has two;
  the other two are the padding before \<open>rootport\<close>.)
\<close>

definition fst_reset :: "nat \<Rightarrow> switch \<Rightarrow> switch" where
  "fst_reset vlan sw =
     forall_ports (\<lambda>s. fst_bits s vlan Backup) (fst_numports sw)
       (\<lambda>port s. port_set_status port vlan FORWARDING (fst_clr vlan Backup port s))
       (upd_fst vlan (\<lambda>v. v\<lparr>v_root := myid sw, v_rootcost := replicate 4 0,
            v_dessw := replicate SWITCHID_LEN 0xff, v_port := replicate 2 0,
            v_rootport := 0, v_roottimestamp := 0\<rparr>) sw)"

text \<open>
  \<open>mem\<close> is the number of allocations that succeed: the structure and its six arrays are allocated in
  turn until one fails. The structure stays when an array cannot be had.
\<close>

definition fstnewvlan :: "nat \<Rightarrow> nat \<Rightarrow> switch \<Rightarrow> errno \<times> switch" where
  "fstnewvlan mem vlan sw =
     (if fsttab sw vlan = None
      then (if mem = 0 then (ENOMEM, sw)
            else if mem < 7
            then (ENOMEM, sw\<lparr>fsttab := (fsttab sw)(vlan \<mapsto> partial_vlst (mem - 1) (fst_numports sw))\<rparr>)
            else (EOK, fst_reset vlan (sw\<lparr>fsttab := (fsttab sw)(vlan \<mapsto> new_vlst (fst_numports sw))\<rparr>)))
      else (EOK, fst_reset vlan sw))"

definition fstremovevlan :: "nat \<Rightarrow> switch \<Rightarrow> errno \<times> switch" where
  "fstremovevlan vlan sw =
     (if fsttab sw vlan = None then (ENOENT, sw)
      else (EOK, sw\<lparr>fsttab := (fsttab sw)(vlan := None)\<rparr>))"

text \<open>
  Resizing the six arrays of a VLAN in the order of the code; \<open>None\<close> when a \<open>ba_realloc\<close>
  writes outside its array. \<open>mem\<close> says which of the allocations succeed; when one fails, \<open>ba_realloc\<close> has written
  through NULL before the test that would end the program.
\<close>

fun realloc_fields :: "(ffield \<Rightarrow> bool) \<Rightarrow> nat \<Rightarrow> nat \<Rightarrow> ffield list \<Rightarrow> (ffield \<Rightarrow> bitarray) \<Rightarrow> (ffield \<Rightarrow> bitarray) option" where
  "realloc_fields mem n m [] b = Some b"
| "realloc_fields mem n m (fl # fls) b =
     (case ba_realloc (mem fl) (b fl) n m of
        None \<Rightarrow> None
      | Some x \<Rightarrow> realloc_fields mem n m fls (b(fl := x)))"

definition fst_resize_vlan :: "(nat \<Rightarrow> ffield \<Rightarrow> bool) \<Rightarrow> nat \<Rightarrow> nat \<Rightarrow> switch \<Rightarrow> switch" where
  "fst_resize_vlan mem val i sw =
     (case fsttab sw i of
        None \<Rightarrow> sw
      | Some v \<Rightarrow>
          (case realloc_fields (mem i) (fst_numports sw) val [Untag, Tagged, Backup, Edge, Rcvhist0, Rcvhist1] (v_bits v) of
             None \<Rightarrow> crash sw
           | Some b \<Rightarrow> sw\<lparr>fsttab := (fsttab sw)(i \<mapsto> v\<lparr>v_bits := b\<rparr>)\<rparr>))"

definition fstsetnumports :: "(nat \<Rightarrow> ffield \<Rightarrow> bool) \<Rightarrow> nat \<Rightarrow> switch \<Rightarrow> switch" where
  "fstsetnumports mem val sw = (fold (fst_resize_vlan mem val) [0..<NUMOFVLAN] sw)\<lparr>fst_numports := val\<rparr>"

section \<open>Sending BPDUs\<close>

definition of_flag :: "bool \<Rightarrow> u8" where
  "of_flag b = (if b then 1 else 0)"

definition STP_FLAGS :: "switch \<Rightarrow> nat \<Rightarrow> nat \<Rightarrow> bool \<Rightarrow> bool \<Rightarrow> bool \<Rightarrow> u8" where
  "STP_FLAGS sw vlan port agr tc tcack =
     of_flag tc
     OR push_bit 1 (of_flag (fst_check sw vlan Backup port))
     OR push_bit 2 (of_flag (\<not> fst_check sw vlan Backup port))
     OR push_bit 3 (of_flag (map_option v_rootport (fsttab sw vlan) \<noteq> Some port))
     OR push_bit 4 (status_code (port_get_status port vlan sw))
     OR push_bit 6 (of_flag agr)
     OR push_bit 7 (of_flag tcack)"

text \<open>The age of the root information: the difference is unsigned, the variable a signed \<open>int\<close>.\<close>

definition bpdu_age :: "u32 \<Rightarrow> vlst \<Rightarrow> int" where
  "bpdu_age now v =
     (let nowvlan = (if v_rootport v = 0 then 0 else now);
          age = sint (nowvlan - v_roottimestamp v)
      in if age > 0xffff then 0xffff else age)"

definition bpdu_port :: "nat \<Rightarrow> bytes" where
  "bpdu_port port = [0x80 OR of_nat (port div 16), of_nat port]"

text \<open>The part after the Ethernet header, common to the untagged and the tagged packet.\<close>

definition bpdu_body :: "switch \<Rightarrow> vlst \<Rightarrow> nat \<Rightarrow> u8 \<Rightarrow> bytes" where
  "bpdu_body sw v port flags =
     [0x42, 0x42, 0x3, 0, 0, 2, 2, flags] @ v_root v @ v_rootcost v @ out_bridge sw @ bpdu_port port
     @ (let age = bpdu_age (now_u32 sw) v in [word_of_int age, word_of_int (age div 256)])
     @ out_maxage sw @ out_hello sw @ [0, 0, 0]"

definition fstbpdu :: "switch \<Rightarrow> vlst \<Rightarrow> nat \<Rightarrow> u8 \<Rightarrow> bytes" where
  "fstbpdu sw v port flags = bpduaddrp @ out_src sw @ [0x00, 0x27] @ bpdu_body sw v port flags"

definition fsttagbpdu :: "switch \<Rightarrow> vlst \<Rightarrow> nat \<Rightarrow> nat \<Rightarrow> u8 \<Rightarrow> bytes" where
  "fsttagbpdu sw v vlan port flags =
     bpduaddrp @ out_src sw @ [0x81, 0x00, of_nat ((vlan div 256) mod 16), of_nat vlan, 0x00, 0x27]
     @ bpdu_body sw v port flags"

definition fst_hello_vlan :: "u32 \<Rightarrow> nat \<Rightarrow> switch \<Rightarrow> switch" where
  "fst_hello_vlan now vlan sw =
     (case fsttab sw vlan of
        None \<Rightarrow> crash sw
      | Some v0 \<Rightarrow>
          let sw1 = (if v_rootport v0 \<noteq> 0 \<and> now - v_roottimestamp v0 > word_of_int (3 * helloperiod sw)
                     then snd (fstnewvlan 7 vlan sw) else sw);
              send = (\<lambda>tagged port s.
                 if fst_check s vlan Edge port then s
                 else (case fsttab s vlan of
                         None \<Rightarrow> crash s
                       | Some v \<Rightarrow>
                           let flags = STP_FLAGS s vlan port True False False
                           in port_send_packet port
                                (if tagged then fsttagbpdu s v vlan port flags else fstbpdu s v port flags) s));
              sw2 = forall_ports (\<lambda>s. fst_bits s vlan Untag) (fst_numports sw1) (send False) sw1
          in forall_ports (\<lambda>s. fst_bits s vlan Tagged) (fst_numports sw2) (send True) sw2)"

definition fst_updatebackup :: "nat \<Rightarrow> nat \<Rightarrow> switch \<Rightarrow> switch" where
  "fst_updatebackup index vlan sw =
     upd_fst vlan (\<lambda>v. v\<lparr>v_bits := (v_bits v)(rcvhist index := ba_zap (v_bits v (rcvhist index)) (fst_numports sw))\<rparr>)
       (forall_ports (\<lambda>s. fst_bits s vlan Backup) (fst_numports sw)
          (\<lambda>port s. if FSTP_ACTIVE s vlan port then s
                    else port_set_status port vlan FORWARDING (fst_clr vlan Backup port s)) sw)"

definition fst_hello :: "switch \<Rightarrow> switch" where
  "fst_hello sw =
     (let now = now_u32 sw;
          sw1 = sw\<lparr>hellocounter := hellocounter sw + 1\<rparr>;
          sw2 = forall_vlans (fst_hello_vlan now) sw1
      in if hellocounter sw2 AND 3 = 0
         then (let sw3 = sw2\<lparr>rcvhistindex := 1 - rcvhistindex sw2\<rparr>
               in forall_vlans (fst_updatebackup (rcvhistindex sw3)) sw3)
         else sw2)"

definition fst_sendbpdu :: "nat \<Rightarrow> nat \<Rightarrow> bool \<Rightarrow> bool \<Rightarrow> bool \<Rightarrow> switch \<Rightarrow> switch" where
  "fst_sendbpdu vlan port agr tc tcack sw =
     (if fst_pflag sw AND FSTP_TAG = 0 then sw
      else case fsttab sw vlan of
             None \<Rightarrow> crash sw
           | Some v \<Rightarrow>
               let sw1 = (if fst_check sw vlan Untag port
                          then port_send_packet port (fstbpdu sw v port (STP_FLAGS sw vlan port agr tc tcack)) sw
                          else sw)
               in if fst_check sw1 vlan Tagged port
                  then port_send_packet port
                         (fsttagbpdu sw1 v vlan port (STP_FLAGS sw1 vlan port agr tc tcack)) sw1
                  else sw1)"

section \<open>Topology changes\<close>

text \<open>The ports that \<open>topology_change\<close> and \<open>fastprotocol\<close> act upon.\<close>

definition fst_designated :: "switch \<Rightarrow> nat \<Rightarrow> nat \<Rightarrow> nat \<Rightarrow> bool" where
  "fst_designated sw vlan port genport \<longleftrightarrow>
     port \<noteq> genport \<and> \<not> fst_check sw vlan Backup port \<and> \<not> fst_check sw vlan Edge port \<and> FSTP_ACTIVE sw vlan port"

definition topology_change :: "nat \<Rightarrow> nat \<Rightarrow> switch \<Rightarrow> switch" where
  "topology_change vlan genport sw =
     (let sw0 = upd_fst vlan (\<lambda>v. v\<lparr>v_tctime := now_u32 sw\<rparr>) sw;
          sw1 = sw0\<lparr>hash := hash_delete_vlan (int vlan) (hash sw0)\<rparr>;
          flood = (\<lambda>port s. if fst_designated s vlan port genport
                            then fst_sendbpdu vlan port False True False s else s);
          sw2 = forall_ports (\<lambda>s. fst_bits s vlan Untag) (fst_numports sw1) flood sw1
      in forall_ports (\<lambda>s. fst_bits s vlan Tagged) (fst_numports sw2) flood sw2)"

definition fastprotocol :: "nat \<Rightarrow> nat \<Rightarrow> switch \<Rightarrow> switch" where
  "fastprotocol vlan newrootport sw =
     (let block = (\<lambda>port s.
            if fst_designated s vlan port newrootport
            then fst_sendbpdu vlan port False False False
                   (fst_set vlan Backup port (port_set_status port vlan DISCARDING s))
            else s);
          sw1 = forall_ports (\<lambda>s. fst_bits s vlan Untag) (fst_numports sw) block sw;
          sw2 = forall_ports (\<lambda>s. fst_bits s vlan Tagged) (fst_numports sw1) block sw1
      in fst_sendbpdu vlan newrootport True False False
           (port_set_status newrootport vlan FORWARDING (fst_clr vlan Backup newrootport sw2)))"

section \<open>Receiving BPDUs\<close>

definition field :: "bytes \<Rightarrow> nat \<Rightarrow> nat \<Rightarrow> bytes" where
  "field p off n = take n (drop off p)"

definition stp_version :: "bytes \<Rightarrow> u8" where "stp_version p = p ! 19"
definition stp_type :: "bytes \<Rightarrow> u8" where "stp_type p = p ! 20"
definition stp_flags :: "bytes \<Rightarrow> u8" where "stp_flags p = p ! 21"
definition stp_root :: "bytes \<Rightarrow> bytes" where "stp_root p = field p 22 SWITCHID_LEN"
definition stp_rootcost :: "bytes \<Rightarrow> bytes" where "stp_rootcost p = field p 30 4"
definition stp_bridge :: "bytes \<Rightarrow> bytes" where "stp_bridge p = field p 34 SWITCHID_LEN"
definition stp_port :: "bytes \<Rightarrow> bytes" where "stp_port p = field p 42 2"

text \<open>The comparison of the information held with the information received.\<close>

definition bpdu_compare :: "vlst \<Rightarrow> bytes \<Rightarrow> bytes \<Rightarrow> bytes \<Rightarrow> bytes \<Rightarrow> int" where
  "bpdu_compare v root cost bridge port =
     (let val = memcmp (v_root v) root
      in if val \<noteq> 0 then val
         else let val = memcmp (v_rootcost v) cost
              in if val \<noteq> 0 then val
                 else let val = memcmp (v_dessw v) bridge
                      in if val \<noteq> 0 then val else memcmp (v_port v) port)"

text \<open>
  Adopting a new root. The code compares the old root with the eight bytes that start at the
  source address of the untagged prototype, that is, the address and the length field.
\<close>

definition fst_newroot :: "nat \<Rightarrow> nat \<Rightarrow> vlst \<Rightarrow> bytes \<Rightarrow> bytes \<Rightarrow> bytes \<Rightarrow> bytes \<Rightarrow> switch \<Rightarrow> switch" where
  "fst_newroot vlan port v root cost bridge pport sw =
     (let sw1 = (if memcmp (v_root v) (out_src sw @ [0x00, 0x27]) \<le> 0
                 then snd (fstnewvlan 7 vlan sw) else sw);
          sw2 = upd_fst vlan (\<lambda>v. v\<lparr>v_root := root, v_rootcost := cost, v_dessw := bridge, v_port := pport,
                   v_rootport := port, v_roottimestamp := now_u32 sw1\<rparr>) sw1
      in topology_change vlan port (fastprotocol vlan port sw2))"

definition fst_worse :: "nat \<Rightarrow> nat \<Rightarrow> vlst \<Rightarrow> bytes \<Rightarrow> u8 \<Rightarrow> switch \<Rightarrow> switch" where
  "fst_worse vlan port v root flags sw =
     (if memcmp (v_root v) root = 0
      then (if flags AND STP_PORTROLEMASK = STP_ROOT
            then (if fst_check sw vlan Backup port
                  then topology_change vlan port
                         (port_set_status port vlan FORWARDING (fst_clr vlan Backup port sw))
                  else sw)
            else (if \<not> fst_check sw vlan Backup port
                  then topology_change vlan port
                         (port_set_status port vlan DISCARDING (fst_set vlan Backup port sw))
                  else sw))
      else fst_sendbpdu vlan port False False False sw)"

definition bpdu_cost :: "switch \<Rightarrow> vlst \<Rightarrow> nat \<Rightarrow> bytes \<Rightarrow> bytes" where
  "bpdu_cost sw v port cost =
     ltonstring (nstringtol cost
       + word_of_int (port_getcost port sw - (if port = v_bonusport v then v_bonuscost v else 0)))"

definition fst_in_bpdu :: "nat \<Rightarrow> bytes \<Rightarrow> int \<Rightarrow> nat \<Rightarrow> bool \<Rightarrow> switch \<Rightarrow> switch" where
  "fst_in_bpdu port inpacket len vlan tagged sw =
     (if fsttab sw vlan = None then crash sw
      else if fst_check sw vlan Edge port then sw
      else
        let sw1 = fst_set vlan (rcvhist (rcvhistindex sw)) port sw;
            p = (if tagged then drop 4 inpacket else inpacket);
            len = (if tagged then len - 4 else len)
        in if len < 51 \<or> stp_version p \<noteq> 2 \<or> stp_type p \<noteq> 2 then sw1
           else
             let sw2 = (if stp_flags p AND STP_TC \<noteq> 0 then topology_change vlan port sw1 else sw1)
             in case (fsttab sw2 vlan, get_port port sw2) of
                  (Some v, Some _) \<Rightarrow>
                    let cost = bpdu_cost sw2 v port (stp_rootcost p);
                        val = bpdu_compare v (stp_root p) cost (stp_bridge p) (stp_port p)
                    in if val = 0 then upd_fst vlan (\<lambda>v. v\<lparr>v_roottimestamp := now_u32 sw2\<rparr>) sw2
                       else if val > 0 \<or> port = v_rootport v \<and> val < 0
                       then fst_newroot vlan port v (stp_root p) cost (stp_bridge p) (stp_port p) sw2
                       else fst_worse vlan port v (stp_root p) (stp_flags p) sw2
                | _ \<Rightarrow> crash sw2)"

section \<open>Ports, start and commands\<close>

definition fstaddport :: "nat \<Rightarrow> nat \<Rightarrow> bool \<Rightarrow> switch \<Rightarrow> switch" where
  "fstaddport vlan port tagged sw =
     (let sw1 = (if tagged then fst_clr vlan Untag port (fst_set vlan Tagged port sw)
                 else fst_clr vlan Tagged port (fst_set vlan Untag port sw));
          sw2 = fst_clr vlan Rcvhist1 port (fst_clr vlan Rcvhist0 port
                  (fst_clr vlan Edge port (fst_clr vlan Backup port sw1)))
      in topology_change vlan port (fst_sendbpdu vlan port False False False sw2))"

definition fstdelport :: "nat \<Rightarrow> nat \<Rightarrow> switch \<Rightarrow> switch" where
  "fstdelport vlan port sw =
     (let sw1 = fst_clr vlan Edge port (fst_clr vlan Backup port
                  (fst_clr vlan Tagged port (fst_clr vlan Untag port sw)));
          sw2 = (if map_option v_rootport (fsttab sw1 vlan) = Some port
                 then snd (fstnewvlan 7 vlan sw1) else sw1)
      in topology_change vlan port sw2)"

definition fstinitpkt :: "switch \<Rightarrow> switch" where
  "fstinitpkt sw =
     (case qtimer_add (helloperiod sw) 0 FST_HELLO (timers sw) of (n, q) \<Rightarrow>
        sw\<lparr>out_bridge := myid sw, out_src := take ETH_ALEN (switchmac sw),
           out_hello := [word_of_int (helloperiod sw), word_of_int (helloperiod sw div 256)],
           out_maxage := [word_of_int (maxage sw), word_of_int (maxage sw div 256)],
           fst_timerno := n, timers := q\<rparr>)"

definition fst_stop :: "switch \<Rightarrow> switch" where
  "fst_stop sw =
     (let sw1 = sw\<lparr>timers := qtimer_del (fst_timerno sw) (timers sw)\<rparr>;
          sw2 = snd (fstflag P_CLRFLAG FSTP_TAG sw1)
      in forall_vlans (\<lambda>vlan s. snd (fstnewvlan 7 vlan s)) sw2)"

definition fstpshutdown :: "switch \<Rightarrow> switch" where
  "fstpshutdown sw = (if fst_pflag sw AND FSTP_TAG \<noteq> 0 then fst_stop sw else sw)"

definition fstpsetonoff :: "int \<Rightarrow> switch \<Rightarrow> errno \<times> switch" where
  "fstpsetonoff val sw =
     (let oldval = (fst_pflag sw AND FSTP_TAG \<noteq> 0)
      in if fst (portflag P_GETFLAG HUB_TAG sw) \<noteq> 0 then (EOK, sw)
         else (EOK,
           if oldval \<noteq> (val \<noteq> 0)
           then (if val \<noteq> 0 then snd (fstflag P_SETFLAG FSTP_TAG (fstinitpkt sw)) else fst_stop sw)
           else sw))"

definition decoderole :: "nat \<Rightarrow> nat \<Rightarrow> switch \<Rightarrow> string" where
  "decoderole vlan port sw =
     (if \<not> (fst_check sw vlan Untag port \<or> fst_check sw vlan Untag port) then ''Unknown''
      else if fst_check sw vlan Edge port then ''Edge''
      else if map_option v_rootport (fsttab sw vlan) = Some port then ''Root''
      else if fst_check sw vlan Backup port then ''Alternate/Backup''
      else ''Designated'')"

definition fstsetbonus :: "string \<Rightarrow> switch \<Rightarrow> errno \<times> switch" where
  "fstsetbonus arg sw =
     (case scan_ints 3 arg of
        [vlan, port, cost] \<Rightarrow>
          if vlan < 0 \<or> vlan \<ge> int NUMOFVLAN \<or> port < 0 \<or> port \<ge> int (fst_numports sw) then (EINVAL, sw)
          else if \<not> bac_check (validvlan sw) (nat vlan) then (ENXIO, sw)
          else (EOK, upd_fst (nat vlan) (\<lambda>v. v\<lparr>v_bonusport := nat port, v_bonuscost := cost\<rparr>) sw)
      | _ \<Rightarrow> (EINVAL, sw))"

definition fstsetedge :: "string \<Rightarrow> switch \<Rightarrow> errno \<times> switch" where
  "fstsetedge arg sw =
     (case scan_ints 3 arg of
        [vlan, port, val] \<Rightarrow>
          if vlan < 0 \<or> vlan \<ge> int NUMOFVLAN \<or> port < 0 \<or> port \<ge> int (fst_numports sw) then (EINVAL, sw)
          else if \<not> bac_check (validvlan sw) (nat vlan) then (ENXIO, sw)
          else if val \<noteq> 0
          then (let sw1 = fst_set (nat vlan) Edge (nat port) sw
                in (EOK,
                    if fst_check sw1 (nat vlan) Untag (nat port) \<or> fst_check sw1 (nat vlan) Untag (nat port)
                    then port_set_status (nat port) (nat vlan) FORWARDING sw1 else sw1))
          else (EOK, fst_clr (nat vlan) Backup (nat port) (fst_clr (nat vlan) Edge (nat port) sw))
      | _ \<Rightarrow> (EINVAL, sw))"

definition fst_init :: "nat \<Rightarrow> switch \<Rightarrow> switch" where
  "fst_init initnumports sw =
     (let sw1 = sw\<lparr>fst_numports := initnumports, myid := SETFSTID (switchmac sw) (priority sw)\<rparr>
      in if fst_pflag sw1 AND FSTP_TAG \<noteq> 0 then fstinitpkt sw1 else sw1)"

end
