(* ===== verification/Port.thy ===== *)
theory Port
  imports Fstp
begin

text \<open>
  The rest of \<^verbatim>\<open>vde_switch/port.c\<close>: endpoints, the forwarding of packets and the
  management commands for ports and VLANs. The modules read a packet into a \<open>bipacket\<close>,
  whose four bytes of filler leave room for a tag in front of it, so a packet is the whole
  buffer, the offset of the pointer in it and the length. \<open>mem\<close> arguments say whether an
  allocation succeeds.
\<close>

section \<open>Endpoints\<close>

definition new_endpoint :: "nat \<Rightarrow> fd \<Rightarrow> fd \<Rightarrow> endpoint" where
  "new_endpoint portno fd_ctl fd_data =
     \<lparr>ep_port = portno, ep_fd_ctl = fd_ctl, ep_fd_data = fd_data, ep_descr = None\<rparr>"

text \<open>An inactive port becomes active: its VLANs become forwarding.\<close>

definition activate_port :: "nat \<Rightarrow> nat \<Rightarrow> switch \<Rightarrow> switch" where
  "activate_port portno vlanuntag sw =
     (let sw1 = forall_vlans (\<lambda>i s.
            if vlan_check s i Table portno
            then fstaddport i portno (i \<noteq> vlanuntag) (vlan_set i Bctag portno s)
            else s) sw
      in if vlanuntag \<noteq> NOVLAN
         then vlan_clr vlanuntag Notlearning portno
                (vlan_clr vlanuntag Bctag portno (vlan_set vlanuntag Bcuntag portno sw1))
         else sw1)"

definition setup_ep ::
    "userdb \<Rightarrow> bool \<Rightarrow> bool \<Rightarrow> int \<Rightarrow> fd \<Rightarrow> fd \<Rightarrow> int \<Rightarrow> string \<Rightarrow> switch \<Rightarrow> (errno + endpoint) \<times> switch" where
  "setup_ep db mem memep portno fd_ctl fd_data user modfun sw =
     (case alloc_port mem portno sw of (n, sw1) \<Rightarrow>
        if n < 0 then (Inl ENOMEM, sw1)
        else
          (let i = nat n
           in case get_port i sw1 of
                None \<Rightarrow> (Inl ENOMEM, crash sw1)
              | Some p \<Rightarrow>
                  let p1 = (if p_ep p = [] \<and> checkport_ac db p user then p\<lparr>p_curuser := user\<rparr> else p);
                      sw2 = upd_port i (\<lambda>_. p1) sw1
                  in if p_curuser p1 = user \<and> memep
                     then (let ep = new_endpoint i fd_ctl fd_data;
                               sw3 = upd_port i (\<lambda>p. p\<lparr>p_ms := Some modfun, p_ep := ep # p_ep p\<rparr>) sw2
                           in (Inr ep, if p_ep p1 = [] then activate_port i (p_vlanuntag p1) sw3 else sw3))
                     else (Inl (if p_curuser p1 \<noteq> user then EADDRINUSE else ENOMEM), sw2)))"

definition setup_description :: "endpoint \<Rightarrow> string \<Rightarrow> switch \<Rightarrow> switch" where
  "setup_description ep descr sw =
     upd_port (ep_port ep) (\<lambda>p. p\<lparr>p_ep := map (\<lambda>e. if e = ep then e\<lparr>ep_descr := Some descr\<rparr> else e) (p_ep p)\<rparr>) sw"

text \<open>The endpoint removed and the rest of the list.\<close>

fun rec_close_ep :: "fd \<Rightarrow> endpoint list \<Rightarrow> endpoint option \<times> endpoint list" where
  "rec_close_ep fd_ctl [] = (None, [])"
| "rec_close_ep fd_ctl (e # es) =
     (if ep_fd_ctl e = fd_ctl then (Some e, es)
      else case rec_close_ep fd_ctl es of (r, es') \<Rightarrow> (r, e # es'))"

definition inactivate_port :: "nat \<Rightarrow> switch \<Rightarrow> switch" where
  "inactivate_port portno sw =
     (let sw1 = sw\<lparr>hash := hash_delete_port (int portno) (hash sw)\<rparr>;
          sw2 = upd_port portno (\<lambda>p. p\<lparr>p_ms := None, p_curuser := - 1\<rparr>) sw1;
          sw3 = forall_vlans (\<lambda>i s. fstdelport i portno (vlan_clr i Bctag portno s)) sw2
      in case get_port portno sw3 of
           None \<Rightarrow> crash sw3
         | Some p \<Rightarrow>
             if p_vlanuntag p < NOVLAN then vlan_clr (p_vlanuntag p) Bcuntag portno sw3 else sw3)"

definition close_ep_port_fd :: "int \<Rightarrow> fd \<Rightarrow> switch \<Rightarrow> errno \<times> switch" where
  "close_ep_port_fd n fd_ctl sw =
     (if 0 \<le> n \<and> n < int (numports sw)
      then (case get_port (nat n) sw of
              None \<Rightarrow> (ENXIO, sw)
            | Some p \<Rightarrow>
                (case rec_close_ep fd_ctl (p_ep p) of (r, es) \<Rightarrow>
                   let sw1 = (case r of
                                None \<Rightarrow> sw
                              | Some e \<Rightarrow>
                                  (case p_ms p of
                                     None \<Rightarrow> crash sw
                                   | Some m \<Rightarrow>
                                       (upd_port (nat n) (\<lambda>p. p\<lparr>p_ep := es\<rparr>) sw)
                                         \<lparr>outs := outs sw @ [DelEp m (ep_fd_ctl e) (ep_fd_data e) (ep_descr e)]\<rparr>))
                   in (if r = None then ENXIO else EOK,
                       if es = [] then inactivate_port (nat n) sw1 else sw1)))
      else (EINVAL, sw))"

definition close_ep :: "endpoint \<Rightarrow> switch \<Rightarrow> errno \<times> switch" where
  "close_ep ep sw = close_ep_port_fd (int (ep_port ep)) (ep_fd_ctl ep) sw"

section \<open>Forwarding\<close>

definition TAG2UNTAG :: "bytes \<times> nat \<times> int \<Rightarrow> bytes \<times> nat \<times> int" where
  "TAG2UNTAG = (\<lambda>(buf, off, len). (blit buf (off + 4) (take 12 (drop off buf)), off + 4, len - 4))"

definition UNTAG2TAG :: "nat \<Rightarrow> bytes \<times> nat \<times> int \<Rightarrow> bytes \<times> nat \<times> int" where
  "UNTAG2TAG vlan = (\<lambda>(buf, off, len).
     (blit (blit buf (off - 4) (take 12 (drop off buf))) (off + 8)
        [0x81, 0x00, of_nat (vlan div 256), of_nat vlan], off - 4, len + 4))"

definition SEND_TO :: "nat \<Rightarrow> bytes \<times> nat \<times> int \<Rightarrow> switch \<Rightarrow> int \<times> switch" where
  "SEND_TO portno = (\<lambda>(buf, off, len). SEND_PACKET_PORT portno (drop off buf) len)"

text \<open>
  The loop over \<open>bctag\<close> or \<open>bcuntag\<close>: the length is a variable of the caller that the output
  filters may change.
\<close>

definition broadcast :: "nat \<Rightarrow> vfield \<Rightarrow> nat \<Rightarrow> bytes \<times> nat \<times> int \<Rightarrow> switch \<Rightarrow> int \<times> switch" where
  "broadcast vlan f port = (\<lambda>(buf, off, len) sw.
     if length (vlant sw vlan f) < WORDSIZEROUND (numports sw) then (len, crash sw)
     else ba_FORALL (\<lambda>(_, s). vlant s vlan f) (numports sw)
            (\<lambda>i (len, s). if i \<noteq> port then SEND_TO i (buf, off, len) s else (len, s)) (len, sw))"

definition hub_packet :: "nat \<Rightarrow> bytes \<times> nat \<times> int \<Rightarrow> switch \<Rightarrow> switch" where
  "hub_packet port = (\<lambda>(buf, off, len) sw.
     snd (fold (\<lambda>i (len, s). if i \<noteq> port \<and> get_port i s \<noteq> None then SEND_TO i (buf, off, len) s else (len, s))
            [1..<numports sw] (len, sw)))"

definition send_dst_broadcast :: "nat \<Rightarrow> nat \<Rightarrow> bool \<Rightarrow> bytes \<times> nat \<times> int \<Rightarrow> switch \<Rightarrow> switch" where
  "send_dst_broadcast port vlan tagged = (\<lambda>(buf, off, len) sw.
     if tagged
     then (case broadcast vlan Bctag port (buf, off, len) sw of (len, sw1) \<Rightarrow>
             snd (broadcast vlan Bcuntag port (TAG2UNTAG (buf, off, len)) sw1))
     else (case broadcast vlan Bcuntag port (buf, off, len) sw of (len, sw1) \<Rightarrow>
             snd (broadcast vlan Bctag port (UNTAG2TAG vlan (buf, off, len)) sw1)))"

definition send_dst_unicast :: "nat \<Rightarrow> nat \<Rightarrow> bool \<Rightarrow> int \<Rightarrow> bytes \<times> nat \<times> int \<Rightarrow> switch \<Rightarrow> switch" where
  "send_dst_unicast port vlan tagged tarport pkt sw =
     (if tarport = int port then sw
      else case get_port (nat tarport) sw of
             None \<Rightarrow> crash sw
           | Some p \<Rightarrow>
               snd (SEND_TO (nat tarport)
                 (if tagged then (if p_vlanuntag p = vlan then TAG2UNTAG pkt else pkt)
                  else (if p_vlanuntag p = vlan then pkt else UNTAG2TAG vlan pkt)) sw))"

definition pkt_dest :: "bytes \<Rightarrow> bytes" where "pkt_dest p = take ETH_ALEN p"
definition pkt_src :: "bytes \<Rightarrow> bytes" where "pkt_src p = take ETH_ALEN (drop ETH_ALEN p)"
definition pkt_tagged :: "bytes \<Rightarrow> bool" where "pkt_tagged p \<longleftrightarrow> p ! 12 = 0x81 \<and> p ! 13 = 0x00"
definition pkt_vlan :: "bytes \<Rightarrow> nat" where "pkt_vlan p = (unat (p ! 14) * 256 + unat (p ! 15)) mod 4096"

text \<open>The part of \<open>handle_in_packet\<close> after the VLAN of the packet has been found.\<close>

definition switch_packet :: "bool \<Rightarrow> nat \<Rightarrow> nat \<Rightarrow> bool \<Rightarrow> bytes \<times> nat \<times> int \<Rightarrow> switch \<Rightarrow> switch" where
  "switch_packet mem port vlan tagged = (\<lambda>(buf, off, len) sw.
     let packet = drop off buf
     in if ISBPDU packet \<and> fst (fstflag P_GETFLAG FSTP_TAG sw) \<noteq> 0
        then fst_in_bpdu port packet len vlan tagged sw
        else if vlan_check sw vlan Notlearning port then sw
        else
          let sw1 = (if IS_BROADCAST (pkt_src packet) then sw
                     else sw\<lparr>hash := snd (find_in_hash_update mem (qtime (timers sw)) (pkt_src packet)
                                            (int vlan) (int port) (hash sw))\<rparr>);
              tarport = find_in_hash (hash sw1) (pkt_dest packet) (int vlan)
          in if IS_BROADCAST (pkt_dest packet) \<or> tarport < 0
             then send_dst_broadcast port vlan tagged (buf, off, len) sw1
             else send_dst_unicast port vlan tagged tarport (buf, off, len) sw1)"

definition handle_in_packet :: "bool \<Rightarrow> endpoint \<Rightarrow> bytes \<times> nat \<times> int \<Rightarrow> switch \<Rightarrow> switch" where
  "handle_in_packet mem ep = (\<lambda>(buf, off, len) sw.
     let port = ep_port ep; packet = drop off buf
     in case PACKETFILTER (pkt_in sw) port packet len of (ok, len) \<Rightarrow>
          if \<not> ok then sw
          else
            let sw1 = upd_port port (\<lambda>p. p\<lparr>p_pktsin := p_pktsin p + 1, p_bytesin := p_bytesin p + len\<rparr>) sw
            in if pflag sw AND HUB_TAG \<noteq> 0 then hub_packet port (buf, off, len) sw1
               else if pkt_tagged packet
               then (if vlan_check sw1 (pkt_vlan packet) Table port
                     then switch_packet mem port (pkt_vlan packet) True (buf, off, len) sw1
                     else sw1)
               else (case get_port port sw1 of
                       None \<Rightarrow> sw1
                     | Some p \<Rightarrow>
                         if p_vlanuntag p = NOVLAN then sw1
                         else switch_packet mem port (p_vlanuntag p) False (buf, off, len) sw1))"

section \<open>Management of ports\<close>

text \<open>Resizing one array of \<open>vlant\<close>; a NULL array stays NULL. \<open>mem\<close> says which of the allocations succeed.\<close>

definition vlan_realloc :: "(nat \<Rightarrow> vfield \<Rightarrow> bool) \<Rightarrow> nat \<Rightarrow> nat \<Rightarrow> vfield \<Rightarrow> nat \<Rightarrow> switch \<Rightarrow> switch" where
  "vlan_realloc mem n m f v sw =
     (if vlant sw v f = [] then sw
      else case ba_realloc (mem v f) (vlant sw v f) n m of
             None \<Rightarrow> crash sw
           | Some x \<Rightarrow> sw\<lparr>vlant := (vlant sw)(v := (vlant sw v)(f := x))\<rparr>)"

definition vlan_resize :: "(nat \<Rightarrow> vfield \<Rightarrow> bool) \<Rightarrow> nat \<Rightarrow> nat \<Rightarrow> nat \<Rightarrow> switch \<Rightarrow> switch" where
  "vlan_resize mem n m v sw =
     vlan_realloc mem n m Notlearning v (vlan_realloc mem n m Bcuntag v
       (vlan_realloc mem n m Bctag v (vlan_realloc mem n m Table v sw)))"

text \<open>\<open>mem\<close>, \<open>memv\<close> and \<open>memf\<close>: whether \<open>portv\<close>, the arrays of \<open>vlant\<close> and those of \<open>fsttab\<close> can be
  reallocated. \<open>None\<close>: the program exits.\<close>

definition portsetnumports ::
    "bool \<Rightarrow> (nat \<Rightarrow> vfield \<Rightarrow> bool) \<Rightarrow> (nat \<Rightarrow> ffield \<Rightarrow> bool) \<Rightarrow> int \<Rightarrow> switch \<Rightarrow> (errno \<times> switch) option" where
  "portsetnumports mem memv memf val sw =
     (if 0 < val
      then (if list_ex (\<lambda>i. get_port i sw \<noteq> None) [nat val..<numports sw] then Some (EADDRINUSE, sw)
            else if \<not> mem then None
            else
              let m = nat val; n = numports sw;
                  sw1 = fold (vlan_resize memv n m) [0..<NUMOFVLAN] sw;
                  sw2 = fstsetnumports memf m
                          (sw1\<lparr>portv := take m (portv sw1) @ replicate (m - length (portv sw1)) None\<rparr>)
              in Some (EOK, sw2\<lparr>numports := m\<rparr>))
      else Some (EINVAL, sw))"

definition portallocatable :: "string \<Rightarrow> switch \<Rightarrow> errno \<times> switch" where
  "portallocatable arg sw =
     (case scan_ints 2 arg of
        [port, val] \<Rightarrow>
          if port < 0 \<or> port \<ge> int (numports sw) then (EINVAL, sw)
          else if get_port (nat port) sw = None then (ENXIO, sw)
          else (EOK, upd_port (nat port) (\<lambda>p. p\<lparr>p_flag :=
                  (if val \<noteq> 0 then p_flag p AND NOT NOTINPOOL else p_flag p OR NOTINPOOL)\<rparr>) sw)
      | _ \<Rightarrow> (EINVAL, sw))"

text \<open>The second word of the argument, as \<open>portsetuser\<close> and \<open>portsetgroup\<close> find it.\<close>

definition second_word :: "string \<Rightarrow> string" where
  "second_word arg =
     dropWhile (\<lambda>c. c = CHR '' '') (dropWhile (\<lambda>c. c \<noteq> CHR '' '') (dropWhile (\<lambda>c. c = CHR '' '') arg))"

text \<open>The number a user or group argument stands for: by name, by number, or none.\<close>

definition ac_id :: "(string \<Rightarrow> int option) \<Rightarrow> string \<Rightarrow> int option" where
  "ac_id getnam w =
     (case getnam w of
        Some n \<Rightarrow> Some n
      | None \<Rightarrow>
          if isdigit (hd w) then Some (atoi w)
          else if w = ''NONE'' \<or> w = ''ANY'' then Some (- 1)
          else None)"

definition portset_ac ::
    "(string \<Rightarrow> int option) \<Rightarrow> (int \<Rightarrow> port \<Rightarrow> port) \<Rightarrow> string \<Rightarrow> switch \<Rightarrow> errno \<times> switch" where
  "portset_ac getnam upd arg sw =
     (case scan_ints 1 arg of
        [port] \<Rightarrow>
          if second_word arg = [] then (EINVAL, sw)
          else if port < 0 \<or> port \<ge> int (numports sw) then (EINVAL, sw)
          else if get_port (nat port) sw = None then (ENXIO, sw)
          else (case ac_id getnam (second_word arg) of
                  None \<Rightarrow> (EINVAL, sw)
                | Some n \<Rightarrow> (EOK, upd_port (nat port) (upd n) sw))
      | _ \<Rightarrow> (EINVAL, sw))"

definition portsetuser :: "(string \<Rightarrow> int option) \<Rightarrow> string \<Rightarrow> switch \<Rightarrow> errno \<times> switch" where
  "portsetuser getpwnam = portset_ac getpwnam (\<lambda>n p. p\<lparr>p_user := n\<rparr>)"

definition portsetgroup :: "(string \<Rightarrow> int option) \<Rightarrow> string \<Rightarrow> switch \<Rightarrow> errno \<times> switch" where
  "portsetgroup getgrnam = portset_ac getgrnam (\<lambda>n p. p\<lparr>p_group := n\<rparr>)"

definition portremove :: "int \<Rightarrow> switch \<Rightarrow> errno \<times> switch" where
  "portremove val sw =
     (if val < 0 \<or> val \<ge> int (numports sw) then (EINVAL, sw)
      else case get_port (nat val) sw of
             None \<Rightarrow> (ENXIO, sw)
           | Some p \<Rightarrow> if p_ep p \<noteq> [] then (EADDRINUSE, sw) else (EOK, free_port (nat val) sw))"

definition set_notinpool :: "int \<Rightarrow> switch \<Rightarrow> errno \<times> switch" where
  "set_notinpool port sw =
     (if port < 0 then (ENOSPC, sw)
      else (EOK, upd_port (nat port) (\<lambda>p. p\<lparr>p_flag := p_flag p OR NOTINPOOL\<rparr>) sw))"

definition portcreate :: "bool \<Rightarrow> int \<Rightarrow> switch \<Rightarrow> errno \<times> switch" where
  "portcreate mem val sw =
     (if val < 0 \<or> val \<ge> int (numports sw) then (EINVAL, sw)
      else if get_port (nat val) sw \<noteq> None then (EEXIST, sw)
      else case alloc_port mem val sw of (port, sw1) \<Rightarrow> set_notinpool port sw1)"

definition portcreateauto :: "bool \<Rightarrow> switch \<Rightarrow> errno \<times> switch" where
  "portcreateauto mem sw = (case alloc_port mem 0 sw of (port, sw1) \<Rightarrow> set_notinpool port sw1)"

definition epclose :: "string \<Rightarrow> switch \<Rightarrow> errno \<times> switch" where
  "epclose arg sw =
     (case scan_ints 2 arg of [port, epid] \<Rightarrow> close_ep_port_fd port epid sw | _ \<Rightarrow> (EINVAL, sw))"

definition portzerocounter :: "nat \<Rightarrow> switch \<Rightarrow> switch" where
  "portzerocounter i sw =
     (if get_port i sw = None then sw
      else upd_port i (\<lambda>p. p\<lparr>p_pktsin := 0, p_pktsout := 0, p_bytesin := 0, p_bytesout := 0\<rparr>) sw)"

definition portresetcounters :: "string \<Rightarrow> switch \<Rightarrow> errno \<times> switch" where
  "portresetcounters arg sw =
     (if arg \<noteq> []
      then (let i = atoi arg
            in if i < 0 \<or> i \<ge> int (numports sw) then (EINVAL, sw) else (EOK, portzerocounter (nat i) sw))
      else (EOK, fold portzerocounter [0..<numports sw] sw))"

definition portsethub :: "int \<Rightarrow> switch \<Rightarrow> errno \<times> switch" where
  "portsethub val sw =
     (EOK, if val \<noteq> 0 then snd (portflag P_SETFLAG HUB_TAG (fstpshutdown sw))
           else snd (portflag P_CLRFLAG HUB_TAG sw))"

section \<open>Management of VLANs\<close>

text \<open>Moving an active port from one untagged VLAN to another.\<close>

definition move_active :: "nat \<Rightarrow> nat \<Rightarrow> nat \<Rightarrow> switch \<Rightarrow> switch" where
  "move_active port oldvlan vlan sw =
     (let sw1 = (if oldvlan \<noteq> NOVLAN then vlan_clr oldvlan Bcuntag port sw else sw);
          sw2 = (if vlan \<noteq> NOVLAN then vlan_clr vlan Bctag port (vlan_set vlan Bcuntag port sw1) else sw1);
          sw3 = (if oldvlan \<noteq> NOVLAN then fstdelport oldvlan port sw2 else sw2)
      in if vlan \<noteq> NOVLAN then fstaddport vlan port False sw3 else sw3)"

definition portsetvlan :: "string \<Rightarrow> switch \<Rightarrow> errno \<times> switch" where
  "portsetvlan arg sw =
     (case scan_ints 2 arg of
        [n, v] \<Rightarrow>
          if v < 0 \<or> v > int NUMOFVLAN \<or> n < 0 \<or> n \<ge> int (numports sw) then (EINVAL, sw)
          else
            (let port = nat n; vlan = nat v
             in if vlan \<noteq> NOVLAN \<and> \<not> bac_check (validvlan sw) vlan then (ENXIO, sw)
                else case get_port port sw of
                       None \<Rightarrow> (ENXIO, sw)
                     | Some p \<Rightarrow>
                         let oldvlan = p_vlanuntag p;
                             sw1 = upd_port port (\<lambda>p. p\<lparr>p_vlanuntag := NOVLAN\<rparr>) sw;
                             sw2 = sw1\<lparr>hash := hash_delete_port (int port) (hash sw1)\<rparr>;
                             sw3 = (if p_ep p \<noteq> [] then move_active port oldvlan vlan sw2 else sw2);
                             sw4 = (if oldvlan \<noteq> NOVLAN then vlan_clr oldvlan Table port sw3 else sw3);
                             sw5 = (if vlan \<noteq> NOVLAN then vlan_set vlan Table port sw4 else sw4)
                         in (EOK, upd_port port (\<lambda>p. p\<lparr>p_vlanuntag := vlan\<rparr>) sw5))
      | _ \<Rightarrow> (EINVAL, sw))"

text \<open>
  \<open>mem\<close> says which of the four arrays can be allocated, \<open>memfst\<close> is the argument of \<open>fstnewvlan\<close>. The
  array \<open>notlearning\<close> is not tested.
\<close>

definition vlancreate_nocheck :: "(vfield \<Rightarrow> bool) \<Rightarrow> nat \<Rightarrow> nat \<Rightarrow> switch \<Rightarrow> errno \<times> switch" where
  "vlancreate_nocheck mem memfst vlan sw =
     (let sw1 = sw\<lparr>vlant := (vlant sw)(vlan := (\<lambda>f. if mem f then ba_alloc (numports sw) else []))\<rparr>
      in if \<not> mem Table \<or> \<not> mem Bctag \<or> \<not> mem Bcuntag then (ENOMEM, sw1)
         else case fstnewvlan memfst vlan sw1 of (rv, sw2) \<Rightarrow>
                (rv, if rv = EOK then sw2\<lparr>validvlan := bac_set (validvlan sw2) NUMOFVLAN vlan\<rparr> else sw2))"

definition vlancreate :: "(vfield \<Rightarrow> bool) \<Rightarrow> nat \<Rightarrow> int \<Rightarrow> switch \<Rightarrow> errno \<times> switch" where
  "vlancreate mem memfst vlan sw =
     (if 0 < vlan \<and> vlan < int NUMOFVLAN - 1
      then (if bac_check (validvlan sw) (nat vlan) then (EEXIST, sw)
            else vlancreate_nocheck mem memfst (nat vlan) sw)
      else (EINVAL, sw))"

definition vlanremove :: "int \<Rightarrow> switch \<Rightarrow> errno \<times> switch" where
  "vlanremove n sw =
     (if 0 \<le> n \<and> n < int NUMOFVLAN
      then (let vlan = nat n
            in if bac_check (validvlan sw) vlan
               then (if length (vlant sw vlan Table) < WORDSIZEROUND (numports sw) then (EOK, crash sw)
                     else if ba_card (vlant sw vlan Table) (numports sw) \<noteq> 0 then (EADDRINUSE, sw)
                     else (EOK, snd (fstremovevlan vlan
                             (sw\<lparr>validvlan := bac_clr (validvlan sw) NUMOFVLAN vlan,
                                 vlant := (vlant sw)(vlan := (\<lambda>_. []))\<rparr>))))
               else (ENXIO, sw))
      else (EINVAL, sw))"

definition vlanaddport :: "string \<Rightarrow> switch \<Rightarrow> errno \<times> switch" where
  "vlanaddport arg sw =
     (case scan_ints 2 arg of
        [v, n] \<Rightarrow>
          if v < 0 \<or> v \<ge> int NUMOFVLAN - 1 \<or> n < 0 \<or> n \<ge> int (numports sw) then (EINVAL, sw)
          else
            (let port = nat n; vlan = nat v
             in if \<not> bac_check (validvlan sw) vlan then (ENXIO, sw)
                else case get_port port sw of
                       None \<Rightarrow> (ENXIO, sw)
                     | Some p \<Rightarrow>
                         let sw1 = (if p_ep p \<noteq> [] \<and> p_vlanuntag p \<noteq> vlan
                                    then fstaddport vlan port True (vlan_set vlan Bctag port sw) else sw)
                         in (EOK, vlan_set vlan Table port sw1))
      | _ \<Rightarrow> (EINVAL, sw))"

definition vlandelport :: "string \<Rightarrow> switch \<Rightarrow> errno \<times> switch" where
  "vlandelport arg sw =
     (case scan_ints 2 arg of
        [v, n] \<Rightarrow>
          if v < 0 \<or> v \<ge> int NUMOFVLAN - 1 \<or> n < 0 \<or> n \<ge> int (numports sw) then (EINVAL, sw)
          else
            (let port = nat n; vlan = nat v
             in if \<not> bac_check (validvlan sw) vlan then (ENXIO, sw)
                else case get_port port sw of
                       None \<Rightarrow> (ENXIO, sw)
                     | Some p \<Rightarrow>
                         if p_vlanuntag p = vlan then (EADDRINUSE, sw)
                         else
                           let sw1 = (if p_ep p \<noteq> []
                                      then fstdelport vlan port (vlan_clr vlan Bctag port sw) else sw);
                               sw2 = vlan_clr vlan Table port sw1
                           in (EOK, sw2\<lparr>hash := hash_delete_port (int port) (hash sw2)\<rparr>))
      | _ \<Rightarrow> (EINVAL, sw))"

section \<open>Queries and start\<close>

definition port_user :: "int \<Rightarrow> switch \<Rightarrow> int" where
  "port_user n sw =
     (if n < 0 \<or> n \<ge> int (numports sw) then - 1
      else case get_port (nat n) sw of None \<Rightarrow> - 1 | Some p \<Rightarrow> p_curuser p)"

definition port_descr :: "int \<Rightarrow> int \<Rightarrow> switch \<Rightarrow> string option" where
  "port_descr n epn sw =
     (if n < 0 \<or> n \<ge> int (numports sw) then None
      else case get_port (nat n) sw of
             None \<Rightarrow> None
           | Some p \<Rightarrow> (case drop (nat epn) (p_ep p) of [] \<Rightarrow> None | e # _ \<Rightarrow> ep_descr e))"

text \<open>\<open>None\<close>: the switch exits.\<close>

definition port_init :: "bool \<Rightarrow> (vfield \<Rightarrow> bool) \<Rightarrow> nat \<Rightarrow> int \<Rightarrow> switch \<Rightarrow> switch option" where
  "port_init mem memv memfst initnumports sw =
     (if initnumports \<le> 0 then None
      else if \<not> mem then None
      else case vlancreate_nocheck memv memfst 0
                  (sw\<lparr>numports := nat initnumports, portv := replicate (nat initnumports) None,
                      validvlan := bac_alloc NUMOFVLAN\<rparr>) of
             (rv, sw1) \<Rightarrow> if rv \<noteq> EOK then None else Some sw1)"

end
