(* ===== verification/Invariant.thy ===== *)
theory Invariant
  imports Port
begin

text \<open>
  The invariant of the switch. \<open>struct_ok\<close> is what every function keeps at every moment: the
  arrays have the right size, the sets hold existing ports, the MAC table is well formed, no
  invalid access has happened. \<open>stp_rel\<close> is what the spanning-tree code may change.
  \<open>switch_wf\<close> adds what holds between two operations: which ports forward in which VLAN and
  which entries the MAC table may hold.
\<close>

section \<open>Views of the state\<close>

definition pshape :: "port \<Rightarrow> endpoint list \<times> string option \<times> nat" where
  "pshape p = (p_ep p, p_ms p, p_vlanuntag p)"

definition pview :: "switch \<Rightarrow> nat \<Rightarrow> (endpoint list \<times> string option \<times> nat) option" where
  "pview sw i = map_option pshape (get_port i sw)"

definition active :: "switch \<Rightarrow> nat \<Rightarrow> bool" where
  "active sw i \<longleftrightarrow> (\<exists>p. get_port i sw = Some p \<and> p_ep p \<noteq> [])"

definition untag_of :: "switch \<Rightarrow> nat \<Rightarrow> nat" where
  "untag_of sw i = (case get_port i sw of None \<Rightarrow> NOVLAN | Some p \<Rightarrow> p_vlanuntag p)"

definition valid :: "switch \<Rightarrow> nat \<Rightarrow> bool" where
  "valid sw v \<longleftrightarrow> v < NUMOFVLAN \<and> bac_check (validvlan sw) v"

definition member :: "switch \<Rightarrow> nat \<Rightarrow> nat \<Rightarrow> bool" where
  "member sw v i \<longleftrightarrow> fst_check sw v Untag i \<or> fst_check sw v Tagged i"

lemma pview_active: "active sw i \<longleftrightarrow> (\<exists>es ms u. pview sw i = Some (es, ms, u) \<and> es \<noteq> [])"
  by (auto simp: pview_def active_def pshape_def)

lemma pview_untag_of: "untag_of sw i = (case pview sw i of None \<Rightarrow> NOVLAN | Some (_, _, u) \<Rightarrow> u)"
  by (simp add: pview_def untag_of_def pshape_def split: option.splits)

lemma pview_None [simp]: "pview sw i = None \<longleftrightarrow> get_port i sw = None"
  by (simp add: pview_def)

lemma pview_cong:
  assumes "pview sw' = pview sw"
  shows "active sw' = active sw" "untag_of sw' = untag_of sw"
    "get_port i sw' = None \<longleftrightarrow> get_port i sw = None"
  using assms by (simp_all add: fun_eq_iff pview_active pview_untag_of flip: pview_None)

section \<open>Primitive updates\<close>

lemma get_port_update [simp]:
  "get_port i (sw\<lparr>vlant := a\<rparr>) = get_port i sw" "get_port i (sw\<lparr>fsttab := b\<rparr>) = get_port i sw"
  "get_port i (sw\<lparr>hash := c\<rparr>) = get_port i sw" "get_port i (sw\<lparr>outs := d\<rparr>) = get_port i sw"
  "get_port i (sw\<lparr>validvlan := e\<rparr>) = get_port i sw" "get_port i (sw\<lparr>fault := f\<rparr>) = get_port i sw"
  "get_port i (sw\<lparr>timers := g\<rparr>) = get_port i sw" "get_port i (sw\<lparr>fst_pflag := h\<rparr>) = get_port i sw"
  "get_port i (sw\<lparr>pflag := h\<rparr>) = get_port i sw"
  by (simp_all add: get_port_def)

lemma fst_bits_update [simp]:
  "fst_bits (sw\<lparr>vlant := a\<rparr>) = fst_bits sw" "fst_bits (sw\<lparr>portv := b\<rparr>) = fst_bits sw"
  "fst_bits (sw\<lparr>hash := c\<rparr>) = fst_bits sw" "fst_bits (sw\<lparr>outs := d\<rparr>) = fst_bits sw"
  "fst_bits (sw\<lparr>validvlan := e\<rparr>) = fst_bits sw" "fst_bits (sw\<lparr>fault := f\<rparr>) = fst_bits sw"
  by (simp_all add: fst_bits_def fun_eq_iff)

lemma get_port_list_update:
  "get_port j (sw\<lparr>portv := (portv sw)[i := x]\<rparr>) =
     (if i = j \<and> i < length (portv sw) then x else get_port j sw)"
  by (simp add: get_port_def)

lemma get_port_Some_length: "get_port i sw = Some p \<Longrightarrow> i < length (portv sw)"
  by (simp add: get_port_def split: if_splits)

lemma get_port_update_id: "get_port i sw = Some p \<Longrightarrow> (portv sw)[i := Some p] = portv sw"
  by (metis get_port_def list_update_id option.distinct(1))

lemma upd_port_Some:
  "get_port i sw = Some p \<Longrightarrow> upd_port i f sw = sw\<lparr>portv := (portv sw)[i := Some (f p)]\<rparr>"
  by (simp add: upd_port_def)

lemma get_port_upd_port:
  "get_port i sw = Some p \<Longrightarrow> get_port j (upd_port i f sw) = (if j = i then Some (f p) else get_port j sw)"
  by (auto simp: upd_port_Some get_port_list_update dest: get_port_Some_length)

lemma pview_upd_port:
  "get_port i sw = Some p \<Longrightarrow> pview (upd_port i f sw) = (pview sw)(i \<mapsto> pshape (f p))"
  by (simp add: fun_eq_iff pview_def get_port_upd_port)

lemma pview_upd_port_same:
  "get_port i sw = Some p \<Longrightarrow> pshape (f p) = pshape p \<Longrightarrow> pview (upd_port i f sw) = pview sw"
  by (simp add: fun_eq_iff pview_def get_port_upd_port)

lemma vlan_set_eq:
  "ba_cap (vlant sw v f) i \<Longrightarrow>
     vlan_set v f i sw = sw\<lparr>vlant := (vlant sw)(v := (vlant sw v)(f := ba_set (vlant sw v f) i))\<rparr>"
  by (simp add: vlan_set_def)

lemma vlan_clr_eq:
  "ba_cap (vlant sw v f) i \<Longrightarrow>
     vlan_clr v f i sw = sw\<lparr>vlant := (vlant sw)(v := (vlant sw v)(f := ba_clr (vlant sw v f) i))\<rparr>"
  by (simp add: vlan_clr_def)

lemma fst_bits_Some: "fsttab sw v = Some w \<Longrightarrow> fst_bits sw v = v_bits w"
  by (simp add: fst_bits_def fun_eq_iff)

lemma fst_bits_upd_fst:
  "fsttab sw v = Some w \<Longrightarrow> fst_bits (upd_fst v f sw) = (fst_bits sw)(v := v_bits (f w))"
  by (simp add: fun_eq_iff fst_bits_def upd_fst_def)


lemma fst_set_eq:
  "fsttab sw v = Some w \<Longrightarrow> ba_cap (v_bits w fl) i \<Longrightarrow>
     fst_set v fl i sw = sw\<lparr>fsttab := (fsttab sw)(v \<mapsto> w\<lparr>v_bits := (v_bits w)(fl := ba_set (v_bits w fl) i)\<rparr>)\<rparr>"
  by (simp add: fst_set_def fst_bits_Some upd_fst_def)

lemma fst_clr_eq:
  "fsttab sw v = Some w \<Longrightarrow> ba_cap (v_bits w fl) i \<Longrightarrow>
     fst_clr v fl i sw = sw\<lparr>fsttab := (fsttab sw)(v \<mapsto> w\<lparr>v_bits := (v_bits w)(fl := ba_clr (v_bits w fl) i)\<rparr>)\<rparr>"
  by (simp add: fst_clr_def fst_bits_Some upd_fst_def)

section \<open>The structural invariant\<close>

definition arrays_ok :: "switch \<Rightarrow> bool" where
  "arrays_ok sw \<longleftrightarrow>
     (\<forall>v f. vlant sw v f = [] \<or> length (vlant sw v f) = WORDSIZEROUND (numports sw)) \<and>
     (\<forall>v f. fsttab sw v \<noteq> None \<longrightarrow> length (fst_bits sw v f) = WORDSIZEROUND (numports sw)) \<and>
     (\<forall>v. valid sw v \<longrightarrow> fsttab sw v \<noteq> None \<and> (\<forall>f. length (vlant sw v f) = WORDSIZEROUND (numports sw))) \<and>
     (\<forall>v f. NUMOFVLAN \<le> v \<longrightarrow> vlant sw v f = [])"

definition ports_ok :: "switch \<Rightarrow> bool" where
  "ports_ok sw \<longleftrightarrow> (\<forall>i es ms u. pview sw i = Some (es, ms, u) \<longrightarrow>
     (es \<noteq> [] \<longrightarrow> ms \<noteq> None) \<and> (\<forall>e \<in> set es. ep_port e = i))"

definition sets_ok :: "switch \<Rightarrow> bool" where
  "sets_ok sw \<longleftrightarrow>
     (\<forall>v i. vlan_check sw v Table i \<longrightarrow> valid sw v \<and> pview sw i \<noteq> None) \<and>
     (\<forall>v i. member sw v i \<longrightarrow> pview sw i \<noteq> None) \<and>
     (\<forall>v i. fst_check sw v Backup i \<longrightarrow> member sw v i)"

definition struct_ok :: "switch \<Rightarrow> bool" where
  "struct_ok sw \<longleftrightarrow>
     \<not> fault sw \<and> length (portv sw) = numports sw \<and> fst_numports sw = numports sw \<and>
     bac_wf (validvlan sw) NUMOFVLAN \<and> \<not> bac_check (validvlan sw) NOVLAN \<and>
     arrays_ok sw \<and> ports_ok sw \<and> sets_ok sw \<and> hash_wf (hash sw) \<and> 0 < numports sw"

lemma struct_okD:
  assumes "struct_ok sw"
  shows "\<not> fault sw" "length (portv sw) = numports sw" "fst_numports sw = numports sw"
    "bac_wf (validvlan sw) NUMOFVLAN" "\<not> bac_check (validvlan sw) NOVLAN"
    "arrays_ok sw" "ports_ok sw" "sets_ok sw" "hash_wf (hash sw)" "0 < numports sw"
  using assms by (simp_all add: struct_ok_def)

lemma struct_cap:
  assumes "struct_ok sw" and "i < numports sw"
  shows "valid sw v \<Longrightarrow> ba_cap (vlant sw v f) i"
    and "fsttab sw v \<noteq> None \<Longrightarrow> ba_cap (fst_bits sw v fl) i"
  using struct_okD(6) [OF assms(1)] assms(2) by (auto simp: arrays_ok_def intro: ba_cap_length)

lemma struct_valid_fst: "struct_ok sw \<Longrightarrow> valid sw v \<Longrightarrow> fsttab sw v \<noteq> None"
  using struct_okD(6) [of sw] by (simp add: arrays_ok_def)

lemma struct_pview_less: "struct_ok sw \<Longrightarrow> pview sw i \<noteq> None \<Longrightarrow> i < numports sw"
  using struct_okD(2) [of sw] by (auto simp: dest: get_port_Some_length)

lemma struct_member_less: "struct_ok sw \<Longrightarrow> member sw v i \<Longrightarrow> i < numports sw"
  using struct_okD(8) [of sw] struct_pview_less [of sw i] by (auto simp: sets_ok_def)

text \<open>The VLAN loops visit the valid VLANs.\<close>

definition valid_list :: "switch \<Rightarrow> nat list" where
  "valid_list sw = ba_members (validvlan sw) NUMOFVLAN"

lemma set_valid_list: "struct_ok sw \<Longrightarrow> set (valid_list sw) = {v. valid sw v}"
proof -
  assume "struct_ok sw"
  then have "\<not> ba_check (validvlan sw) 4095"
    using struct_okD(5) by (simp add: bac_check_def NOVLAN_def)
  then have "v < 4096 \<and> ba_check (validvlan sw) v \<longleftrightarrow> v < 4095 \<and> ba_check (validvlan sw) v" for v
    by (cases "v = 4095") auto
  then show ?thesis
    by (simp add: valid_list_def set_ba_members valid_def bac_check_def NUMOFVLAN_def WORDSIZEROUND_def)
qed

lemma forall_vlans_fold: "struct_ok sw \<Longrightarrow> forall_vlans f sw = fold f (valid_list sw) sw"
  by (simp add: forall_vlans_def bac_FORALL_fold struct_okD(4) valid_list_def)

section \<open>What the spanning tree changes\<close>

definition stp_frame :: "switch \<Rightarrow> switch \<Rightarrow> bool" where
  "stp_frame sw sw' \<longleftrightarrow>
     numports sw' = numports sw \<and> fst_numports sw' = fst_numports sw \<and> pview sw' = pview sw \<and>
     validvlan sw' = validvlan sw \<and>
     (\<forall>v. vlant sw' v Table = vlant sw v Table) \<and>
     (\<forall>v. fst_bits sw' v Untag = fst_bits sw v Untag \<and> fst_bits sw' v Tagged = fst_bits sw v Tagged) \<and>
     (\<forall>v f. length (vlant sw' v f) = length (vlant sw v f)) \<and>
     (\<forall>v f. length (fst_bits sw' v f) = length (fst_bits sw v f)) \<and>
     (\<forall>v. fsttab sw' v = None \<longleftrightarrow> fsttab sw v = None)"

definition stp_grow :: "nat set \<Rightarrow> switch \<Rightarrow> switch \<Rightarrow> bool" where
  "stp_grow V sw sw' \<longleftrightarrow>
     (\<forall>d x. hash_look (hash sw') d = Some x \<longrightarrow> hash_look (hash sw) d = Some x) \<and>
     (\<forall>v i. fst_check sw' v Backup i \<longrightarrow> fst_check sw v Backup i \<or> member sw v i) \<and>
     (\<forall>v i. vlan_check sw' v Bcuntag i \<longrightarrow>
        vlan_check sw v Bcuntag i \<or> member sw v i \<and> vlan_check sw v Table i \<and> untag_of sw i = v) \<and>
     (\<forall>v i. vlan_check sw' v Bctag i \<longrightarrow>
        vlan_check sw v Bctag i \<or> member sw v i \<and> vlan_check sw v Table i \<and> untag_of sw i \<noteq> v) \<and>
     (\<forall>v i. vlan_check sw' v Notlearning i \<longrightarrow> vlan_check sw v Notlearning i \<or> v \<in> V)"

definition stp_rel :: "nat set \<Rightarrow> switch \<Rightarrow> switch \<Rightarrow> bool" where
  "stp_rel V sw sw' \<longleftrightarrow> stp_frame sw sw' \<and> stp_grow V sw sw'"

lemma stp_frame_simps:
  assumes "stp_frame sw sw'"
  shows "numports sw' = numports sw" "fst_numports sw' = fst_numports sw" "pview sw' = pview sw"
    "validvlan sw' = validvlan sw" "valid sw' = valid sw" "active sw' = active sw" "untag_of sw' = untag_of sw"
    "vlan_check sw' v Table = vlan_check sw v Table" "member sw' = member sw"
    "fst_check sw' v Untag = fst_check sw v Untag" "fst_check sw' v Tagged = fst_check sw v Tagged"
    "fsttab sw' v = None \<longleftrightarrow> fsttab sw v = None"
    "length (vlant sw' v f) = length (vlant sw v f)" "length (fst_bits sw' v fl) = length (fst_bits sw v fl)"
  using assms pview_cong [of sw' sw]
  by (simp_all add: stp_frame_def fun_eq_iff valid_def vlan_check_def member_def fst_check_def)

lemma stp_rel_simps:
  assumes "stp_rel V sw sw'"
  shows "numports sw' = numports sw" "fst_numports sw' = fst_numports sw" "pview sw' = pview sw"
    "validvlan sw' = validvlan sw" "valid sw' = valid sw" "active sw' = active sw" "untag_of sw' = untag_of sw"
    "vlan_check sw' v Table = vlan_check sw v Table" "member sw' = member sw"
    "fst_check sw' v Untag = fst_check sw v Untag" "fst_check sw' v Tagged = fst_check sw v Tagged"
    "fsttab sw' v = None \<longleftrightarrow> fsttab sw v = None"
  using assms by (simp_all add: stp_rel_def stp_frame_simps [of sw sw'])

lemma stp_rel_refl [simp]: "stp_rel V sw sw"
  by (simp add: stp_rel_def stp_frame_def stp_grow_def)

lemma stp_grow_trans:
  assumes "stp_frame sw sw1" and "stp_grow V sw sw1" and "stp_grow V sw1 sw2"
  shows "stp_grow V sw sw2"
  using assms(2,3) unfolding stp_grow_def stp_frame_simps [OF assms(1)]
  by (elim conjE, intro conjI) blast+

lemma stp_rel_trans [trans]: "stp_rel V sw sw1 \<Longrightarrow> stp_rel V sw1 sw2 \<Longrightarrow> stp_rel V sw sw2"
  unfolding stp_rel_def using stp_grow_trans by (auto simp: stp_frame_def)

lemma stp_rel_mono: "stp_rel V sw sw' \<Longrightarrow> V \<subseteq> W \<Longrightarrow> stp_rel W sw sw'"
  unfolding stp_rel_def stp_grow_def by blast

text \<open>A step of the spanning tree: it keeps the structure and changes only what it may.\<close>

definition stp_ok :: "nat set \<Rightarrow> switch \<Rightarrow> switch \<Rightarrow> bool" where
  "stp_ok V sw sw' \<longleftrightarrow> struct_ok sw' \<and> stp_rel V sw sw'"

lemma stp_ok_refl: "struct_ok sw \<Longrightarrow> stp_ok V sw sw"
  by (simp add: stp_ok_def)

lemma stp_ok_trans [trans]: "stp_ok V sw sw1 \<Longrightarrow> stp_ok V sw1 sw2 \<Longrightarrow> stp_ok V sw sw2"
  unfolding stp_ok_def using stp_rel_trans by blast

lemma stp_ok_mono: "stp_ok V sw sw' \<Longrightarrow> V \<subseteq> W \<Longrightarrow> stp_ok W sw sw'"
  unfolding stp_ok_def using stp_rel_mono by blast

lemma stp_okD: "stp_ok V sw sw' \<Longrightarrow> struct_ok sw'" "stp_ok V sw sw' \<Longrightarrow> stp_rel V sw sw'"
  by (simp_all add: stp_ok_def)

lemmas stp_ok_simps = stp_rel_simps [OF stp_okD(2)]

text \<open>
  With the frame unchanged, the structure is kept if no fault appears, the MAC table stays well
  formed and every backup port is a member.
\<close>

lemma stp_okI:
  assumes "struct_ok sw" and rel: "stp_rel V sw sw'" and "\<not> fault sw'" and "hash_wf (hash sw')"
    and "length (portv sw') = length (portv sw)"
  shows "stp_ok V sw sw'"
proof -
  note fr = rel [unfolded stp_rel_def, THEN conjunct1]
  note fs = stp_frame_simps [OF fr]
  have "arrays_ok sw'"
    using struct_okD(6) [OF assms(1)] unfolding arrays_ok_def fs
    by (metis fs(13) length_0_conv)
  moreover have "ports_ok sw'"
    using struct_okD(7) [OF assms(1)] unfolding ports_ok_def fs .
  moreover have "sets_ok sw'"
    using struct_okD(8) [OF assms(1)] rel unfolding sets_ok_def fs stp_rel_def stp_grow_def by blast
  ultimately show ?thesis
    using assms struct_okD [OF assms(1)] fs by (simp add: stp_ok_def struct_ok_def)
qed

section \<open>The steps of the spanning tree\<close>

lemma stp_rel_same:
  assumes "numports sw' = numports sw" "fst_numports sw' = fst_numports sw" "pview sw' = pview sw"
    "validvlan sw' = validvlan sw" "vlant sw' = vlant sw" "fst_bits sw' = fst_bits sw"
    "\<And>v. fsttab sw' v = None \<longleftrightarrow> fsttab sw v = None" "hash sw' = hash sw"
  shows "stp_rel V sw sw'"
  using assms pview_cong(2) [OF assms(3)]
  by (simp add: stp_rel_def stp_frame_def stp_grow_def vlan_check_def fst_check_def)

lemma struct_portD:
  assumes "struct_ok sw" and "get_port i sw = Some p"
  shows "p_ep p \<noteq> [] \<Longrightarrow> p_ms p \<noteq> None" and "e \<in> set (p_ep p) \<Longrightarrow> ep_port e = i"
proof -
  have "pview sw i = Some (p_ep p, p_ms p, p_vlanuntag p)"
    using assms(2) by (simp add: pview_def pshape_def)
  with struct_okD(7) [OF assms(1)]
  have "(p_ep p \<noteq> [] \<longrightarrow> p_ms p \<noteq> None) \<and> (\<forall>e \<in> set (p_ep p). ep_port e = i)"
    unfolding ports_ok_def by blast
  then show "p_ep p \<noteq> [] \<Longrightarrow> p_ms p \<noteq> None" and "e \<in> set (p_ep p) \<Longrightarrow> ep_port e = i" by auto
qed

lemma SEND_PACKET_PORT_eq:
  assumes "struct_ok sw" and p: "get_port i sw = Some p"
  shows "\<exists>evs p'. snd (SEND_PACKET_PORT i buf len sw) =
      sw\<lparr>portv := (portv sw)[i := Some p'], outs := outs sw @ evs\<rparr> \<and> pshape p' = pshape p"
proof -
  obtain ok len' where pf: "PACKETFILTER (pkt_out sw) i buf len = (ok, len')" by force
  let ?p = "p\<lparr>p_pktsout := p_pktsout p + 1, p_bytesout := p_bytesout p + len'\<rparr>"
  have sh: "pshape ?p = pshape p" by (simp add: pshape_def)
  note same = get_port_update_id [OF p]
  show ?thesis
  proof (cases ok)
    case False
    with pf same show ?thesis
      by (intro exI [of _ "[]"] exI [of _ p]) (simp add: SEND_PACKET_PORT_def)
  next
    case True
    show ?thesis
    proof (cases "p_ms p")
      case None
      then have "p_ep p = []" using struct_portD(1) [OF assms] by blast
      with None True pf p sh show ?thesis
        by (intro exI [of _ "[]"] exI [of _ ?p]) (simp add: SEND_PACKET_PORT_def upd_port_Some Let_def)
    next
      case (Some m)
      with True pf p sh show ?thesis
        by (intro exI [of _ "map (\<lambda>e. Sent m (ep_fd_ctl e) (ep_fd_data e) (take (nat len') buf) (ep_port e)) (p_ep p)"]
            exI [of _ ?p]) (simp add: SEND_PACKET_PORT_def upd_port_Some Let_def)
    qed
  qed
qed

lemma struct_pview_Some:
  "pview sw i \<noteq> None \<Longrightarrow> \<exists>p. get_port i sw = Some p"
  by (cases "get_port i sw") (auto simp: pview_def)

lemma SEND_PACKET_PORT_stp [wf_intros]:
  assumes "struct_ok sw" and "pview sw i \<noteq> None"
  shows "stp_ok V sw (snd (SEND_PACKET_PORT i buf len sw))"
proof -
  obtain p where p: "get_port i sw = Some p" using struct_pview_Some [OF assms(2)] by blast
  obtain evs p' where eq: "snd (SEND_PACKET_PORT i buf len sw) =
      sw\<lparr>portv := (portv sw)[i := Some p'], outs := outs sw @ evs\<rparr>" and sh: "pshape p' = pshape p"
    using SEND_PACKET_PORT_eq [OF assms(1) p] by blast
  have "pview (sw\<lparr>portv := (portv sw)[i := Some p'], outs := outs sw @ evs\<rparr>) = pview sw"
    using p sh by (auto simp: fun_eq_iff pview_def get_port_list_update)
  then show ?thesis
    unfolding eq
    by (intro stp_okI stp_rel_same assms(1)) (simp_all add: struct_okD [OF assms(1)])
qed

lemma port_send_packet_stp [wf_intros]:
  "struct_ok sw \<Longrightarrow> pview sw i \<noteq> None \<Longrightarrow> stp_ok V sw (port_send_packet i packet sw)"
  unfolding port_send_packet_def by (rule SEND_PACKET_PORT_stp)

lemma upd_fst_stp [wf_intros]:
  assumes "struct_ok sw" and "fsttab sw v \<noteq> None" and "\<And>w. v_bits (f w) = v_bits w"
  shows "stp_ok V sw (upd_fst v f sw)"
proof -
  obtain w where w: "fsttab sw v = Some w" using assms(2) by blast
  have "pview (upd_fst v f sw) = pview sw" by (simp add: w upd_fst_def fun_eq_iff pview_def)
  moreover have "fst_bits (upd_fst v f sw) = fst_bits sw"
    using assms(3) w by (simp add: fst_bits_upd_fst fst_bits_Some fun_upd_idem)
  ultimately show ?thesis
    using struct_okD [OF assms(1)] w
    by (intro stp_okI stp_rel_same assms(1)) (auto simp: upd_fst_def)
qed

lemma purge_stp:
  assumes "struct_ok sw"
  shows "stp_ok V sw (sw\<lparr>hash := purge P (hash sw)\<rparr>)"
proof -
  have look: "hash_look (purge P (hash sw)) d = Some x \<Longrightarrow> hash_look (hash sw) d = Some x" for d x
    using hash.look_forget [OF struct_okD(9) [OF assms], of P d "fst x" "snd x"] by simp
  let ?sw = "sw\<lparr>hash := purge P (hash sw)\<rparr>"
  have "stp_frame sw ?sw" by (simp add: stp_frame_def fun_eq_iff pview_def)
  moreover have "stp_grow V sw ?sw"
    using look by (simp add: stp_grow_def vlan_check_def fst_check_def)
  ultimately show ?thesis
    using struct_okD [OF assms] hash.inv_forget [OF struct_okD(9) [OF assms]]
    by (intro stp_okI assms) (simp_all add: stp_rel_def)
qed

text \<open>Updates of the VLAN table.\<close>

lemma vlan_set_simps:
  assumes "ba_cap (vlant sw v f) i"
  shows "vlan_check (vlan_set v f i sw) v' f' j \<longleftrightarrow> (v' = v \<and> f' = f \<and> j = i) \<or> vlan_check sw v' f' j"
    and "length (vlant (vlan_set v f i sw) v' f') = length (vlant sw v' f')"
    and "ba_cap (vlant (vlan_set v f i sw) v' f') j = ba_cap (vlant sw v' f') j"
    and "\<exists>t. vlan_set v f i sw = sw\<lparr>vlant := t\<rparr>"
  using assms by (auto simp: vlan_set_def vlan_check_def ba.check_insert)

lemma vlan_clr_simps:
  assumes "ba_cap (vlant sw v f) i"
  shows "vlan_check (vlan_clr v f i sw) v' f' j \<longleftrightarrow> \<not> (v' = v \<and> f' = f \<and> j = i) \<and> vlan_check sw v' f' j"
    and "length (vlant (vlan_clr v f i sw) v' f') = length (vlant sw v' f')"
    and "ba_cap (vlant (vlan_clr v f i sw) v' f') j = ba_cap (vlant sw v' f') j"
    and "\<exists>t. vlan_clr v f i sw = sw\<lparr>vlant := t\<rparr>"
  using assms by (auto simp: vlan_clr_def vlan_check_def ba.check_remove)

lemma vlant_stp:
  assumes "struct_ok sw" and eq: "sw' = sw\<lparr>vlant := t\<rparr>"
    and "\<And>v. t v Table = vlant sw v Table" and "\<And>v f. length (t v f) = length (vlant sw v f)"
    and "\<And>v i. vlan_check sw' v Bcuntag i \<Longrightarrow>
        vlan_check sw v Bcuntag i \<or> member sw v i \<and> vlan_check sw v Table i \<and> untag_of sw i = v"
    and "\<And>v i. vlan_check sw' v Bctag i \<Longrightarrow>
        vlan_check sw v Bctag i \<or> member sw v i \<and> vlan_check sw v Table i \<and> untag_of sw i \<noteq> v"
    and "\<And>v i. vlan_check sw' v Notlearning i \<Longrightarrow> vlan_check sw v Notlearning i \<or> v \<in> V"
  shows "stp_ok V sw sw'"
proof -
  have "stp_frame sw sw'" using assms(3,4) by (simp add: eq stp_frame_def fun_eq_iff pview_def)
  moreover have "stp_grow V sw sw'"
    unfolding stp_grow_def using assms(5-7) by (simp add: eq fst_check_def)
  ultimately show ?thesis
    using struct_okD [OF assms(1)] by (intro stp_okI assms) (simp_all add: stp_rel_def eq)
qed

text \<open>The effect of \<open>port_set_status\<close>.\<close>

lemma struct_tableD:
  assumes "struct_ok sw" and "vlan_check sw v Table i"
  shows "valid sw v" and "i < numports sw" and "\<exists>p. get_port i sw = Some p" and "ba_cap (vlant sw v f) i"
proof -
  from assms show v: "valid sw v" and pv: "\<exists>p. get_port i sw = Some p"
    using struct_okD(8) [of sw] struct_pview_Some [of sw i] unfolding sets_ok_def by blast+
  then show i: "i < numports sw" using struct_pview_less [OF assms(1), of i] by auto
  show "ba_cap (vlant sw v f) i" by (rule struct_cap(1) [OF assms(1) i v])
qed

definition status_bits :: "switch \<Rightarrow> nat \<Rightarrow> nat \<Rightarrow> status \<Rightarrow> vfield \<Rightarrow> bitarray" where
  "status_bits sw v i st =
     (case st of
        DISCARDING \<Rightarrow> (vlant sw v)(Notlearning := ba_set (vlant sw v Notlearning) i,
           Bctag := ba_clr (vlant sw v Bctag) i, Bcuntag := ba_clr (vlant sw v Bcuntag) i)
      | LEARNING \<Rightarrow> (vlant sw v)(Notlearning := ba_clr (vlant sw v Notlearning) i,
           Bctag := ba_clr (vlant sw v Bctag) i, Bcuntag := ba_clr (vlant sw v Bcuntag) i)
      | FORWARDING \<Rightarrow>
          (let t = (vlant sw v)(Notlearning := ba_clr (vlant sw v Notlearning) i)
           in if untag_of sw i = v then t(Bcuntag := ba_set (vlant sw v Bcuntag) i)
              else t(Bctag := ba_set (vlant sw v Bctag) i)))"

lemma port_set_status_eq:
  assumes "struct_ok sw" and "vlan_check sw v Table i"
  shows "port_set_status i v st sw = sw\<lparr>vlant := (vlant sw)(v := status_bits sw v i st)\<rparr>"
proof -
  obtain p where p: "get_port i sw = Some p" using struct_tableD(3) [OF assms] by blast
  have untag: "untag_of sw i = p_vlanuntag p" using p by (simp add: untag_of_def)
  show ?thesis
    using assms(2) p struct_tableD(4) [OF assms]
    by (cases st) (auto simp: port_set_status_def status_bits_def vlan_set_eq vlan_clr_eq untag Let_def
        fun_upd_twist)
qed

lemma port_set_status_check:
  assumes "struct_ok sw" and "vlan_check sw v Table i"
  shows "vlan_check (port_set_status i v st sw) v' f j \<longleftrightarrow>
    (if v' = v \<and> j = i
     then (case f of
             Table \<Rightarrow> True
           | Notlearning \<Rightarrow> st = DISCARDING
           | Bctag \<Rightarrow> st = FORWARDING \<and> (untag_of sw i \<noteq> v \<or> vlan_check sw v Bctag i)
           | Bcuntag \<Rightarrow> st = FORWARDING \<and> (untag_of sw i = v \<or> vlan_check sw v Bcuntag i))
     else vlan_check sw v' f j)"
  using assms(2) struct_tableD(4) [OF assms]
  unfolding port_set_status_eq [OF assms]
  by (cases f; cases st)
    (auto simp: vlan_check_def status_bits_def ba.check_insert ba.check_remove Let_def)

lemma port_set_status_stp [wf_intros]:
  assumes "struct_ok sw" and "member sw v i" and "st = DISCARDING \<Longrightarrow> v \<in> V"
  shows "stp_ok V sw (port_set_status i v st sw)"
proof (cases "vlan_check sw v Table i")
  case False
  then show ?thesis using stp_ok_refl [OF assms(1)] by (simp add: port_set_status_def)
next
  case True
  note check = port_set_status_check [OF assms(1) True, of st]
  show ?thesis
  proof (rule vlant_stp [OF assms(1) port_set_status_eq [OF assms(1) True]])
    show "vlan_check (port_set_status i v st sw) v' Bcuntag j \<Longrightarrow>
        vlan_check sw v' Bcuntag j \<or> member sw v' j \<and> vlan_check sw v' Table j \<and> untag_of sw j = v'" for v' j
      using assms(2) True by (auto simp: check split: if_splits)
    show "vlan_check (port_set_status i v st sw) v' Bctag j \<Longrightarrow>
        vlan_check sw v' Bctag j \<or> member sw v' j \<and> vlan_check sw v' Table j \<and> untag_of sw j \<noteq> v'" for v' j
      using assms(2) True by (auto simp: check split: if_splits)
    show "vlan_check (port_set_status i v st sw) v' Notlearning j \<Longrightarrow>
        vlan_check sw v' Notlearning j \<or> v' \<in> V" for v' j
      using assms(3) by (auto simp: check split: if_splits)
  qed (auto simp: status_bits_def Let_def split: status.splits)
qed

text \<open>Updates of the bits of the spanning tree.\<close>

lemma fst_set_simps:
  assumes "ba_cap (fst_bits sw v fl) i"
  shows "fst_check (fst_set v fl i sw) v' fl' j \<longleftrightarrow> (v' = v \<and> fl' = fl \<and> j = i) \<or> fst_check sw v' fl' j"
    and "length (fst_bits (fst_set v fl i sw) v' fl') = length (fst_bits sw v' fl')"
    and "\<exists>w. fst_set v fl i sw = sw\<lparr>fsttab := (fsttab sw)(v \<mapsto> w)\<rparr>"
proof -
  obtain w where w: "fsttab sw v = Some w"
    using assms by (cases "fsttab sw v") (auto simp: fst_bits_def ba_cap_def)
  show "fst_check (fst_set v fl i sw) v' fl' j \<longleftrightarrow> (v' = v \<and> fl' = fl \<and> j = i) \<or> fst_check sw v' fl' j"
    and "length (fst_bits (fst_set v fl i sw) v' fl') = length (fst_bits sw v' fl')"
    and "\<exists>w. fst_set v fl i sw = sw\<lparr>fsttab := (fsttab sw)(v \<mapsto> w)\<rparr>"
    using assms w by (auto simp: fst_set_eq fst_bits_def fst_check_def ba.check_insert)
qed

lemma fst_clr_simps:
  assumes "ba_cap (fst_bits sw v fl) i"
  shows "fst_check (fst_clr v fl i sw) v' fl' j \<longleftrightarrow> \<not> (v' = v \<and> fl' = fl \<and> j = i) \<and> fst_check sw v' fl' j"
    and "length (fst_bits (fst_clr v fl i sw) v' fl') = length (fst_bits sw v' fl')"
    and "\<exists>w. fst_clr v fl i sw = sw\<lparr>fsttab := (fsttab sw)(v \<mapsto> w)\<rparr>"
proof -
  obtain w where w: "fsttab sw v = Some w"
    using assms by (cases "fsttab sw v") (auto simp: fst_bits_def ba_cap_def)
  show "fst_check (fst_clr v fl i sw) v' fl' j \<longleftrightarrow> \<not> (v' = v \<and> fl' = fl \<and> j = i) \<and> fst_check sw v' fl' j"
    and "length (fst_bits (fst_clr v fl i sw) v' fl') = length (fst_bits sw v' fl')"
    and "\<exists>w. fst_clr v fl i sw = sw\<lparr>fsttab := (fsttab sw)(v \<mapsto> w)\<rparr>"
    using assms w by (auto simp: fst_clr_eq fst_bits_def fst_check_def ba.check_remove)
qed

lemma fsttab_stp:
  assumes "struct_ok sw" and eq: "sw' = sw\<lparr>fsttab := (fsttab sw)(v \<mapsto> w)\<rparr>" and "fsttab sw v \<noteq> None"
    and "fst_bits sw' v Untag = fst_bits sw v Untag" "fst_bits sw' v Tagged = fst_bits sw v Tagged"
    and "\<And>fl. length (fst_bits sw' v fl) = length (fst_bits sw v fl)"
    and "\<And>i. fst_check sw' v Backup i \<Longrightarrow> fst_check sw v Backup i \<or> member sw v i"
  shows "stp_ok V sw sw'"
proof -
  have other: "fst_bits sw' v' = fst_bits sw v'" if "v' \<noteq> v" for v'
    using that by (simp add: eq fst_bits_def fun_eq_iff)
  have bits: "fst_bits sw' v' Untag = fst_bits sw v' Untag" "fst_bits sw' v' Tagged = fst_bits sw v' Tagged"
    "length (fst_bits sw' v' fl) = length (fst_bits sw v' fl)" for v' fl
    using other [of v'] assms(4-6) by (cases "v' = v"; simp)+
  then have "stp_frame sw sw'"
    using assms(3) by (simp add: stp_frame_def) (simp add: eq fun_eq_iff pview_def)
  moreover have "fst_check sw' v' Backup i \<Longrightarrow> fst_check sw v' Backup i \<or> member sw v' i" for v' i
    using assms(7) other [of v'] by (cases "v' = v") (auto simp: fst_check_def)
  then have "stp_grow V sw sw'"
    by (auto simp: stp_grow_def) (auto simp: eq vlan_check_def)
  ultimately show ?thesis
    using struct_okD [OF assms(1)] by (intro stp_okI assms) (simp_all add: stp_rel_def eq)
qed

lemma rcvhist_neq [simp]: "rcvhist k \<noteq> Untag" "rcvhist k \<noteq> Tagged" "rcvhist k \<noteq> Backup"
    "Untag \<noteq> rcvhist k" "Tagged \<noteq> rcvhist k" "Backup \<noteq> rcvhist k"
  by (simp_all add: rcvhist_def)

lemma fst_set_bits:
  "ba_cap (fst_bits sw v fl) i \<Longrightarrow>
     fst_bits (fst_set v fl i sw) v' fl' =
       (if v' = v \<and> fl' = fl then ba_set (fst_bits sw v fl) i else fst_bits sw v' fl')"
  by (cases "fsttab sw v") (auto simp: fst_set_eq fst_bits_def ba_cap_def)

lemma fst_clr_bits:
  "ba_cap (fst_bits sw v fl) i \<Longrightarrow>
     fst_bits (fst_clr v fl i sw) v' fl' =
       (if v' = v \<and> fl' = fl then ba_clr (fst_bits sw v fl) i else fst_bits sw v' fl')"
  by (cases "fsttab sw v") (auto simp: fst_clr_eq fst_bits_def ba_cap_def)

lemma fst_set_stp [wf_intros]:
  assumes "struct_ok sw" and "fsttab sw v \<noteq> None" and "i < numports sw"
    and "fl \<noteq> Untag" "fl \<noteq> Tagged" "fl = Backup \<Longrightarrow> member sw v i"
  shows "stp_ok V sw (fst_set v fl i sw)"
proof -
  note cap = struct_cap(2) [OF assms(1,3,2), of fl]
  obtain w where "fst_set v fl i sw = sw\<lparr>fsttab := (fsttab sw)(v \<mapsto> w)\<rparr>"
    using fst_set_simps(3) [OF cap] by blast
  then show ?thesis
    by (rule fsttab_stp [OF assms(1) _ assms(2)])
      (use assms(4-6) in \<open>auto simp: fst_set_bits [OF cap] fst_set_simps [OF cap]\<close>)
qed

lemma fst_clr_stp [wf_intros]:
  assumes "struct_ok sw" and "fsttab sw v \<noteq> None" and "i < numports sw" and "fl \<noteq> Untag" "fl \<noteq> Tagged"
  shows "stp_ok V sw (fst_clr v fl i sw)"
proof -
  note cap = struct_cap(2) [OF assms(1,3,2), of fl]
  obtain w where "fst_clr v fl i sw = sw\<lparr>fsttab := (fsttab sw)(v \<mapsto> w)\<rparr>"
    using fst_clr_simps(3) [OF cap] by blast
  then show ?thesis
    by (rule fsttab_stp [OF assms(1) _ assms(2)])
      (use assms(4-5) in \<open>auto simp: fst_clr_bits [OF cap] fst_clr_simps [OF cap]\<close>)
qed

text \<open>Loops over the members of a VLAN.\<close>

lemma forall_ports_inv:
  assumes sw: "I sw" and v: "fsttab sw0 v \<noteq> None" and n: "n = numports sw0"
    and fl: "fl = Untag \<or> fl = Tagged \<or> fl = Backup" and stp: "\<And>s. I s \<Longrightarrow> stp_ok V sw0 s"
    and step: "\<And>i s. I s \<Longrightarrow> member sw0 v i \<Longrightarrow> I (f i s)"
  shows "I (forall_ports (\<lambda>s. fst_bits s v fl) n f sw)"
proof -
  have "length (fst_bits sw v fl) = WORDSIZEROUND n"
    using struct_okD(6) [OF stp_okD(1) [OF stp [OF sw]]] v stp_ok_simps [OF stp [OF sw]] by (simp add: arrays_ok_def n)
  moreover have "I (ba_FORALL (\<lambda>s. fst_bits s v fl) n f sw)"
  proof (rule ba_FORALL_inv [where I = I and Q = "member sw0 v"])
    fix i s assume s: "I s" and "ba_check (fst_bits s v fl) i"
    then have "fst_check s v fl i" by (simp add: fst_check_def)
    then have "member s v i"
      using fl struct_okD(8) [OF stp_okD(1) [OF stp [OF s]]] by (auto simp: member_def sets_ok_def)
    then show "member sw0 v i" by (simp add: stp_ok_simps [OF stp [OF s]])
  qed (rule step sw; assumption)+
  ultimately show ?thesis by (simp add: forall_ports_def)
qed

lemma forall_ports_stp:
  assumes "stp_ok V sw0 sw" and "fsttab sw0 v \<noteq> None" and "n = numports sw0" and "fl = Untag \<or> fl = Tagged \<or> fl = Backup"
    and "\<And>i s. stp_ok V sw0 s \<Longrightarrow> member sw0 v i \<Longrightarrow> stp_ok V sw0 (f i s)"
  shows "stp_ok V sw0 (forall_ports (\<lambda>s. fst_bits s v fl) n f sw)"
  using forall_ports_inv [where I = "stp_ok V sw0" and V = V] assms by blast

lemma stp_member:
  assumes "stp_ok V sw0 s" and "member sw0 v i"
  shows "pview s i \<noteq> None" "i < numports s" "member s v i"
proof -
  have mem: "member s v i" using assms(2) by (simp add: stp_ok_simps [OF assms(1)])
  then show "pview s i \<noteq> None"
    using struct_okD(8) [OF stp_okD(1) [OF assms(1)]] unfolding sets_ok_def by blast
  show "i < numports s" by (rule struct_member_less [OF stp_okD(1) [OF assms(1)] mem])
  show "member s v i" by (rule mem)
qed

lemma fst_sendbpdu_stp [wf_intros]:
  assumes "struct_ok sw" and "fsttab sw v \<noteq> None"
  shows "stp_ok V sw (fst_sendbpdu v i agr tc tcack sw)"
proof (cases "fst_pflag sw AND FSTP_TAG = 0")
  case True
  then show ?thesis using stp_ok_refl [OF assms(1)] by (simp add: fst_sendbpdu_def)
next
  case False
  obtain w where w: "fsttab sw v = Some w" using assms(2) by blast
  have send: "stp_ok V sw (if fst_check s v fl i then port_send_packet i pkt s else s)"
    if "stp_ok V sw s" and "fl = Untag \<or> fl = Tagged" for s pkt fl
  proof (cases "fst_check s v fl i")
    case True
    then have "member sw v i" using that by (auto simp: member_def stp_ok_simps [OF that(1)])
    then have "stp_ok V s (port_send_packet i pkt s)"
      using stp_okD(1) [OF that(1)] stp_member(1) [OF that(1)] by (blast intro: port_send_packet_stp)
    then show ?thesis using True stp_ok_trans [OF that(1)] by simp
  qed (use that in simp)
  show ?thesis
    using False w send [OF send [OF stp_ok_refl [OF assms(1)]]]
    by (simp add: fst_sendbpdu_def Let_def del: if_split split: if_split_asm)
qed

lemma stp_fst: "stp_ok V sw0 s \<Longrightarrow> fsttab sw0 v \<noteq> None \<Longrightarrow> fsttab s v \<noteq> None"
  by (simp add: stp_ok_simps(12))

text \<open>Chaining one more step after a state reached from \<open>sw0\<close>.\<close>

lemma stp_then:
  assumes "stp_ok V sw0 s" and "struct_ok s \<Longrightarrow> stp_ok V s (g s)"
  shows "stp_ok V sw0 (g s)"
  using assms stp_ok_trans stp_okD(1) by blast

text \<open>Topology changes empty the MAC table of the VLAN.\<close>

definition flushed :: "nat \<Rightarrow> switch \<Rightarrow> bool" where
  "flushed v sw \<longleftrightarrow> (\<forall>d. EMAC2VLAN d = word_of_int (int v) \<longrightarrow> hash_look (hash sw) d = None)"

lemma flushed_stp: "flushed v sw \<Longrightarrow> stp_ok V sw sw' \<Longrightarrow> flushed v sw'"
  unfolding flushed_def stp_ok_def stp_rel_def stp_grow_def by (metis not_None_eq)

lemma topology_change_via:
  assumes "struct_ok sw" and v: "fsttab sw v \<noteq> None"
  shows "\<exists>sw1. stp_ok V sw sw1 \<and> flushed v sw1 \<and> stp_ok V sw1 (topology_change v g sw)"
proof -
  define flood where "flood = (\<lambda>port s. if fst_designated s v port g then fst_sendbpdu v port False True False s else s)"
  define sw0 where "sw0 = upd_fst v (\<lambda>w. w\<lparr>v_tctime := now_u32 sw\<rparr>) sw"
  define sw1 where "sw1 = sw0\<lparr>hash := hash_delete_vlan (int v) (hash sw0)\<rparr>"
  have s0: "stp_ok V sw sw0" unfolding sw0_def by (rule upd_fst_stp [OF assms]) simp
  then have s1: "stp_ok V sw sw1"
    unfolding sw1_def hash_deletes_purge by (rule stp_then) (rule purge_stp)
  note v1 = stp_fst [OF s1 v] and ok1 = stp_okD(1) [OF s1]
  have fl: "flushed v sw1"
    using struct_okD(9) [OF stp_okD(1) [OF s0]]
    by (auto simp: flushed_def sw1_def hash_deletes_purge hash_look_purge split: option.splits)
  have flood: "stp_ok V sw1 (flood i s)" if "stp_ok V sw1 s" for i s
    using that stp_then [OF that, of "fst_sendbpdu v i False True False"]
      fst_sendbpdu_stp [OF _ stp_fst [OF that v1]] by (simp add: flood_def)
  define sw2 where "sw2 = forall_ports (\<lambda>s. fst_bits s v Untag) (fst_numports sw1) flood sw1"
  have s2: "stp_ok V sw1 sw2"
    unfolding sw2_def
    by (rule forall_ports_stp [OF stp_ok_refl [OF ok1] v1]) (simp_all add: struct_okD(3) [OF ok1] flood)
  have "stp_ok V sw1 (forall_ports (\<lambda>s. fst_bits s v Tagged) (fst_numports sw2) flood sw2)"
    by (rule forall_ports_stp [OF s2 v1])
      (simp_all add: struct_okD(3) [OF stp_okD(1) [OF s2]] stp_ok_simps(1) [OF s2] flood)
  moreover have "topology_change v g sw =
      forall_ports (\<lambda>s. fst_bits s v Tagged) (fst_numports sw2) flood sw2"
    by (simp add: topology_change_def Let_def flood_def sw0_def sw1_def sw2_def)
  ultimately show ?thesis using s1 fl by auto
qed

lemma topology_change_stp [wf_intros]:
  "struct_ok sw \<Longrightarrow> fsttab sw v \<noteq> None \<Longrightarrow> stp_ok V sw (topology_change v g sw)"
  using topology_change_via [of sw v V g] stp_ok_trans by blast

lemma topology_change_flushed:
  "struct_ok sw \<Longrightarrow> fsttab sw v \<noteq> None \<Longrightarrow> flushed v (topology_change v g sw)"
  using topology_change_via [of sw v "{}" g] flushed_stp by blast

lemma backup_forward_stp:
  assumes "stp_ok V sw0 s" and v: "fsttab sw0 v \<noteq> None" and mem: "member sw0 v i"
  shows "stp_ok V sw0 (port_set_status i v FORWARDING (fst_clr v Backup i s))"
proof -
  have c: "stp_ok V sw0 (fst_clr v Backup i s)"
    using stp_member(2) [OF assms(1) mem] stp_fst [OF assms(1) v]
    by (intro stp_then [OF assms(1)] fst_clr_stp) auto
  show ?thesis
    using stp_member(3) [OF c mem] by (intro stp_then [OF c] port_set_status_stp) auto
qed

lemma fst_reset_stp [wf_intros]:
  assumes "struct_ok sw" and v: "fsttab sw v \<noteq> None"
  shows "stp_ok V sw (fst_reset v sw)"
  unfolding fst_reset_def
proof (rule forall_ports_stp [OF upd_fst_stp [OF assms] v])
  show "fst_numports sw = numports sw" by (rule struct_okD(3) [OF assms(1)])
qed (simp_all add: backup_forward_stp v)

lemma fstnewvlan_stp [wf_intros]:
  "struct_ok sw \<Longrightarrow> fsttab sw v \<noteq> None \<Longrightarrow> stp_ok V sw (snd (fstnewvlan mem v sw))"
  by (auto simp: fstnewvlan_def intro: fst_reset_stp)

text \<open>The first half of \<open>fastprotocol\<close>: the designated ports are blocked.\<close>

definition fst_block_port :: "nat \<Rightarrow> nat \<Rightarrow> nat \<Rightarrow> switch \<Rightarrow> switch" where
  "fst_block_port v r port s =
     (if fst_designated s v port r
      then fst_sendbpdu v port False False False (fst_set v Backup port (port_set_status port v DISCARDING s))
      else s)"

definition fst_block :: "nat \<Rightarrow> nat \<Rightarrow> switch \<Rightarrow> switch" where
  "fst_block v r sw =
     (let sw1 = forall_ports (\<lambda>s. fst_bits s v Untag) (fst_numports sw) (fst_block_port v r) sw
      in forall_ports (\<lambda>s. fst_bits s v Tagged) (fst_numports sw1) (fst_block_port v r) sw1)"

lemma fastprotocol_block:
  "fastprotocol v r sw = fst_sendbpdu v r True False False
     (port_set_status r v FORWARDING (fst_clr v Backup r (fst_block v r sw)))"
  unfolding fastprotocol_def fst_block_def fst_block_port_def [abs_def] Let_def by (rule refl)

lemma fst_block_port_stp:
  assumes s: "stp_ok V sw s" and v: "fsttab sw v \<noteq> None" and mem: "member sw v i" and V: "v \<in> V"
  shows "stp_ok V sw (fst_block_port v r i s)"
proof -
  have 1: "stp_ok V sw (port_set_status i v DISCARDING s)"
    using stp_member(3) [OF s mem] V by (intro stp_then [OF s] port_set_status_stp)
  have 2: "stp_ok V sw (fst_set v Backup i (port_set_status i v DISCARDING s))"
    using stp_member [OF 1 mem] stp_fst [OF 1 v] by (intro stp_then [OF 1] fst_set_stp) auto
  have "stp_ok V sw (fst_sendbpdu v i False False False
      (fst_set v Backup i (port_set_status i v DISCARDING s)))"
    using stp_fst [OF 2 v] by (intro stp_then [OF 2] fst_sendbpdu_stp)
  then show ?thesis using s by (simp add: fst_block_port_def)
qed

lemma fst_block_stp:
  assumes "struct_ok sw" and v: "fsttab sw v \<noteq> None" and V: "v \<in> V"
  shows "stp_ok V sw (fst_block v r sw)"
proof -
  note block = fst_block_port_stp [OF _ v _ V, of _ _ r]
  define sw1 where "sw1 = forall_ports (\<lambda>s. fst_bits s v Untag) (fst_numports sw) (fst_block_port v r) sw"
  have s1: "stp_ok V sw sw1"
    unfolding sw1_def by (rule forall_ports_stp [OF stp_ok_refl [OF assms(1)] v])
      (simp_all add: struct_okD(3) [OF assms(1)] block)
  have "stp_ok V sw (forall_ports (\<lambda>s. fst_bits s v Tagged) (fst_numports sw1) (fst_block_port v r) sw1)"
    by (rule forall_ports_stp [OF s1 v])
      (simp_all add: struct_okD(3) [OF stp_okD(1) [OF s1]] stp_ok_simps(1) [OF s1] block)
  then show ?thesis by (simp add: fst_block_def sw1_def Let_def)
qed

lemma fastprotocol_stp [wf_intros]:
  assumes "struct_ok sw" and v: "fsttab sw v \<noteq> None" and r: "member sw v r" and V: "v \<in> V"
  shows "stp_ok V sw (fastprotocol v r sw)"
proof -
  note s3 = backup_forward_stp [OF fst_block_stp [OF assms(1) v V] v r]
  show ?thesis
    unfolding fastprotocol_block using stp_fst [OF s3 v] by (intro stp_then [OF s3] fst_sendbpdu_stp)
qed

text \<open>
  A complete step of the spanning tree: where it has blocked a port, it has emptied the MAC table
  of the VLAN.
\<close>

definition stp_step :: "switch \<Rightarrow> switch \<Rightarrow> bool" where
  "stp_step sw sw' \<longleftrightarrow> (\<exists>V. stp_ok V sw sw' \<and> (\<forall>v \<in> V. flushed v sw'))"

lemma stp_stepI: "stp_ok V sw sw' \<Longrightarrow> (\<And>v. v \<in> V \<Longrightarrow> flushed v sw') \<Longrightarrow> stp_step sw sw'"
  by (auto simp: stp_step_def)

lemma stp_step_ok: "stp_ok {} sw sw' \<Longrightarrow> stp_step sw sw'"
  by (rule stp_stepI) auto

lemma stp_step_refl: "struct_ok sw \<Longrightarrow> stp_step sw sw"
  by (simp add: stp_ok_refl stp_step_ok)

lemma stp_step_trans [trans]:
  assumes "stp_step sw sw1" and "stp_step sw1 sw2"
  shows "stp_step sw sw2"
proof -
  obtain V W where V: "stp_ok V sw sw1" "\<forall>v \<in> V. flushed v sw1" and W: "stp_ok W sw1 sw2" "\<forall>v \<in> W. flushed v sw2"
    using assms by (auto simp: stp_step_def)
  have "stp_ok (V \<union> W) sw sw2"
    using stp_ok_trans [OF stp_ok_mono [OF V(1)] stp_ok_mono [OF W(1)]] by simp
  moreover have "\<forall>v \<in> V \<union> W. flushed v sw2" using V(2) W(2) flushed_stp [OF _ W(1)] by blast
  ultimately show ?thesis by (auto simp: stp_step_def)
qed

lemma stp_stepD: "stp_step sw sw' \<Longrightarrow> struct_ok sw'" "stp_step sw sw' \<Longrightarrow> stp_frame sw sw'"
  by (auto simp: stp_step_def stp_ok_def stp_rel_def)

lemmas stp_step_simps = stp_frame_simps [OF stp_stepD(2)]

lemma stp_step_fold:
  assumes "struct_ok sw" and "\<And>k s. k \<in> set ks \<Longrightarrow> stp_step sw s \<Longrightarrow> stp_step s (f k s)"
  shows "stp_step sw (fold f ks sw)"
  by (rule fold_invariant_list [where I = "stp_step sw"])
    (use assms stp_step_refl stp_step_trans in blast)+

lemma forall_vlans_step:
  assumes "struct_ok sw" and "\<And>v s. stp_step sw s \<Longrightarrow> fsttab s v \<noteq> None \<Longrightarrow> stp_step s (f v s)"
  shows "stp_step sw (forall_vlans f sw)"
  unfolding forall_vlans_fold [OF assms(1)]
proof (rule stp_step_fold [OF assms(1)])
  fix v s assume "v \<in> set (valid_list sw)" and s: "stp_step sw s"
  then have "fsttab s v \<noteq> None"
    using struct_valid_fst [OF assms(1)] set_valid_list [OF assms(1)] stp_step_simps(12) [OF s] by auto
  with s show "stp_step s (f v s)" by (rule assms(2))
qed

lemma stp_step_same:
  assumes "struct_ok sw" "numports sw' = numports sw" "fst_numports sw' = fst_numports sw" "portv sw' = portv sw"
    "validvlan sw' = validvlan sw" "vlant sw' = vlant sw" "fsttab sw' = fsttab sw"
    "hash sw' = hash sw" "fault sw' = fault sw"
  shows "stp_step sw sw'"
proof -
  have "pview sw' = pview sw" using assms(4) by (simp add: fun_eq_iff pview_def get_port_def)
  moreover have "fst_bits sw' = fst_bits sw" using assms(7) by (simp add: fun_eq_iff fst_bits_def)
  ultimately have "stp_rel {} sw sw'" by (intro stp_rel_same) (simp_all add: assms)
  then show ?thesis
    using struct_okD [OF assms(1)] by (intro stp_step_ok stp_okI assms(1)) (simp_all add: assms)
qed

lemma fst_newroot_step:
  assumes "struct_ok sw" and v: "fsttab sw v \<noteq> None" and mem: "member sw v i"
  shows "stp_step sw (fst_newroot v i w root cost bridge pport sw)"
proof -
  define sw1 where "sw1 = (if memcmp (v_root w) (out_src sw @ [0x00, 0x27]) \<le> 0
                 then snd (fstnewvlan 7 v sw) else sw)"
  have s1: "stp_ok {v} sw sw1"
    using fstnewvlan_stp [OF assms(1) v] stp_ok_refl [OF assms(1)] by (simp add: sw1_def)
  define sw2 where "sw2 = upd_fst v (\<lambda>w. w\<lparr>v_root := root, v_rootcost := cost, v_dessw := bridge, v_port := pport,
                   v_rootport := i, v_roottimestamp := now_u32 sw1\<rparr>) sw1"
  have s2: "stp_ok {v} sw sw2"
    unfolding sw2_def by (rule stp_then [OF s1]) (rule upd_fst_stp [OF _ stp_fst [OF s1 v]]; simp)
  have s3: "stp_ok {v} sw (fastprotocol v i sw2)"
    using stp_fst [OF s2 v] stp_member(3) [OF s2 mem] by (intro stp_then [OF s2] fastprotocol_stp) auto
  have s4: "stp_ok {v} sw (topology_change v i (fastprotocol v i sw2))"
    using stp_fst [OF s3 v] by (intro stp_then [OF s3] topology_change_stp)
  moreover have "flushed v (topology_change v i (fastprotocol v i sw2))"
    by (rule topology_change_flushed [OF stp_okD(1) [OF s3] stp_fst [OF s3 v]])
  ultimately have "stp_step sw (topology_change v i (fastprotocol v i sw2))" by (auto intro: stp_stepI)
  then show ?thesis by (simp add: fst_newroot_def Let_def sw1_def sw2_def)
qed

lemma fst_worse_step:
  assumes "struct_ok sw" and v: "fsttab sw v \<noteq> None" and mem: "member sw v i"
  shows "stp_step sw (fst_worse v i w root flags sw)"
proof -
  note refl = stp_ok_refl [OF assms(1)]
  have "stp_step sw (topology_change v i (port_set_status i v FORWARDING (fst_clr v Backup i sw)))"
  proof -
    note s = backup_forward_stp [OF refl [of "{}"] v mem]
    show ?thesis
      using stp_fst [OF s v] by (intro stp_step_ok stp_then [OF s] topology_change_stp)
  qed
  moreover have "stp_step sw (topology_change v i (port_set_status i v DISCARDING (fst_set v Backup i sw)))"
  proof -
    have 1: "stp_ok {v} sw (fst_set v Backup i sw)"
      using stp_member [OF refl mem] v by (intro fst_set_stp assms(1)) auto
    have 2: "stp_ok {v} sw (port_set_status i v DISCARDING (fst_set v Backup i sw))"
      using stp_member(3) [OF 1 mem] by (intro stp_then [OF 1] port_set_status_stp) auto
    have "stp_ok {v} sw (topology_change v i (port_set_status i v DISCARDING (fst_set v Backup i sw)))"
      using stp_fst [OF 2 v] by (intro stp_then [OF 2] topology_change_stp)
    then show ?thesis
      using topology_change_flushed [OF stp_okD(1) [OF 2] stp_fst [OF 2 v]] by (auto intro: stp_stepI)
  qed
  moreover have "stp_step sw (fst_sendbpdu v i False False False sw)"
    by (intro stp_step_ok fst_sendbpdu_stp assms(1) v)
  ultimately show ?thesis using stp_step_refl [OF assms(1)] by (simp add: fst_worse_def)
qed

lemma fst_in_bpdu_step:
  assumes "struct_ok sw" and v: "fsttab sw v \<noteq> None" and mem: "member sw v i"
  shows "stp_step sw (fst_in_bpdu i pkt len v tagged sw)"
proof -
  define sw1 where "sw1 = fst_set v (rcvhist (rcvhistindex sw)) i sw"
  have s1: "stp_ok {} sw sw1"
    unfolding sw1_def using stp_member(2) [OF stp_ok_refl [OF assms(1)] mem]
    by (intro fst_set_stp assms(1) v) auto
  define p where "p = (if tagged then drop 4 pkt else pkt)"
  define sw2 where "sw2 = (if stp_flags p AND STP_TC \<noteq> 0 then topology_change v i sw1 else sw1)"
  have s2: "stp_ok {} sw sw2"
    using s1 stp_then [OF s1] topology_change_stp [OF _ stp_fst [OF s1 v]] by (simp add: sw2_def)
  note ok2 = stp_okD(1) [OF s2] and v2 = stp_fst [OF s2 v] and mem2 = stp_member(3) [OF s2 mem]
  obtain w where w: "fsttab sw2 v = Some w" using v2 by blast
  obtain q where q: "get_port i sw2 = Some q" using struct_pview_Some [OF stp_member(1) [OF s2 mem]] by blast
  have time: "stp_step sw2 (upd_fst v (\<lambda>v. v\<lparr>v_roottimestamp := now_u32 sw2\<rparr>) sw2)"
    by (rule stp_step_ok, rule upd_fst_stp [OF ok2 v2]) simp
  note steps = stp_step_trans [OF stp_step_ok [OF s2]]
  obtain w0 where "fsttab sw v = Some w0" using v by blast
  then show ?thesis
    using stp_step_refl [OF assms(1)] stp_step_ok [OF s1] steps [OF time]
      steps [OF fst_newroot_step [OF ok2 v2 mem2]] steps [OF fst_worse_step [OF ok2 v2 mem2]] w q
    unfolding fst_in_bpdu_def Let_def sw1_def [symmetric] p_def [symmetric] sw2_def [symmetric]
    by simp
qed

lemma fst_hello_vlan_step:
  assumes "struct_ok sw" and v: "fsttab sw v \<noteq> None"
  shows "stp_step sw (fst_hello_vlan now v sw)"
proof -
  obtain w where w: "fsttab sw v = Some w" using v by blast
  define sw1 where "sw1 = (if v_rootport w \<noteq> 0 \<and> now - v_roottimestamp w > word_of_int (3 * helloperiod sw)
                     then snd (fstnewvlan 7 v sw) else sw)"
  have s1: "stp_ok {} sw sw1"
    using fstnewvlan_stp [OF assms] stp_ok_refl [OF assms(1)] by (simp add: sw1_def)
  define send where "send = (\<lambda>tagged port s.
       if fst_check s v Edge port then s
       else (case fsttab s v of
               None \<Rightarrow> crash s
             | Some w \<Rightarrow>
                 let flags = STP_FLAGS s v port True False False
                 in port_send_packet port
                      (if tagged then fsttagbpdu s w v port flags else fstbpdu s w port flags) s))"
  have send: "stp_ok {} sw (send t i s)" if s: "stp_ok {} sw s" and mem: "member sw v i" for t i s
    using stp_fst [OF s v] s stp_then [OF s] port_send_packet_stp [OF _ stp_member(1) [OF s mem]]
    by (auto simp: send_def Let_def split: option.splits)
  define sw2 where "sw2 = forall_ports (\<lambda>s. fst_bits s v Untag) (fst_numports sw1) (send False) sw1"
  have s2: "stp_ok {} sw sw2"
    unfolding sw2_def by (rule forall_ports_stp [OF s1 v])
      (simp_all add: struct_okD(3) [OF stp_okD(1) [OF s1]] stp_ok_simps(1) [OF s1] send)
  have "stp_ok {} sw (forall_ports (\<lambda>s. fst_bits s v Tagged) (fst_numports sw2) (send True) sw2)"
    by (rule forall_ports_stp [OF s2 v])
      (simp_all add: struct_okD(3) [OF stp_okD(1) [OF s2]] stp_ok_simps(1) [OF s2] send)
  then show ?thesis
    by (intro stp_step_ok) (simp add: fst_hello_vlan_def w Let_def send_def sw1_def sw2_def)
qed

lemma fst_updatebackup_step:
  assumes "struct_ok sw" and v: "fsttab sw v \<noteq> None"
  shows "stp_step sw (fst_updatebackup index v sw)"
proof -
  define sw1 where "sw1 = forall_ports (\<lambda>s. fst_bits s v Backup) (fst_numports sw)
          (\<lambda>port s. if FSTP_ACTIVE s v port then s
                    else port_set_status port v FORWARDING (fst_clr v Backup port s)) sw"
  have s1: "stp_ok {} sw sw1"
    unfolding sw1_def by (rule forall_ports_stp [OF stp_ok_refl [OF assms(1)] v])
      (simp_all add: struct_okD(3) [OF assms(1)] backup_forward_stp v)
  note ok1 = stp_okD(1) [OF s1]
  obtain w where w: "fsttab sw1 v = Some w" using stp_fst [OF s1 v] by blast
  define w' where "w' = w\<lparr>v_bits := (v_bits w)(rcvhist index := ba_zap (v_bits w (rcvhist index)) (fst_numports sw))\<rparr>"
  have len: "length (ba_zap (v_bits w fl) (fst_numports sw)) = length (v_bits w fl)" for fl
    using struct_okD(3,6) [OF ok1] w struct_okD(3) [OF assms(1)]
    by (simp add: ba_zap_def)
  have "stp_ok {} sw1 (sw1\<lparr>fsttab := (fsttab sw1)(v \<mapsto> w')\<rparr>)"
    by (rule fsttab_stp [OF ok1 refl])
      (use w len in \<open>auto simp: fst_bits_def fst_check_def w'_def\<close>)
  then have "stp_ok {} sw (sw1\<lparr>fsttab := (fsttab sw1)(v \<mapsto> w')\<rparr>)" by (rule stp_ok_trans [OF s1])
  then show ?thesis
    by (intro stp_step_ok) (simp add: fst_updatebackup_def sw1_def [symmetric] upd_fst_def w w'_def)
qed

lemma fst_hello_step:
  assumes "struct_ok sw"
  shows "stp_step sw (fst_hello sw)"
proof -
  define sw1 where "sw1 = sw\<lparr>hellocounter := hellocounter sw + 1\<rparr>"
  define sw2 where "sw2 = forall_vlans (fst_hello_vlan (now_u32 sw)) sw1"
  define sw3 where "sw3 = sw2\<lparr>rcvhistindex := 1 - rcvhistindex sw2\<rparr>"
  define sw4 where "sw4 = forall_vlans (fst_updatebackup (rcvhistindex sw3)) sw3"
  have s1: "stp_step sw sw1" unfolding sw1_def by (rule stp_step_same [OF assms]) simp_all
  have s2: "stp_step sw1 sw2"
    unfolding sw2_def
    by (rule forall_vlans_step [OF stp_stepD(1) [OF s1]]) (blast intro: fst_hello_vlan_step stp_stepD)
  have s3: "stp_step sw2 sw3"
    unfolding sw3_def by (rule stp_step_same [OF stp_stepD(1) [OF s2]]) simp_all
  have s4: "stp_step sw3 sw4"
    unfolding sw4_def
    by (rule forall_vlans_step [OF stp_stepD(1) [OF s3]]) (blast intro: fst_updatebackup_step stp_stepD)
  have "fst_hello sw = (if hellocounter sw2 AND 3 = 0 then sw4 else sw2)"
    by (simp add: fst_hello_def Let_def sw1_def sw2_def sw3_def sw4_def)
  with stp_step_trans [OF s1 s2] stp_step_trans [OF stp_step_trans [OF s3 s4]]
  show ?thesis by (simp add: stp_step_trans [OF s1 stp_step_trans [OF s2 stp_step_trans [OF s3 s4]]])
qed

lemma fst_stop_step:
  assumes "struct_ok sw"
  shows "stp_step sw (fst_stop sw)"
proof -
  define sw2 where "sw2 = snd (fstflag P_CLRFLAG FSTP_TAG (sw\<lparr>timers := qtimer_del (fst_timerno sw) (timers sw)\<rparr>))"
  have s2: "stp_step sw sw2"
    unfolding sw2_def by (rule stp_step_same [OF assms]) (simp_all add: fstflag_def)
  have "stp_step sw2 (forall_vlans (\<lambda>vlan s. snd (fstnewvlan 7 vlan s)) sw2)"
    by (rule forall_vlans_step [OF stp_stepD(1) [OF s2]])
      (blast intro: stp_step_ok fstnewvlan_stp stp_stepD)
  with s2 show ?thesis
    unfolding fst_stop_def Let_def sw2_def [symmetric] by (rule stp_step_trans)
qed

lemma fstpshutdown_step: "struct_ok sw \<Longrightarrow> stp_step sw (fstpshutdown sw)"
  by (simp add: fstpshutdown_def fst_stop_step stp_step_refl)

lemma fstpsetonoff_step:
  assumes "struct_ok sw"
  shows "stp_step sw (snd (fstpsetonoff val sw))"
proof -
  have "stp_step sw (snd (fstflag P_SETFLAG FSTP_TAG (fstinitpkt sw)))"
    by (rule stp_step_same [OF assms]) (simp_all add: fstflag_def fstinitpkt_def split: prod.splits)
  then show ?thesis
    using fst_stop_step [OF assms] stp_step_refl [OF assms] by (simp add: fstpsetonoff_def Let_def)
qed

lemma scan_valid:
  assumes "struct_ok sw" and "0 \<le> vlan" and "vlan < int NUMOFVLAN" and "bac_check (validvlan sw) (nat vlan)"
  shows "fsttab sw (nat vlan) \<noteq> None"
  by (rule struct_valid_fst [OF assms(1)]) (use assms in \<open>simp add: valid_def\<close>)

lemma fstsetbonus_step:
  assumes "struct_ok sw"
  shows "stp_step sw (snd (fstsetbonus arg sw))"
proof -
  have "stp_step sw (upd_fst (nat vlan) (\<lambda>v. v\<lparr>v_bonusport := p, v_bonuscost := c\<rparr>) sw)"
    if "0 \<le> vlan" "vlan < int NUMOFVLAN" "bac_check (validvlan sw) (nat vlan)" for vlan p c
    by (rule stp_step_ok, rule upd_fst_stp [OF assms scan_valid [OF assms that]]) simp
  then show ?thesis
    using stp_step_refl [OF assms] by (auto simp: fstsetbonus_def split: list.split)
qed

lemma fstsetedge_step:
  assumes "struct_ok sw"
  shows "stp_step sw (snd (fstsetedge arg sw))"
proof -
  have on: "stp_step sw (fst_set v Edge i sw)"
    "fst_check (fst_set v Edge i sw) v Untag i \<Longrightarrow> stp_step sw (port_set_status i v FORWARDING (fst_set v Edge i sw))"
    and off: "stp_step sw (fst_clr v Backup i (fst_clr v Edge i sw))"
    if v: "fsttab sw v \<noteq> None" and i: "i < numports sw" for v i
  proof -
    have s: "stp_ok {} sw (fst_set v Edge i sw)" by (intro fst_set_stp assms v i) auto
    then show "stp_step sw (fst_set v Edge i sw)" by (rule stp_step_ok)
    show "stp_step sw (port_set_status i v FORWARDING (fst_set v Edge i sw))"
      if "fst_check (fst_set v Edge i sw) v Untag i"
      using that by (intro stp_step_ok stp_then [OF s] port_set_status_stp) (auto simp: member_def)
    have c: "stp_ok {} sw (fst_clr v Edge i sw)" by (intro fst_clr_stp assms v i) auto
    show "stp_step sw (fst_clr v Backup i (fst_clr v Edge i sw))"
      using stp_fst [OF c v] i stp_ok_simps(1) [OF c]
      by (intro stp_step_ok stp_then [OF c] fst_clr_stp) auto
  qed
  show ?thesis
    using stp_step_refl [OF assms] on off scan_valid [OF assms] struct_okD(3) [OF assms]
    by (auto simp: fstsetedge_def Let_def split: list.split)
qed

end
