(* ===== verification/Consistency.thy ===== *)
theory Consistency
  imports Invariant
begin

text \<open>
  The invariant of the switch between two operations, \<open>switch_wf\<close>: the forwarding sets, the
  sets of the spanning tree and the entries of the MAC table agree with the VLAN tables and
  with the ports that have an endpoint. Every operation of port.c and fstp.c keeps it.
\<close>

definition entry_ok :: "switch \<Rightarrow> u64 \<Rightarrow> int \<Rightarrow> bool" where
  "entry_ok sw d p \<longleftrightarrow>
     (let v = unat (EMAC2VLAN d); i = nat p
      in 0 \<le> p \<and> active sw i \<and> vlan_check sw v Table i \<and> \<not> vlan_check sw v Notlearning i)"

definition mac_ok :: "switch \<Rightarrow> bool" where
  "mac_ok sw \<longleftrightarrow> (\<forall>d p t. hash_look (hash sw) d = Some (p, t) \<longrightarrow> entry_ok sw d p)"

definition untag_ok :: "switch \<Rightarrow> bool" where
  "untag_ok sw \<longleftrightarrow> (\<forall>i. pview sw i \<noteq> None \<longrightarrow>
     untag_of sw i = NOVLAN \<or> vlan_check sw (untag_of sw i) Table i)"

definition bc_ok :: "switch \<Rightarrow> bool" where
  "bc_ok sw \<longleftrightarrow>
     (\<forall>v i. vlan_check sw v Bctag i \<longrightarrow> active sw i \<and> vlan_check sw v Table i \<and> untag_of sw i \<noteq> v) \<and>
     (\<forall>v i. vlan_check sw v Bcuntag i \<longrightarrow> active sw i \<and> vlan_check sw v Table i \<and> untag_of sw i = v)"

definition fst_ok :: "switch \<Rightarrow> bool" where
  "fst_ok sw \<longleftrightarrow>
     (\<forall>v. fsttab sw v \<noteq> None \<longrightarrow> valid sw v) \<and>
     (\<forall>v i. fst_check sw v Untag i \<longleftrightarrow> active sw i \<and> vlan_check sw v Table i \<and> untag_of sw i = v) \<and>
     (\<forall>v i. fst_check sw v Tagged i \<longleftrightarrow> active sw i \<and> vlan_check sw v Table i \<and> untag_of sw i \<noteq> v)"

definition switch_wf :: "switch \<Rightarrow> bool" where
  "switch_wf sw \<longleftrightarrow> struct_ok sw \<and> valid sw 0 \<and> untag_ok sw \<and> bc_ok sw \<and> fst_ok sw \<and> mac_ok sw"

lemma switch_wfD:
  assumes "switch_wf sw"
  shows "struct_ok sw" "valid sw 0" "untag_ok sw" "bc_ok sw" "fst_ok sw" "mac_ok sw"
  using assms by (simp_all add: switch_wf_def)

lemma switch_wf_member:
  "switch_wf sw \<Longrightarrow> member sw v i \<longleftrightarrow> active sw i \<and> vlan_check sw v Table i"
  using switch_wfD(5) [of sw] by (auto simp: fst_ok_def member_def)

lemma word_of_int_unat_EMAC2VLAN: "word_of_int (int (unat (EMAC2VLAN d))) = EMAC2VLAN d"
  by simp

lemma stp_step_wf [wf_intros]:
  assumes "switch_wf sw" and step: "stp_step sw sw'"
  shows "switch_wf sw'"
proof -
  note wf = switch_wfD [OF assms(1)] and fs = stp_step_simps [OF step]
  obtain V where V: "stp_ok V sw sw'" "\<forall>v \<in> V. flushed v sw'" using step by (auto simp: stp_step_def)
  then have grow: "stp_grow V sw sw'" by (simp add: stp_ok_def stp_rel_def)
  have "bc_ok sw'"
    using wf(4) grow switch_wf_member [OF assms(1)] unfolding bc_ok_def stp_grow_def fs by blast
  moreover have "entry_ok sw' d p" if look: "hash_look (hash sw') d = Some (p, t)" for d p t
  proof -
    have old: "entry_ok sw d p"
      using grow look wf(6) unfolding stp_grow_def mac_ok_def by blast
    have "unat (EMAC2VLAN d) \<notin> V"
      using V(2) look by (force simp: flushed_def)
    then show ?thesis
      using old grow unfolding entry_ok_def Let_def fs stp_grow_def by blast
  qed
  ultimately show ?thesis
    using wf stp_stepD(1) [OF step]
    by (simp add: switch_wf_def mac_ok_def untag_ok_def fst_ok_def fs)
qed

lemma upd_port_step:
  assumes "struct_ok sw" and p: "get_port i sw = Some p" and "pshape (f p) = pshape p"
  shows "stp_step sw (upd_port i f sw)"
proof -
  note eq = upd_port_Some [OF p, of f]
  have "stp_rel {} sw (upd_port i f sw)"
    using pview_upd_port_same [OF p, of f] assms(3) by (intro stp_rel_same) (simp_all add: eq)
  then show ?thesis
    using struct_okD [OF assms(1)] by (intro stp_step_ok stp_okI assms(1)) (simp_all add: eq)
qed

lemma stp_then_wf: "switch_wf sw \<Longrightarrow> (struct_ok sw \<Longrightarrow> stp_step sw sw') \<Longrightarrow> switch_wf sw'"
  by (rule stp_step_wf) (simp_all add: switch_wfD(1))

lemma upd_port_wf:
  "switch_wf sw \<Longrightarrow> get_port i sw \<noteq> None \<Longrightarrow> (\<And>p. pshape (f p) = pshape p) \<Longrightarrow> switch_wf (upd_port i f sw)"
  by (erule stp_then_wf) (auto intro: upd_port_step)

section \<open>Commands that leave the VLANs alone\<close>

lemma portallocatable_wf [wf_intros]: "switch_wf sw \<Longrightarrow> switch_wf (snd (portallocatable arg sw))"
  by (simp add: portallocatable_def upd_port_wf pshape_def split: list.splits)

lemma portset_ac_wf:
  assumes "switch_wf sw" and "\<And>n p. pshape (upd n p) = pshape p"
  shows "switch_wf (snd (portset_ac getnam upd arg sw))"
  using assms by (simp add: portset_ac_def upd_port_wf split: list.splits option.splits)

lemma portsetuser_wf [wf_intros]: "switch_wf sw \<Longrightarrow> switch_wf (snd (portsetuser getpwnam arg sw))"
  unfolding portsetuser_def by (rule portset_ac_wf) (simp_all add: pshape_def)

lemma portsetgroup_wf [wf_intros]: "switch_wf sw \<Longrightarrow> switch_wf (snd (portsetgroup getgrnam arg sw))"
  unfolding portsetgroup_def by (rule portset_ac_wf) (simp_all add: pshape_def)

lemma portzerocounter_wf: "switch_wf sw \<Longrightarrow> switch_wf (portzerocounter i sw)"
  by (simp add: portzerocounter_def upd_port_wf pshape_def)

lemma portresetcounters_wf [wf_intros]: "switch_wf sw \<Longrightarrow> switch_wf (snd (portresetcounters arg sw))"
  by (simp add: portresetcounters_def Let_def portzerocounter_wf fold_invariant_list [where I = switch_wf])

lemma wf_pflag: "switch_wf sw \<Longrightarrow> switch_wf (sw\<lparr>pflag := x\<rparr>)"
  by (erule stp_then_wf, erule stp_step_same) simp_all

lemma portsethub_wf [wf_intros]:
  assumes "switch_wf sw"
  shows "switch_wf (snd (portsethub val sw))"
  using wf_pflag [OF assms] wf_pflag [OF stp_then_wf [OF assms fstpshutdown_step]]
  by (simp add: portsethub_def portflag_def)

lemma fstpsetonoff_wf [wf_intros]: "switch_wf sw \<Longrightarrow> switch_wf (snd (fstpsetonoff val sw))"
  by (erule stp_then_wf) (rule fstpsetonoff_step)

lemma fstsetbonus_wf [wf_intros]: "switch_wf sw \<Longrightarrow> switch_wf (snd (fstsetbonus arg sw))"
  by (erule stp_then_wf) (rule fstsetbonus_step)

lemma fstsetedge_wf [wf_intros]: "switch_wf sw \<Longrightarrow> switch_wf (snd (fstsetedge arg sw))"
  by (erule stp_then_wf) (rule fstsetedge_step)

lemma fst_hello_wf [wf_intros]: "switch_wf sw \<Longrightarrow> switch_wf (fst_hello sw)"
  by (erule stp_then_wf) (rule fst_hello_step)

lemma purge_wf: "switch_wf sw \<Longrightarrow> switch_wf (sw\<lparr>hash := purge P (hash sw)\<rparr>)"
  by (erule stp_then_wf) (rule stp_step_ok [OF purge_stp])

section \<open>A port joins or leaves a VLAN of the spanning tree\<close>

definition fst_change :: "nat \<Rightarrow> nat \<Rightarrow> bool \<Rightarrow> bool \<Rightarrow> switch \<Rightarrow> switch \<Rightarrow> bool" where
  "fst_change v i u t sw sw' \<longleftrightarrow>
     struct_ok sw' \<and> flushed v sw' \<and>
     numports sw' = numports sw \<and> pview sw' = pview sw \<and> validvlan sw' = validvlan sw \<and>
     (\<forall>v'. vlant sw' v' Table = vlant sw v' Table) \<and>
     (\<forall>v'. fsttab sw' v' = None \<longleftrightarrow> fsttab sw v' = None) \<and>
     (\<forall>v' j. fst_check sw' v' Untag j \<longleftrightarrow> (if v' = v \<and> j = i then u else fst_check sw v' Untag j)) \<and>
     (\<forall>v' j. fst_check sw' v' Tagged j \<longleftrightarrow> (if v' = v \<and> j = i then t else fst_check sw v' Tagged j)) \<and>
     (\<forall>d x. hash_look (hash sw') d = Some x \<longrightarrow> hash_look (hash sw) d = Some x) \<and>
     (\<forall>v' j. vlan_check sw' v' Bcuntag j \<longrightarrow>
        vlan_check sw v' Bcuntag j \<or> member sw' v' j \<and> vlan_check sw v' Table j \<and> untag_of sw j = v') \<and>
     (\<forall>v' j. vlan_check sw' v' Bctag j \<longrightarrow>
        vlan_check sw v' Bctag j \<or> member sw' v' j \<and> vlan_check sw v' Table j \<and> untag_of sw j \<noteq> v') \<and>
     (\<forall>v' j. vlan_check sw' v' Notlearning j \<longrightarrow> vlan_check sw v' Notlearning j)"

lemma fst_change_simps:
  assumes "fst_change v i u t sw sw'"
  shows "struct_ok sw'" "flushed v sw'" "numports sw' = numports sw" "pview sw' = pview sw"
    "validvlan sw' = validvlan sw" "valid sw' = valid sw" "active sw' = active sw" "untag_of sw' = untag_of sw"
    "vlan_check sw' v' Table = vlan_check sw v' Table" "fsttab sw' v' = None \<longleftrightarrow> fsttab sw v' = None"
    "fst_check sw' v' Untag j \<longleftrightarrow> (if v' = v \<and> j = i then u else fst_check sw v' Untag j)"
    "fst_check sw' v' Tagged j \<longleftrightarrow> (if v' = v \<and> j = i then t else fst_check sw v' Tagged j)"
  using assms pview_cong [of sw' sw] by (simp_all add: fst_change_def valid_def fun_eq_iff vlan_check_def)

lemma fst_change_grow:
  assumes "fst_change v i u t sw sw'"
  shows "hash_look (hash sw') d = Some x \<Longrightarrow> hash_look (hash sw) d = Some x"
    and "vlan_check sw' v' Bcuntag j \<Longrightarrow>
        vlan_check sw v' Bcuntag j \<or> member sw' v' j \<and> vlan_check sw v' Table j \<and> untag_of sw j = v'"
    and "vlan_check sw' v' Bctag j \<Longrightarrow>
        vlan_check sw v' Bctag j \<or> member sw' v' j \<and> vlan_check sw v' Table j \<and> untag_of sw j \<noteq> v'"
    and "vlan_check sw' v' Notlearning j \<Longrightarrow> vlan_check sw v' Notlearning j"
  using assms unfolding fst_change_def by blast+

lemma fst_change_via:
  assumes sw: "struct_ok sw" and eq: "sw1 = sw\<lparr>fsttab := (fsttab sw)(v \<mapsto> w)\<rparr>" and v: "fsttab sw v \<noteq> None"
    and i: "pview sw i \<noteq> None"
    and len: "\<And>fl. length (v_bits w fl) = length (fst_bits sw v fl)"
    and U: "\<And>j. ba_check (v_bits w Untag) j \<longleftrightarrow> (if j = i then u else fst_check sw v Untag j)"
    and T: "\<And>j. ba_check (v_bits w Tagged) j \<longleftrightarrow> (if j = i then t else fst_check sw v Tagged j)"
    and B: "\<And>j. ba_check (v_bits w Backup) j \<Longrightarrow> j \<noteq> i \<and> fst_check sw v Backup j"
    and rest: "struct_ok sw1 \<Longrightarrow> fsttab sw1 v \<noteq> None \<Longrightarrow> stp_ok {} sw1 sw' \<and> flushed v sw'"
  shows "fst_change v i u t sw sw'"
proof -
  have bits: "fst_bits sw1 v' fl = (if v' = v then v_bits w fl else fst_bits sw v' fl)" for v' fl
    by (simp add: eq fst_bits_def)
  have U1: "fst_check sw1 v' Untag j \<longleftrightarrow> (if v' = v \<and> j = i then u else fst_check sw v' Untag j)" for v' j
    using U by (auto simp: fst_check_def bits)
  have T1: "fst_check sw1 v' Tagged j \<longleftrightarrow> (if v' = v \<and> j = i then t else fst_check sw v' Tagged j)" for v' j
    using T by (auto simp: fst_check_def bits)
  have B1: "fst_check sw1 v' Backup j \<Longrightarrow> \<not> (v' = v \<and> j = i) \<and> fst_check sw v' Backup j" for v' j
    using B by (auto simp: fst_check_def bits split: if_splits)
  have pv: "pview sw1 = pview sw" by (simp add: eq fun_eq_iff pview_def)
  have other: "vlant sw1 = vlant sw" "validvlan sw1 = validvlan sw" "numports sw1 = numports sw" "hash sw1 = hash sw"
    by (simp_all add: eq)
  have dom: "fsttab sw1 v' = None \<longleftrightarrow> fsttab sw v' = None" for v' using v by (simp add: eq)
  have chk: "vlan_check sw1 = vlan_check sw" by (simp add: fun_eq_iff vlan_check_def other)
  have val: "valid sw1 = valid sw" by (simp add: fun_eq_iff valid_def other)
  note S = struct_okD [OF sw]
  have "arrays_ok sw1"
    using S(6) len unfolding arrays_ok_def bits val dom other by (auto simp: v)
  moreover have "ports_ok sw1" using S(7) unfolding ports_ok_def pv .
  moreover have "sets_ok sw1"
    using S(8) i unfolding sets_ok_def member_def U1 T1 chk val pv by (auto dest!: B1)
  ultimately have ok1: "struct_ok sw1" using S by (simp add: struct_ok_def) (simp add: eq)
  have st: "stp_ok {} sw1 sw'" and fl: "flushed v sw'" using rest [OF ok1] dom v by simp_all
  note fs = stp_ok_simps [OF st]
  have frame: "stp_frame sw1 sw'" and grow: "stp_grow {} sw1 sw'"
    using st by (auto simp: stp_ok_def stp_rel_def)
  show ?thesis
    unfolding fst_change_def fs U1 T1 dom pv other
    using stp_okD(1) [OF st] fl grow frame
    by (simp add: stp_grow_def stp_frame_def chk pview_cong(2) [OF pv] other)
qed

lemma fstaddport_change:
  assumes sw: "struct_ok sw" and v: "fsttab sw v \<noteq> None" and i: "pview sw i \<noteq> None"
  shows "fst_change v i (\<not> tagged) tagged sw (fstaddport v i tagged sw)"
proof -
  obtain w where w: "fsttab sw v = Some w" using v by blast
  have cap: "ba_cap (v_bits w fl) i" for fl
    using struct_cap(2) [OF sw struct_pview_less [OF sw i] v, of fl] by (simp add: fst_bits_Some [OF w])
  define b where "b = (v_bits w)(Untag := (if tagged then ba_clr else ba_set) (v_bits w Untag) i,
     Tagged := (if tagged then ba_set else ba_clr) (v_bits w Tagged) i,
     Backup := ba_clr (v_bits w Backup) i, Edge := ba_clr (v_bits w Edge) i,
     Rcvhist0 := ba_clr (v_bits w Rcvhist0) i, Rcvhist1 := ba_clr (v_bits w Rcvhist1) i)"
  define sw1 where "sw1 = sw\<lparr>fsttab := (fsttab sw)(v \<mapsto> w\<lparr>v_bits := b\<rparr>)\<rparr>"
  have "(if tagged then fst_clr v Untag i (fst_set v Tagged i sw)
         else fst_clr v Tagged i (fst_set v Untag i sw)) =
      sw\<lparr>fsttab := (fsttab sw)(v \<mapsto> w\<lparr>v_bits := (v_bits w)(Untag := (if tagged then ba_clr else ba_set) (v_bits w Untag) i,
     Tagged := (if tagged then ba_set else ba_clr) (v_bits w Tagged) i)\<rparr>)\<rparr>"
    using w cap by (auto simp: fst_set_eq fst_clr_eq fun_upd_twist)
  then have eq: "fstaddport v i tagged sw = topology_change v i (fst_sendbpdu v i False False False sw1)"
    unfolding fstaddport_def Let_def using cap by (simp add: fst_clr_eq sw1_def b_def)
  show ?thesis
  proof (rule fst_change_via [OF sw sw1_def v i])
    fix fl show "length (v_bits (w\<lparr>v_bits := b\<rparr>) fl) = length (fst_bits sw v fl)"
      by (cases fl) (simp_all add: b_def fst_bits_Some [OF w])
  next
    assume ok: "struct_ok sw1" and v1: "fsttab sw1 v \<noteq> None"
    have s: "stp_ok {} sw1 (fst_sendbpdu v i False False False sw1)" by (rule fst_sendbpdu_stp [OF ok v1])
    show "stp_ok {} sw1 (fstaddport v i tagged sw) \<and> flushed v (fstaddport v i tagged sw)"
      unfolding eq
      using stp_fst [OF s v1] stp_then [OF s, of "topology_change v i"] topology_change_stp [where v = v]
        topology_change_flushed [OF stp_okD(1) [OF s]] by blast
  qed (use cap in \<open>auto simp: b_def fst_check_def fst_bits_Some [OF w] ba.check_insert ba.check_remove\<close>)
qed

lemma fstdelport_change:
  assumes sw: "struct_ok sw" and v: "fsttab sw v \<noteq> None" and i: "pview sw i \<noteq> None"
  shows "fst_change v i False False sw (fstdelport v i sw)"
proof -
  obtain w where w: "fsttab sw v = Some w" using v by blast
  have cap: "ba_cap (v_bits w fl) i" for fl
    using struct_cap(2) [OF sw struct_pview_less [OF sw i] v, of fl] by (simp add: fst_bits_Some [OF w])
  define b where "b = (v_bits w)(Untag := ba_clr (v_bits w Untag) i, Tagged := ba_clr (v_bits w Tagged) i,
     Backup := ba_clr (v_bits w Backup) i, Edge := ba_clr (v_bits w Edge) i)"
  define sw1 where "sw1 = sw\<lparr>fsttab := (fsttab sw)(v \<mapsto> w\<lparr>v_bits := b\<rparr>)\<rparr>"
  define sw2 where "sw2 = (if map_option v_rootport (fsttab sw1 v) = Some i then snd (fstnewvlan 7 v sw1) else sw1)"
  have eq: "fstdelport v i sw = topology_change v i sw2"
    unfolding fstdelport_def Let_def sw2_def using w cap by (simp add: fst_clr_eq sw1_def b_def)
  show ?thesis
  proof (rule fst_change_via [OF sw sw1_def v i])
    fix fl show "length (v_bits (w\<lparr>v_bits := b\<rparr>) fl) = length (fst_bits sw v fl)"
      by (cases fl) (simp_all add: b_def fst_bits_Some [OF w])
  next
    assume ok: "struct_ok sw1" and v1: "fsttab sw1 v \<noteq> None"
    have s: "stp_ok {} sw1 sw2"
      using fstnewvlan_stp [OF ok v1] stp_ok_refl [OF ok] by (simp add: sw2_def)
    show "stp_ok {} sw1 (fstdelport v i sw) \<and> flushed v (fstdelport v i sw)"
      unfolding eq
      using stp_fst [OF s v1] stp_then [OF s, of "topology_change v i"] topology_change_stp [where v = v]
        topology_change_flushed [OF stp_okD(1) [OF s]] by blast
  qed (use cap in \<open>auto simp: b_def fst_check_def fst_bits_Some [OF w] ba.check_insert ba.check_remove\<close>)
qed

text \<open>
  Adding a port to the spanning tree leaves the VLAN tables alone, deleting one changes only the
  table of its VLAN.
\<close>

lemma vlant_frame [frame_simps]:
  "vlant (crash sw) = vlant sw" "vlant (upd_fst v f sw) = vlant sw" "vlant (fst_set v fl i sw) = vlant sw"
  "vlant (fst_clr v fl i sw) = vlant sw" "vlant (upd_port i g sw) = vlant sw"
  by (simp_all add: crash_def upd_fst_def fst_set_def fst_clr_def upd_port_def split: option.splits)

lemma vlant_SEND [frame_simps]: "vlant (snd (SEND_PACKET_PORT i buf len sw)) = vlant sw"
  by (simp add: SEND_PACKET_PORT_def Let_def frame_simps split: prod.splits option.splits)

lemma vlant_sendbpdu [frame_simps]: "vlant (fst_sendbpdu v i agr tc tcack sw) = vlant sw"
  by (simp add: fst_sendbpdu_def port_send_packet_def Let_def frame_simps split: option.splits)

lemma vlant_forall_ports:
  assumes "\<And>i s. vlant (f i s) v = vlant s v"
  shows "vlant (forall_ports rd n f sw) v = vlant sw v"
proof -
  have "vlant (ba_FORALL rd n f sw) v = vlant sw v"
    by (rule ba_FORALL_inv [where I = "\<lambda>s. vlant s v = vlant sw v" and Q = "\<lambda>_. True"]) (simp_all add: assms)
  then show ?thesis by (simp add: forall_ports_def frame_simps)
qed

lemma vlant_topology_change [frame_simps]: "vlant (topology_change v g sw) v' = vlant sw v'"
  by (simp add: topology_change_def Let_def vlant_forall_ports frame_simps)

lemma vlant_fstaddport [frame_simps]: "vlant (fstaddport v i tagged sw) = vlant sw"
  by (rule ext) (simp add: fstaddport_def Let_def frame_simps)

lemma vlant_port_set_status: "v' \<noteq> v \<Longrightarrow> vlant (port_set_status i v st sw) v' = vlant sw v'"
  by (simp add: port_set_status_def vlan_set_def vlan_clr_def crash_def Let_def split: status.splits option.splits)

lemma vlant_fstnewvlan: "v' \<noteq> v \<Longrightarrow> vlant (snd (fstnewvlan mem v sw)) v' = vlant sw v'"
  by (simp add: fstnewvlan_def fst_reset_def vlant_forall_ports vlant_port_set_status frame_simps)

lemma vlant_fstdelport: "v' \<noteq> v \<Longrightarrow> vlant (fstdelport v i sw) v' = vlant sw v'"
  by (simp add: fstdelport_def Let_def vlant_fstnewvlan frame_simps)

section \<open>The invariant but for one port\<close>

definition bc_at :: "switch \<Rightarrow> nat \<Rightarrow> bool" where
  "bc_at sw i \<longleftrightarrow> (\<forall>v.
     (vlan_check sw v Bctag i \<longrightarrow> active sw i \<and> vlan_check sw v Table i \<and> untag_of sw i \<noteq> v) \<and>
     (vlan_check sw v Bcuntag i \<longrightarrow> active sw i \<and> vlan_check sw v Table i \<and> untag_of sw i = v))"

definition fst_at :: "switch \<Rightarrow> nat \<Rightarrow> bool" where
  "fst_at sw i \<longleftrightarrow> (\<forall>v.
     (fst_check sw v Untag i \<longleftrightarrow> active sw i \<and> vlan_check sw v Table i \<and> untag_of sw i = v) \<and>
     (fst_check sw v Tagged i \<longleftrightarrow> active sw i \<and> vlan_check sw v Table i \<and> untag_of sw i \<noteq> v))"

definition wf_except :: "nat \<Rightarrow> switch \<Rightarrow> bool" where
  "wf_except i sw \<longleftrightarrow> struct_ok sw \<and> valid sw 0 \<and> untag_ok sw \<and> mac_ok sw \<and>
     (\<forall>v. fsttab sw v \<noteq> None \<longrightarrow> valid sw v) \<and> (\<forall>j. j \<noteq> i \<longrightarrow> bc_at sw j \<and> fst_at sw j)"

lemma switch_wf_except: "switch_wf sw \<longleftrightarrow> wf_except i sw \<and> bc_at sw i \<and> fst_at sw i"
  unfolding switch_wf_def wf_except_def bc_ok_def fst_ok_def bc_at_def fst_at_def
  by (intro iffI conjI; elim conjE) (blast | metis)+

lemma wf_exceptD:
  assumes "wf_except i sw"
  shows "struct_ok sw" "valid sw 0" "untag_ok sw" "mac_ok sw" "fsttab sw v \<noteq> None \<Longrightarrow> valid sw v"
    "j \<noteq> i \<Longrightarrow> bc_at sw j" "j \<noteq> i \<Longrightarrow> fst_at sw j"
  using assms by (simp_all add: wf_except_def)

lemma fst_change_except:
  assumes wf: "wf_except i sw" and ch: "fst_change v i u t sw sw'"
  shows "wf_except i sw'"
proof -
  note W = wf_exceptD [OF wf] and fs = fst_change_simps [OF ch]
  have mem: "member sw' v' j \<longleftrightarrow> member sw v' j" if "j \<noteq> i" for v' j
    using that by (simp add: member_def fs)
  have "bc_at sw' j \<and> fst_at sw' j" if j: "j \<noteq> i" for j
  proof
    show f: "fst_at sw' j" using W(7) [OF j] j by (simp add: fst_at_def fs)
    have "member sw' v' j \<Longrightarrow> active sw j" for v' using f by (auto simp: fst_at_def member_def fs)
    then show "bc_at sw' j"
      using W(6) [OF j] ch unfolding bc_at_def fst_change_def fs by blast
  qed
  moreover have "mac_ok sw'"
    using W(4) ch unfolding mac_ok_def entry_ok_def Let_def fs fst_change_def by blast
  ultimately show ?thesis
    using W fs by (simp add: wf_except_def untag_ok_def)
qed

lemma struct_ok_vlant:
  assumes sw: "struct_ok sw" and eq: "sw' = sw\<lparr>vlant := t\<rparr>"
    and len: "\<And>v f. length (t v f) = length (vlant sw v f)"
    and tab: "\<And>v i. vlan_check sw' v Table i \<Longrightarrow> valid sw v \<and> pview sw i \<noteq> None"
  shows "struct_ok sw'"
proof -
  note S = struct_okD [OF sw]
  have pv: "pview sw' = pview sw" and val: "valid sw' = valid sw" and mem: "member sw' = member sw"
    and bits: "fst_bits sw' = fst_bits sw" and chk: "fst_check sw' = fst_check sw"
    by (simp_all add: eq fun_eq_iff pview_def valid_def member_def fst_check_def)
  have nil: "t v f = [] \<longleftrightarrow> vlant sw v f = []" for v f
    using len [of v f] by (metis length_0_conv)
  have "arrays_ok sw'"
    using S(6) unfolding arrays_ok_def val bits by (simp add: eq len nil)
  moreover have "sets_ok sw'"
    using S(8) tab unfolding sets_ok_def val pv mem chk by blast
  moreover have "ports_ok sw'" using S(7) unfolding ports_ok_def pv .
  ultimately show ?thesis using S by (simp add: struct_ok_def) (simp add: eq)
qed

text \<open>
  Changing the VLAN table for one port. \<open>mac_free\<close>: no address has been learned on the port.
\<close>

definition mac_free :: "nat \<Rightarrow> switch \<Rightarrow> bool" where
  "mac_free i sw \<longleftrightarrow> (\<forall>d t. hash_look (hash sw) d \<noteq> Some (int i, t))"

lemma vlant_except:
  assumes wf: "wf_except i sw" and eq: "sw' = sw\<lparr>vlant := t\<rparr>"
    and len: "\<And>v f. length (t v f) = length (vlant sw v f)"
    and other: "\<And>v f j. j \<noteq> i \<Longrightarrow> vlan_check sw' v f j = vlan_check sw v f j"
    and tab: "\<And>v. vlan_check sw' v Table i \<Longrightarrow> vlan_check sw v Table i \<or> valid sw v \<and> pview sw i \<noteq> None"
    and keep: "mac_free i sw \<or> (\<forall>v. vlan_check sw v Table i \<longrightarrow> vlan_check sw' v Table i)"
    and un: "untag_of sw i = NOVLAN \<or> vlan_check sw (untag_of sw i) Table i \<longrightarrow>
       untag_of sw i = NOVLAN \<or> vlan_check sw' (untag_of sw i) Table i"
    and nl: "\<And>v. vlan_check sw' v Notlearning i \<Longrightarrow> vlan_check sw v Notlearning i"
  shows "wf_except i sw'"
proof -
  note W = wf_exceptD [OF wf]
  have pv: "pview sw' = pview sw" and val: "valid sw' = valid sw" and chk: "fst_check sw' = fst_check sw"
    and h: "hash sw' = hash sw" "fsttab sw' = fsttab sw"
    by (simp_all add: eq fun_eq_iff pview_def valid_def fst_check_def)
  note act = pview_cong(1,2) [OF pv]
  have "vlan_check sw' v Table j \<Longrightarrow> valid sw v \<and> pview sw j \<noteq> None" for v j
    using other [of j v Table] tab [of v] struct_okD(8) [OF W(1)] by (cases "j = i") (auto simp: sets_ok_def)
  then have "struct_ok sw'" by (rule struct_ok_vlant [OF W(1) eq len])
  moreover have "bc_at sw' j \<and> fst_at sw' j" if "j \<noteq> i" for j
    using W(6,7) [OF that] that by (simp add: bc_at_def fst_at_def act chk other)
  moreover have "entry_ok sw' d q" if q: "hash_look (hash sw) d = Some (q, x)" for d q x
  proof -
    have e: "entry_ok sw d q" using W(4) q by (auto simp: mac_ok_def)
    show ?thesis
    proof (cases "nat q = i")
      case True
      then have "q = int i" using e by (auto simp: entry_ok_def Let_def)
      then have "\<not> mac_free i sw" using q by (auto simp: mac_free_def)
      then show ?thesis using e keep nl True by (auto simp: entry_ok_def Let_def act)
    next
      case False
      then show ?thesis using e by (simp add: entry_ok_def Let_def act other)
    qed
  qed
  then have "mac_ok sw'" by (simp add: mac_ok_def h)
  moreover have "untag_ok sw'"
    unfolding untag_ok_def act pv using W(3) un other unfolding untag_ok_def by metis
  ultimately show ?thesis using W by (simp add: wf_except_def val h)
qed

lemma vlan_set_except:
  assumes "wf_except i sw" and "valid sw v" and "pview sw i \<noteq> None" and "f \<noteq> Notlearning"
  shows "wf_except i (vlan_set v f i sw)"
proof -
  note ok = wf_exceptD(1) [OF assms(1)]
  note cap = struct_cap(1) [OF ok struct_pview_less [OF ok assms(3)] assms(2), of f]
  obtain t where t: "vlan_set v f i sw = sw\<lparr>vlant := t\<rparr>" using vlan_set_simps(4) [OF cap] by blast
  have "length (t v' f') = length (vlant sw v' f')" for v' f'
    using vlan_set_simps(2) [OF cap, of v' f'] by (simp add: t)
  then show ?thesis
    by (rule vlant_except [OF assms(1) t]) (use assms in \<open>auto simp: vlan_set_simps(1) [OF cap]\<close>)
qed

lemma vlan_clr_except:
  assumes "wf_except i sw" and "valid sw v" and "pview sw i \<noteq> None"
    and "f \<noteq> Table \<or> mac_free i sw \<and> untag_of sw i \<noteq> v"
  shows "wf_except i (vlan_clr v f i sw)"
proof -
  note ok = wf_exceptD(1) [OF assms(1)]
  note cap = struct_cap(1) [OF ok struct_pview_less [OF ok assms(3)] assms(2), of f]
  obtain t where t: "vlan_clr v f i sw = sw\<lparr>vlant := t\<rparr>" using vlan_clr_simps(4) [OF cap] by blast
  have "length (t v' f') = length (vlant sw v' f')" for v' f'
    using vlan_clr_simps(2) [OF cap, of v' f'] by (simp add: t)
  then show ?thesis
    by (rule vlant_except [OF assms(1) t]) (use assms in \<open>auto simp: vlan_clr_simps(1) [OF cap]\<close>)
qed

section \<open>Endpoints come and go\<close>

text \<open>
  The loop of \<open>activate_port\<close>: port \<open>i\<close>, untagged in VLAN \<open>u\<close>, has joined the VLANs of \<open>S\<close> it
  is a member of.
\<close>

definition joining :: "switch \<Rightarrow> nat \<Rightarrow> nat \<Rightarrow> nat set \<Rightarrow> switch \<Rightarrow> bool" where
  "joining sw i u S s \<longleftrightarrow> wf_except i s \<and> pview s = pview sw \<and> validvlan s = validvlan sw \<and>
     (\<forall>v. vlant s v Table = vlant sw v Table) \<and>
     (\<forall>v. fst_check s v Untag i \<longleftrightarrow> v \<in> S \<and> vlan_check sw v Table i \<and> u = v) \<and>
     (\<forall>v. fst_check s v Tagged i \<longleftrightarrow> v \<in> S \<and> vlan_check sw v Table i \<and> u \<noteq> v) \<and>
     (\<forall>v. vlan_check s v Bcuntag i \<longrightarrow> vlan_check sw v Table i \<and> u = v) \<and>
     (\<forall>v. vlan_check s v Bctag i \<longrightarrow> vlan_check sw v Table i)"

lemma vlan_set_frame:
  "pview (vlan_set v f i sw) = pview sw" "validvlan (vlan_set v f i sw) = validvlan sw"
  "fsttab (vlan_set v f i sw) = fsttab sw" "numports (vlan_set v f i sw) = numports sw"
  "hash (vlan_set v f i sw) = hash sw" "fst_check (vlan_set v f i sw) = fst_check sw"
  "f \<noteq> f' \<Longrightarrow> vlant (vlan_set v f i sw) v' f' = vlant sw v' f'"
  "valid (vlan_set v f i sw) = valid sw"
  by (simp_all add: vlan_set_def crash_def fun_eq_iff pview_def fst_check_def valid_def)

lemma vlan_clr_frame:
  "pview (vlan_clr v f i sw) = pview sw" "validvlan (vlan_clr v f i sw) = validvlan sw"
  "fsttab (vlan_clr v f i sw) = fsttab sw" "numports (vlan_clr v f i sw) = numports sw"
  "hash (vlan_clr v f i sw) = hash sw" "fst_check (vlan_clr v f i sw) = fst_check sw"
  "f \<noteq> f' \<Longrightarrow> vlant (vlan_clr v f i sw) v' f' = vlant sw v' f'"
  "valid (vlan_clr v f i sw) = valid sw"
  by (simp_all add: vlan_clr_def crash_def fun_eq_iff pview_def fst_check_def valid_def)

lemma joining_step:
  assumes J: "joining sw i u S s" and k: "valid sw k" and i: "pview sw i \<noteq> None" and u: "untag_of sw i = u"
  shows "joining sw i u (insert k S)
    (if vlan_check s k Table i then fstaddport k i (k \<noteq> u) (vlan_set k Bctag i s) else s)"
proof -
  have wf: "wf_except i s" and pv: "pview s = pview sw" and vv: "validvlan s = validvlan sw"
    and tab: "\<And>v. vlant s v Table = vlant sw v Table" using J by (auto simp: joining_def)
  have T: "vlan_check s v Table j = vlan_check sw v Table j" for v j by (simp add: vlan_check_def tab)
  show ?thesis
  proof (cases "vlan_check sw k Table i")
    case False
    then show ?thesis using J by (auto simp: joining_def T)
  next
    case True
    define s1 where "s1 = vlan_set k Bctag i s"
    have ks: "valid s k" using k vv by (simp add: valid_def)
    have ip: "pview s i \<noteq> None" using i pv by simp
    note ok = wf_exceptD(1) [OF wf]
    note cap = struct_cap(1) [OF ok struct_pview_less [OF ok ip] ks, of Bctag]
    have wf1: "wf_except i s1" unfolding s1_def using vlan_set_except [OF wf ks ip] by simp
    have ch: "fst_change k i (k = u) (k \<noteq> u) s1 (fstaddport k i (k \<noteq> u) s1)"
      using fstaddport_change [OF wf_exceptD(1) [OF wf1], of k i "k \<noteq> u"] struct_valid_fst [OF ok ks] ip
      by (simp add: s1_def vlan_set_frame flip: pview_None)
    have chk: "vlan_check (fstaddport k i (k \<noteq> u) s1) v f j \<longleftrightarrow> v = k \<and> f = Bctag \<and> j = i \<or> vlan_check s v f j" for v f j
      using vlan_set_simps(1) [OF cap, of v f j] by (simp add: vlan_check_def frame_simps s1_def)
    have tab': "vlant (fstaddport k i (k \<noteq> u) s1) v Table = vlant sw v Table" for v
      by (simp add: frame_simps s1_def vlan_set_frame tab)
    have bits: "fst_check (fstaddport k i (k \<noteq> u) s1) v Untag i \<longleftrightarrow> (if v = k then k = u else fst_check s v Untag i)"
      "fst_check (fstaddport k i (k \<noteq> u) s1) v Tagged i \<longleftrightarrow> (if v = k then k \<noteq> u else fst_check s v Tagged i)" for v
      using fst_change_simps(11,12) [OF ch, of v i] by (simp_all add: s1_def vlan_set_frame)
    have pv': "pview (fstaddport k i (k \<noteq> u) s1) = pview sw" "validvlan (fstaddport k i (k \<noteq> u) s1) = validvlan sw"
      using fst_change_simps(4,5) [OF ch] by (simp_all add: s1_def vlan_set_frame pv vv)
    have "joining sw i u (insert k S) (fstaddport k i (k \<noteq> u) s1)"
      unfolding joining_def chk bits pv' tab'
      using fst_change_except [OF wf1 ch] J True unfolding joining_def by auto
    then show ?thesis using True by (simp add: T s1_def)
  qed
qed

lemma activate_port_wf:
  assumes wf: "wf_except i sw" and i: "active sw i" and u: "untag_of sw i = u"
    and none: "\<And>v. \<not> member sw v i" "\<And>v. \<not> vlan_check sw v Bctag i" "\<And>v. \<not> vlan_check sw v Bcuntag i"
  shows "switch_wf (activate_port i u sw)"
proof -
  note ok = wf_exceptD(1) [OF wf]
  have pi: "pview sw i \<noteq> None" using i by (auto simp: active_def)
  define s where "s = forall_vlans (\<lambda>k s. if vlan_check s k Table i
            then fstaddport k i (k \<noteq> u) (vlan_set k Bctag i s) else s) sw"
  have "joining sw i u (set (valid_list sw)) s"
    unfolding s_def forall_vlans_fold [OF ok]
  proof (rule fold_processed)
    show "joining sw i u {} sw" using wf none by (simp add: joining_def member_def)
  qed (rule joining_step [OF _ _ pi u], assumption, simp add: set_valid_list [OF ok])
  then have J: "joining sw i u {v. valid sw v} s" by (simp add: set_valid_list [OF ok])
  then have ws: "wf_except i s" and pv: "pview s = pview sw" and vv: "validvlan s = validvlan sw"
    and tab: "\<And>v. vlant s v Table = vlant sw v Table" by (auto simp: joining_def)
  have T: "vlan_check s v Table j = vlan_check sw v Table j" for v j by (simp add: vlan_check_def tab)
  have TV: "vlan_check sw v Table i \<Longrightarrow> valid sw v" for v
    using struct_tableD(1) [OF ok] by blast
  note act = pview_cong(1,2) [OF pv]
  have F: "fst_at s i"
    using J TV i u by (auto simp: joining_def fst_at_def act T)
  have B: "vlan_check s v Bcuntag i \<Longrightarrow> vlan_check sw v Table i \<and> u = v"
    "vlan_check s v Bctag i \<Longrightarrow> vlan_check sw v Table i" for v
    using J by (auto simp: joining_def)
  show ?thesis
  proof (cases "u = NOVLAN")
    case True
    have "\<not> vlan_check sw u Table i" using TV [of u] True by (auto simp: valid_def NOVLAN_def NUMOFVLAN_def)
    then have "bc_at s i" using B i u by (auto simp: bc_at_def act T)
    then have "switch_wf s" using ws F by (simp add: switch_wf_except [of s i])
    then show ?thesis using True unfolding activate_port_def Let_def s_def [symmetric] by simp
  next
    case False
    have "vlan_check sw u Table i"
      using wf_exceptD(3) [OF wf] pi u False unfolding untag_ok_def by blast
    then have us: "valid s u" using TV vv by (simp add: valid_def)
    have ip: "pview s i \<noteq> None" using pi pv by simp
    define s1 where "s1 = vlan_set u Bcuntag i s"
    define s2 where "s2 = vlan_clr u Bctag i s1"
    define s3 where "s3 = vlan_clr u Notlearning i s2"
    have w1: "wf_except i s1" unfolding s1_def using vlan_set_except [OF ws us ip] by simp
    have w2: "wf_except i s2"
      unfolding s2_def using vlan_clr_except [OF w1] us ip by (simp add: s1_def vlan_set_frame flip: pview_None)
    have w3: "wf_except i s3"
      unfolding s3_def using vlan_clr_except [OF w2] us ip
      by (simp add: s1_def s2_def vlan_set_frame vlan_clr_frame flip: pview_None)
    note less = struct_pview_less [OF wf_exceptD(1) [OF ws] ip]
    note c1 = struct_cap(1) [OF wf_exceptD(1) [OF ws] less us]
    have c2: "ba_cap (vlant s1 v f) j = ba_cap (vlant s v f) j" for v f j
      unfolding s1_def by (rule vlan_set_simps(3) [OF c1])
    have c3: "ba_cap (vlant s2 v f) j = ba_cap (vlant s v f) j" for v f j
      unfolding s2_def c2 [symmetric] by (rule vlan_clr_simps(3)) (simp add: c1 c2)
    have k1: "vlan_check s1 v f j \<longleftrightarrow> v = u \<and> f = Bcuntag \<and> j = i \<or> vlan_check s v f j" for v f j
      unfolding s1_def by (rule vlan_set_simps(1) [OF c1])
    have k2: "vlan_check s2 v f j \<longleftrightarrow> \<not> (v = u \<and> f = Bctag \<and> j = i) \<and> vlan_check s1 v f j" for v f j
      unfolding s2_def by (rule vlan_clr_simps(1)) (simp add: c1 c2)
    have k3: "vlan_check s3 v f j \<longleftrightarrow> \<not> (v = u \<and> f = Notlearning \<and> j = i) \<and> vlan_check s2 v f j" for v f j
      unfolding s3_def by (rule vlan_clr_simps(1)) (simp add: c1 c3)
    have chk: "vlan_check s3 v f i \<longleftrightarrow> \<not> (v = u \<and> (f = Bctag \<or> f = Notlearning)) \<and>
        (v = u \<and> f = Bcuntag \<or> vlan_check s v f i)" for v f
      by (auto simp: k1 k2 k3)
    have pv3: "pview s3 = pview sw" "fst_check s3 = fst_check s"
      by (simp_all add: s1_def s2_def s3_def vlan_set_frame vlan_clr_frame pv)
    note act3 = pview_cong(1,2) [OF pv3(1)]
    have "bc_at s3 i"
      using B \<open>vlan_check sw u Table i\<close> i u by (auto simp: bc_at_def chk T act3)
    moreover have "fst_at s3 i"
      using F unfolding fst_at_def chk act3 act pv3 by auto
    ultimately have "switch_wf s3" using w3 by (simp add: switch_wf_except [of s3 i])
    then show ?thesis
      using False unfolding activate_port_def Let_def s_def [symmetric] s1_def s2_def s3_def by simp
  qed
qed

lemma mac_free_delete: "struct_ok sw \<Longrightarrow> mac_free i (sw\<lparr>hash := hash_delete_port (int i) (hash sw)\<rparr>)"
  using struct_okD(9) [of sw] by (auto simp: mac_free_def hash_deletes_purge hash_look_purge split: option.splits)

lemma struct_ok_upd_port:
  assumes sw: "struct_ok sw" and p: "get_port i sw = Some p"
    and "p_ep (f p) \<noteq> [] \<Longrightarrow> p_ms (f p) \<noteq> None" and "\<forall>e \<in> set (p_ep (f p)). ep_port e = i"
  shows "struct_ok (upd_port i f sw)"
proof -
  note S = struct_okD [OF sw] and eq = upd_port_Some [OF p, of f] and pv = pview_upd_port [OF p, of f]
  have dom: "pview (upd_port i f sw) j \<noteq> None \<longleftrightarrow> pview sw j \<noteq> None" for j
    using p by (cases "j = i") (simp_all add: get_port_upd_port [OF p])
  have val: "valid (upd_port i f sw) = valid sw" and mem: "member (upd_port i f sw) = member sw"
    and chk: "fst_check (upd_port i f sw) = fst_check sw" and tab: "vlan_check (upd_port i f sw) = vlan_check sw"
    by (simp_all add: eq fun_eq_iff valid_def member_def fst_check_def vlan_check_def)
  have "arrays_ok (upd_port i f sw)" using S(6) unfolding arrays_ok_def val by (simp add: eq)
  moreover have "ports_ok (upd_port i f sw)"
    using S(7) assms(3,4) unfolding ports_ok_def pv by (auto simp: pshape_def)
  moreover have "sets_ok (upd_port i f sw)"
    using S(8) unfolding sets_ok_def val mem chk tab dom .
  ultimately show ?thesis using S by (simp add: struct_ok_def) (simp add: eq)
qed

lemma upd_port_except:
  assumes wf: "wf_except i sw" and p: "get_port i sw = Some p"
    and ms: "p_ep (f p) \<noteq> [] \<Longrightarrow> p_ms (f p) \<noteq> None" "\<forall>e \<in> set (p_ep (f p)). ep_port e = i"
    and u: "p_vlanuntag (f p) = NOVLAN \<or> vlan_check sw (p_vlanuntag (f p)) Table i"
    and act: "mac_free i sw \<or> p_ep (f p) \<noteq> []"
  shows "wf_except i (upd_port i f sw)"
proof -
  note W = wf_exceptD [OF wf] and eq = upd_port_Some [OF p, of f] and pv = pview_upd_port [OF p, of f]
  let ?sw = "upd_port i f sw"
  have A: "active ?sw j = (if j = i then p_ep (f p) \<noteq> [] else active sw j)"
    and U: "untag_of ?sw j = (if j = i then p_vlanuntag (f p) else untag_of sw j)" for j
    by (auto simp: active_def untag_of_def get_port_upd_port [OF p])
  have val: "valid ?sw = valid sw" and chk: "fst_check ?sw = fst_check sw" and tab: "vlan_check ?sw = vlan_check sw"
    and same: "hash ?sw = hash sw" "fsttab ?sw = fsttab sw"
    by (simp_all add: eq fun_eq_iff valid_def fst_check_def vlan_check_def)
  have "mac_ok ?sw"
  proof -
    have "entry_ok ?sw d q" if q: "hash_look (hash sw) d = Some (q, t)" for d q t
    proof -
      have e: "entry_ok sw d q" using W(4) q by (auto simp: mac_ok_def)
      then have "q \<noteq> int i" if "p_ep (f p) = []"
        using act that q by (auto simp: mac_free_def)
      then show ?thesis using e by (auto simp: entry_ok_def Let_def A tab)
    qed
    then show ?thesis by (simp add: mac_ok_def same)
  qed
  moreover have "bc_at ?sw j \<and> fst_at ?sw j" if "j \<noteq> i" for j
    using W(6,7) [OF that] that by (simp add: bc_at_def fst_at_def A U tab chk)
  moreover have "untag_ok ?sw"
    using W(3) u p unfolding untag_ok_def U tab by (auto simp: get_port_upd_port [OF p])
  ultimately show ?thesis
    using W struct_ok_upd_port [OF W(1) p, of f] ms by (simp add: wf_except_def val same)
qed

lemma switch_wf_at: "switch_wf sw \<Longrightarrow> wf_except i sw" "switch_wf sw \<Longrightarrow> bc_at sw i" "switch_wf sw \<Longrightarrow> fst_at sw i"
  using switch_wf_except by blast+

lemma inactive_none:
  assumes "switch_wf sw" and "\<not> active sw i"
  shows "\<not> member sw v i" "\<not> vlan_check sw v Bctag i" "\<not> vlan_check sw v Bcuntag i" "mac_free i sw"
  using switch_wf_at(2,3) [OF assms(1), of i] assms switch_wfD(6) [OF assms(1)]
  by (force simp: member_def bc_at_def fst_at_def mac_free_def mac_ok_def entry_ok_def Let_def)+

lemma alloc_port_wf [wf_intros]:
  assumes wf: "switch_wf sw" and al: "alloc_port mem n sw = (k, sw')"
  shows "switch_wf sw' \<and> (0 \<le> k \<longrightarrow> get_port (nat k) sw' \<noteq> None)"
proof -
  define i where "i = (if n = 0 then int (alloc_scan 1 (drop 1 (portv sw))) else if n < 0 then 0 else n)"
  have i0: "0 \<le> i" by (simp add: i_def)
  note al' = al [unfolded alloc_port_def i_def [symmetric] Let_def]
  show ?thesis
  proof (cases "i < int (numports sw) \<and> get_port (nat i) sw = None \<and> mem")
    case False
    then have "sw' = sw" and "0 \<le> k \<longrightarrow> get_port (nat k) sw \<noteq> None"
      using al' by (auto split: if_splits)
    with wf show ?thesis by simp
  next
    case True
    define j where "j = nat i"
    define sw1 where "sw1 = sw\<lparr>portv := (portv sw)[j := Some new_port]\<rparr>"
    have res: "k = i" "sw' = vlan_set 0 Table j sw1"
      using al' True by (auto simp: j_def sw1_def)
    note W = switch_wfD [OF wf] and S = struct_okD [OF switch_wfD(1) [OF wf]]
    have j: "j < numports sw" "get_port j sw = None" using True i0 by (auto simp: j_def)
    have gp: "get_port l sw1 = (if l = j then Some new_port else get_port l sw)" for l
      using j S(2) by (auto simp: sw1_def get_port_list_update)
    have cap: "ba_cap (vlant sw1 0 Table) j" using struct_cap(1) [OF W(1) j(1) W(2)] by (simp add: sw1_def)
    have same: "vlan_check sw1 = vlan_check sw" "fst_check sw1 = fst_check sw" "valid sw1 = valid sw"
      "fst_bits sw1 = fst_bits sw" "member sw1 = member sw"
      by (simp_all add: sw1_def fun_eq_iff vlan_check_def fst_check_def valid_def member_def)
    have inact: "\<not> active sw j" using j by (simp add: active_def)
    note none = inactive_none [OF wf inact]
    have chk: "vlan_check sw' v f l \<longleftrightarrow> v = 0 \<and> f = Table \<and> l = j \<or> vlan_check sw v f l" for v f l
      unfolding res(2) vlan_set_simps(1) [OF cap] same ..
    have A: "active sw' = active sw" and P: "pview sw' = (pview sw)(j \<mapsto> ([], None, 0))"
      and U: "untag_of sw' l = (if l = j then 0 else untag_of sw l)" for l
      using j by (auto simp: res vlan_set_frame fun_eq_iff pview_def gp active_def untag_of_def new_port_def pshape_def
          vlan_set_def crash_def)
    have fr: "fst_check sw' = fst_check sw" "valid sw' = valid sw" "fsttab sw' = fsttab sw" "hash sw' = hash sw"
      "numports sw' = numports sw" "validvlan sw' = validvlan sw" "fst_bits sw' = fst_bits sw" "member sw' = member sw"
      "fault sw' = fault sw" "fst_numports sw' = fst_numports sw" "length (portv sw') = length (portv sw)"
      "length (vlant sw' v f) = length (vlant sw v f)" for v f
      using vlan_set_simps(2) [OF cap, of v f] cap
      by (simp_all add: res vlan_set_frame same fun_eq_iff fst_bits_def member_def vlan_set_def sw1_def fst_check_def
          valid_def)
    have nil: "vlant sw' v f = [] \<longleftrightarrow> vlant sw v f = []" for v f by (metis fr(12) length_0_conv)
    have PD: "pview sw' l \<noteq> None \<longleftrightarrow> l = j \<or> pview sw l \<noteq> None" for l
      unfolding P by (cases "l = j") simp_all
    have "arrays_ok sw'" using S(6) unfolding arrays_ok_def fr nil .
    moreover have "ports_ok sw'" using S(7) unfolding ports_ok_def P by auto
    moreover have "sets_ok sw'"
      using S(8) W(2) unfolding sets_ok_def chk fr PD by blast
    ultimately have "struct_ok sw'" using S by (simp add: struct_ok_def fr)
    moreover have "untag_ok sw'" using W(3) unfolding untag_ok_def chk U PD by auto
    moreover have "bc_ok sw'"
      using W(4) none unfolding bc_ok_def chk U A by auto
    moreover have "fst_ok sw'"
      using W(5) inact unfolding fst_ok_def chk U A fr by auto
    moreover have "mac_ok sw'"
      using W(6) unfolding mac_ok_def entry_ok_def Let_def chk A fr by auto
    ultimately show ?thesis
      using W(2) fr PD [of j] res(1) by (simp add: switch_wf_def j_def)
  qed
qed

end
