(* ===== verification/Operations.thy ===== *)
theory Operations
  imports Consistency
begin

text \<open>
  The operations that change ports and VLANs keep the invariant \<open>switch_wf\<close>: connecting and
  closing endpoints, creating and removing ports and VLANs, moving ports between VLANs,
  resizing.
\<close>

lemma setup_ep_wf [wf_intros]:
  assumes wf: "switch_wf sw"
  shows "switch_wf (snd (setup_ep db mem memep n c d user m sw))"
proof -
  obtain k sw1 where al: "alloc_port mem n sw = (k, sw1)" by force
  note w1 = alloc_port_wf [OF wf al]
  show ?thesis
  proof (cases "k < 0")
    case True
    with al w1 show ?thesis by (simp add: setup_ep_def)
  next
    case False
    define i where "i = nat k"
    obtain p where p: "get_port i sw1 = Some p" using w1 False by (auto simp: i_def)
    define p1 where "p1 = (if p_ep p = [] \<and> checkport_ac db p user then p\<lparr>p_curuser := user\<rparr> else p)"
    have sh: "p_ep p1 = p_ep p" "p_ms p1 = p_ms p" "p_vlanuntag p1 = p_vlanuntag p" by (simp_all add: p1_def)
    define sw2 where "sw2 = upd_port i (\<lambda>_. p1) sw1"
    have w2: "switch_wf sw2"
      unfolding sw2_def
      by (rule stp_then_wf [OF conjunct1 [OF w1]], rule upd_port_step [OF _ p]) (simp_all add: pshape_def sh)
    have p2: "get_port i sw2 = Some p1" by (simp add: sw2_def get_port_upd_port [OF p])
    show ?thesis
    proof (cases "p_curuser p1 = user \<and> memep")
      case False
      with al p w2 \<open>\<not> k < 0\<close> show ?thesis
        by (auto simp: setup_ep_def Let_def i_def [symmetric] p1_def [symmetric] sw2_def [symmetric])
    next
      case True
      define ep where "ep = new_endpoint i c d"
      define sw3 where "sw3 = upd_port i (\<lambda>p. p\<lparr>p_ms := Some m, p_ep := ep # p_ep p\<rparr>) sw2"
      note pD = struct_portD [OF switch_wfD(1) [OF w2] p2]
      have u: "p_vlanuntag p1 = NOVLAN \<or> vlan_check sw2 (p_vlanuntag p1) Table i"
        using switch_wfD(3) [OF w2] p2 by (auto simp: untag_ok_def untag_of_def)
      have w3: "wf_except i sw3"
        unfolding sw3_def using pD(2) u
        by (intro upd_port_except [OF switch_wf_at(1) [OF w2] p2]) (auto simp: ep_def new_endpoint_def)
      have p3: "get_port j sw3 = (if j = i then Some (p1\<lparr>p_ms := Some m, p_ep := ep # p_ep p1\<rparr>) else get_port j sw2)" for j
        by (simp add: sw3_def get_port_upd_port [OF p2])
      have A3: "active sw3 i" and U3: "untag_of sw3 i = p_vlanuntag p1" by (simp_all add: active_def untag_of_def p3)
      have same: "vlan_check sw3 = vlan_check sw2" "fst_check sw3 = fst_check sw2" "member sw3 = member sw2"
        by (simp_all add: sw3_def upd_port_Some [OF p2] fun_eq_iff vlan_check_def fst_check_def member_def)
      have res: "snd (setup_ep db mem memep n c d user m sw) =
          (if p_ep p1 = [] then activate_port i (p_vlanuntag p1) sw3 else sw3)"
        using al p True \<open>\<not> k < 0\<close>
        by (simp add: setup_ep_def Let_def i_def [symmetric] p1_def [symmetric] sw2_def [symmetric] sw3_def ep_def)
      show ?thesis
      proof (cases "p_ep p1 = []")
        case True
        then have "\<not> active sw2 i" using p2 by (simp add: active_def)
        note none = inactive_none [OF w2 this]
        have "switch_wf (activate_port i (p_vlanuntag p1) sw3)"
          by (rule activate_port_wf [OF w3 A3 U3]) (simp_all add: none same)
        with True res show ?thesis by simp
      next
        case False
        then have "active sw2 i" "untag_of sw2 i = p_vlanuntag p1" using p2 by (simp_all add: active_def untag_of_def)
        then have "bc_at sw3 i" "fst_at sw3 i"
          using switch_wf_at(2,3) [OF w2, of i] A3 U3 by (simp_all add: bc_at_def fst_at_def same)
        with w3 have "switch_wf sw3" by (simp add: switch_wf_except [of sw3 i])
        with False res show ?thesis by simp
      qed
    qed
  qed
qed

section \<open>Closing\<close>

definition leaving :: "switch \<Rightarrow> nat \<Rightarrow> nat set \<Rightarrow> switch \<Rightarrow> bool" where
  "leaving sw i S s \<longleftrightarrow> wf_except i s \<and> pview s = pview sw \<and> validvlan s = validvlan sw \<and>
     (\<forall>v. vlant s v Table = vlant sw v Table) \<and>
     (\<forall>v. member s v i \<longrightarrow> v \<notin> S) \<and> (\<forall>v. vlan_check s v Bctag i \<longrightarrow> v \<notin> S \<and> vlan_check sw v Table i) \<and>
     (\<forall>v. vlan_check s v Bcuntag i \<longrightarrow> vlan_check sw v Table i \<and> untag_of sw i = v)"

lemma leaving_step:
  assumes L: "leaving sw i S s" and k: "valid sw k" and i: "pview sw i \<noteq> None"
  shows "leaving sw i (insert k S) (fstdelport k i (vlan_clr k Bctag i s))"
proof -
  have wf: "wf_except i s" and pv: "pview s = pview sw" and vv: "validvlan s = validvlan sw"
    and tab: "\<And>v. vlant s v Table = vlant sw v Table" using L by (auto simp: leaving_def)
  define s1 where "s1 = vlan_clr k Bctag i s"
  have ks: "valid s k" using k vv by (simp add: valid_def)
  have ip: "pview s i \<noteq> None" using i pv by simp
  note ok = wf_exceptD(1) [OF wf]
  note cap = struct_cap(1) [OF ok struct_pview_less [OF ok ip] ks, of Bctag]
  have wf1: "wf_except i s1" unfolding s1_def using vlan_clr_except [OF wf ks ip] by simp
  have chk1: "vlan_check s1 v f j \<longleftrightarrow> \<not> (v = k \<and> f = Bctag \<and> j = i) \<and> vlan_check s v f j" for v f j
    unfolding s1_def by (rule vlan_clr_simps(1) [OF cap])
  have ch: "fst_change k i False False s1 (fstdelport k i s1)"
    using fstdelport_change [OF wf_exceptD(1) [OF wf1], of k i] struct_valid_fst [OF ok ks] ip
    by (simp add: s1_def vlan_clr_frame flip: pview_None)
  note fs = fst_change_simps [OF ch]
  have T: "vlan_check s v Table i = vlan_check sw v Table i" for v
    by (simp add: vlan_check_def tab)
  have "pview s1 = pview sw" by (simp add: s1_def vlan_clr_frame pv)
  note U = pview_cong(2) [OF this]
  have mem: "member (fstdelport k i s1) v i \<longleftrightarrow> v \<noteq> k \<and> member s v i" for v
    unfolding member_def fs by (simp add: s1_def vlan_clr_frame)
  have tab': "vlant (fstdelport k i s1) v Table = vlant sw v Table" for v
    using ch tab by (simp add: fst_change_def s1_def vlan_clr_frame)
  have Bt: "vlan_check (fstdelport k i s1) v Bctag i \<Longrightarrow>
      v \<noteq> k \<and> vlan_check s v Bctag i \<or> member (fstdelport k i s1) v i \<and> vlan_check sw v Table i" for v
    using fst_change_grow(3) [OF ch, of v i] by (auto simp: chk1 T)
  have Bu: "vlan_check (fstdelport k i s1) v Bcuntag i \<Longrightarrow>
      vlan_check s v Bcuntag i \<or> vlan_check sw v Table i \<and> untag_of sw i = v" for v
    using fst_change_grow(2) [OF ch, of v i] by (auto simp: chk1 T U)
  have pv': "pview (fstdelport k i s1) = pview sw" "validvlan (fstdelport k i s1) = validvlan sw"
    using fs(4,5) by (simp_all add: s1_def vlan_clr_frame pv vv)
  have "leaving sw i (insert k S) (fstdelport k i s1)"
    unfolding leaving_def tab' mem pv'
    using fst_change_except [OF wf1 ch] L [unfolded leaving_def] by (auto dest!: Bt Bu simp: mem)
  then show ?thesis by (simp add: s1_def)
qed

lemma leaving_all:
  assumes wf: "wf_except i sw" and ip: "pview sw i \<noteq> None"
    and B: "\<And>v. vlan_check sw v Bctag i \<Longrightarrow> vlan_check sw v Table i"
      "\<And>v. vlan_check sw v Bcuntag i \<Longrightarrow> vlan_check sw v Table i \<and> untag_of sw i = v"
  shows "leaving sw i {v. valid sw v} (forall_vlans (\<lambda>k s. fstdelport k i (vlan_clr k Bctag i s)) sw)"
proof -
  note ok = wf_exceptD(1) [OF wf]
  have "leaving sw i (set (valid_list sw)) (fold (\<lambda>k s. fstdelport k i (vlan_clr k Bctag i s)) (valid_list sw) sw)"
  proof (rule fold_processed)
    show "leaving sw i {} sw" using wf B by (simp add: leaving_def)
  qed (rule leaving_step [OF _ _ ip], assumption, simp add: set_valid_list [OF ok])
  then show ?thesis by (simp add: forall_vlans_fold [OF ok] set_valid_list [OF ok])
qed

lemma wf_outs: "switch_wf sw \<Longrightarrow> switch_wf (sw\<lparr>outs := x\<rparr>)"
  by (erule stp_then_wf, erule stp_step_same) simp_all

lemma leaving_none:
  assumes wz: "wf_except i z" and L: "leaving z i {v. valid z v} s"
  shows "\<not> vlan_check s v Bctag i" "\<not> member s v i"
    "vlan_check s v Bcuntag i \<Longrightarrow> vlan_check z v Table i \<and> untag_of z i = v"
proof -
  have ws: "wf_except i s" and vv: "validvlan s = validvlan z" using L by (auto simp: leaving_def)
  have TV: "vlan_check z v Table i \<Longrightarrow> valid z v" for v
    using struct_tableD(1) [OF wf_exceptD(1) [OF wz]] by blast
  have "member s v i \<Longrightarrow> valid z v" for v
    using wf_exceptD(5) [OF ws, of v] vv
    by (auto simp: valid_def member_def fst_check_def fst_bits_def ba_check_def split: option.splits)
  then show "\<not> vlan_check s v Bctag i" "\<not> member s v i"
    "vlan_check s v Bcuntag i \<Longrightarrow> vlan_check z v Table i \<and> untag_of z i = v"
    using L TV by (auto simp: leaving_def)
qed

text \<open>The last step of \<open>inactivate_port\<close>.\<close>

lemma leaving_done:
  assumes wz: "wf_except i z" and A: "\<not> active z i" and L: "leaving z i {v. valid z v} s"
    and q: "get_port i s = Some q"
  shows "switch_wf (if p_vlanuntag q < NOVLAN then vlan_clr (p_vlanuntag q) Bcuntag i s else s)"
proof -
  have ws: "wf_except i s" and pv: "pview s = pview z" and tab: "\<And>v. vlant s v Table = vlant z v Table"
    using L by (auto simp: leaving_def)
  note none = leaving_none [OF wz L] and act = pview_cong(1,2) [OF pv]
  have U: "untag_of z i = p_vlanuntag q" using q by (simp add: untag_of_def flip: act)
  have T: "vlan_check s v Table i = vlan_check z v Table i" for v by (simp add: vlan_check_def tab)
  note TV = struct_tableD(1) [OF wf_exceptD(1) [OF ws]]
  have ip: "pview s i \<noteq> None" using q by simp
  show ?thesis
  proof (cases "p_vlanuntag q < NOVLAN")
    case True
    then have "vlan_check s (p_vlanuntag q) Table i"
      using wf_exceptD(3) [OF ws] ip U by (auto simp: untag_ok_def act)
    then have us: "valid s (p_vlanuntag q)" by (rule TV)
    define s' where "s' = vlan_clr (p_vlanuntag q) Bcuntag i s"
    note cap = struct_cap(1) [OF wf_exceptD(1) [OF ws] struct_pview_less [OF wf_exceptD(1) [OF ws] ip] us, of Bcuntag]
    have w': "wf_except i s'" unfolding s'_def using vlan_clr_except [OF ws us ip] by simp
    have chk: "vlan_check s' v f i \<longleftrightarrow> \<not> (v = p_vlanuntag q \<and> f = Bcuntag) \<and> vlan_check s v f i" for v f
      by (simp add: s'_def vlan_clr_simps(1) [OF cap])
    have "pview s' = pview z" "fst_check s' = fst_check s" by (simp_all add: s'_def vlan_clr_frame pv)
    then have "bc_at s' i" "fst_at s' i"
      using none A U pview_cong(1,2) [of s' z] by (auto simp: bc_at_def fst_at_def chk member_def)
    with w' have "switch_wf s'" by (simp add: switch_wf_except [of s' i])
    with True show ?thesis by (simp add: s'_def)
  next
    case False
    then have "\<not> vlan_check s v Bcuntag i" for v
      using none(3) [of v] U TV [of v i] T [of v] by (auto simp: valid_def NUMOFVLAN_def NOVLAN_def)
    then have "bc_at s i" "fst_at s i" using none A by (auto simp: bc_at_def fst_at_def act member_def)
    with ws False show ?thesis by (simp add: switch_wf_except [of s i])
  qed
qed

lemma inactivate_port_wf:
  assumes wf: "switch_wf sw" and p: "get_port i sw = Some p"
  shows "switch_wf (inactivate_port i ((upd_port i (\<lambda>p. p\<lparr>p_ep := []\<rparr>) sw)\<lparr>outs := x\<rparr>))"
proof -
  define y where "y = sw\<lparr>hash := hash_delete_port (int i) (hash sw), outs := x\<rparr>"
  have wy: "switch_wf y"
    unfolding y_def using wf_outs [OF purge_wf [OF wf]] by (simp add: hash_deletes_purge)
  have py: "get_port i y = Some p" using p by (simp add: y_def)
  have free: "mac_free i y"
    using mac_free_delete [OF switch_wfD(1) [OF wf], of i] by (simp add: y_def mac_free_def)
  let ?g = "\<lambda>p. p\<lparr>p_ep := [], p_ms := None, p_curuser := - 1\<rparr>"
  define z where "z = upd_port i ?g y"
  have u: "p_vlanuntag p = NOVLAN \<or> vlan_check y (p_vlanuntag p) Table i"
    using switch_wfD(3) [OF wy] py by (auto simp: untag_ok_def untag_of_def)
  have wz: "wf_except i z"
    unfolding z_def using free u by (intro upd_port_except [OF switch_wf_at(1) [OF wy] py]) auto
  have pz: "get_port i z = Some (?g p)" by (simp add: z_def get_port_upd_port [OF py])
  have same: "vlan_check z = vlan_check y" by (simp add: z_def upd_port_Some [OF py] fun_eq_iff vlan_check_def)
  have U: "untag_of z i = untag_of y i" using pz py by (simp_all add: untag_of_def)
  define s where "s = forall_vlans (\<lambda>k s. fstdelport k i (vlan_clr k Bctag i s)) z"
  have L: "leaving z i {v. valid z v} s"
    unfolding s_def using switch_wf_at(2) [OF wy, of i] pz
    by (intro leaving_all [OF wz]) (auto simp: same U bc_at_def)
  then have "pview s = pview z" by (simp add: leaving_def)
  from fun_cong [OF this, of i] obtain q where q: "get_port i s = Some q" using pz by (auto simp: pview_def)
  have "upd_port i (\<lambda>p. p\<lparr>p_ms := None, p_curuser := - 1\<rparr>)
      ((upd_port i (\<lambda>p. p\<lparr>p_ep := []\<rparr>) sw)\<lparr>outs := x, hash := hash_delete_port (int i) (hash sw)\<rparr>) = z"
    using p get_port_Some_length [OF p] by (simp add: z_def y_def upd_port_def get_port_list_update)
  then have "inactivate_port i ((upd_port i (\<lambda>p. p\<lparr>p_ep := []\<rparr>) sw)\<lparr>outs := x\<rparr>) =
      (if p_vlanuntag q < NOVLAN then vlan_clr (p_vlanuntag q) Bcuntag i s else s)"
    using q upd_port_Some [OF p] by (simp add: inactivate_port_def Let_def s_def [symmetric])
  with leaving_done [OF wz _ L q] pz show ?thesis by (simp add: active_def)
qed

lemma rec_close_ep_result:
  "rec_close_ep c es = (r, es') \<Longrightarrow>
     (if r = None then es' = es \<and> (\<forall>e \<in> set es. ep_fd_ctl e \<noteq> c)
      else es \<noteq> [] \<and> set es' \<subseteq> set es \<and> (\<exists>e \<in> set es. r = Some e \<and> ep_fd_ctl e = c))"
  by (induction es arbitrary: r es') (auto split: if_splits prod.splits)

lemma close_ep_port_fd_wf [wf_intros]:
  assumes wf: "switch_wf sw"
  shows "switch_wf (snd (close_ep_port_fd n c sw))"
proof (cases "0 \<le> n \<and> n < int (numports sw) \<and> get_port (nat n) sw \<noteq> None")
  case False
  with wf show ?thesis by (auto simp: close_ep_port_fd_def)
next
  case True
  define i where "i = nat n"
  obtain p where p: "get_port i sw = Some p" using True by (auto simp: i_def)
  obtain r es where rec: "rec_close_ep c (p_ep p) = (r, es)" by force
  note rr = rec_close_ep_result [OF rec]
  note pD = struct_portD [OF switch_wfD(1) [OF wf] p]
  show ?thesis
  proof (cases r)
    case None
    have "upd_port i (\<lambda>p. p\<lparr>p_ep := []\<rparr>) sw = sw" if "p_ep p = []"
    proof -
      have "p\<lparr>p_ep := []\<rparr> = p" using that by simp
      then show ?thesis using p by (simp add: upd_port_def get_port_update_id)
    qed
    then have "p_ep p = [] \<Longrightarrow> switch_wf (inactivate_port i sw)"
      using inactivate_port_wf [OF wf p, of "outs sw"] by simp
    then show ?thesis
      using None rr rec p True wf by (simp add: close_ep_port_fd_def i_def [symmetric])
  next
    case (Some e)
    define evs where "evs m = outs sw @ [DelEp m (ep_fd_ctl e) (ep_fd_data e) (ep_descr e)]" for m
    obtain m where m: "p_ms p = Some m" using pD(1) rr Some by auto
    have res: "snd (close_ep_port_fd n c sw) =
        (let sw1 = (upd_port i (\<lambda>p. p\<lparr>p_ep := es\<rparr>) sw)\<lparr>outs := evs m\<rparr> in if es = [] then inactivate_port i sw1 else sw1)"
      using Some rec p m True by (simp add: close_ep_port_fd_def i_def [symmetric] evs_def Let_def)
    show ?thesis
    proof (cases "es = []")
      case True
      then show ?thesis using inactivate_port_wf [OF wf p, of "evs m"] by (simp add: res)
    next
      case False
      have u: "p_vlanuntag p = NOVLAN \<or> vlan_check sw (p_vlanuntag p) Table i"
        using switch_wfD(3) [OF wf] p by (auto simp: untag_ok_def untag_of_def)
      define z where "z = upd_port i (\<lambda>p. p\<lparr>p_ep := es\<rparr>) sw"
      have wz: "wf_except i z"
        unfolding z_def using False u m rr Some pD(2)
        by (intro upd_port_except [OF switch_wf_at(1) [OF wf] p]) auto
      have "active z i" "untag_of z i = untag_of sw i" "active sw i" "vlan_check z = vlan_check sw" "fst_check z = fst_check sw"
        using False rr Some p
        by (auto simp: z_def active_def untag_of_def upd_port_Some [OF p] get_port_list_update
            get_port_Some_length [OF p] fun_eq_iff vlan_check_def fst_check_def)
      then have "bc_at z i" "fst_at z i"
        using switch_wf_at(2,3) [OF wf, of i] by (simp_all add: bc_at_def fst_at_def)
      with wz have "switch_wf z" by (simp add: switch_wf_except [of z i])
      with False show ?thesis using wf_outs by (simp add: res z_def [symmetric])
    qed
  qed
qed

lemma epclose_wf [wf_intros]: "switch_wf sw \<Longrightarrow> switch_wf (snd (epclose arg sw))"
  by (simp add: epclose_def close_ep_port_fd_wf split: list.split)

section \<open>Creating and removing ports\<close>

lemma fold_vlan_clr:
  assumes "\<And>v. v \<in> set vs \<Longrightarrow> ba_cap (vlant sw v f) i"
  shows "\<exists>t. fold (\<lambda>v. vlan_clr v f i) vs sw = sw\<lparr>vlant := t\<rparr> \<and>
    (\<forall>v f'. length (t v f') = length (vlant sw v f')) \<and>
    (\<forall>v f' j. ba_check (t v f') j \<longleftrightarrow> vlan_check sw v f' j \<and> \<not> (v \<in> set vs \<and> f' = f \<and> j = i))"
  using assms
proof (induction vs arbitrary: sw)
  case Nil
  then show ?case by (intro exI [of _ "vlant sw"]) (simp add: vlan_check_def)
next
  case (Cons v vs)
  have cap: "ba_cap (vlant sw v f) i" using Cons.prems by simp
  obtain t where t: "fold (\<lambda>v. vlan_clr v f i) vs (vlan_clr v f i sw) = (vlan_clr v f i sw)\<lparr>vlant := t\<rparr>"
    "\<And>v' f'. length (t v' f') = length (vlant (vlan_clr v f i sw) v' f')"
    "\<And>v' f' j. ba_check (t v' f') j \<longleftrightarrow> vlan_check (vlan_clr v f i sw) v' f' j \<and> \<not> (v' \<in> set vs \<and> f' = f \<and> j = i)"
    using Cons.IH [of "vlan_clr v f i sw"] Cons.prems by (auto simp: vlan_clr_simps [OF cap])
  have "fold (\<lambda>v. vlan_clr v f i) (v # vs) sw = sw\<lparr>vlant := t\<rparr>"
    using t(1) by (simp add: vlan_clr_eq [OF cap])
  moreover have "length (t v' f') = length (vlant sw v' f')" for v' f'
    by (simp add: t(2) vlan_clr_simps(2) [OF cap])
  moreover have "ba_check (t v' f') j \<longleftrightarrow> vlan_check sw v' f' j \<and> \<not> (v' \<in> set (v # vs) \<and> f' = f \<and> j = i)" for v' f' j
    by (auto simp: t(3) vlan_clr_simps(1) [OF cap])
  ultimately show ?case by blast
qed

lemma free_port_wf:
  assumes wf: "switch_wf sw"
  shows "switch_wf (free_port i sw)"
proof (cases "\<exists>p. i < numports sw \<and> get_port i sw = Some p \<and> p_ep p = []")
  case False
  then show ?thesis using wf by (auto simp: free_port_def split: option.splits)
next
  case True
  note W = switch_wfD [OF wf] and S = struct_okD [OF switch_wfD(1) [OF wf]]
  define sw1 where "sw1 = sw\<lparr>portv := (portv sw)[i := None]\<rparr>"
  have cap: "ba_cap (vlant sw1 v Table) i" if "v \<in> set (valid_list sw)" for v
    using that struct_cap(1) [OF W(1)] True set_valid_list [OF W(1)] by (auto simp: sw1_def)
  obtain t where t: "fold (\<lambda>v. vlan_clr v Table i) (valid_list sw) sw1 = sw1\<lparr>vlant := t\<rparr>"
    "\<And>v f. length (t v f) = length (vlant sw1 v f)"
    "\<And>v f j. ba_check (t v f) j \<longleftrightarrow> vlan_check sw1 v f j \<and> \<not> (v \<in> set (valid_list sw) \<and> f = Table \<and> j = i)"
    using fold_vlan_clr [of "valid_list sw" sw1 Table i] cap by blast
  define sw' where "sw' = sw1\<lparr>vlant := t\<rparr>"
  have res: "free_port i sw = sw'"
    using True t(1) by (auto simp: free_port_def forall_vlans_def sw1_def bac_FORALL_fold [OF S(4)] valid_list_def sw'_def)
  have chk: "vlan_check sw' v f j \<longleftrightarrow> vlan_check sw v f j \<and> \<not> (f = Table \<and> j = i)" for v f j
    using t(3) [of v f j] struct_tableD(1) [OF W(1), of v j] set_valid_list [OF W(1)]
    by (auto simp: sw'_def sw1_def vlan_check_def)
  have inact: "\<not> active sw i" using True by (auto simp: active_def)
  note none = inactive_none [OF wf inact]
  have gp: "get_port j sw' = (if j = i then None else get_port j sw)" for j
    using True S(2) by (auto simp: sw'_def sw1_def get_port_list_update)
  have PD: "pview sw' j \<noteq> None \<longleftrightarrow> j \<noteq> i \<and> pview sw j \<noteq> None" for j by (simp add: gp)
  have P: "pview sw' j = (if j = i then None else pview sw j)" for j by (simp add: pview_def gp)
  have A: "active sw' = active sw" and U: "untag_of sw' j = (if j = i then NOVLAN else untag_of sw j)" for j
    using inact by (auto simp: fun_eq_iff active_def untag_of_def gp)
  have fr: "fst_check sw' = fst_check sw" "valid sw' = valid sw" "fsttab sw' = fsttab sw" "hash sw' = hash sw"
    "numports sw' = numports sw" "validvlan sw' = validvlan sw" "fst_bits sw' = fst_bits sw" "member sw' = member sw"
    "fault sw' = fault sw" "fst_numports sw' = fst_numports sw" "length (portv sw') = length (portv sw)"
    "length (vlant sw' v f) = length (vlant sw v f)" for v f
    using t(2) by (simp_all add: sw'_def sw1_def fun_eq_iff fst_check_def valid_def member_def)
  have nil: "vlant sw' v f = [] \<longleftrightarrow> vlant sw v f = []" for v f by (metis fr(12) length_0_conv)
  have "arrays_ok sw'" using S(6) unfolding arrays_ok_def fr nil .
  moreover have "ports_ok sw'" using S(7) unfolding ports_ok_def P by auto
  moreover have "sets_ok sw'"
    using S(8) none(1) unfolding sets_ok_def chk fr PD by blast
  ultimately have "struct_ok sw'" using S by (simp add: struct_ok_def fr)
  moreover have "untag_ok sw'" using W(3) unfolding untag_ok_def chk U PD by auto
  moreover have "bc_ok sw'" using W(4) none unfolding bc_ok_def chk U A by auto
  moreover have "fst_ok sw'"
    using W(5) inact none(1) unfolding fst_ok_def chk U A fr member_def by auto
  moreover have "mac_ok sw'"
    using W(6) inact unfolding mac_ok_def entry_ok_def Let_def chk A fr by auto
  ultimately show ?thesis using W(2) fr by (simp add: switch_wf_def res)
qed

lemma portremove_wf [wf_intros]: "switch_wf sw \<Longrightarrow> switch_wf (snd (portremove val sw))"
  by (simp add: portremove_def free_port_wf split: option.split)

lemma set_notinpool_wf:
  "switch_wf sw \<Longrightarrow> (0 \<le> k \<Longrightarrow> get_port (nat k) sw \<noteq> None) \<Longrightarrow> switch_wf (snd (set_notinpool k sw))"
  by (simp add: set_notinpool_def upd_port_wf pshape_def)

lemma portcreate_wf [wf_intros]:
  assumes "switch_wf sw"
  shows "switch_wf (snd (portcreate mem val sw))"
proof -
  obtain k sw1 where al: "alloc_port mem val sw = (k, sw1)" by force
  show ?thesis
    using set_notinpool_wf [of sw1 k] alloc_port_wf [OF assms al] assms by (simp add: portcreate_def al)
qed

lemma portcreateauto_wf [wf_intros]:
  assumes "switch_wf sw"
  shows "switch_wf (snd (portcreateauto mem sw))"
proof -
  obtain k sw1 where al: "alloc_port mem 0 sw = (k, sw1)" by force
  show ?thesis
    using set_notinpool_wf [of sw1 k] alloc_port_wf [OF assms al] by (simp add: portcreateauto_def al)
qed

section \<open>VLANs\<close>

text \<open>
  What \<open>vlanaddport\<close>, \<open>vlandelport\<close> and \<open>portsetvlan\<close> share: the state of one port in one VLAN,
  and the move of an active port in the spanning tree with the tables it has.
\<close>

definition at_same :: "switch \<Rightarrow> switch \<Rightarrow> nat \<Rightarrow> nat set \<Rightarrow> bool" where
  "at_same sw s i V \<longleftrightarrow> (\<forall>v. v \<notin> V \<longrightarrow>
     (\<forall>f. vlan_check s v f i = vlan_check sw v f i) \<and>
     fst_check s v Untag i = fst_check sw v Untag i \<and> fst_check s v Tagged i = fst_check sw v Tagged i)"

lemma at_sameD:
  assumes "at_same sw s i V" and "v \<notin> V"
  shows "vlan_check s v f i = vlan_check sw v f i" "fst_check s v Untag i = fst_check sw v Untag i"
    "fst_check s v Tagged i = fst_check sw v Tagged i"
  using assms by (simp_all add: at_same_def)

lemma at_same_trans: "at_same sw s i V \<Longrightarrow> at_same s s' i W \<Longrightarrow> V \<union> W \<subseteq> X \<Longrightarrow> at_same sw s' i X"
  unfolding at_same_def by (metis UnCI subsetD)

lemma at_same_refl [simp]: "at_same sw sw i V"
  by (simp add: at_same_def)

lemma fstaddport_at:
  assumes wf: "wf_except i s" and v: "valid s v" and ip: "pview s i \<noteq> None"
  shows "wf_except i (fstaddport v i t s)" "pview (fstaddport v i t s) = pview s" "valid (fstaddport v i t s) = valid s"
    "at_same s (fstaddport v i t s) i {v}" "vlan_check (fstaddport v i t s) = vlan_check s"
    "fst_check (fstaddport v i t s) v Untag i \<longleftrightarrow> \<not> t" "fst_check (fstaddport v i t s) v Tagged i \<longleftrightarrow> t"
    "mac_free i s \<Longrightarrow> mac_free i (fstaddport v i t s)"
proof -
  have ch: "fst_change v i (\<not> t) t s (fstaddport v i t s)"
    by (rule fstaddport_change [OF wf_exceptD(1) [OF wf] struct_valid_fst [OF wf_exceptD(1) [OF wf] v] ip])
  note fs = fst_change_simps [OF ch]
  show "wf_except i (fstaddport v i t s)" by (rule fst_change_except [OF wf ch])
  show c: "vlan_check (fstaddport v i t s) = vlan_check s"
    by (simp add: fun_eq_iff vlan_check_def frame_simps)
  show "at_same s (fstaddport v i t s) i {v}" by (simp add: at_same_def c fs)
  show "mac_free i s \<Longrightarrow> mac_free i (fstaddport v i t s)"
    by (auto simp: mac_free_def dest: fst_change_grow(1) [OF ch])
qed (simp_all add: fst_change_simps [OF fstaddport_change [OF wf_exceptD(1) [OF wf]
        struct_valid_fst [OF wf_exceptD(1) [OF wf] v] ip]])

lemma fstdelport_at:
  assumes wf: "wf_except i s" and v: "valid s v" and ip: "pview s i \<noteq> None"
  shows "wf_except i (fstdelport v i s)" "pview (fstdelport v i s) = pview s" "valid (fstdelport v i s) = valid s"
    "at_same s (fstdelport v i s) i {v}" "\<And>v'. vlan_check (fstdelport v i s) v' Table = vlan_check s v' Table"
    "vlan_check (fstdelport v i s) v Bctag i \<Longrightarrow> vlan_check s v Bctag i"
    "vlan_check (fstdelport v i s) v Bcuntag i \<Longrightarrow> vlan_check s v Bcuntag i"
    "\<not> fst_check (fstdelport v i s) v Untag i" "\<not> fst_check (fstdelport v i s) v Tagged i"
    "mac_free i s \<Longrightarrow> mac_free i (fstdelport v i s)"
proof -
  have ch: "fst_change v i False False s (fstdelport v i s)"
    by (rule fstdelport_change [OF wf_exceptD(1) [OF wf] struct_valid_fst [OF wf_exceptD(1) [OF wf] v] ip])
  note fs = fst_change_simps [OF ch]
  show "wf_except i (fstdelport v i s)" by (rule fst_change_except [OF wf ch])
  show "at_same s (fstdelport v i s) i {v}" by (simp add: at_same_def vlan_check_def vlant_fstdelport fs)
  show n: "\<not> fst_check (fstdelport v i s) v Untag i" "\<not> fst_check (fstdelport v i s) v Tagged i" by (simp_all add: fs)
  show "vlan_check (fstdelport v i s) v Bctag i \<Longrightarrow> vlan_check s v Bctag i"
    "vlan_check (fstdelport v i s) v Bcuntag i \<Longrightarrow> vlan_check s v Bcuntag i"
    using fst_change_grow(2,3) [OF ch, of v i] n by (auto simp: member_def)
  show "mac_free i s \<Longrightarrow> mac_free i (fstdelport v i s)"
    by (auto simp: mac_free_def dest: fst_change_grow(1) [OF ch])
qed (simp_all add: fst_change_simps [OF fstdelport_change [OF wf_exceptD(1) [OF wf]
        struct_valid_fst [OF wf_exceptD(1) [OF wf] v] ip]])

lemma vlan_set_at:
  assumes wf: "wf_except i s" and v: "valid s v" and ip: "pview s i \<noteq> None" and f: "f \<noteq> Notlearning"
  shows "wf_except i (vlan_set v f i s)" "at_same s (vlan_set v f i s) i {v}"
    "\<And>v' f' j. vlan_check (vlan_set v f i s) v' f' j \<longleftrightarrow> v' = v \<and> f' = f \<and> j = i \<or> vlan_check s v' f' j"
    "mac_free i (vlan_set v f i s) = mac_free i s"
proof -
  note cap = struct_cap(1) [OF wf_exceptD(1) [OF wf] struct_pview_less [OF wf_exceptD(1) [OF wf] ip] v, of f]
  show "wf_except i (vlan_set v f i s)" by (rule vlan_set_except [OF assms])
  show "at_same s (vlan_set v f i s) i {v}" by (simp add: at_same_def vlan_set_simps(1) [OF cap] vlan_set_frame)
  show "\<And>v' f' j. vlan_check (vlan_set v f i s) v' f' j \<longleftrightarrow> v' = v \<and> f' = f \<and> j = i \<or> vlan_check s v' f' j"
    by (rule vlan_set_simps(1) [OF cap])
  show "mac_free i (vlan_set v f i s) = mac_free i s" by (simp add: mac_free_def vlan_set_frame)
qed

lemma vlan_clr_at:
  assumes wf: "wf_except i s" and v: "valid s v" and ip: "pview s i \<noteq> None"
    and f: "f \<noteq> Table \<or> mac_free i s \<and> untag_of s i \<noteq> v"
  shows "wf_except i (vlan_clr v f i s)" "at_same s (vlan_clr v f i s) i {v}"
    "\<And>v' f' j. vlan_check (vlan_clr v f i s) v' f' j \<longleftrightarrow> \<not> (v' = v \<and> f' = f \<and> j = i) \<and> vlan_check s v' f' j"
    "mac_free i (vlan_clr v f i s) = mac_free i s"
proof -
  note cap = struct_cap(1) [OF wf_exceptD(1) [OF wf] struct_pview_less [OF wf_exceptD(1) [OF wf] ip] v, of f]
  show "wf_except i (vlan_clr v f i s)" by (rule vlan_clr_except [OF assms])
  show "at_same s (vlan_clr v f i s) i {v}" by (simp add: at_same_def vlan_clr_simps(1) [OF cap] vlan_clr_frame)
  show "\<And>v' f' j. vlan_check (vlan_clr v f i s) v' f' j \<longleftrightarrow> \<not> (v' = v \<and> f' = f \<and> j = i) \<and> vlan_check s v' f' j"
    by (rule vlan_clr_simps(1) [OF cap])
  show "mac_free i (vlan_clr v f i s) = mac_free i s" by (simp add: mac_free_def vlan_clr_frame)
qed

lemma purge_except: "wf_except i sw \<Longrightarrow> wf_except i (sw\<lparr>hash := purge P (hash sw)\<rparr>)"
proof -
  assume wf: "wf_except i sw"
  let ?s = "sw\<lparr>hash := purge P (hash sw)\<rparr>"
  note W = wf_exceptD [OF wf]
  have st: "stp_ok {} sw ?s" by (rule purge_stp [OF W(1)])
  note fs = stp_ok_simps [OF st]
  have c: "vlan_check ?s = vlan_check sw" by (simp add: fun_eq_iff vlan_check_def)
  have "mac_ok ?s"
    using W(4) hash.look_forget [OF struct_okD(9) [OF W(1)], of P]
    unfolding mac_ok_def entry_ok_def Let_def fs c by auto
  then show ?thesis
    using W stp_okD(1) [OF st] by (simp add: wf_except_def untag_ok_def bc_at_def fst_at_def fs c)
qed

lemma add_member_wf:
  assumes wf: "switch_wf sw" and v: "valid sw v" and p: "get_port i sw = Some p"
  shows "switch_wf (vlan_set v Table i
      (if p_ep p \<noteq> [] \<and> p_vlanuntag p \<noteq> v then fstaddport v i True (vlan_set v Bctag i sw) else sw))"
proof -
  define s1 where "s1 = vlan_set v Bctag i sw"
  define s where "s = (if p_ep p \<noteq> [] \<and> p_vlanuntag p \<noteq> v then fstaddport v i True s1 else sw)"
  have ip: "pview sw i \<noteq> None" using p by simp
  have U: "untag_of sw i = p_vlanuntag p" and A: "active sw i \<longleftrightarrow> p_ep p \<noteq> []"
    using p by (auto simp: untag_of_def active_def)
  note w = switch_wf_at [OF wf, of i]
  note a1 = vlan_set_at [OF w(1) v ip, of Bctag, folded s1_def]
  have fr1: "pview s1 = pview sw" "valid s1 = valid sw" "fst_check s1 = fst_check sw"
    by (simp_all add: s1_def vlan_set_frame)
  note a2 = fstaddport_at [OF a1(1), of v True, unfolded fr1, OF _ v ip]
  have nU: "p_vlanuntag p \<noteq> v \<Longrightarrow> \<not> vlan_check sw v Bcuntag i \<and> \<not> fst_check sw v Untag i"
    using w(2,3) U by (auto simp: bc_at_def fst_at_def)
  have ws: "wf_except i s" and pv: "pview s = pview sw" "valid s = valid sw" and sm: "at_same sw s i {v}"
    and Tv: "vlan_check s v Table i = vlan_check sw v Table i"
    and Bv: "vlan_check s v Bcuntag i = vlan_check sw v Bcuntag i"
    "vlan_check s v Bctag i \<Longrightarrow> vlan_check sw v Bctag i \<or> active sw i \<and> untag_of sw i \<noteq> v"
    and Fv: "active sw i \<and> untag_of sw i \<noteq> v \<Longrightarrow> \<not> fst_check s v Untag i \<and> fst_check s v Tagged i"
    "\<not> (active sw i \<and> untag_of sw i \<noteq> v) \<Longrightarrow> s = sw"
    using w(1) a1 a2 nU U A at_same_trans [OF a1(2) a2(4)] by (auto simp: s_def fr1)
  define s' where "s' = vlan_set v Table i s"
  note act = pview_cong(1,2) [OF pv(1)]
  have vs: "valid s v" "pview s i \<noteq> None" using v ip pv by simp_all
  have "Table \<noteq> Notlearning" by simp
  note a3 = vlan_set_at [OF ws vs this, folded s'_def]
  have fr3: "fst_check s' = fst_check s" "active s' = active sw" "untag_of s' = untag_of sw"
    using pview_cong(1,2) [of s' sw] by (simp_all add: s'_def vlan_set_frame pv)
  have B: "vlan_check s x Bctag i \<Longrightarrow> active sw i \<and> (x = v \<or> vlan_check s x Table i) \<and> untag_of sw i \<noteq> x"
    "vlan_check s x Bcuntag i \<Longrightarrow> active sw i \<and> (x = v \<or> vlan_check s x Table i) \<and> untag_of sw i = x" for x
    using w(2) Bv at_sameD(1) [OF sm, of x] by (cases "x = v"; auto simp: bc_at_def)+
  have "bc_at s' i" unfolding bc_at_def fr3 a3(3) using B by auto
  moreover have "(fst_check s x Untag i \<longleftrightarrow> active sw i \<and> (x = v \<or> vlan_check s x Table i) \<and> untag_of sw i = x) \<and>
     (fst_check s x Tagged i \<longleftrightarrow> active sw i \<and> (x = v \<or> vlan_check s x Table i) \<and> untag_of sw i \<noteq> x)" for x
  proof (cases "x = v")
    case True
    have "untag_of sw i = v \<Longrightarrow> active sw i \<Longrightarrow> vlan_check sw v Table i"
      using wf_exceptD(3) [OF w(1)] ip v by (auto simp: untag_ok_def valid_def NOVLAN_def NUMOFVLAN_def)
    then show ?thesis using True w(3) Fv Tv by (cases "active sw i \<and> untag_of sw i \<noteq> v") (auto simp: fst_at_def)
  next
    case False
    then show ?thesis using w(3) at_sameD [OF sm, of x] by (simp add: fst_at_def)
  qed
  then have "fst_at s' i" unfolding fst_at_def fr3 a3(3) by simp
  ultimately have "switch_wf s'" using a3(1) by (simp add: switch_wf_except [of s' i])
  then show ?thesis unfolding s'_def s_def s1_def .
qed

lemma vlanaddport_wf [wf_intros]:
  assumes wf: "switch_wf sw"
  shows "switch_wf (snd (vlanaddport arg sw))"
proof -
  have "valid sw (nat v)" if "\<not> v < 0" "\<not> v \<ge> int NUMOFVLAN - 1" "bac_check (validvlan sw) (nat v)" for v
    using that by (auto simp: valid_def)
  then show ?thesis
    using wf add_member_wf [OF wf] by (auto simp: vlanaddport_def Let_def split: list.split option.split)
qed

lemma del_member_wf:
  assumes wf: "switch_wf sw" and v: "valid sw v" and p: "get_port i sw = Some p" and u: "p_vlanuntag p \<noteq> v"
    and s: "s = vlan_clr v Table i (if p_ep p \<noteq> [] then fstdelport v i (vlan_clr v Bctag i sw) else sw)"
  shows "switch_wf (s\<lparr>hash := hash_delete_port (int i) (hash s)\<rparr>)"
proof -
  define s1 where "s1 = vlan_clr v Bctag i sw"
  define s2 where "s2 = (if p_ep p \<noteq> [] then fstdelport v i s1 else sw)"
  define s3 where "s3 = s2\<lparr>hash := hash_delete_port (int i) (hash s2)\<rparr>"
  have ip: "pview sw i \<noteq> None" using p by simp
  have U: "untag_of sw i = p_vlanuntag p" and A: "active sw i \<longleftrightarrow> p_ep p \<noteq> []"
    using p by (auto simp: untag_of_def active_def)
  note w = switch_wf_at [OF wf, of i]
  have "Bctag \<noteq> Table \<or> mac_free i sw \<and> untag_of sw i \<noteq> v" by simp
  note a1 = vlan_clr_at [OF w(1) v ip this, folded s1_def]
  have fr1: "pview s1 = pview sw" "valid s1 = valid sw" "fst_check s1 = fst_check sw"
    by (simp_all add: s1_def vlan_clr_frame)
  note a2 = fstdelport_at [OF a1(1), of v, unfolded fr1, OF v ip]
  have ws: "wf_except i s2" and pv: "pview s2 = pview sw" "valid s2 = valid sw" and sm: "at_same sw s2 i {v}"
    and Bv: "\<not> vlan_check s2 v Bctag i" "\<not> vlan_check s2 v Bcuntag i"
    and Fv: "\<not> fst_check s2 v Untag i" "\<not> fst_check s2 v Tagged i"
    using w a1 a2 u U A at_same_trans [OF a1(2) a2(4)]
    by (auto simp: s2_def bc_at_def fst_at_def)
  have w3: "wf_except i s3" unfolding s3_def hash_deletes_purge by (rule purge_except [OF ws])
  have free: "mac_free i s3" unfolding s3_def by (rule mac_free_delete [OF wf_exceptD(1) [OF ws]])
  have fr3: "pview s3 = pview sw" "valid s3 = valid sw" "vlan_check s3 = vlan_check s2" "fst_check s3 = fst_check s2"
    by (simp_all add: s3_def pv [symmetric] fun_eq_iff pview_def valid_def vlan_check_def fst_check_def)
  note act = pview_cong(1,2) [OF fr3(1)]
  have v3: "valid s3 v" "pview s3 i \<noteq> None" "Table \<noteq> Table \<or> mac_free i s3 \<and> untag_of s3 i \<noteq> v"
    using v ip u U free fr3 act by simp_all
  define s4 where "s4 = vlan_clr v Table i s3"
  note a4 = vlan_clr_at [OF w3 v3, folded s4_def]
  have fr4: "fst_check s4 = fst_check s2" "active s4 = active sw" "untag_of s4 = untag_of sw"
    using pview_cong(1,2) [of s4 sw] by (simp_all add: s4_def vlan_clr_frame fr3)
  have "bc_at s4 i"
    unfolding bc_at_def fr4 a4(3) fr3 using w(2) Bv at_sameD(1) [OF sm] by (force simp: bc_at_def)
  moreover have "fst_at s4 i"
    unfolding fst_at_def fr4 a4(3) fr3
  proof (intro allI)
    fix x show "(fst_check s2 x Untag i \<longleftrightarrow> active sw i \<and>
          (\<not> (x = v \<and> Table = Table \<and> i = i) \<and> vlan_check s2 x Table i) \<and> untag_of sw i = x) \<and>
        (fst_check s2 x Tagged i \<longleftrightarrow> active sw i \<and>
          (\<not> (x = v \<and> Table = Table \<and> i = i) \<and> vlan_check s2 x Table i) \<and> untag_of sw i \<noteq> x)"
      using w(3) Fv at_sameD [OF sm, of x] by (cases "x = v") (auto simp: fst_at_def)
  qed
  ultimately have "switch_wf s4" using a4(1) by (simp add: switch_wf_except [of s4 i])
  moreover have "s\<lparr>hash := hash_delete_port (int i) (hash s)\<rparr> = s4"
    unfolding s s4_def s3_def s2_def s1_def by (simp add: vlan_clr_def crash_def)
  ultimately show ?thesis by simp
qed

lemma vlandelport_wf [wf_intros]:
  assumes wf: "switch_wf sw"
  shows "switch_wf (snd (vlandelport arg sw))"
proof -
  have "switch_wf ((vlan_clr (nat v) Table (nat n) s)\<lparr>hash := hash_delete_port n (hash (vlan_clr (nat v) Table (nat n) s))\<rparr>)"
    if "\<not> v < 0" "\<not> v \<ge> int NUMOFVLAN - 1" "\<not> n < 0" "bac_check (validvlan sw) (nat v)" "get_port (nat n) sw = Some p"
      "p_vlanuntag p \<noteq> nat v"
      "s = (if p_ep p \<noteq> [] then fstdelport (nat v) (nat n) (vlan_clr (nat v) Bctag (nat n) sw) else sw)" for v n p s
    using del_member_wf [OF wf, of "nat v" "nat n" p, OF _ _ _ refl] that by (simp add: valid_def)
  note this [OF _ _ _ _ _ _ if_P [symmetric]] this [OF _ _ _ _ _ _ if_not_P [symmetric]]
  then show ?thesis
    using wf by (auto simp: vlandelport_def Let_def split: list.split option.split)
qed

text \<open>Port \<open>i\<close> has moved from the untagged VLAN \<open>old\<close> to \<open>vlan\<close>, but for the tables.\<close>

definition moved :: "switch \<Rightarrow> nat \<Rightarrow> nat \<Rightarrow> nat \<Rightarrow> switch \<Rightarrow> bool" where
  "moved sw i old vlan s \<longleftrightarrow> wf_except i s \<and> pview s = pview sw \<and> valid s = valid sw \<and> mac_free i s \<and>
     (\<forall>x. vlan_check s x Table i = vlan_check sw x Table i) \<and>
     (vlan \<noteq> NOVLAN \<longrightarrow> (fst_check s vlan Untag i \<longleftrightarrow> active sw i) \<and> \<not> fst_check s vlan Tagged i \<and>
        \<not> vlan_check s vlan Bctag i \<and> (vlan_check s vlan Bcuntag i \<longrightarrow> active sw i)) \<and>
     (old \<noteq> NOVLAN \<and> old \<noteq> vlan \<longrightarrow> \<not> fst_check s old Untag i \<and> \<not> fst_check s old Tagged i \<and>
        \<not> vlan_check s old Bctag i \<and> \<not> vlan_check s old Bcuntag i) \<and>
     at_same sw s i ({old, vlan} - {NOVLAN})"

lemma move_active_moved:
  assumes wf: "wf_except i z" and free: "mac_free i z" and ip: "pview z i \<noteq> None" and act: "active z i"
    and old: "old = NOVLAN \<or> valid z old" and vlan: "vlan = NOVLAN \<or> valid z vlan"
    and Bt: "\<not> vlan_check z old Bctag i"
  shows "moved z i old vlan (move_active i old vlan z)"
proof -
  define s1 where "s1 = (if old \<noteq> NOVLAN then vlan_clr old Bcuntag i z else z)"
  have 1: "wf_except i s1" "mac_free i s1" "pview s1 = pview z" "valid s1 = valid z" "fst_check s1 = fst_check z"
    "vlan_check s1 x f i \<longleftrightarrow> \<not> (old \<noteq> NOVLAN \<and> x = old \<and> f = Bcuntag) \<and> vlan_check z x f i" for x f
    using wf free old vlan_clr_at [OF wf _ ip, of old Bcuntag] by (auto simp: s1_def vlan_clr_frame)
  define s2 where "s2 = (if vlan \<noteq> NOVLAN then vlan_clr vlan Bctag i (vlan_set vlan Bcuntag i s1) else s1)"
  have 2: "wf_except i s2" "mac_free i s2" "pview s2 = pview z" "valid s2 = valid z" "fst_check s2 = fst_check z"
    "vlan_check s2 x f i \<longleftrightarrow> \<not> (vlan \<noteq> NOVLAN \<and> x = vlan \<and> f = Bctag) \<and>
       (vlan \<noteq> NOVLAN \<and> x = vlan \<and> f = Bcuntag \<or> vlan_check s1 x f i)" for x f
  proof -
    have v1: "vlan \<noteq> NOVLAN \<Longrightarrow> valid s1 vlan" "pview s1 i \<noteq> None" using vlan ip 1 by auto
    define s where "s = vlan_set vlan Bcuntag i s1"
    have a: "wf_except i s" "mac_free i s" "pview s = pview z" "valid s = valid z" "fst_check s = fst_check z"
      "vlan_check s x f i \<longleftrightarrow> (x = vlan \<and> f = Bcuntag) \<or> vlan_check s1 x f i" if "vlan \<noteq> NOVLAN" for x f
      using vlan_set_at [OF 1(1) v1(1) [OF that] v1(2), of Bcuntag] 1
      by (simp_all add: s_def vlan_set_frame)
    have b: "wf_except i (vlan_clr vlan Bctag i s)" "mac_free i (vlan_clr vlan Bctag i s)"
      "vlan_check (vlan_clr vlan Bctag i s) x f i \<longleftrightarrow> \<not> (x = vlan \<and> f = Bctag) \<and> vlan_check s x f i"
      if "vlan \<noteq> NOVLAN" for x f
      using vlan_clr_at [OF a(1) [OF that], of vlan Bctag] a that vlan ip by (auto simp flip: pview_None)
    show "wf_except i s2" "mac_free i s2" "pview s2 = pview z" "valid s2 = valid z" "fst_check s2 = fst_check z"
      "vlan_check s2 x f i \<longleftrightarrow> \<not> (vlan \<noteq> NOVLAN \<and> x = vlan \<and> f = Bctag) \<and>
       (vlan \<noteq> NOVLAN \<and> x = vlan \<and> f = Bcuntag \<or> vlan_check s1 x f i)"
      using 1 a b by (auto simp: s2_def vlan_clr_frame vlan_set_frame simp flip: s_def)
  qed
  define s3 where "s3 = (if old \<noteq> NOVLAN then fstdelport old i s2 else s2)"
  have ip2: "pview s2 i \<noteq> None" and old2: "old \<noteq> NOVLAN \<Longrightarrow> valid s2 old" using ip old 2 by auto
  note d = fstdelport_at [OF 2(1) old2 ip2]
  have 3: "wf_except i s3" "mac_free i s3" "pview s3 = pview z" "valid s3 = valid z"
    "at_same s2 s3 i ({old} - {NOVLAN})" "vlan_check s3 x Table i = vlan_check s2 x Table i"
    "old \<noteq> NOVLAN \<Longrightarrow> \<not> fst_check s3 old Untag i \<and> \<not> fst_check s3 old Tagged i"
    "vlan_check s3 old Bctag i \<Longrightarrow> vlan_check s2 old Bctag i" "vlan_check s3 old Bcuntag i \<Longrightarrow> vlan_check s2 old Bcuntag i" for x
    using 2(1-5) d by (auto simp: s3_def split: if_splits)
  define s4 where "s4 = (if vlan \<noteq> NOVLAN then fstaddport vlan i False s3 else s3)"
  have ip3: "pview s3 i \<noteq> None" and vlan3: "vlan \<noteq> NOVLAN \<Longrightarrow> valid s3 vlan" using ip vlan 3 by auto
  note a = fstaddport_at [OF 3(1) vlan3 ip3]
  have 4: "wf_except i s4" "mac_free i s4" "pview s4 = pview z" "valid s4 = valid z" "vlan_check s4 = vlan_check s3"
    "at_same s3 s4 i ({vlan} - {NOVLAN})"
    "vlan \<noteq> NOVLAN \<Longrightarrow> fst_check s4 vlan Untag i \<and> \<not> fst_check s4 vlan Tagged i"
    using 3(1-4) a by (auto simp: s4_def)
  have same: "at_same z s4 i ({old, vlan} - {NOVLAN})"
    unfolding at_same_def
  proof (intro allI impI)
    fix x assume x: "x \<notin> {old, vlan} - {NOVLAN}"
    then have e: "x \<notin> {old} - {NOVLAN}" "x \<notin> {vlan} - {NOVLAN}" by auto
    show "(\<forall>f. vlan_check s4 x f i = vlan_check z x f i) \<and>
      fst_check s4 x Untag i = fst_check z x Untag i \<and> fst_check s4 x Tagged i = fst_check z x Tagged i"
      using at_sameD [OF 3(5) e(1)] at_sameD [OF 4(6) e(2)] 1 2 x by auto
  qed
  have other: "old \<noteq> vlan \<Longrightarrow> old \<noteq> NOVLAN \<Longrightarrow> fst_check s4 old fl i = fst_check s3 old fl i"
    if "fl = Untag \<or> fl = Tagged" for fl
    using at_sameD [OF 4(6), of old] that by auto
  have vB: "vlan \<noteq> NOVLAN \<Longrightarrow> \<not> vlan_check s3 vlan Bctag i"
    using 3(8) at_sameD(1) [OF 3(5), of vlan Bctag] 2(6) [of vlan Bctag] by (cases "old = vlan") auto
  have oB: "old \<noteq> NOVLAN \<Longrightarrow> old \<noteq> vlan \<Longrightarrow> \<not> vlan_check s3 old Bctag i \<and> \<not> vlan_check s3 old Bcuntag i"
    using 3(8,9) 2(6) 1(6) Bt by auto
  have "moved z i old vlan s4"
    unfolding moved_def using 4 3 2 1 same other vB oB act by simp
  then show ?thesis
    unfolding move_active_def Let_def s4_def s3_def s2_def s1_def .
qed

lemma setvlan_wf:
  assumes wf: "switch_wf sw" and p: "get_port i sw = Some p" and vlan: "vlan = NOVLAN \<or> valid sw vlan"
    and s1: "s1 = upd_port i (\<lambda>p. p\<lparr>p_vlanuntag := NOVLAN\<rparr>) sw"
    and s2: "s2 = s1\<lparr>hash := hash_delete_port (int i) (hash s1)\<rparr>"
    and s3: "s3 = (if p_ep p \<noteq> [] then move_active i (p_vlanuntag p) vlan s2 else s2)"
    and s4: "s4 = (if p_vlanuntag p \<noteq> NOVLAN then vlan_clr (p_vlanuntag p) Table i s3 else s3)"
    and s5: "s5 = (if vlan \<noteq> NOVLAN then vlan_set vlan Table i s4 else s4)"
  shows "switch_wf (upd_port i (\<lambda>p. p\<lparr>p_vlanuntag := vlan\<rparr>) s5)"
proof -
  define old where "old = p_vlanuntag p"
  define y where "y = sw\<lparr>hash := hash_delete_port (int i) (hash sw)\<rparr>"
  have wy: "switch_wf y" unfolding y_def hash_deletes_purge by (rule purge_wf [OF wf])
  have free: "mac_free i y" unfolding y_def by (rule mac_free_delete [OF switch_wfD(1) [OF wf]])
  have py: "get_port i y = Some p" using p by (simp add: y_def)
  have s2y: "s2 = upd_port i (\<lambda>p. p\<lparr>p_vlanuntag := NOVLAN\<rparr>) y"
    using p py by (simp add: s1 s2 y_def upd_port_def)
  note pD = struct_portD [OF switch_wfD(1) [OF wy] py]
  have w2: "wf_except i s2"
    unfolding s2y using pD free by (intro upd_port_except [OF switch_wf_at(1) [OF wy] py]) auto
  have p2: "get_port i s2 = Some (p\<lparr>p_vlanuntag := NOVLAN\<rparr>)" by (simp add: s2y get_port_upd_port [OF py])
  have fr: "vlan_check s2 = vlan_check sw" "fst_check s2 = fst_check sw" "valid s2 = valid sw" "hash s2 = hash y"
    unfolding s2y upd_port_Some [OF py]
    by (simp_all add: y_def fun_eq_iff vlan_check_def fst_check_def valid_def)
  have A: "active s2 i \<longleftrightarrow> active sw i" "active sw i \<longleftrightarrow> p_ep p \<noteq> []" and U: "untag_of s2 i = NOVLAN" "untag_of sw i = old"
    using p p2 by (simp_all add: active_def untag_of_def old_def)
  have f2: "mac_free i s2" using free by (simp add: mac_free_def fr)
  have ip: "pview s2 i \<noteq> None" using p2 by simp
  note at = switch_wf_at(2,3) [OF wf, of i]
  have nT: "\<not> vlan_check sw NOVLAN Table i"
    using struct_tableD(1) [OF switch_wfD(1) [OF wf], of NOVLAN i] by (auto simp: valid_def NOVLAN_def NUMOFVLAN_def)
  have old: "old = NOVLAN \<or> vlan_check sw old Table i"
    using switch_wfD(3) [OF wf] p U by (auto simp: untag_ok_def)
  then have oldv: "old = NOVLAN \<or> valid s2 old"
    using struct_tableD(1) [OF switch_wfD(1) [OF wf]] fr by auto
  have Bt: "\<not> vlan_check s2 old Bctag i" using at U fr by (auto simp: bc_at_def)
  have M: "moved s2 i old vlan s3"
  proof (cases "p_ep p = []")
    case True
    then have "\<not> active sw i" using A by simp
    note none = inactive_none [OF wf this]
    show ?thesis using True w2 f2 none A by (simp add: s3 moved_def fr member_def)
  next
    case False
    then show ?thesis
      using move_active_moved [OF w2 f2 ip _ oldv _ Bt, of vlan] A vlan fr by (simp add: s3 old_def)
  qed
  then have w3: "wf_except i s3" "mac_free i s3" and pv3: "pview s3 = pview s2" "valid s3 = valid s2"
    and T3: "\<And>x. vlan_check s3 x Table i = vlan_check sw x Table i" by (auto simp: moved_def fr)
  have U3: "untag_of s3 i = NOVLAN" using pview_cong(2) [OF pv3(1)] U by simp
  have 4: "wf_except i s4" "mac_free i s4" "pview s4 = pview s2" "valid s4 = valid s2" "fst_check s4 = fst_check s3"
    "vlan_check s4 x f i \<longleftrightarrow> \<not> (old \<noteq> NOVLAN \<and> x = old \<and> f = Table) \<and> vlan_check s3 x f i" for x f
    using w3 pv3 vlan_clr_at [OF w3(1), of old Table] oldv ip U3
    by (auto simp: s4 old_def [symmetric] vlan_clr_frame simp flip: pview_None)
  have 5: "wf_except i s5" "mac_free i s5" "pview s5 = pview s2" "fst_check s5 = fst_check s3"
    "vlan_check s5 x f i \<longleftrightarrow> vlan \<noteq> NOVLAN \<and> x = vlan \<and> f = Table \<or> vlan_check s4 x f i" for x f
    using 4(1-5) vlan_set_at [OF 4(1), of vlan Table] vlan ip fr
    by (auto simp: s5 vlan_set_frame simp flip: pview_None)
  obtain q where q: "get_port i s5 = Some q" "p_ep q = p_ep p" "p_ms q = p_ms p"
    using fun_cong [OF 5(3), of i] p2 by (auto simp: pview_def pshape_def)
  define s6 where "s6 = upd_port i (\<lambda>p. p\<lparr>p_vlanuntag := vlan\<rparr>) s5"
  have w6: "wf_except i s6"
    unfolding s6_def using pD q 5 by (intro upd_port_except [OF 5(1) q(1)]) auto
  have A6: "active s6 i \<longleftrightarrow> active sw i" and U6: "untag_of s6 i = vlan" and fr6: "vlan_check s6 = vlan_check s5" "fst_check s6 = fst_check s3"
    using q A 5(4) by (simp_all add: s6_def active_def untag_of_def get_port_upd_port [OF q(1)])
      (simp_all add: upd_port_Some [OF q(1)] fun_eq_iff vlan_check_def fst_check_def)
  have at3: "x \<notin> {old, vlan} - {NOVLAN} \<Longrightarrow> vlan_check s3 x f i = vlan_check sw x f i \<and>
      fst_check s3 x Untag i = fst_check sw x Untag i \<and> fst_check s3 x Tagged i = fst_check sw x Tagged i" for x f
    using M at_sameD [of s2 s3 i "{old, vlan} - {NOVLAN}" x] by (auto simp: moved_def fr)
  define T where "T x \<longleftrightarrow> vlan \<noteq> NOVLAN \<and> x = vlan \<or> \<not> (old \<noteq> NOVLAN \<and> x = old) \<and> vlan_check sw x Table i" for x
  have fin: "(vlan_check s3 x Bctag i \<longrightarrow> active sw i \<and> T x \<and> vlan \<noteq> x) \<and>
      (vlan_check s3 x Bcuntag i \<longrightarrow> active sw i \<and> T x \<and> vlan = x) \<and>
      (fst_check s3 x Untag i \<longleftrightarrow> active sw i \<and> T x \<and> vlan = x) \<and>
      (fst_check s3 x Tagged i \<longleftrightarrow> active sw i \<and> T x \<and> vlan \<noteq> x)" for x
  proof -
    consider "x = vlan" "vlan \<noteq> NOVLAN" | "x = old" "old \<noteq> NOVLAN" "x \<noteq> vlan" | "x \<notin> {old, vlan} - {NOVLAN}"
      by blast
    then show ?thesis
    proof cases
      case 1
      then show ?thesis using M A(1) by (auto simp: moved_def T_def)
    next
      case 2
      then show ?thesis using M by (auto simp: moved_def T_def)
    next
      case 3
      then show ?thesis using at3 [OF 3] at nT U(2) by (auto simp: T_def bc_at_def fst_at_def)
    qed
  qed
  have "bc_at s6 i" "fst_at s6 i"
    using fin by (auto simp: bc_at_def fst_at_def A6 U6 fr6 5(5) 4(6) T3 T_def)
  then show ?thesis using w6 by (simp add: switch_wf_except [of s6 i] s6_def [symmetric])
qed

lemma portsetvlan_wf [wf_intros]:
  assumes wf: "switch_wf sw"
  shows "switch_wf (snd (portsetvlan arg sw))"
proof (cases "\<exists>n v p. scan_ints 2 arg = [n, v] \<and> 0 \<le> v \<and> v \<le> int NUMOFVLAN \<and> 0 \<le> n \<and> n < int (numports sw) \<and>
    (nat v = NOVLAN \<or> bac_check (validvlan sw) (nat v)) \<and> get_port (nat n) sw = Some p")
  case False
  then show ?thesis using wf by (auto simp: portsetvlan_def Let_def split: list.split option.split)
next
  case True
  then obtain n v p where arg: "scan_ints 2 arg = [n, v]" "0 \<le> v" "v \<le> int NUMOFVLAN" "0 \<le> n" "n < int (numports sw)"
    "nat v = NOVLAN \<or> bac_check (validvlan sw) (nat v)" and p: "get_port (nat n) sw = Some p" by blast
  have "nat v = NOVLAN \<or> valid sw (nat v)" using arg by (auto simp: valid_def NOVLAN_def NUMOFVLAN_def)
  note wf' = setvlan_wf [OF wf p this refl refl refl refl refl]
  have c: "\<not> (v < 0 \<or> v > int NUMOFVLAN \<or> n < 0 \<or> n \<ge> int (numports sw))"
    "\<not> (nat v \<noteq> NOVLAN \<and> \<not> bac_check (validvlan sw) (nat v))" using arg by auto
  show ?thesis
    unfolding portsetvlan_def arg(1) list.case if_not_P [OF c(1)] Let_def if_not_P [OF c(2)] p option.case snd_conv
    by (rule wf')
qed

section \<open>Creating and removing VLANs\<close>

lemma forall_ports_empty:
  assumes "length (rd sw) = WORDSIZEROUND n" and "\<And>k. \<not> ba_check (rd sw) k"
  shows "forall_ports rd n f sw = sw"
proof -
  have "ba_FORALL rd n f sw = sw"
    by (rule ba_FORALL_inv [where I = "\<lambda>s. s = sw" and Q = "\<lambda>_. False"]) (simp_all add: assms)
  then show ?thesis by (simp add: forall_ports_def assms)
qed

text \<open>The data of a VLAN that is not valid does not matter.\<close>

lemma invalid_vlant_wf:
  assumes wf: "switch_wf sw" and v: "\<not> valid sw v" "v < NUMOFVLAN"
    and b: "\<And>f. b f = [] \<or> b f = ba_alloc (numports sw)"
  shows "switch_wf (sw\<lparr>vlant := (vlant sw)(v := b)\<rparr>)"
proof -
  let ?s = "sw\<lparr>vlant := (vlant sw)(v := b)\<rparr>"
  note W = switch_wfD [OF wf] and S = struct_okD [OF switch_wfD(1) [OF wf]]
  have T: "\<not> vlan_check sw v Table j" for j using struct_tableD(1) [OF W(1)] v by blast
  have "\<not> ba_check [] j" for j by (simp add: ba_check_def)
  then have "\<not> ba_check (b f) j" for f j using b [of f] by auto
  then have chk: "vlan_check ?s x f j \<longleftrightarrow> x \<noteq> v \<and> vlan_check sw x f j" for x f j
    by (simp add: vlan_check_def)
  have fr: "pview ?s = pview sw" "valid ?s = valid sw" "fst_check ?s = fst_check sw" "member ?s = member sw"
    "fst_bits ?s = fst_bits sw"
    by (simp_all add: fun_eq_iff pview_def valid_def fst_check_def member_def)
  note act = pview_cong(1,2) [OF fr(1)]
  have "b f = [] \<or> length (b f) = WORDSIZEROUND (numports sw)" for f using b [of f] by auto
  then have "arrays_ok ?s" using S(6) v unfolding arrays_ok_def fr by auto
  moreover have "ports_ok ?s" using S(7) unfolding ports_ok_def fr .
  moreover have "sets_ok ?s" using S(8) unfolding sets_ok_def fr chk by blast
  ultimately have "struct_ok ?s" using S by (simp add: struct_ok_def)
  moreover have "untag_ok ?s" unfolding untag_ok_def chk act fr using W(3) T unfolding untag_ok_def by metis
  moreover have "bc_ok ?s" unfolding bc_ok_def chk act using W(4) unfolding bc_ok_def by blast
  moreover have "fst_ok ?s" unfolding fst_ok_def chk act fr using W(5) T unfolding fst_ok_def by auto
  moreover have "mac_ok ?s"
    using W(6) T unfolding mac_ok_def entry_ok_def Let_def chk act by auto
  ultimately show ?thesis using W(2) by (simp add: switch_wf_def fr)
qed

lemma valid_bac_set:
  assumes "bac_wf (validvlan sw) NUMOFVLAN" and v: "v < NUMOFVLAN"
    and vv: "validvlan sw' = bac_set (validvlan sw) NUMOFVLAN v"
  shows "valid sw' x \<longleftrightarrow> x = v \<or> valid sw x" "bac_check (validvlan sw') NOVLAN = bac_check (validvlan sw) NOVLAN"
    "bac_wf (validvlan sw') NUMOFVLAN"
proof -
  have len: "length (validvlan sw) = WORDSIZEROUND NUMOFVLAN + 1" using assms(1) by (simp add: bac_wf_def)
  have low: "ba_check (bac_set (validvlan sw) NUMOFVLAN v) k \<longleftrightarrow> k = v \<or> ba_check (validvlan sw) k" if "k < 4096" for k
    using ba_check_bac_set_low [OF len, of v k] that v by (simp add: NUMOFVLAN_def WORDSIZEROUND_def)
  show "valid sw' x \<longleftrightarrow> x = v \<or> valid sw x"
    using low [of x] v by (auto simp: valid_def vv bac_check_def NUMOFVLAN_def)
  show "bac_check (validvlan sw') NOVLAN = bac_check (validvlan sw) NOVLAN"
    using low [of NOVLAN] v by (simp add: vv bac_check_def NOVLAN_def NUMOFVLAN_def)
  show "bac_wf (validvlan sw') NUMOFVLAN"
    unfolding vv using v by (intro bac_wf_set assms(1)) (simp add: NUMOFVLAN_def WORDSIZEROUND_def)
qed

lemma valid_bac_clr:
  assumes "bac_wf (validvlan sw) NUMOFVLAN" and v: "v < NUMOFVLAN"
    and vv: "validvlan sw' = bac_clr (validvlan sw) NUMOFVLAN v"
  shows "valid sw' x \<longleftrightarrow> x \<noteq> v \<and> valid sw x" "bac_check (validvlan sw') NOVLAN = bac_check (validvlan sw) NOVLAN"
    "bac_wf (validvlan sw') NUMOFVLAN"
proof -
  have low: "ba_check (bac_clr (validvlan sw) NUMOFVLAN v) k \<longleftrightarrow> k \<noteq> v \<and> ba_check (validvlan sw) k" if "k < 4096" for k
    using ba_check_bac_clr_low [of k NUMOFVLAN "validvlan sw" v] that by (simp add: NUMOFVLAN_def WORDSIZEROUND_def)
  show "valid sw' x \<longleftrightarrow> x \<noteq> v \<and> valid sw x"
    using low [of x] v by (auto simp: valid_def vv bac_check_def NUMOFVLAN_def)
  show "bac_check (validvlan sw') NOVLAN = bac_check (validvlan sw) NOVLAN"
    using low [of NOVLAN] v by (simp add: vv bac_check_def NOVLAN_def NUMOFVLAN_def)
  show "bac_wf (validvlan sw') NUMOFVLAN"
    unfolding vv using v by (intro bac_wf_clr assms(1)) (simp add: NUMOFVLAN_def WORDSIZEROUND_def)
qed

text \<open>A VLAN becomes valid with empty arrays.\<close>

lemma new_vlan_wf:
  assumes wf: "switch_wf sw" and v: "\<not> valid sw v" "v < NUMOFVLAN"
    and b: "\<And>f. vlant sw v f = ba_alloc (numports sw)" and w: "v_bits w = (\<lambda>_. ba_alloc (numports sw))"
  shows "switch_wf (sw\<lparr>fsttab := (fsttab sw)(v \<mapsto> w), validvlan := bac_set (validvlan sw) NUMOFVLAN v\<rparr>)"
proof -
  define s where "s = sw\<lparr>fsttab := (fsttab sw)(v \<mapsto> w), validvlan := bac_set (validvlan sw) NUMOFVLAN v\<rparr>"
  note W = switch_wfD [OF wf] and S = struct_okD [OF switch_wfD(1) [OF wf]]
  have "validvlan s = bac_set (validvlan sw) NUMOFVLAN v" by (simp add: s_def)
  note val = valid_bac_set [OF S(4) v(2) this]
  have F: "fsttab sw v = None" using W(5) v(1) by (auto simp: fst_ok_def)
  have bits: "fst_bits s x fl = (if x = v then ba_alloc (numports sw) else fst_bits sw x fl)" for x fl
    by (simp add: s_def fst_bits_def w)
  have "fst_bits sw v fl = []" for fl using F by (simp add: fst_bits_def)
  then have fchk: "fst_check s = fst_check sw"
    by (intro ext) (simp add: fst_check_def bits, simp add: ba_check_def)
  have fr: "pview s = pview sw" "vlan_check s = vlan_check sw" "member s = member sw"
    by (simp_all add: fun_eq_iff pview_def vlan_check_def member_def fchk) (simp_all add: s_def get_port_def)
  note act = pview_cong(1,2) [OF fr(1)]
  have T: "\<not> vlan_check sw v Table j" for j by (simp add: vlan_check_def b)
  have "arrays_ok s" using S(6) v b unfolding arrays_ok_def val bits by (auto simp: s_def)
  moreover have "ports_ok s" using S(7) unfolding ports_ok_def fr .
  moreover have "sets_ok s" using S(8) unfolding sets_ok_def fr val fchk by blast
  ultimately have "struct_ok s" using S val(2,3) by (simp add: struct_ok_def) (simp add: s_def)
  moreover have "untag_ok s" "bc_ok s" "mac_ok s"
    using W(3,4,6) by (simp_all add: untag_ok_def bc_ok_def mac_ok_def entry_ok_def act fr) (simp add: s_def)
  moreover have "fst_ok s" unfolding fst_ok_def fr act val fchk using W(5) by (auto simp: s_def fst_ok_def)
  ultimately show ?thesis using W(2) val(1) by (simp add: switch_wf_def flip: s_def)
qed

lemma fstnewvlan_new:
  assumes "fsttab sw v = None" and "fst_numports sw = numports sw"
  shows "\<exists>w. snd (fstnewvlan 7 v sw) = sw\<lparr>fsttab := (fsttab sw)(v \<mapsto> w)\<rparr> \<and> v_bits w = (\<lambda>_. ba_alloc (numports sw))"
    and "fst (fstnewvlan 7 v sw) = EOK"
proof -
  let ?w = "(new_vlst (numports sw))\<lparr>v_root := myid sw, v_rootcost := replicate 4 0,
            v_dessw := replicate SWITCHID_LEN 0xff, v_port := replicate 2 0, v_rootport := 0, v_roottimestamp := 0\<rparr>"
  have "snd (fstnewvlan 7 v sw) = sw\<lparr>fsttab := (fsttab sw)(v \<mapsto> ?w)\<rparr>"
    using assms
    by (simp add: fstnewvlan_def fst_reset_def upd_fst_def)
      (subst forall_ports_empty; simp add: fst_bits_def new_vlst_def)
  then show "\<exists>w. snd (fstnewvlan 7 v sw) = sw\<lparr>fsttab := (fsttab sw)(v \<mapsto> w)\<rparr> \<and> v_bits w = (\<lambda>_. ba_alloc (numports sw))"
    by (intro exI [of _ ?w]) (simp add: new_vlst_def)
  show "fst (fstnewvlan 7 v sw) = EOK" using assms by (simp add: fstnewvlan_def)
qed

text \<open>The allocations of a new VLAN that do no harm: none is left half done.\<close>

definition vlan_mem :: "(vfield \<Rightarrow> bool) \<Rightarrow> nat \<Rightarrow> bool" where
  "vlan_mem mem memfst \<longleftrightarrow> (mem Table \<and> mem Bctag \<and> mem Bcuntag \<longrightarrow> mem Notlearning \<and> (memfst = 0 \<or> 7 \<le> memfst))"

lemma vlan_mem_all: "vlan_mem mem memfst \<Longrightarrow> mem Table \<and> mem Bctag \<and> mem Bcuntag \<Longrightarrow> mem f"
  by (cases f) (auto simp: vlan_mem_def)

lemma vlancreate_wf:
  assumes wf: "switch_wf sw" and m: "vlan_mem mem memfst"
  shows "switch_wf (snd (vlancreate mem memfst n sw))"
proof (cases "0 < n \<and> n < int NUMOFVLAN - 1 \<and> \<not> bac_check (validvlan sw) (nat n)")
  case False
  with wf show ?thesis by (auto simp: vlancreate_def)
next
  case True
  define v where "v = nat n"
  define ok where "ok \<longleftrightarrow> mem Table \<and> mem Bctag \<and> mem Bcuntag"
  define s where "s = sw\<lparr>vlant := (vlant sw)(v := (\<lambda>f. if mem f then ba_alloc (numports sw) else []))\<rparr>"
  have v: "\<not> valid sw v" "v < NUMOFVLAN" using True by (auto simp: v_def valid_def)
  have ws: "switch_wf s" unfolding s_def by (rule invalid_vlant_wf [OF wf v]) simp
  have vs: "\<not> valid s v" using v by (simp add: s_def valid_def)
  then have F: "fsttab s v = None" "fst_numports s = numports s"
    using switch_wfD(5) [OF ws] struct_okD(3) [OF switch_wfD(1) [OF ws]] by (auto simp: fst_ok_def)
  obtain w where w: "snd (fstnewvlan 7 v s) = s\<lparr>fsttab := (fsttab s)(v \<mapsto> w)\<rparr>"
    "v_bits w = (\<lambda>_. ba_alloc (numports s))" using fstnewvlan_new(1) [OF F] by blast
  have "switch_wf (s\<lparr>fsttab := (fsttab s)(v \<mapsto> w), validvlan := bac_set (validvlan s) NUMOFVLAN v\<rparr>)" if ok
    using vlan_mem_all [OF m that [unfolded ok_def]] by (intro new_vlan_wf [OF ws vs v(2) _ w(2)]) (simp add: s_def)
  moreover have "fstnewvlan memfst v s = (if memfst = 0 then (ENOMEM, s) else fstnewvlan 7 v s)" if ok
  proof (cases "memfst = 0")
    case True then show ?thesis using F by (simp add: fstnewvlan_def)
  next
    case False
    then have "\<not> memfst < 7" using m that by (simp add: vlan_mem_def ok_def)
    with False show ?thesis using F by (simp add: fstnewvlan_def)
  qed
  moreover have "fstnewvlan 7 v s = (EOK, s\<lparr>fsttab := (fsttab s)(v \<mapsto> w)\<rparr>)"
    using w fstnewvlan_new(2) [OF F] by (metis prod.collapse)
  moreover have "vlancreate mem memfst n sw =
      (if \<not> ok then (ENOMEM, s) else case fstnewvlan memfst v s of (rv, sw2) \<Rightarrow>
         (rv, if rv = EOK then sw2\<lparr>validvlan := bac_set (validvlan sw2) NUMOFVLAN v\<rparr> else sw2))"
    using True unfolding vlancreate_def vlancreate_nocheck_def Let_def v_def [symmetric] s_def [symmetric] by (simp add: ok_def)
  ultimately show ?thesis using ws by (cases ok) simp_all
qed

lemma vlanremove_wf [wf_intros]:
  assumes wf: "switch_wf sw" and n: "n \<noteq> 0"
  shows "switch_wf (snd (vlanremove n sw))"
proof (cases "0 \<le> n \<and> n < int NUMOFVLAN \<and> bac_check (validvlan sw) (nat n) \<and>
    ba_card (vlant sw (nat n) Table) (numports sw) = 0")
  case False
  have "length (vlant sw (nat n) Table) = WORDSIZEROUND (numports sw)"
    if "0 \<le> n" "n < int NUMOFVLAN" "bac_check (validvlan sw) (nat n)"
    using that struct_okD(6) [OF switch_wfD(1) [OF wf]] by (simp add: arrays_ok_def valid_def)
  with False wf show ?thesis by (auto simp: vlanremove_def Let_def)
next
  case True
  define v where "v = nat n"
  note W = switch_wfD [OF wf] and S = struct_okD [OF switch_wfD(1) [OF wf]]
  have v: "valid sw v" "v < NUMOFVLAN" "v \<noteq> 0" using True n by (auto simp: valid_def v_def)
  have len: "length (vlant sw v Table) = WORDSIZEROUND (numports sw)" using S(6) v by (simp add: arrays_ok_def)
  have T: "\<not> vlan_check sw v Table j" for j
  proof
    assume "vlan_check sw v Table j"
    then have "j \<in> {k. k < 64 * WORDSIZEROUND (numports sw) \<and> ba_check (vlant sw v Table) k}"
      using len by (auto simp: vlan_check_def ba_check_def div_less_iff_less_mult mult.commute)
    moreover have "finite {k. k < 64 * WORDSIZEROUND (numports sw) \<and> ba_check (vlant sw v Table) k}" by simp
    ultimately show False using True by (auto simp: ba_card_eq v_def)
  qed
  define s where "s = sw\<lparr>validvlan := bac_clr (validvlan sw) NUMOFVLAN v, vlant := (vlant sw)(v := (\<lambda>_. [])),
      fsttab := (fsttab sw)(v := None)\<rparr>"
  have res: "snd (vlanremove n sw) = s"
    using True len v struct_valid_fst [OF W(1) v(1)]
    by (auto simp: vlanremove_def Let_def v_def [symmetric] fstremovevlan_def s_def)
  have "validvlan s = bac_clr (validvlan sw) NUMOFVLAN v" by (simp add: s_def)
  note val = valid_bac_clr [OF S(4) v(2) this]
  have chk: "vlan_check s x f j \<longleftrightarrow> x \<noteq> v \<and> vlan_check sw x f j" for x f j
    by (simp add: s_def vlan_check_def ba_check_def)
  have fchk: "fst_check s x f j \<longleftrightarrow> x \<noteq> v \<and> fst_check sw x f j" for x f j
    by (simp add: s_def fst_check_def fst_bits_def ba_check_def)
  have bits: "fst_bits s x f = (if x = v then [] else fst_bits sw x f)" for x f by (simp add: s_def fst_bits_def)
  have pv: "pview s = pview sw" by (simp add: s_def fun_eq_iff pview_def get_port_def)
  note act = pview_cong(1,2) [OF pv]
  have mem: "member s x j \<longleftrightarrow> x \<noteq> v \<and> member sw x j" for x j by (auto simp: member_def fchk)
  have "arrays_ok s" using S(6) unfolding arrays_ok_def val bits by (auto simp: s_def)
  moreover have "ports_ok s" using S(7) unfolding ports_ok_def pv .
  moreover have "sets_ok s" using S(8) unfolding sets_ok_def chk fchk val mem pv by blast
  ultimately have "struct_ok s" using S val(2,3) by (simp add: struct_ok_def) (simp add: s_def)
  moreover have "untag_ok s" unfolding untag_ok_def chk act pv using W(3) T unfolding untag_ok_def by metis
  moreover have "bc_ok s" unfolding bc_ok_def chk act using W(4) T unfolding bc_ok_def by blast
  moreover have "fst_ok s" unfolding fst_ok_def chk fchk act val using W(5) T by (auto simp: s_def fst_ok_def)
  moreover have "mac_ok s" using W(6) T unfolding mac_ok_def entry_ok_def Let_def chk act by (auto simp: s_def)
  ultimately show ?thesis using W(2) v val(1) by (simp add: switch_wf_def res)
qed

end
