(* ===== verification/Dynamics.thy ===== *)
theory Dynamics
  imports Operations
begin

text \<open>
  Resizing the switch, forwarding packets and starting the switch keep or establish the
  invariant; the transition relation of the whole switch and its reachable states.
\<close>

section \<open>Changing the number of ports\<close>

definition resized :: "nat \<Rightarrow> nat \<Rightarrow> bitarray \<Rightarrow> bitarray" where
  "resized n m b = (if b = [] then [] else the (ba_realloc True b n m))"

lemma resized:
  assumes "b = [] \<or> length b = WORDSIZEROUND n" and "0 < n" and "WORDSIZEROUND n \<le> WORDSIZEROUND m"
  shows "b \<noteq> [] \<Longrightarrow> ba_realloc True b n m = Some (resized n m b)" "b \<noteq> [] \<Longrightarrow> length (resized n m b) = WORDSIZEROUND m"
    "ba_check (resized n m b) i \<longleftrightarrow> i < n \<and> ba_check b i" "resized n m b = [] \<longleftrightarrow> b = []"
proof -
  have pos: "0 < WORDSIZEROUND n" using assms(2) by (simp add: WORDSIZEROUND_def)
  have "(b \<noteq> [] \<longrightarrow> ba_realloc True b n m = Some (resized n m b) \<and> length (resized n m b) = WORDSIZEROUND m) \<and>
      (ba_check (resized n m b) i \<longleftrightarrow> i < n \<and> ba_check b i) \<and> (resized n m b = [] \<longleftrightarrow> b = [])"
  proof (cases "b = []")
    case True
    then show ?thesis by (simp add: resized_def ba_check_def)
  next
    case False
    then have len: "length b = WORDSIZEROUND n" using assms(1) by simp
    obtain nb where nb: "ba_realloc True b n m = Some nb" "length nb = WORDSIZEROUND m"
      "\<And>i. ba_check nb i \<longleftrightarrow> i < n \<and> ba_check b i" by (rule ba_realloc_words [OF len assms(2,3)], rule that)
    have "resized n m b = nb" using nb(1) False by (simp add: resized_def)
    moreover have "nb \<noteq> []" using nb(2) assms(3) pos by auto
    ultimately show ?thesis using False nb by simp
  qed
  then show "b \<noteq> [] \<Longrightarrow> ba_realloc True b n m = Some (resized n m b)" "b \<noteq> [] \<Longrightarrow> length (resized n m b) = WORDSIZEROUND m"
    "ba_check (resized n m b) i \<longleftrightarrow> i < n \<and> ba_check b i" "resized n m b = [] \<longleftrightarrow> b = []" by blast+
qed

lemma vlan_resize_all:
  assumes ok: "\<And>f. vlant s v f = [] \<or> length (vlant s v f) = WORDSIZEROUND n"
    and n: "0 < n" "WORDSIZEROUND n \<le> WORDSIZEROUND m"
  shows "vlan_resize (\<lambda>_ _. True) n m v s =
    s\<lparr>vlant := (vlant s)(v := (\<lambda>f. resized n m (vlant s v f)))\<rparr>"
proof -
  have one: "vlan_realloc (\<lambda>_ _. True) n m f v s = s\<lparr>vlant := (vlant s)(v := (vlant s v)(f := resized n m (vlant s v f)))\<rparr>"
    if "vlant s v f = [] \<or> length (vlant s v f) = WORDSIZEROUND n" for f s
  proof (cases "vlant s v f = []")
    case True
    then have "(vlant s)(v := (vlant s v)(f := resized n m (vlant s v f))) = vlant s"
      by (auto simp: fun_eq_iff resized_def)
    with True show ?thesis by (simp add: vlan_realloc_def)
  next
    case False
    with resized(1) [OF that n] show ?thesis by (simp add: vlan_realloc_def)
  qed
  have "(\<lambda>f. resized n m (vlant s v f)) = (vlant s v)(Table := resized n m (vlant s v Table),
      Bctag := resized n m (vlant s v Bctag), Bcuntag := resized n m (vlant s v Bcuntag),
      Notlearning := resized n m (vlant s v Notlearning))"
    (is "?l = ?r")
  proof
    fix f show "?l f = ?r f" by (cases f) simp_all
  qed
  then show ?thesis using ok by (simp add: vlan_resize_def one)
qed

lemma fold_vlan_realloc:
  assumes "distinct vs" and "\<And>v f. v \<in> set vs \<Longrightarrow> vlant s v f = [] \<or> length (vlant s v f) = WORDSIZEROUND n"
    and n: "0 < n" "WORDSIZEROUND n \<le> WORDSIZEROUND m"
  shows "fold (vlan_resize (\<lambda>_ _. True) n m) vs s =
    s\<lparr>vlant := (\<lambda>v. if v \<in> set vs then (\<lambda>f. resized n m (vlant s v f)) else vlant s v)\<rparr>"
  using assms(1,2)
proof (induction vs arbitrary: s)
  case (Cons v vs)
  let ?s = "s\<lparr>vlant := (vlant s)(v := (\<lambda>f. resized n m (vlant s v f)))\<rparr>"
  have "fold (vlan_resize (\<lambda>_ _. True) n m) vs ?s =
      ?s\<lparr>vlant := (\<lambda>v. if v \<in> set vs then (\<lambda>f. resized n m (vlant ?s v f)) else vlant ?s v)\<rparr>"
    using Cons.prems by (intro Cons.IH) auto
  moreover have "(\<lambda>x. if x \<in> set vs then (\<lambda>f. resized n m (vlant ?s x f)) else vlant ?s x) =
      (\<lambda>x. if x \<in> set (v # vs) then (\<lambda>f. resized n m (vlant s x f)) else vlant s x)"
    using Cons.prems(1) by (auto simp: fun_eq_iff)
  moreover have "vlan_resize (\<lambda>_ _. True) n m v s = ?s"
    by (rule vlan_resize_all [OF _ n]) (use Cons.prems(2) in simp)
  ultimately show ?case by simp
qed simp

lemma realloc_fields_all:
  assumes "\<And>fl. length (b fl) = WORDSIZEROUND n" and n: "0 < n" "WORDSIZEROUND n \<le> WORDSIZEROUND m"
  shows "realloc_fields (\<lambda>_. True) n m [Untag, Tagged, Backup, Edge, Rcvhist0, Rcvhist1] b = Some (\<lambda>fl. resized n m (b fl))"
proof -
  have "b fl \<noteq> []" for fl using assms(1) [of fl] n(1) by (auto simp: WORDSIZEROUND_def)
  then have "ba_realloc True (b fl) n m = Some (resized n m (b fl))" for fl
    using resized(1) [OF _ n] assms(1) by blast
  moreover have "(\<lambda>fl. resized n m (b fl)) = b(Untag := resized n m (b Untag), Tagged := resized n m (b Tagged),
      Backup := resized n m (b Backup), Edge := resized n m (b Edge), Rcvhist0 := resized n m (b Rcvhist0),
      Rcvhist1 := resized n m (b Rcvhist1))"
    (is "?l = ?r")
  proof
    fix fl show "?l fl = ?r fl" by (cases fl) simp_all
  qed
  ultimately show ?thesis by simp
qed

definition vlst_resized :: "nat \<Rightarrow> nat \<Rightarrow> vlst \<Rightarrow> vlst" where
  "vlst_resized n m w = w\<lparr>v_bits := (\<lambda>fl. resized n m (v_bits w fl))\<rparr>"

lemma fst_resize_vlan_eq:
  assumes "\<And>w fl. fsttab s v = Some w \<Longrightarrow> length (v_bits w fl) = WORDSIZEROUND (fst_numports s)"
    and n: "0 < fst_numports s" "WORDSIZEROUND (fst_numports s) \<le> WORDSIZEROUND m"
  shows "fst_resize_vlan (\<lambda>_ _. True) m v s =
    s\<lparr>fsttab := (fsttab s)(v := map_option (vlst_resized (fst_numports s) m) (fsttab s v))\<rparr>"
proof (cases "fsttab s v")
  case None
  then show ?thesis by (simp add: fst_resize_vlan_def fun_upd_idem)
next
  case (Some w)
  then have "realloc_fields (\<lambda>_. True) (fst_numports s) m [Untag, Tagged, Backup, Edge, Rcvhist0, Rcvhist1] (v_bits w) =
      Some (\<lambda>fl. resized (fst_numports s) m (v_bits w fl))"
    using assms by (intro realloc_fields_all) auto
  with Some show ?thesis by (simp add: fst_resize_vlan_def vlst_resized_def del: realloc_fields.simps)
qed

lemma fold_fst_resize:
  assumes "distinct vs" and "\<And>v w fl. v \<in> set vs \<Longrightarrow> fsttab s v = Some w \<Longrightarrow> length (v_bits w fl) = WORDSIZEROUND (fst_numports s)"
    and n: "0 < fst_numports s" "WORDSIZEROUND (fst_numports s) \<le> WORDSIZEROUND m"
  shows "fold (fst_resize_vlan (\<lambda>_ _. True) m) vs s =
    s\<lparr>fsttab := (\<lambda>v. if v \<in> set vs then map_option (vlst_resized (fst_numports s) m) (fsttab s v) else fsttab s v)\<rparr>"
  using assms
proof (induction vs arbitrary: s)
  case (Cons v vs)
  let ?s = "s\<lparr>fsttab := (fsttab s)(v := map_option (vlst_resized (fst_numports s) m) (fsttab s v))\<rparr>"
  have "fold (fst_resize_vlan (\<lambda>_ _. True) m) vs ?s =
      ?s\<lparr>fsttab := (\<lambda>v. if v \<in> set vs then map_option (vlst_resized (fst_numports ?s) m) (fsttab ?s v) else fsttab ?s v)\<rparr>"
    using Cons.prems by (intro Cons.IH) (auto split: if_splits)
  moreover have "(\<lambda>x. if x \<in> set vs then map_option (vlst_resized (fst_numports ?s) m) (fsttab ?s x) else fsttab ?s x) =
      (\<lambda>x. if x \<in> set (v # vs) then map_option (vlst_resized (fst_numports s) m) (fsttab s x) else fsttab s x)"
    using Cons.prems(1) by (auto simp: fun_eq_iff)
  moreover have "fst_resize_vlan (\<lambda>_ _. True) m v s = ?s"
    by (rule fst_resize_vlan_eq) (use Cons.prems in auto)
  ultimately show ?case by simp
qed simp

lemma portsetnumports_eq:
  assumes wf: "switch_wf sw" and val: "0 < val" and words: "WORDSIZEROUND (numports sw) \<le> WORDSIZEROUND (nat val)"
    and free: "\<not> list_ex (\<lambda>i. get_port i sw \<noteq> None) [nat val..<numports sw]"
  shows "snd (the (portsetnumports True (\<lambda>_ _. True) (\<lambda>_ _. True) val sw)) =
    sw\<lparr>vlant := (\<lambda>v. if v < NUMOFVLAN then (\<lambda>f. resized (numports sw) (nat val) (vlant sw v f)) else vlant sw v),
       portv := take (nat val) (portv sw) @ replicate (nat val - length (portv sw)) None,
       fsttab := (\<lambda>v. if v < NUMOFVLAN then map_option (vlst_resized (numports sw) (nat val)) (fsttab sw v) else fsttab sw v),
       fst_numports := nat val, numports := nat val\<rparr>"
proof -
  note S = struct_okD [OF switch_wfD(1) [OF wf]]
  define n where "n = numports sw"
  define m where "m = nat val"
  define s1 where "s1 = sw\<lparr>vlant := (\<lambda>v. if v \<in> set [0..<NUMOFVLAN] then (\<lambda>f. resized n m (vlant sw v f)) else vlant sw v)\<rparr>"
  define s2 where "s2 = s1\<lparr>portv := take m (portv s1) @ replicate (m - length (portv s1)) None\<rparr>"
  have 1: "fold (vlan_resize (\<lambda>_ _. True) n m) [0..<NUMOFVLAN] sw = s1"
    unfolding s1_def using S(6,10) words
    by (intro fold_vlan_realloc) (auto simp: arrays_ok_def n_def m_def)
  have "length (v_bits w fl) = WORDSIZEROUND (fst_numports s2)" if "fsttab s2 v = Some w" for v w fl
  proof -
    have "fsttab sw v = Some w" using that by (simp add: s2_def s1_def)
    then have "length (fst_bits sw v fl) = WORDSIZEROUND (numports sw)" "fst_bits sw v fl = v_bits w fl"
      using S(6) by (auto simp: arrays_ok_def fst_bits_def)
    then show ?thesis using S(3) by (simp add: s2_def s1_def)
  qed
  then have 2: "fold (fst_resize_vlan (\<lambda>_ _. True) m) [0..<NUMOFVLAN] s2 = s2\<lparr>fsttab := (\<lambda>v. if v \<in> set [0..<NUMOFVLAN]
      then map_option (vlst_resized (fst_numports s2) m) (fsttab s2 v) else fsttab s2 v)\<rparr>"
    using S(3,10) words by (intro fold_fst_resize) (auto simp: s2_def s1_def m_def)
  have "snd (the (portsetnumports True (\<lambda>_ _. True) (\<lambda>_ _. True) val sw)) = (fstsetnumports (\<lambda>_ _. True) m s2)\<lparr>numports := m\<rparr>"
    using val free unfolding portsetnumports_def Let_def n_def [symmetric] m_def [symmetric] 1 s2_def [symmetric]
    by simp
  also have "\<dots> = s2\<lparr>fsttab := (\<lambda>v. if v \<in> set [0..<NUMOFVLAN]
      then map_option (vlst_resized (fst_numports s2) m) (fsttab s2 v) else fsttab s2 v), fst_numports := m, numports := m\<rparr>"
    unfolding fstsetnumports_def 2 by simp
  also have "(\<lambda>v. if v \<in> set [0..<NUMOFVLAN] then map_option (vlst_resized (fst_numports s2) m) (fsttab s2 v) else fsttab s2 v) =
      (\<lambda>v. if v < NUMOFVLAN then map_option (vlst_resized n m) (fsttab sw v) else fsttab sw v)"
    using S(3) by (simp add: s2_def s1_def n_def fun_eq_iff)
  finally show ?thesis unfolding s2_def s1_def n_def m_def by simp
qed

lemma portsetnumports_wf [wf_intros]:
  assumes wf: "switch_wf sw" and words: "0 < val \<Longrightarrow> WORDSIZEROUND (numports sw) \<le> WORDSIZEROUND (nat val)"
  shows "switch_wf (snd (the (portsetnumports True (\<lambda>_ _. True) (\<lambda>_ _. True) val sw)))"
proof (cases "0 < val \<and> \<not> list_ex (\<lambda>i. get_port i sw \<noteq> None) [nat val..<numports sw]")
  case False
  then show ?thesis using wf by (auto simp: portsetnumports_def)
next
  case True
  define m where "m = nat val"
  define s where "s = snd (the (portsetnumports True (\<lambda>_ _. True) (\<lambda>_ _. True) val sw))"
  note W = switch_wfD [OF wf] and S = struct_okD [OF switch_wfD(1) [OF wf]]
  have words': "WORDSIZEROUND (numports sw) \<le> WORDSIZEROUND m" using True words by (simp add: m_def)
  note eq = portsetnumports_eq [OF wf conjunct1 [OF True] words'[unfolded m_def] conjunct2 [OF True], folded s_def m_def]
  note R = resized [OF _ S(10) words']
  have okV: "vlant sw v f = [] \<or> length (vlant sw v f) = WORDSIZEROUND (numports sw)" for v f
    using S(6) by (simp add: arrays_ok_def)
  have nilV: "NUMOFVLAN \<le> v \<Longrightarrow> vlant sw v f = []" for v f using S(6) by (simp add: arrays_ok_def)
  have F0: "NUMOFVLAN \<le> v \<Longrightarrow> fsttab sw v = None" for v using W(5) by (force simp: fst_ok_def valid_def)
  have none: "m \<le> i \<Longrightarrow> get_port i sw = None" for i
    using True S(2) by (cases "i < numports sw") (auto simp: list_ex_iff m_def get_port_def)
  have gp: "get_port i s = get_port i sw" for i
    using none [of i] S(2) by (auto simp: eq get_port_def nth_append min_def split: if_splits)
  have chk: "vlan_check s v f i \<longleftrightarrow> i < numports sw \<and> vlan_check sw v f i" for v f i
    using R(3) [OF okV [of v f]] nilV [of v f] by (auto simp: eq vlan_check_def ba_check_def)
  have bits: "fst_bits s v fl = resized (numports sw) m (fst_bits sw v fl)" for v fl
    using F0 [of v] by (cases "fsttab sw v") (auto simp: eq fst_bits_def vlst_resized_def resized_def)
  have okF: "fst_bits sw v fl = [] \<or> length (fst_bits sw v fl) = WORDSIZEROUND (numports sw)" for v fl
    using S(6) by (cases "fsttab sw v") (auto simp: arrays_ok_def fst_bits_def)
  have fchk: "fst_check s v fl i \<longleftrightarrow> i < numports sw \<and> fst_check sw v fl i" for v fl i
    by (simp add: fst_check_def bits R(3) [OF okF])
  have less: "vlan_check sw v Table i \<Longrightarrow> i < numports sw" "member sw v i \<Longrightarrow> i < numports sw" for v i
    using struct_tableD(2) [OF W(1)] struct_member_less [OF W(1)] by blast+
  have dom: "fsttab s v = None \<longleftrightarrow> fsttab sw v = None" for v by (simp add: eq)
  have pv: "pview s = pview sw" by (simp add: fun_eq_iff pview_def gp)
  have val: "valid s = valid sw" by (simp add: fun_eq_iff valid_def eq)
  have mem: "member s = member sw" using less(2) by (auto simp: fun_eq_iff member_def fchk)
  note act = pview_cong(1,2) [OF pv]
  have pos: "0 < WORDSIZEROUND (numports sw)" using S(10) by (simp add: WORDSIZEROUND_def)
  have "arrays_ok s"
  proof -
    have "vlant s v f = [] \<or> length (vlant s v f) = WORDSIZEROUND m" for v f
      using R(2) [OF okV [of v f]] nilV [of v f] by (auto simp: eq resized_def)
    moreover have "length (fst_bits s v fl) = WORDSIZEROUND m" if "fsttab s v \<noteq> None" for v fl
    proof -
      have "length (fst_bits sw v fl) = WORDSIZEROUND (numports sw)" using that S(6) by (simp add: dom arrays_ok_def)
      then have "fst_bits sw v fl \<noteq> []" using pos by auto
      then show ?thesis using R(2) [OF okF] by (simp add: bits)
    qed
    moreover have "length (vlant s v f) = WORDSIZEROUND m" if "valid s v" for v f
    proof -
      have "length (vlant sw v f) = WORDSIZEROUND (numports sw)" "v < NUMOFVLAN"
        using that S(6) by (simp_all add: val arrays_ok_def valid_def)
      then have "vlant sw v f \<noteq> []" using pos by auto
      then show ?thesis using R(2) [OF okV] \<open>v < NUMOFVLAN\<close> by (simp add: eq)
    qed
    moreover have "fsttab s v \<noteq> None" if "valid s v" for v using that S(6) unfolding val dom arrays_ok_def by blast
    moreover have "numports s = m" by (simp add: eq)
    moreover have "NUMOFVLAN \<le> v \<Longrightarrow> vlant s v f = []" for v f using nilV by (simp add: eq)
    ultimately show ?thesis by (simp add: arrays_ok_def)
  qed
  moreover have "ports_ok s" using S(7) unfolding ports_ok_def pv .
  moreover have "sets_ok s" using S(8) unfolding sets_ok_def pv val mem chk fchk by blast
  ultimately have "struct_ok s"
    using S True by (simp add: struct_ok_def) (simp add: eq min_def m_def)
  moreover have "untag_ok s"
    using W(3) less(1) unfolding untag_ok_def pv act chk by blast
  moreover have "bc_ok s" using W(4) less(1) unfolding bc_ok_def act chk by blast
  moreover have "fst_ok s" using W(5) less(1) unfolding fst_ok_def act chk fchk dom val by blast
  moreover have "mac_ok s"
    using W(6) less(1) unfolding mac_ok_def entry_ok_def Let_def act chk by (auto simp: eq)
  ultimately show ?thesis using W(2) by (simp add: switch_wf_def val s_def [symmetric])
qed

section \<open>Forwarding keeps the invariant\<close>

lemma SEND_TO_stp: "struct_ok s \<Longrightarrow> pview s i \<noteq> None \<Longrightarrow> stp_ok V s (snd (SEND_TO i pkt s))"
  by (cases pkt) (simp add: SEND_TO_def SEND_PACKET_PORT_stp)

lemma vlant_SEND_TO [frame_simps]: "vlant (snd (SEND_TO i pkt s)) = vlant s"
  by (cases pkt) (simp add: SEND_TO_def frame_simps)

lemma hash_SEND_TO [frame_simps]: "hash (snd (SEND_TO i pkt s)) = hash s"
  by (cases pkt)
    (simp add: SEND_TO_def SEND_PACKET_PORT_def upd_port_def crash_def Let_def split: prod.splits option.splits)

lemma broadcast_stp:
  assumes "struct_ok sw" and v: "valid sw v" and bits: "\<And>i. vlan_check sw v f i \<Longrightarrow> pview sw i \<noteq> None"
  shows "stp_ok {} sw (snd (broadcast v f port pkt sw))"
proof -
  obtain buf off len where pkt: "pkt = (buf, off, len)" using prod_cases3 by blast
  define body where "body = (\<lambda>i (len, s). if i \<noteq> port then SEND_TO i (buf, off, len) s else (len, s))"
  let ?I = "\<lambda>ls :: int \<times> switch. stp_ok {} sw (snd ls) \<and> vlant (snd ls) = vlant sw"
  have "length (vlant sw v f) = WORDSIZEROUND (numports sw)"
    using struct_okD(6) [OF assms(1)] v by (simp add: arrays_ok_def)
  moreover have "?I (ba_FORALL (\<lambda>(_, s). vlant s v f) (numports sw) body (len, sw))"
  proof (rule ba_FORALL_inv [where I = ?I and Q = "vlan_check sw v f"])
    fix i ls assume ls: "?I ls" and "vlan_check sw v f i"
    obtain l s where e: "ls = (l, s)" by force
    have "pview s i \<noteq> None" using bits [OF \<open>vlan_check sw v f i\<close>] stp_ok_simps(3) [of "{}" sw s] ls by (simp add: e)
    then have "stp_ok {} sw (snd (SEND_TO i (buf, off, l) s))"
      using ls SEND_TO_stp stp_then [of "{}" sw s "\<lambda>s. snd (SEND_TO i (buf, off, l) s)"] by (simp add: e)
    then show "?I (body i ls)" using ls by (simp add: e body_def frame_simps)
  qed (use stp_ok_refl [OF assms(1)] in \<open>auto simp: vlan_check_def split: prod.splits\<close>)
  ultimately show ?thesis unfolding pkt broadcast_def body_def by simp
qed

lemma broadcast_wf:
  assumes wf: "switch_wf sw" and v: "valid sw v" and f: "f = Bctag \<or> f = Bcuntag"
  shows "switch_wf (snd (broadcast v f port pkt sw)) \<and> valid (snd (broadcast v f port pkt sw)) v"
proof -
  have "vlan_check sw v f i \<Longrightarrow> pview sw i \<noteq> None" for i
  proof -
    assume "vlan_check sw v f i"
    then have "active sw i" using switch_wfD(4) [OF wf] f by (auto simp: bc_ok_def)
    then show ?thesis by (auto simp: active_def)
  qed
  then have "stp_ok {} sw (snd (broadcast v f port pkt sw))"
    by (rule broadcast_stp [OF switch_wfD(1) [OF wf] v])
  then show ?thesis using stp_step_wf [OF wf stp_step_ok] v stp_ok_simps(5) by simp
qed

lemma send_dst_broadcast_wf:
  assumes "switch_wf sw" and "valid sw v"
  shows "switch_wf (send_dst_broadcast port v tagged pkt sw)"
proof -
  have "switch_wf (snd (broadcast v g port pkt2 (snd (broadcast v f port pkt1 sw))))"
    if "f = Bctag \<or> f = Bcuntag" "g = Bctag \<or> g = Bcuntag" for f g pkt1 pkt2
    using broadcast_wf [OF assms that(1), of port pkt1] broadcast_wf that(2) by blast
  then show ?thesis
    by (cases pkt) (auto simp: send_dst_broadcast_def case_prod_beta)
qed

lemma send_dst_unicast_wf:
  assumes wf: "switch_wf sw" and "get_port (nat t) sw \<noteq> None"
  shows "switch_wf (send_dst_unicast port v tagged t pkt sw)"
proof -
  have "switch_wf (snd (SEND_TO (nat t) pkt' sw))" for pkt'
    by (rule stp_step_wf [OF wf stp_step_ok [OF SEND_TO_stp [OF switch_wfD(1) [OF wf]]]]) (use assms(2) in simp)
  then show ?thesis
    using assms by (auto simp: send_dst_unicast_def split: option.split)
qed

lemma learn_wf:
  assumes wf: "switch_wf sw" and "active sw i" "vlan_check sw v Table i" "\<not> vlan_check sw v Notlearning i"
  shows "switch_wf (sw\<lparr>hash := snd (find_in_hash_update mem now mac (int v) (int i) (hash sw))\<rparr>)"
proof -
  let ?h = "hash_learn mem now mac (int v) (int i) (hash sw)"
  let ?s = "sw\<lparr>hash := ?h\<rparr>"
  note W = switch_wfD [OF wf] and S = struct_okD [OF switch_wfD(1) [OF wf]]
  have "v < NUMOFVLAN" using struct_tableD(1) [OF W(1) assms(3)] by (simp add: valid_def)
  then have "unat (EMAC2VLAN (extmac mac (int v))) = v"
    by (simp add: EMAC2VLAN_extmac NUMOFVLAN_def unat_of_nat take_bit_eq_mod)
  then have new: "entry_ok sw (extmac mac (int v)) (int i)" using assms by (simp add: entry_ok_def)
  have look: "entry_ok sw d p" if "hash_look ?h d = Some (p, t)" for d p t
    using hash.look_learn [OF S(9) that] W(6) new by (auto simp: mac_ok_def)
  have fr: "pview ?s = pview sw" "valid ?s = valid sw" "vlan_check ?s = vlan_check sw" "fst_check ?s = fst_check sw"
    "member ?s = member sw" "fst_bits ?s = fst_bits sw"
    by (simp_all add: fun_eq_iff pview_def valid_def vlan_check_def fst_check_def member_def)
  note act = pview_cong(1,2) [OF fr(1)]
  have "entry_ok ?s = entry_ok sw" by (simp add: fun_eq_iff entry_ok_def act fr)
  then have "mac_ok ?s" using look by (simp add: mac_ok_def)
  moreover have "struct_ok ?s"
    using S hash.inv_learn [OF S(9)] by (simp add: struct_ok_def arrays_ok_def ports_ok_def sets_ok_def fr)
  ultimately show ?thesis
    using W by (simp add: switch_wf_def untag_ok_def bc_ok_def fst_ok_def fr act flip: hash_learn_def)
qed

lemma untag_okD:
  assumes "untag_ok sw" and q: "get_port i sw = Some q" and "p_vlanuntag q \<noteq> NOVLAN"
  shows "vlan_check sw (p_vlanuntag q) Table i"
proof -
  have "untag_of sw i = p_vlanuntag q" "pview sw i \<noteq> None" using q by (simp_all add: untag_of_def pview_def)
  then show ?thesis using assms unfolding untag_ok_def by metis
qed

lemma switch_packet_wf:
  assumes wf: "switch_wf sw" and act: "active sw i" and tab: "vlan_check sw v Table i"
  shows "switch_wf (switch_packet mem i v tagged pkt sw)"
proof -
  obtain buf off len where pkt: "pkt = (buf, off, len)" using prod_cases3 by blast
  define p where "p = drop off buf"
  define s where "s = (if IS_BROADCAST (pkt_src p) then sw
       else sw\<lparr>hash := snd (find_in_hash_update mem (qtime (timers sw)) (pkt_src p) (int v) (int i) (hash sw))\<rparr>)"
  note W = switch_wfD [OF wf]
  have v: "valid sw v" by (rule struct_tableD(1) [OF W(1) tab])
  have mem: "member sw v i" using act tab switch_wf_member [OF wf] by simp
  have bpdu: "switch_wf (fst_in_bpdu i p len v tagged sw)"
    by (rule stp_step_wf [OF wf fst_in_bpdu_step [OF W(1) struct_valid_fst [OF W(1) v] mem]])
  show ?thesis
  proof (cases "vlan_check sw v Notlearning i")
    case True
    with wf bpdu show ?thesis by (simp add: switch_packet_def pkt Let_def flip: p_def)
  next
    case False
    have ws: "switch_wf s" using wf learn_wf [OF wf act tab False] by (simp add: s_def)
    have vs: "valid s v" using v by (simp add: s_def valid_def)
    define t where "t = find_in_hash (hash s) (pkt_dest p) (int v)"
    have "get_port (nat t) s \<noteq> None" if nonneg: "\<not> t < 0"
    proof -
      obtain e where "find_entry (hash s) (extmac (pkt_dest p) (int v)) = Some e" "t = he_port e"
        using nonneg by (cases "find_entry (hash s) (extmac (pkt_dest p) (int v))") (simp_all add: t_def find_in_hash_def)
      then have "entry_ok s (extmac (pkt_dest p) (int v)) t"
        using switch_wfD(6) [OF ws] by (auto simp: mac_ok_def hash_look_def)
      then show ?thesis by (auto simp: entry_ok_def Let_def active_def)
    qed
    then have "switch_wf (if IS_BROADCAST (pkt_dest p) \<or> t < 0 then send_dst_broadcast i v tagged (buf, off, len) s
        else send_dst_unicast i v tagged t (buf, off, len) s)"
      using send_dst_broadcast_wf [OF ws vs] send_dst_unicast_wf [OF ws] by simp
    moreover have "switch_packet mem i v tagged pkt sw =
      (if ISBPDU p \<and> fst (fstflag P_GETFLAG FSTP_TAG sw) \<noteq> 0 then fst_in_bpdu i p len v tagged sw
       else if IS_BROADCAST (pkt_dest p) \<or> t < 0 then send_dst_broadcast i v tagged (buf, off, len) s
       else send_dst_unicast i v tagged t (buf, off, len) s)"
      using False unfolding switch_packet_def pkt t_def s_def p_def Let_def prod.case by simp
    ultimately show ?thesis using bpdu by simp
  qed
qed

lemma hub_packet_wf:
  assumes wf: "switch_wf sw"
  shows "switch_wf (hub_packet port pkt sw)"
proof -
  obtain buf off len where pkt: "pkt = (buf, off, len)" using prod_cases3 by blast
  have "switch_wf (snd (fold (\<lambda>i (len, s). if i \<noteq> port \<and> get_port i s \<noteq> None then SEND_TO i (buf, off, len) s else (len, s))
      is (l, s)))" if "switch_wf s" for "is" l s
    using that
  proof (induction "is" arbitrary: l s)
    case (Cons i "is")
    have "switch_wf (snd (SEND_TO i (buf, off, l) s))" if "get_port i s \<noteq> None"
      by (rule stp_step_wf [OF Cons.prems stp_step_ok [OF SEND_TO_stp [OF switch_wfD(1) [OF Cons.prems]]]])
        (use that in simp)
    then show ?case
      using Cons by (cases "SEND_TO i (buf, off, l) s") auto
  qed simp
  then show ?thesis using wf by (simp add: hub_packet_def pkt)
qed

lemma handle_in_packet_wf [wf_intros]:
  assumes wf: "switch_wf sw" and act: "active sw (ep_port ep)"
  shows "switch_wf (handle_in_packet mem ep pkt sw)"
proof -
  obtain buf off len0 where pkt: "pkt = (buf, off, len0)" using prod_cases3 by blast
  define i where "i = ep_port ep"
  define p where "p = drop off buf"
  obtain ok len where pf: "PACKETFILTER (pkt_in sw) i p len0 = (ok, len)" by force
  define s where "s = upd_port i (\<lambda>p. p\<lparr>p_pktsin := p_pktsin p + 1, p_bytesin := p_bytesin p + len\<rparr>) sw"
  obtain q where q: "get_port i sw = Some q" using act by (auto simp: i_def active_def)
  have ws: "switch_wf s" unfolding s_def using q by (intro upd_port_wf wf) (simp_all add: pshape_def)
  have pv: "pview s = pview sw" unfolding s_def by (rule pview_upd_port_same [OF q]) (simp add: pshape_def)
  have acts: "active s i" using act unfolding pview_cong(1) [OF pv] i_def .
  have tab: "vlan_check s (p_vlanuntag q') Table i" if "get_port i s = Some q'" "p_vlanuntag q' \<noteq> NOVLAN" for q'
    by (rule untag_okD [OF switch_wfD(3) [OF ws] that])
  have "handle_in_packet mem ep pkt sw = (if \<not> ok then sw
      else if pflag sw AND HUB_TAG \<noteq> 0 then hub_packet i (buf, off, len) s
      else if pkt_tagged p
      then (if vlan_check s (pkt_vlan p) Table i then switch_packet mem i (pkt_vlan p) True (buf, off, len) s else s)
      else (case get_port i s of None \<Rightarrow> s
            | Some q \<Rightarrow> if p_vlanuntag q = NOVLAN then s else switch_packet mem i (p_vlanuntag q) False (buf, off, len) s))"
    unfolding handle_in_packet_def pkt prod.case i_def [symmetric] p_def [symmetric] Let_def pf s_def
    by (rule refl)
  moreover have "get_port i s = Some q' \<Longrightarrow> p_vlanuntag q' \<noteq> NOVLAN \<Longrightarrow>
      switch_wf (switch_packet mem i (p_vlanuntag q') False (buf, off, len) s)" for q'
    by (rule switch_packet_wf [OF ws acts tab])
  ultimately show ?thesis
    using wf ws hub_packet_wf [OF ws] switch_packet_wf [OF ws acts] by (simp split: option.split)
qed

end
