(* ===== verification/System.thy ===== *)
theory System
  imports Dynamics
begin

text \<open>
  The whole switch: \<^verbatim>\<open>main\<close> of vde_switch.c (command line options, initialisation), the
  operations that the main loop, the timers and the management commands perform on the state
  of port.c, fstp.c, hash.c and qtimer.c, and the states that sequences of such operations
  reach. The invariant \<open>switch_wf\<close> holds in all of them.
\<close>

section \<open>Start of the program\<close>

definition DEFAULT_PRIORITY :: u32 where "DEFAULT_PRIORITY = 0x8000"
definition INIT_HASH_SIZE :: int where "INIT_HASH_SIZE = 128"
definition INIT_NUMPORTS :: int where "INIT_NUMPORTS = 32"

text \<open>The static variables before \<open>main\<close> runs; \<open>flt\<close> are the packet filters of the plugins.\<close>

definition switch_zero :: "pfilter list \<Rightarrow> pfilter list \<Rightarrow> switch" where
  "switch_zero fltin fltout = \<lparr>
     numports = 0, pflag = 0, portv = [], vlant = (\<lambda>_ _. []), validvlan = [],
     hash = hash_zero, timers = qtimer_start,
     fst_numports = 0, fst_pflag = 0, fsttab = (\<lambda>_. None), rcvhistindex = 0, hellocounter = 0,
     helloperiod = STDHELLOPERIOD, maxage = STDHELLOPERIOD * 10, fst_timerno = 0,
     switchmac = replicate ETH_ALEN 0, priority = DEFAULT_PRIORITY, myid = replicate SWITCHID_LEN 0,
     out_src = replicate ETH_ALEN 0, out_bridge = replicate SWITCHID_LEN 0, out_hello = [0, 0], out_maxage = [0, 0],
     pkt_in = fltin, pkt_out = fltout, outs = [], fault = False\<rparr>"

text \<open>\<open>set_switchmac\<close>: the last four bytes come from \<open>lrand48\<close>.\<close>

definition set_switchmac :: "u32 \<Rightarrow> switch \<Rightarrow> switch" where
  "set_switchmac val sw =
     sw\<lparr>switchmac := [0, 0xff, ucast val, ucast (drop_bit 8 val), ucast (drop_bit 16 val), ucast (drop_bit 24 val)]\<rparr>"

record config =
  cfg_switch :: switch
  cfg_hash_size :: int
  cfg_numports :: int

datatype globopt = Opt_hub | Opt_hashsize | Opt_fstp | Opt_priority | Opt_macaddr | Opt_numports | Opt_version | Opt_help | Opt_other int

text \<open>
  \<open>None\<close>: the program exits (version, usage). The result 0 means that the option has been
  consumed, another result is the option for the modules.
\<close>

fun parse_globopt :: "globopt \<Rightarrow> string \<Rightarrow> config \<Rightarrow> (int \<times> config) option" where
  "parse_globopt Opt_hub optarg c =
     Some (0, c\<lparr>cfg_switch := snd (portflag P_SETFLAG HUB_TAG (snd (fstflag P_CLRFLAG FSTP_TAG (cfg_switch c))))\<rparr>)"
| "parse_globopt Opt_hashsize optarg c =
     Some (0, case scan_ints 1 optarg of [n] \<Rightarrow> c\<lparr>cfg_hash_size := n\<rparr> | _ \<Rightarrow> c)"
| "parse_globopt Opt_fstp optarg c =
     Some (0, if fst (portflag P_GETFLAG HUB_TAG (cfg_switch c)) = 0
              then c\<lparr>cfg_switch := snd (fstflag P_SETFLAG FSTP_TAG (cfg_switch c))\<rparr> else c)"
| "parse_globopt Opt_priority optarg c =
     Some (0, let prio = (case scan_ints 1 optarg of [n] \<Rightarrow> word_of_int n | _ \<Rightarrow> priority (cfg_switch c))
              in c\<lparr>cfg_switch := (cfg_switch c)\<lparr>priority := prio AND 0xffff\<rparr>\<rparr>)"
| "parse_globopt Opt_macaddr optarg c =
     (let maci = scan_hexs (if CHR '':'' \<in> set optarg then CHR '':'' else CHR ''.'') 6 optarg
      in if length maci \<noteq> 6 then None
         else Some (0, c\<lparr>cfg_switch := (cfg_switch c)\<lparr>switchmac := map word_of_int maci\<rparr>\<rparr>))"
| "parse_globopt Opt_numports optarg c =
     Some (0, case scan_ints 1 optarg of [n] \<Rightarrow> c\<lparr>cfg_numports := n\<rparr> | _ \<Rightarrow> c)"
| "parse_globopt Opt_version optarg c = None"
| "parse_globopt Opt_help optarg c = None"
| "parse_globopt (Opt_other o') optarg c = Some (o', c)"

text \<open>The options of the command line in turn; those the program itself does not know go to the modules.\<close>

fun parse_args :: "(globopt \<times> string) list \<Rightarrow> config \<Rightarrow> config option" where
  "parse_args [] c = Some c"
| "parse_args ((opt, optarg) # opts) c =
     (case parse_globopt opt optarg c of None \<Rightarrow> None | Some (_, c') \<Rightarrow> parse_args opts c')"

text \<open>Which of the allocations at the start succeed: the MAC table, the tables of ports and VLANs, the data of VLAN 0.\<close>

record start_mem =
  sm_hash :: bool
  sm_port :: bool
  sm_vlan :: "vfield \<Rightarrow> bool"
  sm_fst :: nat

definition all_mem :: start_mem where
  "all_mem = \<lparr>sm_hash = True, sm_port = True, sm_vlan = (\<lambda>_. True), sm_fst = 7\<rparr>"

text \<open>\<open>main\<close> up to the initialisation of the modules. \<open>None\<close>: the program exits, or \<open>hash_init\<close> does not return.\<close>

definition main_init :: "start_mem \<Rightarrow> u32 \<Rightarrow> (globopt \<times> string) list \<Rightarrow> pfilter list \<Rightarrow> pfilter list \<Rightarrow> switch option" where
  "main_init mem rand opts fltin fltout =
     (case parse_args opts \<lparr>cfg_switch = set_switchmac rand (switch_zero fltin fltout),
                             cfg_hash_size = INIT_HASH_SIZE, cfg_numports = INIT_NUMPORTS\<rparr> of
        None \<Rightarrow> None
      | Some c \<Rightarrow>
          (case hash_init (sm_hash mem) (cfg_hash_size c) (timers (cfg_switch c)) of
             None \<Rightarrow> None
           | Some (h, q) \<Rightarrow>
               port_init (sm_port mem) (sm_vlan mem) (sm_fst mem) (cfg_numports c)
                 (fst_init (nat (cfg_numports c)) ((cfg_switch c)\<lparr>hash := h, timers := q\<rparr>))))"

section \<open>Timers\<close>

fun timer_callback :: "timer_call \<Rightarrow> switch \<Rightarrow> switch" where
  "timer_callback HASH_GC sw = sw\<lparr>hash := hash_gc (qtime (timers sw)) (hash sw)\<rparr>"
| "timer_callback FST_HELLO sw = fst_hello sw"

definition alarm :: "switch \<Rightarrow> switch" where
  "alarm sw = (case sig_alarm (timers sw) of (q, calls) \<Rightarrow> fold timer_callback calls (sw\<lparr>timers := q\<rparr>))"

section \<open>The operations\<close>

text \<open>
  What can happen between two states of the switch: a packet arrives on an endpoint, an
  endpoint is set up, described or closed, a second passes, a management command is given.
  The arguments \<open>mem\<close> say whether allocations succeed.
\<close>

datatype operation =
    Packet bool endpoint bytes nat int
  | SetupEp userdb bool bool int fd fd int string
  | SetupDescription endpoint string
  | CloseEp endpoint
  | Alarm
  | PortSetnumports bool "nat \<Rightarrow> vfield \<Rightarrow> bool" "nat \<Rightarrow> ffield \<Rightarrow> bool" int
  | PortSethub int
  | PortSetvlan string
  | PortCreate bool int
  | PortCreateauto bool
  | PortRemove int
  | PortAllocatable string
  | PortSetuser "string \<Rightarrow> int option" string
  | PortSetgroup "string \<Rightarrow> int option" string
  | PortEpclose string
  | PortResetcounter string
  | VlanCreate "vfield \<Rightarrow> bool" nat int
  | VlanRemove int
  | VlanAddport string
  | VlanDelport string
  | FstpSetfstp int
  | FstpSetedge string
  | FstpBonus string
  | HashSetsize bool int
  | HashSetgcint int
  | HashSetexpire int
  | HashSetminper int

fun perform :: "operation \<Rightarrow> switch \<Rightarrow> switch" where
  "perform (Packet mem ep buf off len) sw = handle_in_packet mem ep (buf, off, len) sw"
| "perform (SetupEp db mem memep portno fc fdt user m) sw = snd (setup_ep db mem memep portno fc fdt user m sw)"
| "perform (SetupDescription ep descr) sw = setup_description ep descr sw"
| "perform (CloseEp ep) sw = snd (close_ep ep sw)"
| "perform Alarm sw = alarm sw"
| "perform (PortSetnumports mem memv memf n) sw = (case portsetnumports mem memv memf n sw of None \<Rightarrow> sw | Some (_, sw') \<Rightarrow> sw')"
| "perform (PortSethub n) sw = snd (portsethub n sw)"
| "perform (PortSetvlan arg) sw = snd (portsetvlan arg sw)"
| "perform (PortCreate mem n) sw = snd (portcreate mem n sw)"
| "perform (PortCreateauto mem) sw = snd (portcreateauto mem sw)"
| "perform (PortRemove n) sw = snd (portremove n sw)"
| "perform (PortAllocatable arg) sw = snd (portallocatable arg sw)"
| "perform (PortSetuser getpwnam arg) sw = snd (portsetuser getpwnam arg sw)"
| "perform (PortSetgroup getgrnam arg) sw = snd (portsetgroup getgrnam arg sw)"
| "perform (PortEpclose arg) sw = snd (epclose arg sw)"
| "perform (PortResetcounter arg) sw = snd (portresetcounters arg sw)"
| "perform (VlanCreate mem memfst n) sw = snd (vlancreate mem memfst n sw)"
| "perform (VlanRemove n) sw = snd (vlanremove n sw)"
| "perform (VlanAddport arg) sw = snd (vlanaddport arg sw)"
| "perform (VlanDelport arg) sw = snd (vlandelport arg sw)"
| "perform (FstpSetfstp n) sw = snd (fstpsetonoff n sw)"
| "perform (FstpSetedge arg) sw = snd (fstsetedge arg sw)"
| "perform (FstpBonus arg) sw = snd (fstsetbonus arg sw)"
| "perform (HashSetsize mem n) sw = (case hash_resize mem n (hash sw) of None \<Rightarrow> sw | Some (_, h) \<Rightarrow> sw\<lparr>hash := h\<rparr>)"
| "perform (HashSetgcint n) sw =
     (case hash_set_gc_interval n (hash sw, timers sw) of (_, h, q) \<Rightarrow> sw\<lparr>hash := h, timers := q\<rparr>)"
| "perform (HashSetexpire n) sw = sw\<lparr>hash := snd (hash_set_gc_expire n (hash sw))\<rparr>"
| "perform (HashSetminper n) sw = sw\<lparr>hash := snd (hash_set_minper n (hash sw))\<rparr>"

text \<open>An endpoint that a module holds: it belongs to the port it names.\<close>

definition endpoint_of :: "switch \<Rightarrow> endpoint \<Rightarrow> bool" where
  "endpoint_of sw ep = (case get_port (ep_port ep) sw of None \<Rightarrow> False | Some p \<Rightarrow> ep \<in> set (p_ep p))"

text \<open>
  When an operation can happen. The modules call with the endpoints they have got, and a command
  that ends the program has no next state. The other conditions leave out the commands whose effect on
  memory is an error: reducing the number of ports across a word (\<open>setnumports_shrink_faults\<close>), removing VLAN 0
  (\<open>vlanremove_default_faults\<close>), and allocations that fail where the code does not look
  (\<open>allocation_failures_fault\<close>).
\<close>

fun allowed :: "switch \<Rightarrow> operation \<Rightarrow> bool" where
  "allowed sw (Packet mem ep buf off len) = endpoint_of sw ep"
| "allowed sw (SetupDescription ep descr) = endpoint_of sw ep"
| "allowed sw (PortSetnumports mem memv memf n) =
     (portsetnumports mem memv memf n sw \<noteq> None \<and> (\<forall>v f. memv v f) \<and> (\<forall>v f. memf v f) \<and>
      (0 < n \<longrightarrow> WORDSIZEROUND (numports sw) \<le> WORDSIZEROUND (nat n)))"
| "allowed sw (VlanCreate mem memfst n) = vlan_mem mem memfst"
| "allowed sw (VlanRemove n) = (n \<noteq> 0)"
| "allowed sw (HashSetsize mem n) = (hash_resize mem n (hash sw) \<noteq> None)"
| "allowed sw _ = True"

inductive reachable :: "switch \<Rightarrow> bool" where
  start: "main_init mem rand opts fltin fltout = Some sw \<Longrightarrow> sm_vlan mem Notlearning \<Longrightarrow> reachable sw"
| step: "reachable sw \<Longrightarrow> allowed sw opn \<Longrightarrow> reachable (perform opn sw)"

section \<open>The start establishes the invariant\<close>

lemma fst_init_frame [simp]:
  "portv (fst_init n sw) = portv sw" "vlant (fst_init n sw) = vlant sw" "fsttab (fst_init n sw) = fsttab sw"
  "hash (fst_init n sw) = hash sw" "fst_numports (fst_init n sw) = n" "fault (fst_init n sw) = fault sw"
  "numports (fst_init n sw) = numports sw" "validvlan (fst_init n sw) = validvlan sw"
  by (simp_all add: fst_init_def fstinitpkt_def Let_def split: prod.split)

lemma parse_args_frame:
  "parse_args opts c = Some c' \<Longrightarrow>
     (vlant (cfg_switch c'), fsttab (cfg_switch c'), fault (cfg_switch c')) =
     (vlant (cfg_switch c), fsttab (cfg_switch c), fault (cfg_switch c))"
proof (induction opts c rule: parse_args.induct)
  case (2 opt optarg opts c)
  then obtain r c1 where 1: "parse_globopt opt optarg c = Some (r, c1)" and "parse_args opts c1 = Some c'"
    by (auto split: option.splits)
  with 2 have "(vlant (cfg_switch c'), fsttab (cfg_switch c'), fault (cfg_switch c')) =
     (vlant (cfg_switch c1), fsttab (cfg_switch c1), fault (cfg_switch c1))" by blast
  moreover have "(vlant (cfg_switch c1), fsttab (cfg_switch c1), fault (cfg_switch c1)) =
     (vlant (cfg_switch c), fsttab (cfg_switch c), fault (cfg_switch c))"
    using 1 by (cases opt) (auto simp: portflag_def fstflag_def Let_def split: list.splits if_splits)
  ultimately show ?case by simp
qed simp

lemma ba_check_nil: "\<not> ba_check [] i"
  by (simp add: ba_check_def)

lemma port_init_wf:
  assumes fresh: "\<And>v f. vlant sw v f = []" "\<And>v. fsttab sw v = None" "\<not> fault sw"
    and h: "hash_wf (hash sw)" "\<And>d. hash_look (hash sw) d = None"
    and n: "fst_numports sw = nat n" and ini: "port_init mem memv memfst n sw = Some sw'" and nl: "memv Notlearning"
  shows "switch_wf sw'"
proof -
  have npos: "0 < n" and "mem" using ini by (auto simp: port_init_def split: if_splits)
  have mv: "memv = (\<lambda>_. True)"
  proof
    fix f show "memv f = True" using ini nl by (cases f) (auto simp: port_init_def vlancreate_nocheck_def Let_def split: if_splits)
  qed
  define m where "m = nat n"
  define s where "s = sw\<lparr>numports := m, portv := replicate m None, validvlan := bac_alloc NUMOFVLAN,
      vlant := (vlant sw)(0 := (\<lambda>_. ba_alloc m))\<rparr>"
  have F: "fsttab s 0 = None" "fst_numports s = numports s" using fresh n by (simp_all add: s_def m_def)
  from fstnewvlan_new [OF F] obtain w where
    w: "snd (fstnewvlan 7 0 s) = s\<lparr>fsttab := (fsttab s)(0 \<mapsto> w)\<rparr>" "v_bits w = (\<lambda>_. ba_alloc m)"
    and ok: "fst (fstnewvlan 7 0 s) = EOK" by (auto simp: s_def)
  have sw': "sw' = s\<lparr>fsttab := (fsttab s)(0 \<mapsto> w), validvlan := bac_set (bac_alloc NUMOFVLAN) NUMOFVLAN 0\<rparr>"
  proof -
    have "fstnewvlan memfst 0 s = fstnewvlan 7 0 s"
      using ini npos \<open>mem\<close> F(1) unfolding mv
      by (auto simp: port_init_def vlancreate_nocheck_def Let_def m_def [symmetric] s_def [symmetric] fstnewvlan_def split: if_splits)
    then show ?thesis using ini npos \<open>mem\<close> w(1) ok unfolding mv
      by (cases "fstnewvlan 7 0 s") (simp add: port_init_def vlancreate_nocheck_def Let_def m_def [symmetric] s_def)
  qed
  have wfv: "bac_wf (bac_alloc NUMOFVLAN) NUMOFVLAN"
    by (rule bac_wf_alloc) (simp add: NUMOFVLAN_def WORDSIZEROUND_def)
  have none: "\<not> bac_check (bac_alloc NUMOFVLAN) v" if "v \<le> NOVLAN" for v
    using that by (simp add: bac_check_def bac_alloc_def ba_check_bit ba_cap_def NOVLAN_def del: replicate_Suc)
  have "validvlan s = bac_alloc NUMOFVLAN" by (simp add: s_def)
  note V = valid_bac_set [of s 0 sw', unfolded this, OF wfv]
  have val: "valid sw' v \<longleftrightarrow> v = 0" for v
    using V(1) none by (auto simp: NUMOFVLAN_def sw' valid_def s_def NOVLAN_def)
  have chk: "\<not> vlan_check sw' v f i" "\<not> fst_check sw' v fl i" "get_port i sw' = None" for v f fl i
    using fresh w(2) by (auto simp: sw' s_def vlan_check_def fst_check_def fst_bits_def get_port_def ba_check_nil)
  have bits: "fst_bits sw' v fl = (if v = 0 then ba_alloc m else [])" for v fl
    using fresh w(2) by (simp add: sw' s_def fst_bits_def)
  have "struct_ok sw'"
    using fresh h n npos wfv V val chk none [of NOVLAN]
    unfolding struct_ok_def arrays_ok_def ports_ok_def sets_ok_def member_def bits
    by (simp add: sw' s_def m_def pview_def NUMOFVLAN_def)
  then show ?thesis
    using val chk h by (simp add: switch_wf_def untag_ok_def bc_ok_def fst_ok_def mac_ok_def active_def sw' s_def fresh)
qed

lemma main_init_wf:
  assumes "main_init mem rand opts fltin fltout = Some sw" and "sm_vlan mem Notlearning"
  shows "switch_wf sw"
proof -
  obtain c h q where c: "parse_args opts \<lparr>cfg_switch = set_switchmac rand (switch_zero fltin fltout),
          cfg_hash_size = INIT_HASH_SIZE, cfg_numports = INIT_NUMPORTS\<rparr> = Some c"
    and h: "hash_init (sm_hash mem) (cfg_hash_size c) (timers (cfg_switch c)) = Some (h, q)"
    and p: "port_init (sm_port mem) (sm_vlan mem) (sm_fst mem) (cfg_numports c)
        (fst_init (nat (cfg_numports c)) ((cfg_switch c)\<lparr>hash := h, timers := q\<rparr>)) = Some sw"
    using assms(1) by (auto simp: main_init_def split: option.splits)
  have "vlant (cfg_switch c) = (\<lambda>_ _. [])" "fsttab (cfg_switch c) = (\<lambda>_. None)" "\<not> fault (cfg_switch c)"
    using parse_args_frame [OF c] by (simp_all add: set_switchmac_def switch_zero_def)
  moreover obtain bits st where "h = (empty_hash bits hash_zero)\<lparr>gc_interval := GC_INTERVAL, gc_expire := GC_EXPIRE, gc_timerno := st\<rparr>"
    using h by (cases "qtimer_add GC_INTERVAL 0 HASH_GC (timers (cfg_switch c))") (auto simp: hash_init_def HASH_INIT_def split: if_splits bind_splits)
  then have "h = empty_hash bits (hash_zero\<lparr>gc_interval := GC_INTERVAL, gc_expire := GC_EXPIRE, gc_timerno := st\<rparr>)"
    by (simp add: empty_hash_def)
  then have "hash_wf h" "hash_look h d = None" for d by (simp_all add: hash_wf_empty_hash hash_look_empty_hash)
  ultimately show ?thesis using assms(2) by (intro port_init_wf [OF _ _ _ _ _ _ p]) simp_all
qed

section \<open>Every operation keeps it\<close>

lemma wf_timers: "switch_wf sw \<Longrightarrow> switch_wf (sw\<lparr>timers := q\<rparr>)"
  by (erule stp_then_wf, erule stp_step_same) simp_all

lemma wf_hash:
  assumes wf: "switch_wf sw" and h: "hash_wf h" "\<And>d p t. hash_look h d = Some (p, t) \<Longrightarrow> \<exists>t'. hash_look (hash sw) d = Some (p, t')"
  shows "switch_wf (sw\<lparr>hash := h\<rparr>)"
proof -
  let ?s = "sw\<lparr>hash := h\<rparr>"
  note W = switch_wfD [OF wf] and S = struct_okD [OF switch_wfD(1) [OF wf]]
  have fr: "pview ?s = pview sw" "valid ?s = valid sw" "vlan_check ?s = vlan_check sw" "fst_check ?s = fst_check sw"
    "member ?s = member sw" "fst_bits ?s = fst_bits sw"
    by (simp_all add: fun_eq_iff pview_def valid_def vlan_check_def fst_check_def member_def)
  note act = pview_cong(1,2) [OF fr(1)]
  have "entry_ok ?s = entry_ok sw" by (simp add: fun_eq_iff entry_ok_def act fr)
  then have "mac_ok ?s" using W(6) h(2) unfolding mac_ok_def by fastforce
  moreover have "struct_ok ?s"
    using S h(1) by (simp add: struct_ok_def arrays_ok_def ports_ok_def sets_ok_def fr)
  ultimately show ?thesis using W by (simp add: switch_wf_def untag_ok_def bc_ok_def fst_ok_def fr act)
qed

lemma hash_params_wf:
  "hash_wf (st\<lparr>gc_interval := a, gc_timerno := b\<rparr>) = hash_wf st" "hash_wf (st\<lparr>gc_expire := c\<rparr>) = hash_wf st"
  "hash_wf (st\<lparr>min_persistence := e\<rparr>) = hash_wf st"
  "hash_look (st\<lparr>gc_interval := a, gc_timerno := b\<rparr>) = hash_look st" "hash_look (st\<lparr>gc_expire := c\<rparr>) = hash_look st"
  "hash_look (st\<lparr>min_persistence := e\<rparr>) = hash_look st"
  by (simp_all add: hash_wf_def HASH_SIZE_def chain_wf_def calc_hash_def hash_mask_def Let_def fun_eq_iff hash_look_def find_entry_def)

lemma timer_callback_wf: "switch_wf sw \<Longrightarrow> switch_wf (timer_callback c sw)"
  by (cases c) (simp_all add: fst_hello_wf hash_deletes_purge purge_wf)

lemma alarm_wf: "switch_wf sw \<Longrightarrow> switch_wf (alarm sw)"
proof -
  have "switch_wf (fold timer_callback calls s)" if "switch_wf s" for calls s
    using that by (induction calls arbitrary: s) (simp_all add: timer_callback_wf)
  then show "switch_wf sw \<Longrightarrow> switch_wf (alarm sw)"
    by (simp add: alarm_def wf_timers split: prod.split)
qed

lemma setup_description_wf:
  assumes wf: "switch_wf sw" and "endpoint_of sw ep"
  shows "switch_wf (setup_description ep descr sw)"
proof -
  define i where "i = ep_port ep"
  define f :: "port \<Rightarrow> port" where "f = (\<lambda>p. p\<lparr>p_ep := map (\<lambda>e. if e = ep then e\<lparr>ep_descr := Some descr\<rparr> else e) (p_ep p)\<rparr>)"
  obtain p where p: "get_port i sw = Some p" and ep: "ep \<in> set (p_ep p)"
    using assms(2) by (auto simp: endpoint_of_def i_def split: option.splits)
  let ?s = "upd_port i f sw"
  note A = switch_wf_at [OF wf, of i]
  have ports: "p_ep p \<noteq> [] \<longrightarrow> p_ms p \<noteq> None" "\<forall>e \<in> set (p_ep p). ep_port e = i"
    using struct_portD [OF switch_wfD(1) [OF wf] p] by blast+
  have unt: "p_vlanuntag p = NOVLAN \<or> vlan_check sw (p_vlanuntag p) Table i"
    using untag_okD [OF switch_wfD(3) [OF wf] p] by blast
  have ne: "p_ep (f p) \<noteq> []" using ep by (auto simp: f_def)
  have "wf_except i ?s"
    using ports unt ep ne by (intro upd_port_except [OF A(1) p]) (auto simp: f_def)
  moreover have fr: "active ?s j = active sw j" "untag_of ?s j = untag_of sw j" for j
    using ep by (auto simp: active_def untag_of_def get_port_upd_port [OF p] p f_def)
  have chk: "vlan_check ?s = vlan_check sw" "fst_check ?s = fst_check sw"
    by (simp_all add: upd_port_Some [OF p] fun_eq_iff vlan_check_def fst_check_def)
  have "bc_at ?s i" "fst_at ?s i" using A(2,3) by (simp_all add: bc_at_def fst_at_def fr chk)
  ultimately have "switch_wf ?s" by (simp add: switch_wf_except [of _ i])
  then show ?thesis by (simp add: setup_description_def i_def f_def)
qed

lemma hash_resize_wf:
  assumes wf: "switch_wf sw" and "hash_resize mem n (hash sw) = Some (e, h)"
  shows "switch_wf (sw\<lparr>hash := h\<rparr>)"
proof -
  have "h = hash sw \<or> (\<exists>bits st. h = empty_hash bits st)"
    using assms(2) by (auto simp: hash_resize_def HASH_INIT_def split: if_splits bind_splits)
  then show ?thesis
    using struct_okD(9) [OF switch_wfD(1) [OF wf]]
    by (intro wf_hash [OF wf]) (auto simp: hash_wf_empty_hash hash_look_empty_hash)
qed

lemma perform_wf:
  assumes wf: "switch_wf sw" and "allowed sw opn"
  shows "switch_wf (perform opn sw)"
proof -
  note h = struct_okD(9) [OF switch_wfD(1) [OF wf]]
  show ?thesis
  proof (cases opn)
    case (Packet mem ep buf off len)
    then have "active sw (ep_port ep)"
      using assms(2) by (auto simp: endpoint_of_def active_def split: option.splits)
    then show ?thesis using handle_in_packet_wf [OF wf] Packet by simp
  next
    case (HashSetsize mem n)
    then show ?thesis using wf hash_resize_wf [OF wf] by (auto split: option.split)
  next
    case (HashSetgcint n)
    have "switch_wf (sw\<lparr>hash := (hash sw)\<lparr>gc_interval := a, gc_timerno := b\<rparr>, timers := q\<rparr>)" for a b q
      by (rule wf_timers, rule wf_hash [OF wf]) (use h in \<open>auto simp: hash_params_wf\<close>)
    then show ?thesis using HashSetgcint by (simp add: hash_set_gc_interval_def split: prod.split)
  next
    case (CloseEp ep)
    then show ?thesis using close_ep_port_fd_wf [OF wf] by (simp add: close_ep_def)
  next
    case (SetupDescription ep descr)
    then show ?thesis using setup_description_wf [OF wf] assms(2) by simp
  next
    case (PortSetnumports mem memv memf n)
    then have "memv = (\<lambda>_ _. True)" "memf = (\<lambda>_ _. True)" using assms(2) by (auto simp: fun_eq_iff)
    moreover have "portsetnumports True memv memf n sw = portsetnumports mem memv memf n sw"
      using assms(2) PortSetnumports by (auto simp: portsetnumports_def split: if_splits)
    ultimately show ?thesis using portsetnumports_wf [OF wf, of n] assms(2) PortSetnumports
      by (auto split: option.split)
  next
    case (VlanCreate mem memfst n)
    then show ?thesis using vlancreate_wf [OF wf] assms(2) by simp
  next
    case (VlanRemove n)
    then show ?thesis using vlanremove_wf [OF wf] assms(2) by simp
  next
    case (HashSetexpire n)
    then show ?thesis using h by (auto simp: hash_set_gc_expire_def hash_params_wf intro!: wf_hash [OF wf])
  next
    case (HashSetminper n)
    then show ?thesis using h by (auto simp: hash_set_minper_def hash_params_wf intro!: wf_hash [OF wf])
  next
    case (SetupEp db mem memep portno fc fdt user m)
    then show ?thesis using setup_ep_wf [OF wf] by simp
  qed (use wf in \<open>simp_all add: alarm_wf portsethub_wf portsetvlan_wf portcreate_wf portcreateauto_wf portremove_wf
         portallocatable_wf portsetuser_wf portsetgroup_wf epclose_wf portresetcounters_wf
         vlanaddport_wf vlandelport_wf fstpsetonoff_wf fstsetedge_wf fstsetbonus_wf\<close>)
qed

lemma reachable_wf: "reachable sw \<Longrightarrow> switch_wf sw"
  by (induction rule: reachable.induct) (auto intro: main_init_wf perform_wf)

section \<open>The start succeeds\<close>

lemma valid_first:
  assumes "validvlan sw = bac_set (bac_alloc NUMOFVLAN) NUMOFVLAN 0"
  shows "valid sw v \<longleftrightarrow> v = 0"
proof -
  define s where "s = sw\<lparr>validvlan := bac_alloc NUMOFVLAN\<rparr>"
  have e: "validvlan s = bac_alloc NUMOFVLAN" by (simp add: s_def)
  have "bac_wf (bac_alloc NUMOFVLAN) NUMOFVLAN" by (rule bac_wf_alloc) (simp add: NUMOFVLAN_def WORDSIZEROUND_def)
  then have "valid sw v \<longleftrightarrow> v = 0 \<or> valid s v"
    using assms by (intro valid_bac_set(1)) (simp_all only: e, simp add: NUMOFVLAN_def)
  moreover have "\<not> bac_check (bac_alloc NUMOFVLAN) v" if "v \<le> NOVLAN"
    using that by (simp add: bac_check_def bac_alloc_def ba_check_bit ba_cap_def NOVLAN_def del: replicate_Suc)
  then have "\<not> valid s v" by (auto simp: valid_def e NUMOFVLAN_def NOVLAN_def simp del: bac_alloc_def)
  ultimately show ?thesis by simp
qed

lemma main_init_default:
  "\<exists>sw. main_init all_mem rand [] fltin fltout = Some sw \<and> numports sw = 32 \<and> (\<forall>i. get_port i sw = None) \<and> (\<forall>v. valid sw v \<longleftrightarrow> v = 0)"
proof -
  have r: "po2_loop 127 0 = Some 7" by code_simp
  define s where "s = set_switchmac rand (switch_zero fltin fltout)"
  obtain h q where h: "hash_init True 128 (timers s) = Some (h, q)"
    using r by (cases "qtimer_add GC_INTERVAL 0 HASH_GC (timers s)") (simp add: hash_init_def po2round_def HASH_INIT_def r)
  define s1 where "s1 = fst_init 32 (s\<lparr>hash := h, timers := q\<rparr>)"
  define s2 where "s2 = s1\<lparr>numports := 32, portv := replicate 32 None, validvlan := bac_alloc NUMOFVLAN,
      vlant := (vlant s1)(0 := (\<lambda>_. ba_alloc 32))\<rparr>"
  have "fsttab s2 0 = None" "fst_numports s2 = numports s2"
    by (simp_all add: s2_def s1_def s_def set_switchmac_def switch_zero_def)
  from fstnewvlan_new [OF this] obtain w where w: "snd (fstnewvlan 7 0 s2) = s2\<lparr>fsttab := (fsttab s2)(0 \<mapsto> w)\<rparr>"
    and ok: "fst (fstnewvlan 7 0 s2) = EOK" by blast
  have "port_init True (\<lambda>_. True) 7 32 s1 = Some (s2\<lparr>fsttab := (fsttab s2)(0 \<mapsto> w), validvlan := bac_set (bac_alloc NUMOFVLAN) NUMOFVLAN 0\<rparr>)"
    using w ok unfolding s2_def
    by (cases "fstnewvlan 7 0 s2") (simp add: port_init_def vlancreate_nocheck_def Let_def s2_def)
  moreover have "main_init all_mem rand [] fltin fltout = port_init True (\<lambda>_. True) 7 32 s1"
    using h by (simp add: main_init_def s_def [symmetric] INIT_HASH_SIZE_def INIT_NUMPORTS_def s1_def all_mem_def)
  ultimately show ?thesis by (simp add: get_port_def s2_def valid_first del: replicate_Suc)
qed

section \<open>Properties\<close>


lemma default_reachable: "reachable (the (main_init all_mem rand [] [] []))"
  using main_init_default [of rand "[]" "[]"] by (auto intro!: reachable.start simp: all_mem_def)


section \<open>The commands that break the invariant\<close>

text \<open>
  C32: a bug. The default VLAN can be removed when no port exists; from then on creating a
  port, by command or by the first connection, writes through the NULL \<open>vlant[0].table\<close>.
\<close>

theorem vlanremove_default_faults:
  assumes wf: "switch_wf sw" and none: "\<And>i. get_port i sw = None" and n: "0 < n" "n < int (numports sw)"
  shows "fst (vlanremove 0 sw) = EOK \<and> fault (snd (portcreate True n (snd (vlanremove 0 sw))))"
proof -
  note W = switch_wfD [OF wf] and S = struct_okD [OF switch_wfD(1) [OF wf]]
  have len: "length (vlant sw 0 Table) = WORDSIZEROUND (numports sw)"
    using S(6) W(2) by (simp add: arrays_ok_def)
  have "\<not> ba_check (vlant sw 0 Table) i" for i
    using S(8) none by (auto simp: sets_ok_def vlan_check_def)
  then have card: "ba_card (vlant sw 0 Table) (numports sw) = 0" by (simp add: ba_card_eq)
  define s where "s = snd (vlanremove 0 sw)"
  have s: "fst (vlanremove 0 sw) = EOK" "vlant s 0 Table = []" "numports s = numports sw" "portv s = portv sw"
    using W(2) len card by (auto simp: s_def vlanremove_def valid_def Let_def fstremovevlan_def NUMOFVLAN_def)
  have nones: "get_port i s = None" for i using none [of i] by (simp add: get_port_def s split: if_splits)
  have "alloc_port True n s = (n, crash (s\<lparr>portv := (portv s)[nat n := Some new_port]\<rparr>))"
    using n s nones by (simp add: alloc_port_def Let_def vlan_set_def ba_cap_def)
  then show ?thesis
    using s n nones
    by (simp add: s_def [symmetric] portcreate_def set_notinpool_def upd_port_def crash_def split: option.split)
qed

theorem vlanremove_default_faults_witness:
  "fault (snd (portcreate True 5 (snd (vlanremove 0 (the (main_init all_mem 1 [] [] []))))))"
proof -
  obtain sw where "main_init all_mem 1 [] [] [] = Some sw" "numports sw = 32" "\<forall>i. get_port i sw = None"
    using main_init_default by blast
  then show ?thesis
    using vlanremove_default_faults [of sw 5] reachable_wf [OF default_reachable [of 1]] by simp
qed

lemma fault_vlan_realloc: "fault s \<Longrightarrow> fault (vlan_realloc mem n m f v s)"
  by (simp add: vlan_realloc_def crash_def split: option.split)

lemma fault_vlan_resize1: "fault s \<Longrightarrow> fault (vlan_resize mem n m v s)"
  by (simp add: vlan_resize_def fault_vlan_realloc)

lemma fault_vlan_resize: "fault s \<Longrightarrow> fault (fold (vlan_resize mem n m) vs s)"
  by (induction vs arbitrary: s) (simp_all add: fault_vlan_resize1)

lemma fault_fst_resize: "fault s \<Longrightarrow> fault (fold (fst_resize_vlan mem m) vs s)"
  by (induction vs arbitrary: s) (simp_all add: fst_resize_vlan_def crash_def split: option.split)

lemma vlan_realloc_other:
  "v' \<noteq> v \<or> f' \<noteq> f \<Longrightarrow> vlant (vlan_realloc mem n m f' v' s) v f = vlant s v f"
  by (auto simp: vlan_realloc_def crash_def split: option.split)

lemma vlan_resize_other: "v \<notin> set vs \<Longrightarrow> vlant (fold (vlan_resize mem n m) vs s) v = vlant s v"
  by (induction vs arbitrary: s) (auto simp: vlan_resize_def vlan_realloc_other fun_eq_iff)

text \<open>One array whose reallocation goes wrong is enough.\<close>

lemma vlan_resize_faults:
  assumes "vlant s v f \<noteq> []" and "ba_realloc (mem v f) (vlant s v f) n m = None"
  shows "fault (vlan_resize mem n m v s)"
proof -
  have one: "fault (vlan_realloc mem n m f v t)" if "vlant t v f = vlant s v f" for t
    using assms that by (simp add: vlan_realloc_def crash_def)
  show ?thesis
  proof (cases f)
    case Table
    then have "fault (vlan_realloc mem n m Table v s)" using one by simp
    then show ?thesis by (simp add: vlan_resize_def fault_vlan_realloc)
  next
    case Bctag
    then have "fault (vlan_realloc mem n m Bctag v (vlan_realloc mem n m Table v s))" using one by (simp add: vlan_realloc_other)
    then show ?thesis by (simp add: vlan_resize_def fault_vlan_realloc)
  next
    case Bcuntag
    then have "fault (vlan_realloc mem n m Bcuntag v (vlan_realloc mem n m Bctag v (vlan_realloc mem n m Table v s)))"
      using one by (simp add: vlan_realloc_other)
    then show ?thesis by (simp add: vlan_resize_def fault_vlan_realloc)
  next
    case Notlearning
    then show ?thesis unfolding vlan_resize_def using one by (simp add: vlan_realloc_other)
  qed
qed

lemma portsetnumports_faults:
  assumes v: "v < NUMOFVLAN" "vlant sw v f \<noteq> []" "ba_realloc (memv v f) (vlant sw v f) (numports sw) (nat n) = None"
    and n: "0 < n" and free: "\<And>i. nat n \<le> i \<Longrightarrow> get_port i sw = None" and run: "portsetnumports mem memv memf n sw = Some (e, sw')"
  shows "e = EOK \<and> fault sw'"
proof -
  let ?R = "vlan_resize memv (numports sw) (nat n)"
  have "[0..<NUMOFVLAN] = [0..<v] @ v # [Suc v..<NUMOFVLAN]" using v(1) by (metis less_imp_add_positive upt_add_eq_append upt_conv_Cons v(1) zero_le)
  moreover have "fault (?R v (fold ?R [0..<v] sw))"
    using v(2,3) by (intro vlan_resize_faults [where f = f]) (simp_all add: vlan_resize_other)
  ultimately have "fault (fold ?R [0..<NUMOFVLAN] sw)" by (simp add: fault_vlan_resize)
  moreover have "\<not> list_ex (\<lambda>i. get_port i sw \<noteq> None) [nat n..<numports sw]" using free by (auto simp: list_ex_iff)
  ultimately show ?thesis
    using n run by (auto simp: portsetnumports_def Let_def fstsetnumports_def fault_fst_resize split: if_splits)
qed

text \<open>
  C33: a bug. Reducing the number of ports across a multiple of the word size makes
  \<open>ba_realloc\<close> clear the last word of the old array, which is outside of the new one.
\<close>

theorem setnumports_shrink_faults:
  assumes wf: "switch_wf sw" and n: "0 < n" "WORDSIZEROUND (nat n) < WORDSIZEROUND (numports sw)"
    and free: "\<And>i. nat n \<le> i \<Longrightarrow> get_port i sw = None"
  shows "\<exists>sw'. portsetnumports True memv memf n sw = Some (EOK, sw') \<and> fault sw'"
proof -
  note W = switch_wfD [OF wf] and S = struct_okD [OF switch_wfD(1) [OF wf]]
  have len: "length (vlant sw 0 Table) = WORDSIZEROUND (numports sw)"
    using S(6) W(2) by (simp add: arrays_ok_def)
  then have ne: "vlant sw 0 Table \<noteq> []" using n(2) by auto
  have "ba_realloc (memv 0 Table) (vlant sw 0 Table) (numports sw) (nat n) = None"
    using n(2) by (auto simp: ba_realloc_def Let_def)
  moreover obtain e sw' where "portsetnumports True memv memf n sw = Some (e, sw')"
    by (cases "portsetnumports True memv memf n sw") (auto simp: portsetnumports_def Let_def split: if_splits)
  moreover have "0 < NUMOFVLAN" by (simp add: NUMOFVLAN_def)
  ultimately show ?thesis using portsetnumports_faults [of 0 sw Table memv n True memf e sw'] ne n(1) free by auto
qed

theorem setnumports_shrink_faults_witness:
  "fault (perform (PortSetnumports True (\<lambda>_ _. True) (\<lambda>_ _. True) 10)
     (perform (PortSetnumports True (\<lambda>_ _. True) (\<lambda>_ _. True) 100) (the (main_init all_mem 1 [] [] []))))"
proof -
  let ?P = "portsetnumports True (\<lambda>_ _. True) (\<lambda>_ _. True)"
  define sw where "sw = the (main_init all_mem 1 [] [] [])"
  have sw: "numports sw = 32" "get_port i sw = None" for i
    using main_init_default [of 1 "[]" "[]"] by (auto simp: sw_def)
  have wf: "switch_wf sw" unfolding sw_def by (rule reachable_wf [OF default_reachable])
  define s where "s = snd (the (?P 100 sw))"
  have ws: "switch_wf s" unfolding s_def by (rule portsetnumports_wf [OF wf]) (simp add: sw WORDSIZEROUND_def)
  have free: "\<not> list_ex (\<lambda>i. get_port i sw \<noteq> None) [nat 100..<numports sw]" by (simp add: sw list_ex_iff)
  have run: "?P 100 sw = Some (EOK, s)" using free by (simp add: s_def portsetnumports_def Let_def)
  have "WORDSIZEROUND (numports sw) \<le> WORDSIZEROUND (nat 100)" by (simp add: sw WORDSIZEROUND_def)
  note eq = portsetnumports_eq [OF wf _ this free, folded s_def]
  have "numports s = 100" "get_port i s = None" for i
    using eq sw(1) sw(2) [of i] by (auto simp: get_port_def nth_append split: if_splits)
  then show ?thesis
    using setnumports_shrink_faults [OF ws, of 10 "\<lambda>_ _. True" "\<lambda>_ _. True"] run
    by (auto simp: WORDSIZEROUND_def simp flip: sw_def)
qed

text \<open>
  When memory runs out. When one of the six arrays of the spanning tree of a new VLAN
  cannot be allocated, \<open>vlancreate\<close> reports it, but the structure stays with pointers that were never set;
  the next attempt to create the VLAN, even with memory, uses one of them. When the array \<open>notlearning\<close> alone cannot be
  allocated the VLAN is created, and the first port of it that is to be blocked is marked
  through NULL. When an array of a VLAN cannot be reallocated as the number of
  ports changes, \<open>ba_realloc\<close> writes through NULL before the caller looks.
\<close>

theorem allocation_failures_fault:
  assumes wf: "switch_wf sw" and n: "0 < n" "n < int NUMOFVLAN - 1" "\<not> valid sw (nat n)"
    and ok: "mem Table" "mem Bctag" "mem Bcuntag" and ok': "mem' Table" "mem' Bctag" "mem' Bcuntag"
  shows "(0 < k \<and> k < 7 \<longrightarrow> fst (vlancreate mem k n sw) = ENOMEM \<and> fault (snd (vlancreate mem' k' n (snd (vlancreate mem k n sw))))) \<and>
    (7 \<le> k \<and> \<not> mem Notlearning \<longrightarrow> fst (vlancreate mem k n sw) = EOK \<and>
       (\<forall>i s. vlant s = vlant (snd (vlancreate mem k n sw)) \<longrightarrow> fault (vlan_set (nat n) Notlearning i s))) \<and>
    (0 < val \<and> (\<forall>i. nat val \<le> i \<longrightarrow> get_port i sw = None) \<and> valid sw v \<and> \<not> memv v f \<longrightarrow>
       (\<exists>sw'. portsetnumports True memv memf val sw = Some (EOK, sw') \<and> fault sw'))"
proof (intro conjI impI)
  note W = switch_wfD [OF wf] and S = struct_okD [OF switch_wfD(1) [OF wf]]
  let ?v = "nat n"
  let ?s = "\<lambda>mem s. s\<lparr>vlant := (vlant s)(?v := (\<lambda>f. if mem f then ba_alloc (numports s) else []))\<rparr>"
  have chk: "\<not> bac_check (validvlan sw) ?v" using n by (simp add: valid_def)
  have F: "fsttab sw ?v = None" using W(5) n(3) by (auto simp: fst_ok_def)
  {
    assume k: "0 < k \<and> k < 7"
    define s1 where "s1 = (?s mem sw)\<lparr>fsttab := (fsttab sw)(?v \<mapsto> partial_vlst (k - 1) (fst_numports sw))\<rparr>"
    have 1: "vlancreate mem k n sw = (ENOMEM, s1)"
      using n(1,2) chk ok F k by (simp add: vlancreate_def vlancreate_nocheck_def fstnewvlan_def s1_def)
    then show "fst (vlancreate mem k n sw) = ENOMEM" by simp
    have "take (k - 1) [Untag, Tagged, Edge, Rcvhist0, Rcvhist1, Backup] = take (k - 1) [Untag, Tagged, Edge, Rcvhist0, Rcvhist1]"
      using k by (simp add: take_Cons')
    then have B: "v_bits (partial_vlst (k - Suc 0) m) Backup = []" for m
      using set_take_subset [of "k - 1" "[Untag, Tagged, Edge, Rcvhist0, Rcvhist1]"] by (auto simp: partial_vlst_def)
    have "fst_bits (upd_fst ?v (\<lambda>w. w\<lparr>v_root := a, v_rootcost := b, v_dessw := c, v_port := d, v_rootport := e, v_roottimestamp := g\<rparr>)
        (?s mem' s1)) ?v Backup = []" for a b c d e g
      by (simp add: upd_fst_def s1_def fst_bits_def B)
    moreover have "0 < WORDSIZEROUND (fst_numports (?s mem' s1))" using S(3,10) by (simp add: s1_def WORDSIZEROUND_def)
    ultimately have "fault (fst_reset ?v (?s mem' s1))" by (simp add: fst_reset_def forall_ports_def crash_def)
    then show "fault (snd (vlancreate mem' k' n (snd (vlancreate mem k n sw))))"
    proof -
      have c: "validvlan s1 = validvlan sw" "fsttab (?s mem' s1) ?v \<noteq> None" by (simp_all add: s1_def)
      then have "fstnewvlan k' ?v (?s mem' s1) = (EOK, fst_reset ?v (?s mem' s1))" unfolding fstnewvlan_def by (simp only: if_False)
      with \<open>fault (fst_reset ?v (?s mem' s1))\<close> show ?thesis
        using n(1,2) chk ok' unfolding 1 by (simp add: vlancreate_def vlancreate_nocheck_def c(1))
    qed
  }
  {
    assume k: "7 \<le> k \<and> \<not> mem Notlearning"
    have F': "fsttab (?s mem sw) ?v = None" "fst_numports (?s mem sw) = numports (?s mem sw)" using F S(3) by simp_all
    obtain w where w: "snd (fstnewvlan 7 ?v (?s mem sw)) = (?s mem sw)\<lparr>fsttab := (fsttab (?s mem sw))(?v \<mapsto> w)\<rparr>"
      using fstnewvlan_new(1) [OF F'] by blast
    have "fstnewvlan k ?v (?s mem sw) = fstnewvlan 7 ?v (?s mem sw)" using k F by (simp add: fstnewvlan_def)
    then have e: "vlancreate mem k n sw = (EOK, (snd (fstnewvlan 7 ?v (?s mem sw)))\<lparr>validvlan := bac_set (validvlan sw) NUMOFVLAN ?v\<rparr>)"
      using n(1,2) chk ok w fstnewvlan_new(2) [OF F']
      by (cases "fstnewvlan 7 ?v (?s mem sw)") (simp add: vlancreate_def vlancreate_nocheck_def Let_def)
    then show "fst (vlancreate mem k n sw) = EOK" by simp
    show "\<forall>i s. vlant s = vlant (snd (vlancreate mem k n sw)) \<longrightarrow> fault (vlan_set ?v Notlearning i s)"
      using k by (simp add: e w vlan_set_def ba_cap_def crash_def)
  }
  assume a: "0 < val \<and> (\<forall>i. nat val \<le> i \<longrightarrow> get_port i sw = None) \<and> valid sw v \<and> \<not> memv v f"
  have len: "length (vlant sw v f) = WORDSIZEROUND (numports sw)" using S(6) a by (simp add: arrays_ok_def)
  then have "vlant sw v f \<noteq> []" using S(10) by (auto simp: WORDSIZEROUND_def)
  moreover obtain e sw' where "portsetnumports True memv memf val sw = Some (e, sw')"
    by (cases "portsetnumports True memv memf val sw") (auto simp: portsetnumports_def Let_def split: if_splits)
  moreover have "v < NUMOFVLAN" using a by (simp add: valid_def)
  ultimately show "\<exists>sw'. portsetnumports True memv memf val sw = Some (EOK, sw') \<and> fault sw'"
    using portsetnumports_faults [of v sw f memv val True memf e sw'] a by (auto simp: ba_realloc_def)
qed

theorem allocation_failures_fault_witness:
  "fault (perform (VlanCreate (\<lambda>_. True) 7 5) (perform (VlanCreate (\<lambda>_. True) 3 5) (the (main_init all_mem 1 [] [] []))))"
proof -
  have "\<not> valid (the (main_init all_mem 1 [] [] [])) (nat 5)" using main_init_default [of 1 "[]" "[]"] by auto
  then show ?thesis
    using allocation_failures_fault [OF reachable_wf [OF default_reachable [of 1]], of 5 "\<lambda>_. True" "\<lambda>_. True" 3 7]
    by (simp add: NUMOFVLAN_def)
qed

end
