(* ===== verification/Example.thy ===== *)
theory Example
  imports System
begin

text \<open>
  A concrete consistent switch at which the properties of the switch are instantiated: four
  ports, the default VLAN, untagged endpoints on the ports 1 and 2 and a tagged one on port 3.
\<close>

definition example_port :: "nat \<Rightarrow> nat \<Rightarrow> port" where
  "example_port i u = new_port\<lparr>p_ep := [new_endpoint i (int (10 * i)) (int (10 * i + 1))], p_ms := Some ''unix'',
     p_vlanuntag := u, p_curuser := 0\<rparr>"

definition example_vlst :: vlst where
  "example_vlst = (new_vlst 4)\<lparr>v_root := [0x80, 0, 0, 0xff, 1, 2, 3, 4], v_rootcost := replicate 4 0,
     v_dessw := replicate 8 0xff, v_port := [0, 0],
     v_bits := (\<lambda>f. case f of Untag \<Rightarrow> [6] | Tagged \<Rightarrow> [8] | _ \<Rightarrow> [0])\<rparr>"

definition example_switch :: switch where
  "example_switch = (switch_zero [] [])\<lparr>
     numports := 4, portv := [None, Some (example_port 1 0), Some (example_port 2 0), Some (example_port 3 NOVLAN)],
     vlant := (\<lambda>v f. if v = 0 then (case f of Table \<Rightarrow> [14] | Bcuntag \<Rightarrow> [6] | Bctag \<Rightarrow> [8] | Notlearning \<Rightarrow> [0]) else []),
     validvlan := bac_set (bac_alloc NUMOFVLAN) NUMOFVLAN 0,
     hash := empty_hash 1 hash_zero,
     fst_numports := 4, fsttab := [0 \<mapsto> example_vlst],
     switchmac := [0, 0xff, 1, 2, 3, 4], myid := [0x80, 0, 0, 0xff, 1, 2, 3, 4]\<rparr>"

lemma ba_check_word: "ba_check [w] i \<longleftrightarrow> i < 64 \<and> bit w i"
  by (auto simp: ba_check_bit ba_cap_def)

lemma bits_example:
  "bit (14 :: int) i \<longleftrightarrow> i = 1 \<or> i = 2 \<or> i = 3" "bit (6 :: int) i \<longleftrightarrow> i = 1 \<or> i = 2" "bit (8 :: int) i \<longleftrightarrow> i = 3"
proof -
  have 8: "(8 :: int) = push_bit 3 1" by (simp add: push_bit_eq_mult)
  have 6: "(6 :: int) = push_bit 1 1 OR push_bit 2 1" by (simp add: push_bit_eq_mult)
  have 14: "(14 :: int) = push_bit 1 1 OR push_bit 2 1 OR push_bit 3 1" by (simp add: push_bit_eq_mult)
  have one: "bit (push_bit k 1 :: int) i \<longleftrightarrow> i = k" for k by (auto simp: bit_exp_iff)
  show "bit (14 :: int) i \<longleftrightarrow> i = 1 \<or> i = 2 \<or> i = 3" unfolding 14 bit_or_iff one by blast
  show "bit (6 :: int) i \<longleftrightarrow> i = 1 \<or> i = 2" unfolding 6 bit_or_iff one by blast
  show "bit (8 :: int) i \<longleftrightarrow> i = 3" unfolding 8 one ..
qed

lemma vlan_check_example:
  "vlan_check example_switch v f i \<longleftrightarrow> v = 0 \<and>
     (case f of Table \<Rightarrow> i \<in> {1, 2, 3} | Bcuntag \<Rightarrow> i \<in> {1, 2} | Bctag \<Rightarrow> i = 3 | Notlearning \<Rightarrow> False)"
  by (cases f) (auto simp: vlan_check_def example_switch_def ba_check_word bits_example ba_check_nil)

lemma fst_check_example:
  "fst_check example_switch v f i \<longleftrightarrow> v = 0 \<and> (f = Untag \<and> i \<in> {1, 2} \<or> f = Tagged \<and> i = 3)"
  by (cases f) (auto simp: fst_check_def fst_bits_def example_switch_def example_vlst_def ba_check_word bits_example ba_check_nil)

lemma get_port_example:
  "get_port i example_switch =
     (if i = 1 then Some (example_port 1 0) else if i = 2 then Some (example_port 2 0)
      else if i = 3 then Some (example_port 3 NOVLAN) else None)"
proof -
  have "i = 0 \<or> i = 1 \<or> i = 2 \<or> i = 3 \<or> 4 \<le> i" by linarith
  then show ?thesis by (auto simp: get_port_def example_switch_def)
qed

lemma valid_example: "valid example_switch v \<longleftrightarrow> v = 0" "\<not> bac_check (validvlan example_switch) NOVLAN"
  "bac_wf (validvlan example_switch) NUMOFVLAN"
proof -
  have wfv: "bac_wf (bac_alloc NUMOFVLAN) NUMOFVLAN"
    by (rule bac_wf_alloc) (simp add: NUMOFVLAN_def WORDSIZEROUND_def)
  have none: "\<not> bac_check (bac_alloc NUMOFVLAN) v" if "v \<le> NOVLAN" for v
    using that by (simp add: bac_check_def bac_alloc_def ba_check_bit ba_cap_def NOVLAN_def del: replicate_Suc)
  let ?s = "example_switch\<lparr>validvlan := bac_alloc NUMOFVLAN\<rparr>"
  have "validvlan ?s = bac_alloc NUMOFVLAN" by simp
  note V = valid_bac_set [of ?s 0 example_switch, unfolded this, OF wfv]
  have eq: "validvlan example_switch = bac_set (bac_alloc NUMOFVLAN) NUMOFVLAN 0" by (simp add: example_switch_def)
  show "valid example_switch v \<longleftrightarrow> v = 0"
    using V(1) [OF _ eq] none by (auto simp: NUMOFVLAN_def valid_def NOVLAN_def)
  show "\<not> bac_check (validvlan example_switch) NOVLAN" "bac_wf (validvlan example_switch) NUMOFVLAN"
    using V(2,3) [OF _ eq] none by (simp_all add: NUMOFVLAN_def)
qed

lemma port_example:
  "active example_switch i \<longleftrightarrow> i \<in> {1, 2, 3}"
  "untag_of example_switch i = (if i = 1 \<or> i = 2 then 0 else NOVLAN)"
  by (auto simp: active_def untag_of_def get_port_example example_port_def)

lemma pview_example:
  "pview example_switch i = (if i = 1 \<or> i = 2 \<or> i = 3
     then Some ([new_endpoint i (int (10 * i)) (int (10 * i + 1))], Some ''unix'', if i = 3 then NOVLAN else 0) else None)"
  by (auto simp: pview_def get_port_example example_port_def pshape_def)

lemma member_example: "member example_switch v i \<longleftrightarrow> v = 0 \<and> i \<in> {1, 2, 3}"
  by (auto simp: member_def fst_check_example)

lemma example_wf: "switch_wf example_switch"
proof -
  have len: "length (vlant example_switch 0 f) = 1" "length (v_bits example_vlst g) = 1" for f g
    by (simp_all add: example_switch_def example_vlst_def split: vfield.split ffield.split)
  have far: "v \<noteq> 0 \<Longrightarrow> vlant example_switch v f = []" for v f by (simp add: example_switch_def)
  have num: "numports example_switch = 4" "fsttab example_switch = [0 \<mapsto> example_vlst]"
    "fst_numports example_switch = 4" "hash example_switch = empty_hash 1 hash_zero" "\<not> fault example_switch"
    "length (portv example_switch) = 4"
    by (simp_all add: example_switch_def switch_zero_def)
  have bits: "fst_bits example_switch v f = (if v = 0 then v_bits example_vlst f else [])" for v f
    by (simp add: fst_bits_def num)
  have "arrays_ok example_switch"
    unfolding arrays_ok_def num valid_example bits using len far
    by (auto simp: WORDSIZEROUND_def NUMOFVLAN_def) (metis length_0_conv far)+
  moreover have "ports_ok example_switch" by (auto simp: ports_ok_def pview_example new_endpoint_def split: if_splits)
  moreover have "sets_ok example_switch"
    unfolding sets_ok_def valid_example member_example pview_example
    by (auto simp: vlan_check_example fst_check_example)
  ultimately have "struct_ok example_switch"
    by (simp add: struct_ok_def num valid_example hash_wf_empty_hash)
  then show ?thesis
    by (auto simp: switch_wf_def valid_example untag_ok_def bc_ok_def fst_ok_def mac_ok_def num hash_look_empty_hash
        port_example vlan_check_example fst_check_example pview_example NOVLAN_def split: if_splits)
qed

lemma example_fields:
  "pflag example_switch = 0" "fst_pflag example_switch = 0" "pkt_in example_switch = []" "pkt_out example_switch = []"
  "outs example_switch = []" "numports example_switch = 4" "hash example_switch = empty_hash 1 hash_zero"
  by (simp_all add: example_switch_def switch_zero_def)

lemma example_endpoints:
  "endpoint_of example_switch (new_endpoint 1 10 11)" "endpoint_of example_switch (new_endpoint 2 20 21)"
  "endpoint_of example_switch (new_endpoint 3 30 31)"
  by (simp_all add: endpoint_of_def new_endpoint_def get_port_example example_port_def)

text \<open>A broadcast frame of a station on port 1, in a buffer with the four bytes of filler.\<close>

definition example_buf :: bytes where
  "example_buf = [0, 0, 0, 0, 0xff, 0xff, 0xff, 0xff, 0xff, 0xff, 2, 0, 0, 0, 0, 1, 8, 0, 42, 43]"

lemma new_endpoint_fields [simp]:
  "ep_port (new_endpoint i a b) = i" "ep_fd_ctl (new_endpoint i a b) = a" "ep_fd_data (new_endpoint i a b) = b"
  by (simp_all add: new_endpoint_def)

end
