(* ===== verification/Forwarding.thy ===== *)
theory Forwarding
  imports Example
begin

text \<open>
  What \<open>handle_in_packet\<close> sends. \<open>forward_spec\<close> is the behaviour of a learning VLAN switch on
  frames, without buffers, pointers and bit arrays; the code implements it. The isolation of
  the VLANs holds also with the packet filters of the plugins in place.
\<close>

section \<open>Reference definitions\<close>

text \<open>The calls of the sender for the endpoints of a port.\<close>

definition deliver :: "switch \<Rightarrow> nat \<Rightarrow> bytes \<Rightarrow> event list" where
  "deliver sw i bs =
     (case pview sw i of
        Some (es, Some m, _) \<Rightarrow> map (\<lambda>e. Sent m (ep_fd_ctl e) (ep_fd_data e) bs (ep_port e)) es
      | _ \<Rightarrow> [])"

definition strip_tag :: "bytes \<Rightarrow> bytes" where
  "strip_tag f = take 12 f @ drop 16 f"

definition add_tag :: "nat \<Rightarrow> bytes \<Rightarrow> bytes" where
  "add_tag v f = take 12 f @ [0x81, 0x00, of_nat (v div 256), of_nat v] @ drop 12 f"

definition untagged_form :: "bool \<Rightarrow> bytes \<Rightarrow> bytes" where
  "untagged_form tagged f = (if tagged then strip_tag f else f)"

definition tagged_form :: "nat \<Rightarrow> bool \<Rightarrow> bytes \<Rightarrow> bytes" where
  "tagged_form v tagged f = (if tagged then f else add_tag v f)"

text \<open>The ports of a VLAN that forward, tagged or untagged, without the port the frame came from.\<close>

definition recipients :: "switch \<Rightarrow> nat \<Rightarrow> vfield \<Rightarrow> nat \<Rightarrow> nat list" where
  "recipients sw v f port = filter (\<lambda>i. i \<noteq> port) (filter (vlan_check sw v f) [0..<numports sw])"

text \<open>
  \<open>t\<close> is the port the destination address was learned on, negative when it is unknown or
  the frame is a broadcast.
\<close>

definition forward_spec :: "switch \<Rightarrow> nat \<Rightarrow> nat \<Rightarrow> bool \<Rightarrow> bytes \<Rightarrow> int \<Rightarrow> event list" where
  "forward_spec sw port v tagged f t =
     (if t < 0
      then (let us = concat (map (\<lambda>i. deliver sw i (untagged_form tagged f)) (recipients sw v Bcuntag port));
                ts = concat (map (\<lambda>i. deliver sw i (tagged_form v tagged f)) (recipients sw v Bctag port))
            in if tagged then ts @ us else us @ ts)
      else if t = int port then []
      else deliver sw (nat t)
             (if untag_of sw (nat t) = v then untagged_form tagged f else tagged_form v tagged f))"

definition frame_of :: "bytes \<times> nat \<times> int \<Rightarrow> bytes" where
  "frame_of = (\<lambda>(buf, off, len). take (nat len) (drop off buf))"

section \<open>Buffers\<close>

lemma frame_TAG2UNTAG:
  assumes "16 \<le> len" and "off + nat len \<le> length buf"
  shows "frame_of (TAG2UNTAG (buf, off, len)) = strip_tag (frame_of (buf, off, len))"
proof -
  define n where "n = nat len - 16"
  have n: "nat len = 16 + n" "nat (len - 4) = 12 + n" using assms(1) by (simp_all add: n_def)
  have len: "length (take 12 (drop off buf)) = 12" using assms n by simp
  have "frame_of (TAG2UNTAG (buf, off, len)) = take (12 + n) (take 12 (drop off buf) @ drop (off + 16) buf)"
    using assms n len by (simp add: frame_of_def TAG2UNTAG_def blit_def add.commute)
  also have "\<dots> = take 12 (drop off buf) @ take n (drop (off + 16) buf)" using len by simp
  also have "\<dots> = strip_tag (frame_of (buf, off, len))"
    by (simp add: strip_tag_def frame_of_def n min_def drop_take add.commute)
  finally show ?thesis .
qed

lemma frame_UNTAG2TAG:
  assumes "12 \<le> len" and "4 \<le> off" and "off + nat len \<le> length buf"
  shows "frame_of (UNTAG2TAG v (buf, off, len)) = add_tag v (frame_of (buf, off, len))"
proof -
  define n k where "n = nat len - 12" and "k = off - 4"
  have n: "nat len = 12 + n" "nat (len + 4) = 16 + n" "off = k + 4" using assms by (simp_all add: n_def k_def)
  define a where "a = take 12 (drop off buf)"
  have la: "length a = 12" using assms n by (simp add: a_def)
  define b where "b = blit buf k a"
  have b: "b = take k buf @ a @ drop (k + 12) buf" using la by (simp add: b_def blit_def)
  have lb: "length (take k buf) = k" using assms n by simp
  define tg :: bytes where "tg = [0x81, 0x00, of_nat (v div 256), of_nat v]"
  have lt: "length tg = 4" by (simp add: tg_def)
  have "drop k (blit b (k + 12) tg) = a @ tg @ drop (k + 16) buf"
    using la lb lt by (simp add: blit_def b add.commute)
  moreover have "frame_of (UNTAG2TAG v (buf, off, len)) = take (16 + n) (drop k (blit b (k + 12) tg))"
    by (simp add: frame_of_def UNTAG2TAG_def n b_def a_def tg_def add.commute)
  ultimately have "frame_of (UNTAG2TAG v (buf, off, len)) = a @ tg @ take n (drop (k + 16) buf)"
    using la lt by simp
  then show ?thesis by (simp add: add_tag_def frame_of_def n a_def tg_def min_def drop_take add.commute)
qed

lemma strip_add_tag: "12 \<le> length f \<Longrightarrow> strip_tag (add_tag v f) = f"
  by (simp add: strip_tag_def add_tag_def)

lemma pkt_add_tag:
  assumes "12 \<le> length f" and "v < 4096"
  shows "pkt_tagged (add_tag v f)" "pkt_vlan (add_tag v f) = v" "pkt_dest (add_tag v f) = pkt_dest f"
    "pkt_src (add_tag v f) = pkt_src f"
  using assms
  by (simp_all add: pkt_tagged_def pkt_vlan_def pkt_dest_def pkt_src_def add_tag_def nth_append ETH_ALEN_def
      unat_of_nat take_bit_eq_mod drop_take)

section \<open>What is sent\<close>

lemma deliver_cong: "pview s' = pview s \<Longrightarrow> deliver s' = deliver s"
  by (simp add: fun_eq_iff deliver_def)

lemma SEND_TO_events:
  assumes "struct_ok s" and "pview s i \<noteq> None" and "pkt_out s = []"
  shows "\<exists>s'. SEND_TO i (buf, off, len) s = (len, s') \<and> outs s' = outs s @ deliver s i (frame_of (buf, off, len)) \<and>
    stp_ok {} s s' \<and> pkt_out s' = [] \<and> vlant s' = vlant s"
proof -
  obtain p where p: "get_port i s = Some p" using assms(2) by (auto simp: pview_def)
  define s' where "s' = snd (SEND_TO i (buf, off, len) s)"
  note P = struct_portD [OF assms(1) p]
  have "SEND_TO i (buf, off, len) s = (len, s')" "pkt_out s' = []"
    using assms(3) p unfolding s'_def
    by (simp_all add: SEND_TO_def SEND_PACKET_PORT_def PACKETFILTER_def upd_port_def Let_def crash_def split: option.split)
  moreover have "outs s' = outs s @ deliver s i (frame_of (buf, off, len))"
    using assms(3) p P(1) unfolding s'_def
    by (cases "p_ms p") (simp_all add: SEND_TO_def SEND_PACKET_PORT_def PACKETFILTER_def upd_port_def Let_def
        deliver_def pview_def pshape_def frame_of_def crash_def)
  moreover have "stp_ok {} s s'" unfolding s'_def by (rule SEND_TO_stp [OF assms(1,2)])
  moreover have "vlant s' = vlant s" unfolding s'_def by (simp add: frame_simps)
  ultimately show ?thesis by blast
qed

lemma sends_events:
  assumes "struct_ok s" and "pkt_out s = []" and "\<forall>i \<in> set is. pview s i \<noteq> None"
  shows "\<exists>s'. fold (\<lambda>i (len, s). if i \<noteq> port then SEND_TO i (buf, off, len) s else (len, s)) is (len, s) = (len, s') \<and>
    outs s' = outs s @ concat (map (\<lambda>i. deliver s i (frame_of (buf, off, len))) (filter (\<lambda>i. i \<noteq> port) is)) \<and>
    stp_ok {} s s' \<and> pkt_out s' = [] \<and> vlant s' = vlant s"
  using assms
proof (induction "is" arbitrary: s)
  case Nil
  then show ?case by (simp add: stp_ok_refl)
next
  case (Cons i "is")
  show ?case
  proof (cases "i = port")
    case True
    then show ?thesis using Cons by simp
  next
    case False
    obtain s1 where s1: "SEND_TO i (buf, off, len) s = (len, s1)" "outs s1 = outs s @ deliver s i (frame_of (buf, off, len))"
      "stp_ok {} s s1" "pkt_out s1 = []" "vlant s1 = vlant s"
      using SEND_TO_events [OF Cons.prems(1) _ Cons.prems(2), of i buf off len] Cons.prems(3) by force
    have pv: "pview s1 = pview s" using stp_ok_simps(3) [OF s1(3)] .
    obtain s2 where s2: "fold (\<lambda>i (len, s). if i \<noteq> port then SEND_TO i (buf, off, len) s else (len, s)) is (len, s1) = (len, s2)"
      "outs s2 = outs s1 @ concat (map (\<lambda>i. deliver s1 i (frame_of (buf, off, len))) (filter (\<lambda>i. i \<noteq> port) is))"
      "stp_ok {} s1 s2" "pkt_out s2 = []" "vlant s2 = vlant s1"
      using Cons.IH [of s1] Cons.prems s1(3,4) pv by (auto simp: stp_ok_def)
    have "stp_ok {} s s2" using stp_ok_trans [OF s1(3) s2(3)] by simp
    then show ?thesis using s1 s2 False deliver_cong [OF pv] by simp
  qed
qed

lemma ba_members_upto:
  assumes "\<And>i. ba_check x i \<Longrightarrow> i < n"
  shows "ba_members x n = filter (ba_check x) [0..<n]"
proof -
  have "[0..<64 * WORDSIZEROUND n] = [0..<n] @ [n..<64 * WORDSIZEROUND n]"
    using upt_add_eq_append [of 0 n "64 * WORDSIZEROUND n - n"] less_WORDSIZEROUND [of n] by simp
  moreover have "filter (ba_check x) [n..<64 * WORDSIZEROUND n] = []"
    using assms by (auto simp: filter_empty_conv) (meson not_le)
  ultimately show ?thesis by (simp add: ba_members_def)
qed

lemma bc_active: "switch_wf sw \<Longrightarrow> f = Bctag \<or> f = Bcuntag \<Longrightarrow> vlan_check sw v f i \<Longrightarrow> pview sw i \<noteq> None \<and> i < numports sw"
  using struct_pview_less [OF switch_wfD(1)] switch_wfD(4) by (auto simp: bc_ok_def active_def) (metis option.distinct(1) pview_None)+

lemma broadcast_events:
  assumes wf: "switch_wf s" and v: "valid s v" and out: "pkt_out s = []" and f: "f = Bctag \<or> f = Bcuntag"
  shows "\<exists>s'. broadcast v f port (buf, off, len) s = (len, s') \<and>
    outs s' = outs s @ concat (map (\<lambda>i. deliver s i (frame_of (buf, off, len))) (recipients s v f port)) \<and>
    stp_ok {} s s' \<and> pkt_out s' = [] \<and> vlant s' = vlant s"
proof -
  let ?body = "\<lambda>i (len, s). if i \<noteq> port then SEND_TO i (buf, off, len) s else (len, s)"
  have "length (vlant s v f) = WORDSIZEROUND (numports s)"
    using struct_okD(6) [OF switch_wfD(1) [OF wf]] v by (simp add: arrays_ok_def)
  moreover have "ba_FORALL (\<lambda>(_, s). vlant s v f) (numports s) ?body (len, s) = fold ?body (ba_members (vlant s v f) (numports s)) (len, s)"
    by (subst ba_FORALL_fold) (auto simp: frame_simps case_prod_beta)
  moreover have "ba_members (vlant s v f) (numports s) = filter (vlan_check s v f) [0..<numports s]"
    using bc_active [OF wf f] by (subst ba_members_upto) (auto simp: vlan_check_def fun_eq_iff intro!: filter_cong)
  moreover have "\<forall>i \<in> set (filter (vlan_check s v f) [0..<numports s]). pview s i \<noteq> None"
    using bc_active [OF wf f] by auto
  ultimately show ?thesis
    using sends_events [OF switch_wfD(1) [OF wf] out, of "filter (vlan_check s v f) [0..<numports s]" port buf off len]
    by (simp add: broadcast_def recipients_def)
qed

lemma send_dst_broadcast_events:
  assumes wf: "switch_wf s" and v: "valid s v" and out: "pkt_out s = []"
    and len: "14 \<le> len" "tagged \<Longrightarrow> 16 \<le> len" "4 \<le> off" "off + nat len \<le> length buf"
  shows "outs (send_dst_broadcast port v tagged (buf, off, len) s) =
    outs s @ forward_spec s port v tagged (frame_of (buf, off, len)) (- 1)"
proof -
  have again: "outs (snd (broadcast v g port pkt s1)) =
      outs s1 @ concat (map (\<lambda>i. deliver s i (frame_of pkt)) (recipients s v g port))"
    if "stp_ok {} s s1" "pkt_out s1 = []" "vlant s1 = vlant s" "g = Bctag \<or> g = Bcuntag" for s1 g pkt
  proof -
    obtain b o' l where pkt: "pkt = (b, o', l)" using prod_cases3 by blast
    have w1: "switch_wf s1" by (rule stp_step_wf [OF wf stp_step_ok [OF that(1)]])
    have "valid s1 v" using v stp_ok_simps(5) [OF that(1)] by simp
    from broadcast_events [OF w1 this that(2,4), of port b o' l]
    have "outs (snd (broadcast v g port pkt s1)) = outs s1 @ concat (map (\<lambda>i. deliver s1 i (frame_of pkt)) (recipients s1 v g port))"
      by (auto simp: pkt)
    moreover have "deliver s1 = deliver s" using deliver_cong stp_ok_simps(3) [OF that(1)] by blast
    moreover have "recipients s1 v g port = recipients s v g port"
      using that(3) stp_ok_simps(1) [OF that(1)] by (simp add: recipients_def vlan_check_def)
    ultimately show ?thesis by simp
  qed
  obtain st su where
    st: "broadcast v Bctag port (buf, off, len) s = (len, st)"
      "outs st = outs s @ concat (map (\<lambda>i. deliver s i (frame_of (buf, off, len))) (recipients s v Bctag port))"
      "stp_ok {} s st" "pkt_out st = []" "vlant st = vlant s" and
    su: "broadcast v Bcuntag port (buf, off, len) s = (len, su)"
      "outs su = outs s @ concat (map (\<lambda>i. deliver s i (frame_of (buf, off, len))) (recipients s v Bcuntag port))"
      "stp_ok {} s su" "pkt_out su = []" "vlant su = vlant s"
    using broadcast_events [OF wf v out, of Bctag port buf off len] broadcast_events [OF wf v out, of Bcuntag port buf off len]
    by blast
  show ?thesis
    using st su again [OF st(3,4,5), of Bcuntag "TAG2UNTAG (buf, off, len)"]
      again [OF su(3,4,5), of Bctag "UNTAG2TAG v (buf, off, len)"] len
      frame_TAG2UNTAG [of len off buf] frame_UNTAG2TAG [of len off buf v]
    by (cases tagged) (simp_all add: send_dst_broadcast_def forward_spec_def untagged_form_def tagged_form_def)
qed

lemma send_dst_unicast_events:
  assumes wf: "switch_wf s" and out: "pkt_out s = []" and t: "0 \<le> t" "get_port (nat t) s \<noteq> None"
    and len: "14 \<le> len" "tagged \<Longrightarrow> 16 \<le> len" "4 \<le> off" "off + nat len \<le> length buf"
  shows "outs (send_dst_unicast port v tagged t (buf, off, len) s) =
    outs s @ forward_spec s port v tagged (frame_of (buf, off, len)) t"
proof -
  obtain p where p: "get_port (nat t) s = Some p" using t by blast
  have "outs (snd (SEND_TO (nat t) pkt s)) = outs s @ deliver s (nat t) (frame_of pkt)" for pkt
  proof -
    obtain b o' l where "pkt = (b, o', l)" using prod_cases3 by blast
    then show ?thesis using SEND_TO_events [OF switch_wfD(1) [OF wf] _ out, of "nat t" b o' l] t(2) by force
  qed
  then show ?thesis
    using t p frame_TAG2UNTAG [of len off buf] frame_UNTAG2TAG [of len off buf v] len
    by (simp add: send_dst_unicast_def forward_spec_def untagged_form_def tagged_form_def untag_of_def)
qed

section \<open>The path of a packet\<close>

text \<open>
  The decisions of \<open>handle_in_packet\<close> as a function: the VLAN of a frame (\<open>None\<close> when the
  frame is not wanted) and the port its destination was learned on.
\<close>

definition frame_vlan :: "switch \<Rightarrow> nat \<Rightarrow> bytes \<Rightarrow> nat option" where
  "frame_vlan sw port f =
     (if pkt_tagged f then (if vlan_check sw (pkt_vlan f) Table port then Some (pkt_vlan f) else None)
      else if untag_of sw port = NOVLAN then None else Some (untag_of sw port))"

definition learned :: "bool \<Rightarrow> switch \<Rightarrow> nat \<Rightarrow> nat \<Rightarrow> bytes \<Rightarrow> hash_state" where
  "learned mem sw v port f =
     (if IS_BROADCAST (pkt_src f) then hash sw
      else hash_learn mem (qtime (timers sw)) (pkt_src f) (int v) (int port) (hash sw))"

definition target :: "hash_state \<Rightarrow> nat \<Rightarrow> bytes \<Rightarrow> int" where
  "target h v f = (if IS_BROADCAST (pkt_dest f) then - 1 else find_in_hash h (pkt_dest f) (int v))"

lemma frame_reads:
  assumes "14 \<le> len" "off + nat len \<le> length buf" and p: "p = drop off buf" and f: "f = frame_of (buf, off, len)"
  shows "pkt_tagged f = pkt_tagged p" "pkt_src f = pkt_src p" "pkt_dest f = pkt_dest p" "ISBPDU f = ISBPDU p"
    "16 \<le> len \<Longrightarrow> pkt_vlan f = pkt_vlan p"
  using assms
  by (simp_all add: frame_of_def pkt_tagged_def pkt_src_def pkt_dest_def pkt_vlan_def ISBPDU_def ETH_ALEN_def drop_take min_def)

lemma frame_vlan_table:
  assumes "switch_wf sw" and "frame_vlan sw port f = Some v"
  shows "vlan_check sw v Table port"
proof (cases "pkt_tagged f")
  case False
  then have u: "untag_of sw port \<noteq> NOVLAN" "v = untag_of sw port" using assms(2) by (auto simp: frame_vlan_def split: if_splits)
  then obtain q where q: "get_port port sw = Some q" by (auto simp: untag_of_def split: option.splits)
  then show ?thesis using u untag_okD [OF switch_wfD(3) [OF assms(1)] q] by (simp add: untag_of_def)
qed (use assms in \<open>auto simp: frame_vlan_def split: if_splits\<close>)

lemma target_ok:
  assumes "switch_wf sw" and "\<not> target (hash sw) v f < 0" and "v < NUMOFVLAN"
  shows "active sw (nat (target (hash sw) v f))" "vlan_check sw v Table (nat (target (hash sw) v f))"
    "\<not> vlan_check sw v Notlearning (nat (target (hash sw) v f))"
proof -
  let ?d = "extmac (pkt_dest f) (int v)"
  obtain e where e: "find_entry (hash sw) ?d = Some e" "target (hash sw) v f = he_port e"
    using assms(2) by (cases "find_entry (hash sw) ?d") (auto simp: target_def find_in_hash_def split: if_splits)
  then have "entry_ok sw ?d (target (hash sw) v f)"
    using switch_wfD(6) [OF assms(1)] by (auto simp: mac_ok_def hash_look_def)
  moreover have "unat (EMAC2VLAN ?d) = v"
    using assms(3) by (simp add: EMAC2VLAN_extmac NUMOFVLAN_def unat_of_nat take_bit_eq_mod)
  ultimately show "active sw (nat (target (hash sw) v f))" "vlan_check sw v Table (nat (target (hash sw) v f))"
    "\<not> vlan_check sw v Notlearning (nat (target (hash sw) v f))"
    by (simp_all add: entry_ok_def Let_def)
qed

lemma switch_packet_cases:
  assumes "\<not> (ISBPDU (drop off buf) \<and> fst (fstflag P_GETFLAG FSTP_TAG sw) \<noteq> 0)" "\<not> vlan_check sw v Notlearning port"
    and s: "s = sw\<lparr>hash := learned mem sw v port (drop off buf)\<rparr>"
  shows "switch_packet mem port v tagged (buf, off, len) sw =
    (if target (hash s) v (drop off buf) < 0 then send_dst_broadcast port v tagged (buf, off, len) s
     else send_dst_unicast port v tagged (target (hash s) v (drop off buf)) (buf, off, len) s)"
  using assms by (auto simp: switch_packet_def Let_def learned_def hash_learn_def target_def)

text \<open>Counting the packet changes nothing else.\<close>

definition counted :: "nat \<Rightarrow> int \<Rightarrow> switch \<Rightarrow> switch" where
  "counted port len sw = upd_port port (\<lambda>p. p\<lparr>p_pktsin := p_pktsin p + 1, p_bytesin := p_bytesin p + len\<rparr>) sw"

lemma counted_frame:
  assumes "get_port port sw = Some q"
  shows "pview (counted port len sw) = pview sw" "vlan_check (counted port len sw) = vlan_check sw"
    "hash (counted port len sw) = hash sw" "timers (counted port len sw) = timers sw"
    "pkt_out (counted port len sw) = pkt_out sw" "outs (counted port len sw) = outs sw"
    "fst_pflag (counted port len sw) = fst_pflag sw" "numports (counted port len sw) = numports sw"
    "valid (counted port len sw) = valid sw"
proof -
  show "pview (counted port len sw) = pview sw"
    unfolding counted_def by (rule pview_upd_port_same [OF assms]) (simp add: pshape_def)
qed (simp_all add: counted_def upd_port_Some [OF assms] fun_eq_iff vlan_check_def valid_def)

lemma counted_wf: "switch_wf sw \<Longrightarrow> get_port port sw = Some q \<Longrightarrow> switch_wf (counted port len sw)"
  unfolding counted_def by (rule upd_port_wf) (simp_all add: pshape_def)

lemma handle_in_packet_switch:
  assumes "PACKETFILTER (pkt_in sw) (ep_port ep) (drop off buf) len0 = (True, len)"
    and "pflag sw AND HUB_TAG = 0" and q: "get_port (ep_port ep) sw = Some q"
  shows "handle_in_packet mem ep (buf, off, len0) sw =
    (case frame_vlan sw (ep_port ep) (drop off buf) of
       None \<Rightarrow> counted (ep_port ep) len sw
     | Some v \<Rightarrow> switch_packet mem (ep_port ep) v (pkt_tagged (drop off buf)) (buf, off, len) (counted (ep_port ep) len sw))"
proof -
  let ?s = "counted (ep_port ep) len sw"
  note C = counted_frame [OF q, of len]
  have "handle_in_packet mem ep (buf, off, len0) sw =
    (if pkt_tagged (drop off buf)
     then (if vlan_check ?s (pkt_vlan (drop off buf)) Table (ep_port ep)
           then switch_packet mem (ep_port ep) (pkt_vlan (drop off buf)) True (buf, off, len) ?s else ?s)
     else (case get_port (ep_port ep) ?s of None \<Rightarrow> ?s
           | Some q \<Rightarrow> if p_vlanuntag q = NOVLAN then ?s
               else switch_packet mem (ep_port ep) (p_vlanuntag q) False (buf, off, len) ?s))"
    unfolding handle_in_packet_def prod.case Let_def assms(1) counted_def using assms(2) by simp
  moreover obtain q' where q': "get_port (ep_port ep) ?s = Some q'" "p_vlanuntag q' = p_vlanuntag q"
    using q by (simp add: counted_def get_port_upd_port [OF q])
  ultimately show ?thesis using C(2) q by (simp add: frame_vlan_def untag_of_def)
qed

lemma forward_spec_cong:
  assumes "pview s = pview sw" "vlan_check s = vlan_check sw" "numports s = numports sw"
  shows "forward_spec s = forward_spec sw"
  using deliver_cong [OF assms(1)] pview_cong(2) [OF assms(1)] assms(2,3)
  by (simp add: fun_eq_iff forward_spec_def recipients_def)

lemma switch_packet_events:
  assumes wf: "switch_wf sw" and act: "active sw i" and tab: "vlan_check sw v Table i" and out: "pkt_out sw = []"
    and len: "14 \<le> len" "4 \<le> off" "off + nat len \<le> length buf"
    and p: "p = drop off buf" and tg: "pkt_tagged p \<Longrightarrow> 16 \<le> len"
    and nob: "\<not> (ISBPDU p \<and> fst (fstflag P_GETFLAG FSTP_TAG sw) \<noteq> 0)"
  shows "outs (switch_packet mem i v (pkt_tagged p) (buf, off, len) sw) = outs sw @
    (if vlan_check sw v Notlearning i then []
     else forward_spec sw i v (pkt_tagged p) (frame_of (buf, off, len)) (target (learned mem sw v i p) v p))"
proof (cases "vlan_check sw v Notlearning i")
  case True
  then show ?thesis using nob by (auto simp: switch_packet_def Let_def p)
next
  case False
  define s where "s = sw\<lparr>hash := learned mem sw v i p\<rparr>"
  define t where "t = target (hash s) v p"
  have ws: "switch_wf s"
    using wf learn_wf [OF wf act tab False] unfolding s_def learned_def by (simp add: hash_learn_def)
  have "valid s = valid sw" by (simp add: s_def valid_def fun_eq_iff)
  then have vs: "valid s v" using struct_tableD(1) [OF switch_wfD(1) [OF wf] tab] by simp
  have sp: "switch_packet mem i v (pkt_tagged p) (buf, off, len) sw =
    (if t < 0 then send_dst_broadcast i v (pkt_tagged p) (buf, off, len) s
     else send_dst_unicast i v (pkt_tagged p) t (buf, off, len) s)"
    using switch_packet_cases [OF _ False s_def [unfolded p]] nob by (simp add: t_def p)
  have out': "pkt_out s = []" "outs s = outs sw" using out by (simp_all add: s_def)
  have fs: "forward_spec s = forward_spec sw"
    by (rule forward_spec_cong) (simp_all add: s_def fun_eq_iff pview_def vlan_check_def)
  have "outs (switch_packet mem i v (pkt_tagged p) (buf, off, len) sw) =
      outs s @ forward_spec s i v (pkt_tagged p) (frame_of (buf, off, len)) t"
  proof (cases "t < 0")
    case True
    then show ?thesis
      using sp send_dst_broadcast_events [OF ws vs out'(1) len(1) tg len(2,3)] by (simp add: forward_spec_def)
  next
    case nn: False
    then have "get_port (nat t) s \<noteq> None"
      using target_ok(1) [OF ws, of v p] vs by (auto simp: valid_def active_def t_def)
    then show ?thesis
      using nn sp send_dst_unicast_events [OF ws out'(1) _ _ len(1) tg len(2,3)] by simp
  qed
  then show ?thesis using False out'(2) fs by (simp add: t_def s_def)
qed

lemma handle_in_packet_events:
  assumes wf: "switch_wf sw" and ep: "endpoint_of sw ep"
    and flt: "pkt_in sw = []" "pkt_out sw = []" and hub: "pflag sw AND HUB_TAG = 0"
    and len: "14 \<le> len" "4 \<le> off" "off + nat len \<le> length buf"
    and f: "f = frame_of (buf, off, len)" and tg: "pkt_tagged f \<Longrightarrow> 16 \<le> len"
    and bpdu: "\<not> (ISBPDU f \<and> fst_pflag sw AND FSTP_TAG \<noteq> 0)"
  shows "outs (handle_in_packet mem ep (buf, off, len) sw) = outs sw @
    (case frame_vlan sw (ep_port ep) f of
       None \<Rightarrow> []
     | Some v \<Rightarrow>
         if vlan_check sw v Notlearning (ep_port ep) then []
         else forward_spec sw (ep_port ep) v (pkt_tagged f) f (target (learned mem sw v (ep_port ep) f) v f))"
proof -
  let ?i = "ep_port ep" and ?p = "drop off buf" and ?s = "counted (ep_port ep) len sw"
  obtain q where q: "get_port ?i sw = Some q" and qe: "ep \<in> set (p_ep q)"
    using ep by (auto simp: endpoint_of_def split: option.splits)
  note R = frame_reads [OF len(1,3) refl f] and C = counted_frame [OF q, of len]
  have fv: "frame_vlan sw ?i f = frame_vlan sw ?i ?p" using R tg by (auto simp: frame_vlan_def)
  have pf: "PACKETFILTER (pkt_in sw) ?i ?p len = (True, len)" by (simp add: PACKETFILTER_def flt)
  note eq = handle_in_packet_switch [OF pf hub q, of mem]
  show ?thesis
  proof (cases "frame_vlan sw ?i f")
    case None
    then show ?thesis using eq fv C by simp
  next
    case (Some v)
    have tab: "vlan_check ?s v Table ?i" using frame_vlan_table [OF wf Some] C(2) by simp
    have act: "active ?s ?i" using q qe unfolding pview_cong(1) [OF C(1)] by (auto simp: active_def)
    have nob: "\<not> (ISBPDU ?p \<and> fst (fstflag P_GETFLAG FSTP_TAG ?s) \<noteq> 0)"
      using bpdu R C by (simp add: fstflag_def)
    have out: "pkt_out ?s = []" and tg': "pkt_tagged ?p \<Longrightarrow> 16 \<le> len" using C(5) flt tg R by simp_all
    have lt: "target (learned mem ?s v ?i ?p) v ?p = target (learned mem sw v ?i f) v f"
      using R C(3,4) by (simp add: learned_def target_def)
    have "handle_in_packet mem ep (buf, off, len) sw = switch_packet mem ?i v (pkt_tagged ?p) (buf, off, len) ?s"
      unfolding eq using Some unfolding fv by simp
    then show ?thesis
      using switch_packet_events [OF counted_wf [OF wf q] act tab out len refl tg' nob, of mem] lt R(1)
        forward_spec_cong [OF C(1,2,8)] C(2,6) by (simp add: Some flip: f)
  qed
qed

section \<open>Isolation\<close>

text \<open>Everything sent between two states goes to ports that satisfy \<open>P\<close>.\<close>

definition sent_to :: "(nat \<Rightarrow> bool) \<Rightarrow> switch \<Rightarrow> switch \<Rightarrow> bool" where
  "sent_to P sw sw' \<longleftrightarrow> (\<exists>evs. outs sw' = outs sw @ evs \<and> (\<forall>e \<in> set evs. \<exists>m c d bs j. e = Sent m c d bs j \<and> P j))"

lemma sent_to_refl [simp]: "outs sw' = outs sw \<Longrightarrow> sent_to P sw sw'"
  by (simp add: sent_to_def)

lemma sent_to_trans: "sent_to P a b \<Longrightarrow> sent_to P b c \<Longrightarrow> sent_to P a c"
  unfolding sent_to_def
proof (elim exE conjE)
  fix e1 e2
  assume "outs b = outs a @ e1" "outs c = outs b @ e2" and
    *: "\<forall>e\<in>set e1. \<exists>m c d bs j. e = Sent m c d bs j \<and> P j" "\<forall>e\<in>set e2. \<exists>m c d bs j. e = Sent m c d bs j \<and> P j"
  then have "outs c = outs a @ (e1 @ e2)" by simp
  moreover have "\<forall>e\<in>set (e1 @ e2). \<exists>m c d bs j. e = Sent m c d bs j \<and> P j" using * by auto
  ultimately show "\<exists>evs. outs c = outs a @ evs \<and> (\<forall>e\<in>set evs. \<exists>m c d bs j. e = Sent m c d bs j \<and> P j)" by blast
qed

lemma SEND_TO_sent:
  assumes "struct_ok s" and "pview s i \<noteq> None" and "P i"
  shows "sent_to P s (snd (SEND_TO i pkt s))"
proof -
  obtain buf off len where pkt: "pkt = (buf, off, len)" using prod_cases3 by blast
  obtain p where p: "get_port i s = Some p" using assms(2) by (auto simp: pview_def)
  obtain ok l where pf: "PACKETFILTER (pkt_out s) i (drop off buf) len = (ok, l)" by force
  note P = struct_portD [OF assms(1) p]
  have "outs (snd (SEND_TO i pkt s)) = outs s @
      (if ok then (case p_ms p of None \<Rightarrow> [] | Some m \<Rightarrow>
         map (\<lambda>e. Sent m (ep_fd_ctl e) (ep_fd_data e) (take (nat l) (drop off buf)) (ep_port e)) (p_ep p)) else [])"
    using p pf P(1)
    by (cases "p_ms p") (auto simp: pkt SEND_TO_def SEND_PACKET_PORT_def upd_port_def Let_def crash_def)
  then show ?thesis
    unfolding sent_to_def by (intro exI conjI) (use P(2) assms(3) in \<open>auto split: if_splits option.splits\<close>)
qed

lemma broadcast_sent:
  assumes wf: "switch_wf s" and v: "valid s v" and f: "f = Bctag \<or> f = Bcuntag"
    and P: "\<And>i. i \<noteq> port \<Longrightarrow> vlan_check s v f i \<Longrightarrow> P i"
  shows "sent_to P s (snd (broadcast v f port pkt s))"
proof -
  obtain buf off len where pkt: "pkt = (buf, off, len)" using prod_cases3 by blast
  define body where "body = (\<lambda>i (len, s). if i \<noteq> port then SEND_TO i (buf, off, len) s else (len, s))"
  let ?I = "\<lambda>ls :: int \<times> switch. stp_ok {} s (snd ls) \<and> vlant (snd ls) = vlant s \<and> sent_to P s (snd ls)"
  have "?I (ba_FORALL (\<lambda>(_, s). vlant s v f) (numports s) body (len, s))"
  proof (rule ba_FORALL_inv [where I = ?I and Q = "vlan_check s v f"])
    fix i ls assume ls: "?I ls" and i: "vlan_check s v f i"
    obtain l s1 where e: "ls = (l, s1)" by force
    have pv: "pview s1 i \<noteq> None" using bc_active [OF wf f i] stp_ok_simps(3) [of "{}" s s1] ls by (simp add: e)
    have s1: "struct_ok s1" using ls by (simp add: e stp_ok_def)
    show "?I (body i ls)"
    proof (cases "i = port")
      case False
      then have "P i" using P i by blast
      then have "sent_to P s (snd (SEND_TO i (buf, off, l) s1))"
        using sent_to_trans [OF _ SEND_TO_sent [OF s1 pv]] ls by (simp add: e)
      moreover have "stp_ok {} s (snd (SEND_TO i (buf, off, l) s1))"
        using stp_ok_trans [OF _ SEND_TO_stp [OF s1 pv]] ls by (simp add: e)
      ultimately show ?thesis using ls False by (simp add: e body_def frame_simps)
    qed (use ls in \<open>simp add: e body_def\<close>)
  qed (use stp_ok_refl [OF switch_wfD(1) [OF wf]] in \<open>auto simp: vlan_check_def split: prod.splits\<close>)
  then show ?thesis unfolding pkt broadcast_def body_def by (simp add: crash_def)
qed

text \<open>The ports that may receive traffic of a VLAN from a port.\<close>

definition may_receive :: "switch \<Rightarrow> nat \<Rightarrow> nat \<Rightarrow> nat \<Rightarrow> bool" where
  "may_receive sw v port j \<longleftrightarrow> j \<noteq> port \<and> active sw j \<and> vlan_check sw v Table j"

lemma send_dst_broadcast_sent:
  assumes wf: "switch_wf s" and v: "valid s v"
  shows "sent_to (may_receive s v port) s (send_dst_broadcast port v tagged pkt s)"
proof -
  have "sent_to (may_receive s v port) s (snd (broadcast v g port pkt2 (snd (broadcast v f port pkt1 s))))"
    if f: "f = Bctag \<or> f = Bcuntag" and g: "g = Bctag \<or> g = Bcuntag" for f g pkt1 pkt2
  proof -
    define s1 where "s1 = snd (broadcast v f port pkt1 s)"
    have "stp_ok {} s s1" unfolding s1_def
      by (rule broadcast_stp [OF switch_wfD(1) [OF wf] v]) (use bc_active [OF wf f] in blast)
    then have fr: "active s1 = active s" "vlan_check s1 v Table = vlan_check s v Table"
      using stp_ok_simps(6,8) by blast+
    have w1: "switch_wf s1" "valid s1 v" unfolding s1_def using broadcast_wf [OF wf v f] by blast+
    have "may_receive s v port i" if "i \<noteq> port" "vlan_check s v f i" for i
      using that switch_wfD(4) [OF wf] f by (auto simp: bc_ok_def may_receive_def)
    then have "sent_to (may_receive s v port) s s1" unfolding s1_def by (rule broadcast_sent [OF wf v f])
    moreover have "may_receive s v port i" if "i \<noteq> port" "vlan_check s1 v g i" for i
    proof -
      have "active s1 i \<and> vlan_check s1 v Table i" using that switch_wfD(4) [OF w1(1)] g by (auto simp: bc_ok_def)
      then show ?thesis using that by (simp add: may_receive_def fr)
    qed
    then have "sent_to (may_receive s v port) s1 (snd (broadcast v g port pkt2 s1))" by (rule broadcast_sent [OF w1 g])
    ultimately show ?thesis unfolding s1_def [symmetric] by (rule sent_to_trans)
  qed
  then show ?thesis by (cases pkt) (auto simp: send_dst_broadcast_def case_prod_beta)
qed

lemma switch_packet_sent:
  assumes wf: "switch_wf sw" and act: "active sw i" and tab: "vlan_check sw v Table i"
    and nob: "\<not> (ISBPDU (drop off buf) \<and> fst (fstflag P_GETFLAG FSTP_TAG sw) \<noteq> 0)"
  shows "sent_to (may_receive sw v i) sw (switch_packet mem i v tagged (buf, off, len) sw)"
proof (cases "vlan_check sw v Notlearning i")
  case True
  then show ?thesis using nob by (auto simp: switch_packet_def Let_def)
next
  case False
  let ?p = "drop off buf"
  define s where "s = sw\<lparr>hash := learned mem sw v i ?p\<rparr>"
  define t where "t = target (hash s) v ?p"
  have ws: "switch_wf s"
    using wf learn_wf [OF wf act tab False] unfolding s_def learned_def by (simp add: hash_learn_def)
  have "valid s = valid sw" by (simp add: s_def valid_def fun_eq_iff)
  then have vs: "valid s v" using struct_tableD(1) [OF switch_wfD(1) [OF wf] tab] by simp
  have "pview s = pview sw" by (simp add: s_def fun_eq_iff pview_def)
  then have mr: "may_receive s v i = may_receive sw v i"
    using pview_cong(1) [of s sw] by (simp add: may_receive_def fun_eq_iff vlan_check_def s_def)
  have "sent_to (may_receive s v i) s (send_dst_unicast i v tagged t pkt s)" if "\<not> t < 0" for pkt
  proof -
    have T: "active s (nat t)" "vlan_check s v Table (nat t)"
      using target_ok(1,2) [OF ws] that vs by (auto simp: t_def valid_def)
    then have pv: "pview s (nat t) \<noteq> None" by (auto simp: active_def)
    show ?thesis
      using SEND_TO_sent [OF switch_wfD(1) [OF ws] pv, of "may_receive s v i"] T that
      by (auto simp: send_dst_unicast_def may_receive_def crash_def split: option.split)
  qed
  then have "sent_to (may_receive s v i) s (switch_packet mem i v tagged (buf, off, len) sw)"
    using switch_packet_cases [OF nob False s_def] send_dst_broadcast_sent [OF ws vs] by (simp add: t_def)
  then show ?thesis unfolding mr by (simp add: s_def sent_to_def)
qed

text \<open>
  C3: VLAN isolation. Whatever the packet filters of the plugins do, a packet that is not a
  BPDU for the spanning tree is handed only to endpoints of other ports that are active and
  members of the VLAN the packet belongs to; a packet of no VLAN of the port is not sent at all.
\<close>

theorem vlan_isolation:
  assumes wf: "switch_wf sw" and ep: "endpoint_of sw ep" and hub: "pflag sw AND HUB_TAG = 0"
    and bpdu: "\<not> (ISBPDU (drop off buf) \<and> fst_pflag sw AND FSTP_TAG \<noteq> 0)"
  shows "sent_to (\<lambda>j. case frame_vlan sw (ep_port ep) (drop off buf) of
      None \<Rightarrow> False | Some v \<Rightarrow> j \<noteq> ep_port ep \<and> active sw j \<and> vlan_check sw v Table j)
    sw (handle_in_packet mem ep (buf, off, len) sw)"
proof -
  let ?i = "ep_port ep" and ?p = "drop off buf"
  obtain q where q: "get_port ?i sw = Some q" and qe: "ep \<in> set (p_ep q)"
    using ep by (auto simp: endpoint_of_def split: option.splits)
  obtain ok l where pf: "PACKETFILTER (pkt_in sw) ?i ?p len = (ok, l)" by force
  let ?s = "counted ?i l sw"
  note C = counted_frame [OF q, of l]
  show ?thesis
  proof (cases "ok \<and> frame_vlan sw ?i ?p \<noteq> None")
    case True
    then obtain v where v: "frame_vlan sw ?i ?p = Some v" by blast
    have tab: "vlan_check ?s v Table ?i" using frame_vlan_table [OF wf v] C(2) by simp
    have act: "active ?s ?i" using q qe unfolding pview_cong(1) [OF C(1)] by (auto simp: active_def)
    have nob: "\<not> (ISBPDU ?p \<and> fst (fstflag P_GETFLAG FSTP_TAG ?s) \<noteq> 0)" using bpdu C(7) by (simp add: fstflag_def)
    have "may_receive ?s v ?i = (\<lambda>j. j \<noteq> ?i \<and> active sw j \<and> vlan_check sw v Table j)"
      using pview_cong(1) [OF C(1)] C(2) by (simp add: may_receive_def fun_eq_iff)
    then show ?thesis
      using switch_packet_sent [OF counted_wf [OF wf q] act tab nob, of mem "pkt_tagged ?p" l]
        handle_in_packet_switch [OF _ hub q] pf True v C(6) by (simp add: sent_to_def)
  next
    case False
    then have "handle_in_packet mem ep (buf, off, len) sw = sw \<or> handle_in_packet mem ep (buf, off, len) sw = ?s"
      using handle_in_packet_switch [OF _ hub q, of off buf len l mem] pf
      by (cases ok) (auto simp: handle_in_packet_def Let_def)
    then show ?thesis using C(6) by auto
  qed
qed

theorem vlan_isolation_witness:
  "sent_to (\<lambda>j. case frame_vlan example_switch 1 (drop 4 example_buf) of
      None \<Rightarrow> False | Some v \<Rightarrow> j \<noteq> 1 \<and> active example_switch j \<and> vlan_check example_switch v Table j)
    example_switch (handle_in_packet True (new_endpoint 1 10 11) (example_buf, 4, 16) example_switch)"
  using vlan_isolation [OF example_wf example_endpoints(1), of 4 example_buf True 16]
  by (simp only: example_fields new_endpoint_fields) simp

text \<open>
  C1: forwarding. Without packet filters, \<open>handle_in_packet\<close> implements the learning VLAN
  switch \<open>forward_spec\<close>: the frame is dropped when it is of no VLAN of the port or the port is
  discarding; a broadcast or a frame for an unknown station goes to all the other forwarding
  ports of the VLAN in ascending order; a frame for a known station goes to the port of the
  station only, and nowhere when it is the port it came from. Tagged ports get it with
  the tag, untagged ports without, although the code rewrites one buffer in place.
\<close>

theorem handle_in_packet_refines:
  assumes "switch_wf sw" and "endpoint_of sw ep"
    and "pkt_in sw = []" "pkt_out sw = []" and "pflag sw AND HUB_TAG = 0"
    and "14 \<le> len" "4 \<le> off" "off + nat len \<le> length buf"
    and "f = frame_of (buf, off, len)" and "pkt_tagged f \<Longrightarrow> 16 \<le> len"
    and "\<not> (ISBPDU f \<and> fst_pflag sw AND FSTP_TAG \<noteq> 0)"
  shows "outs (handle_in_packet mem ep (buf, off, len) sw) = outs sw @
    (case frame_vlan sw (ep_port ep) f of
       None \<Rightarrow> []
     | Some v \<Rightarrow>
         if vlan_check sw v Notlearning (ep_port ep) then []
         else forward_spec sw (ep_port ep) v (pkt_tagged f) f (target (learned mem sw v (ep_port ep) f) v f))"
  using assms by (rule handle_in_packet_events)

theorem handle_in_packet_refines_witness:
  "outs (handle_in_packet True (new_endpoint 1 10 11) (example_buf, 4, 16) example_switch) =
     [Sent ''unix'' 20 21 (drop 4 example_buf) 2,
      Sent ''unix'' 30 31 [0xff, 0xff, 0xff, 0xff, 0xff, 0xff, 2, 0, 0, 0, 0, 1, 0x81, 0, 0, 0, 8, 0, 42, 43] 3]"
proof -
  define f where "f = frame_of (example_buf, 4, 16)"
  have f: "f = drop 4 example_buf" "\<not> pkt_tagged f" "IS_BROADCAST (pkt_dest f)"
    by (simp_all add: f_def frame_of_def example_buf_def pkt_tagged_def IS_BROADCAST_def pkt_dest_def ETH_ALEN_def)
  have ev: "frame_vlan example_switch 1 f = Some 0" "\<not> vlan_check example_switch 0 Notlearning 1"
    using f by (simp_all add: frame_vlan_def port_example vlan_check_example NOVLAN_def)
  have rc: "recipients example_switch 0 Bcuntag 1 = [2]" "recipients example_switch 0 Bctag 1 = [3]"
    by (simp_all add: recipients_def example_fields vlan_check_example upt_rec)
  have "length example_buf = 20" by (simp add: example_buf_def)
  then have "outs (handle_in_packet True (new_endpoint 1 10 11) (example_buf, 4, 16) example_switch) =
      forward_spec example_switch 1 0 False f (- 1)"
    using handle_in_packet_refines [OF example_wf example_endpoints(1), of 16 4 example_buf f True] f ev
    by (simp add: example_fields f_def [symmetric] target_def)
  then show ?thesis
    by (simp add: forward_spec_def rc [unfolded One_nat_def] deliver_def pview_example untagged_form_def tagged_form_def f
        add_tag_def example_buf_def)
qed

section \<open>Hub\<close>

lemma hub_events:
  assumes "struct_ok s" and "pkt_out s = []"
  shows "\<exists>s'. fold (\<lambda>i (len, s). if i \<noteq> port \<and> get_port i s \<noteq> None then SEND_TO i (buf, off, len) s else (len, s)) is (len, s) = (len, s') \<and>
    outs s' = outs s @ concat (map (\<lambda>i. deliver s i (frame_of (buf, off, len))) (filter (\<lambda>i. i \<noteq> port) is)) \<and>
    hash s' = hash s"
  using assms
proof (induction "is" arbitrary: s)
  case (Cons i "is")
  show ?case
  proof (cases "i \<noteq> port \<and> get_port i s \<noteq> None")
    case True
    then obtain s1 where s1: "SEND_TO i (buf, off, len) s = (len, s1)" "outs s1 = outs s @ deliver s i (frame_of (buf, off, len))"
      "stp_ok {} s s1" "pkt_out s1 = []"
      using SEND_TO_events [OF Cons.prems(1) _ Cons.prems(2), of i buf off len] by (auto simp flip: pview_None)
    have "hash s1 = hash s" using hash_SEND_TO [of i "(buf, off, len)" s] by (simp add: s1(1))
    then show ?thesis
      using Cons.IH [of s1] s1 True deliver_cong [OF stp_ok_simps(3) [OF s1(3)]] by (simp add: stp_ok_def)
  next
    case False
    then have "i \<noteq> port \<Longrightarrow> deliver s i (frame_of (buf, off, len)) = []" by (simp add: deliver_def pview_def)
    then show ?thesis using Cons.IH [OF Cons.prems] False by auto
  qed
qed simp

text \<open>
  In hub mode a packet is repeated, byte for byte, to all the endpoints of all the other
  ports but the management port 0, whatever their VLANs, and no address is learned.
\<close>

theorem hub_repeats:
  assumes wf: "switch_wf sw" and ep: "endpoint_of sw ep" and flt: "pkt_in sw = []" "pkt_out sw = []"
    and hub: "pflag sw AND HUB_TAG \<noteq> 0"
  shows "outs (handle_in_packet mem ep (buf, off, len) sw) =
      outs sw @ concat (map (\<lambda>i. deliver sw i (frame_of (buf, off, len))) (filter (\<lambda>i. i \<noteq> ep_port ep) [1..<numports sw])) \<and>
    hash (handle_in_packet mem ep (buf, off, len) sw) = hash sw"
proof -
  let ?s = "counted (ep_port ep) len sw"
  obtain q where q: "get_port (ep_port ep) sw = Some q" using ep by (auto simp: endpoint_of_def split: option.splits)
  note C = counted_frame [OF q, of len]
  have "handle_in_packet mem ep (buf, off, len) sw = hub_packet (ep_port ep) (buf, off, len) ?s"
    using hub by (simp add: handle_in_packet_def PACKETFILTER_def flt counted_def Let_def)
  moreover have "struct_ok ?s" by (rule switch_wfD(1) [OF counted_wf [OF wf q]])
  ultimately show ?thesis
    using hub_events [of ?s "ep_port ep" buf off "[1..<numports sw]" len] C flt deliver_cong [OF C(1)]
    by (auto simp: hub_packet_def)
qed

theorem hub_repeats_witness:
  "outs (handle_in_packet True (new_endpoint 1 10 11) (example_buf, 4, 16) (example_switch\<lparr>pflag := HUB_TAG\<rparr>)) =
     [Sent ''unix'' 20 21 (drop 4 example_buf) 2, Sent ''unix'' 30 31 (drop 4 example_buf) 3]"
proof -
  define s where "s = example_switch\<lparr>pflag := HUB_TAG\<rparr>"
  have "pview s = pview example_switch" by (simp add: fun_eq_iff pview_def s_def)
  then have d: "deliver s = deliver example_switch" by (rule deliver_cong)
  have "switch_wf s" unfolding s_def by (rule wf_pflag [OF example_wf])
  moreover have "endpoint_of s (new_endpoint 1 10 11)" using example_endpoints(1) by (simp add: endpoint_of_def s_def)
  moreover have "pkt_in s = []" "pkt_out s = []" "pflag s AND HUB_TAG \<noteq> 0" "outs s = []" "numports s = 4"
    by (simp_all add: s_def example_fields HUB_TAG_def)
  moreover have "filter (\<lambda>i. i \<noteq> 1) [1..<4] = [2, 3 :: nat]" by (simp add: upt_rec)
  ultimately show ?thesis
    using hub_repeats [of s "new_endpoint 1 10 11" True example_buf 4 16] unfolding d s_def [symmetric]
    by (simp add: deliver_def pview_example frame_of_def example_buf_def)
qed

section \<open>Learning\<close>

lemma broadcast_hash: "hash (snd (broadcast v f port pkt s)) = hash s"
proof -
  obtain buf off len where pkt: "pkt = (buf, off, len)" using prod_cases3 by blast
  define body where "body = (\<lambda>i (len, s). if i \<noteq> port then SEND_TO i (buf, off, len) s else (len, s))"
  have "hash (snd (ba_FORALL (\<lambda>(_, s). vlant s v f) (numports s) body (len, s))) = hash s"
    by (rule ba_FORALL_inv [where I = "\<lambda>ls. hash (snd ls) = hash s" and Q = "\<lambda>_. True"])
      (auto simp: body_def frame_simps)
  then show ?thesis unfolding pkt broadcast_def body_def by (simp add: crash_def)
qed

lemma send_dst_hash:
  "hash (send_dst_broadcast port v tagged pkt s) = hash s" "hash (send_dst_unicast port v tagged t pkt s) = hash s"
  by (cases pkt; simp add: send_dst_broadcast_def case_prod_beta broadcast_hash)
    (simp add: send_dst_unicast_def frame_simps crash_def split: option.split)

text \<open>
  C6: learning. After a packet from an unicast source address has been accepted on a port,
  the table finds the address, in the VLAN of the packet, on that port, unless the station was
  seen on another port within the minimum persistence; the other addresses and VLANs are as
  before.
\<close>

theorem station_learned:
  assumes wf: "switch_wf sw" and ep: "endpoint_of sw ep" and hub: "pflag sw AND HUB_TAG = 0"
    and pf: "PACKETFILTER (pkt_in sw) (ep_port ep) (drop off buf) len0 = (True, len)"
    and bpdu: "\<not> (ISBPDU (drop off buf) \<and> fst_pflag sw AND FSTP_TAG \<noteq> 0)"
    and v: "frame_vlan sw (ep_port ep) (drop off buf) = Some v" "\<not> vlan_check sw v Notlearning (ep_port ep)"
    and src: "\<not> IS_BROADCAST (pkt_src (drop off buf))"
  shows "hash_look (hash (handle_in_packet True ep (buf, off, len0) sw)) =
    (hash_look (hash sw))(extmac (pkt_src (drop off buf)) (int v) :=
       (case hash_look (hash sw) (extmac (pkt_src (drop off buf)) (int v)) of
          None \<Rightarrow> Some (int (ep_port ep), qtime (timers sw))
        | Some (port, seen) \<Rightarrow>
            if port = int (ep_port ep) \<or> qtime (timers sw) - seen > min_persistence (hash sw)
            then Some (int (ep_port ep), qtime (timers sw)) else Some (port, seen)))"
proof -
  let ?i = "ep_port ep" and ?p = "drop off buf" and ?s = "counted (ep_port ep) len sw"
  obtain q where q: "get_port ?i sw = Some q" using ep by (auto simp: endpoint_of_def split: option.splits)
  note C = counted_frame [OF q, of len]
  have "\<not> (ISBPDU ?p \<and> fst (fstflag P_GETFLAG FSTP_TAG ?s) \<noteq> 0)" using bpdu C(7) by (simp add: fstflag_def)
  moreover have "\<not> vlan_check ?s v Notlearning ?i" using v C(2) by simp
  ultimately have "hash (handle_in_packet True ep (buf, off, len0) sw) = learned True ?s v ?i ?p"
    using switch_packet_cases [of off buf ?s v ?i _ True "pkt_tagged ?p" len] handle_in_packet_switch [OF pf hub q, of True] v
    by (simp add: send_dst_hash)
  also have "\<dots> = hash_learn True (qtime (timers sw)) (pkt_src ?p) (int v) (int ?i) (hash sw)"
    using src C(3,4) by (simp add: learned_def)
  finally show ?thesis
    using find_in_hash_update_cases [OF struct_okD(9) [OF switch_wfD(1) [OF wf]] prod.collapse [symmetric]]
    by (simp add: hash_learn_def learn_entry_def)
qed

theorem station_learned_witness:
  "hash_look (hash (handle_in_packet True (new_endpoint 1 10 11) (example_buf, 4, 16) example_switch))
     (extmac [2, 0, 0, 0, 0, 1] 0) = Some (1, 0)"
proof -
  define p where "p = drop 4 example_buf"
  have p: "\<not> pkt_tagged p" "pkt_src p = [2, 0, 0, 0, 0, 1]" "\<not> IS_BROADCAST (pkt_src p)" "\<not> ISBPDU p"
    by (simp_all add: p_def example_buf_def pkt_tagged_def IS_BROADCAST_def pkt_src_def ETH_ALEN_def ISBPDU_def bpduaddrp_def)
  have pf: "PACKETFILTER (pkt_in example_switch) (ep_port (new_endpoint 1 10 11)) p 16 = (True, 16)"
    by (simp add: PACKETFILTER_def example_fields)
  have v: "frame_vlan example_switch (ep_port (new_endpoint 1 10 11)) p = Some 0"
    "\<not> vlan_check example_switch 0 Notlearning (ep_port (new_endpoint 1 10 11))"
    using p by (simp_all add: frame_vlan_def port_example vlan_check_example NOVLAN_def)
  have t: "timers example_switch = qtimer_start" by (simp add: example_switch_def switch_zero_def)
  show ?thesis
    using station_learned [OF example_wf example_endpoints(1) _ pf [unfolded p_def] _ v [unfolded p_def]] p
    by (simp add: p_def [symmetric] example_fields hash_look_empty_hash t qtime_def qtimer_start_def)
qed

end
