(* ===== verification/Spanning.thy ===== *)
theory Spanning
  imports Example
begin

text \<open>
  What the fast spanning tree of fstp.c computes: numbers and BPDUs as bytes and back, the
  comparison of BPDUs as an order, and the effect of a BPDU that announces a better root.
\<close>

section \<open>Numbers as bytes\<close>

lemma div_mod_256: "0 \<le> d \<Longrightarrow> d < 256 \<Longrightarrow> (q * 256 + d) div 256 = (q :: int) \<and> (q * 256 + d) mod 256 = d"
  by (simp add: div_add1_eq)

lemma word_of_int_u8: "y mod 256 = uint w \<Longrightarrow> word_of_int y = (w :: u8)"
  by (rule word_uint_eqI) (simp add: uint_word_of_int)

lemma byte_of_scast:
  fixes x :: u32
  assumes "k \<le> 24"
  shows "ucast (drop_bit k (scast x :: u64)) = (word_of_int (uint x div 2 ^ k) :: u8)"
proof -
  have "ucast (drop_bit k (scast x :: u64)) = (ucast (drop_bit k x) :: u8)"
    by (rule bit_word_eqI) (use assms in \<open>auto simp: bit_simps\<close>)
  moreover have "take_bit 32 (uint x) = uint x" using uint_lt2p [of x] by (simp add: take_bit_eq_mod)
  then have "uint (drop_bit k x) = uint x div 2 ^ k"
    by (subst unsigned_drop_bit_eq) (simp add: drop_bit_eq_div)
  ultimately show ?thesis by (simp only: ucast_eq)
qed

lemma nstringtol_int:
  "nstringtol [a, b, c, d] = scast (word_of_int (((uint a * 256 + uint b) * 256 + uint c) * 256 + uint d) :: u32)"
proof -
  have "push_bit 24 (ucast a) + push_bit 16 (ucast b) + push_bit 8 (ucast c) + (ucast d :: u32) =
      word_of_int (((uint a * 256 + uint b) * 256 + uint c) * 256 + uint d)"
    by (simp add: push_bit_eq_mult algebra_simps)
  then show ?thesis by (simp only: nstringtol_def nth_Cons_0 nth_Cons_numeral) (simp add: numeral_eq_Suc mult.commute)
qed

lemma ltonstring_nstringtol:
  assumes "length s = 4"
  shows "ltonstring (nstringtol s) = s"
proof -
  obtain a b c d where s: "s = [a, b, c, d]" using assms by (auto simp: length_Suc_conv numeral_eq_Suc)
  note l = byte_bounds [of a] byte_bounds [of b] byte_bounds [of c] byte_bounds [of d]
  define q2 where "q2 = uint a * 256 + uint b"
  define q1 where "q1 = q2 * 256 + uint c"
  define N where "N = q1 * 256 + uint d"
  have d: "N div 256 = q1" "N mod 256 = uint d" "q1 div 256 = q2" "q1 mod 256 = uint c" "q2 div 256 = uint a" "q2 mod 256 = uint b"
    using div_mod_256 [OF l(7,8), of q1] div_mod_256 [OF l(5,6), of q2] div_mod_256 [OF l(3,4), of "uint a"]
    unfolding N_def [symmetric] q1_def [symmetric] q2_def [symmetric] by blast+
  have "N div 2 ^ 16 = N div 256 div 256" "N div 2 ^ 24 = N div 256 div 256 div 256"
    by (simp_all add: zdiv_zmult2_eq [symmetric])
  then have d': "N div 2 ^ 16 = q2" "N div 2 ^ 24 = uint a" using d by simp_all
  have "0 \<le> N" "N < 2 ^ 32" using l by (simp_all add: N_def q1_def q2_def)
  then have u: "uint (word_of_int N :: u32) = N" by (simp add: uint_word_of_int)
  have "nstringtol s = scast (word_of_int N :: u32)"
    unfolding s nstringtol_int N_def q1_def q2_def ..
  moreover have "ucast (drop_bit 24 (scast (word_of_int N :: u32) :: u64)) = a"
    by (subst byte_of_scast, simp, rule word_of_int_u8, unfold u d', rule mod_pos_pos_trivial) (use l in simp_all)
  moreover have "ucast (drop_bit 16 (scast (word_of_int N :: u32) :: u64)) = b"
    by (subst byte_of_scast, simp, rule word_of_int_u8, unfold u d', rule d(6))
  moreover have "ucast (drop_bit 8 (scast (word_of_int N :: u32) :: u64)) = c"
    by (subst byte_of_scast, simp, rule word_of_int_u8, unfold u) (use d in simp)
  moreover have "ucast (drop_bit 0 (scast (word_of_int N :: u32) :: u64)) = d"
    by (subst byte_of_scast, simp, rule word_of_int_u8, unfold u) (use d in simp)
  ultimately show ?thesis unfolding ltonstring_def s by (simp only: drop_bit_0 id_apply)
qed

section \<open>Comparing BPDUs\<close>

lemma memcmp_append:
  "length xs = length ys \<Longrightarrow> memcmp (xs @ xs') (ys @ ys') = (if memcmp xs ys \<noteq> 0 then memcmp xs ys else memcmp xs' ys')"
  by (induction xs ys rule: memcmp.induct) auto

definition held_vector :: "vlst \<Rightarrow> bytes" where
  "held_vector w = v_root w @ v_rootcost w @ v_dessw w @ v_port w"

text \<open>The lengths of the byte fields of a \<open>struct vlst\<close> and of the packet prototypes.\<close>

definition vlst_sizes :: "vlst \<Rightarrow> bool" where
  "vlst_sizes w \<longleftrightarrow> length (v_root w) = 8 \<and> length (v_rootcost w) = 4 \<and> length (v_dessw w) = 8 \<and> length (v_port w) = 2"

definition proto_sizes :: "switch \<Rightarrow> bool" where
  "proto_sizes sw \<longleftrightarrow> length (out_src sw) = 6 \<and> length (out_bridge sw) = 8 \<and> length (out_hello sw) = 2 \<and> length (out_maxage sw) = 2"

text \<open>
  C15: the comparison of BPDUs is the lexicographic order on the vector of root identifier,
  cost, bridge identifier and port: positive when the vector received is smaller (a better
  root), zero when it is the one held, negative when it is larger.
\<close>

theorem bpdu_compare_lexicographic:
  assumes "vlst_sizes w" and "length root = 8" "length cost = 4" "length bridge = 8" "length port = 2"
  shows "(0 < bpdu_compare w root cost bridge port \<longleftrightarrow> root @ cost @ bridge @ port < held_vector w) \<and>
    (bpdu_compare w root cost bridge port = 0 \<longleftrightarrow> root @ cost @ bridge @ port = held_vector w) \<and>
    (bpdu_compare w root cost bridge port < 0 \<longleftrightarrow> held_vector w < root @ cost @ bridge @ port)"
proof -
  have "bpdu_compare w root cost bridge port = memcmp (held_vector w) (root @ cost @ bridge @ port)"
    using assms by (simp add: bpdu_compare_def held_vector_def memcmp_append vlst_sizes_def Let_def)
  moreover have "length (held_vector w) = length (root @ cost @ bridge @ port)"
    using assms by (simp add: held_vector_def vlst_sizes_def)
  ultimately show ?thesis by (auto simp: memcmp_iffs)
qed

theorem bpdu_compare_lexicographic_witness:
  "0 < bpdu_compare example_vlst [0x10, 0, 0, 0xff, 9, 9, 9, 9] [0, 0, 0, 0] (replicate 8 1) [0x80, 1]"
proof -
  have "vlst_sizes example_vlst" by (simp add: vlst_sizes_def example_vlst_def)
  then show ?thesis
    using bpdu_compare_lexicographic [of example_vlst "[0x10, 0, 0, 0xff, 9, 9, 9, 9]" "[0, 0, 0, 0]" "replicate 8 1" "[0x80, 1]"]
    by (simp add: held_vector_def example_vlst_def)
qed

section \<open>BPDUs on the wire\<close>

definition bpdu_fields :: "bytes \<Rightarrow> u8 \<times> u8 \<times> u8 \<times> bytes \<times> bytes \<times> bytes \<times> bytes" where
  "bpdu_fields p = (stp_version p, stp_type p, stp_flags p, stp_root p, stp_rootcost p, stp_bridge p, stp_port p)"

lemma bpdu_fields_build:
  assumes "length h = 14" and "length root = 8" "length cost = 4" "length bridge = 8" "length port = 2"
  shows "bpdu_fields (h @ [a, b, c, d, e, ver, ty, flags] @ root @ cost @ bridge @ port @ rest) =
    (ver, ty, flags, root, cost, bridge, port)"
  using assms
  by (simp add: bpdu_fields_def stp_version_def stp_type_def stp_flags_def stp_root_def stp_rootcost_def stp_bridge_def
      stp_port_def field_def SWITCHID_LEN_def nth_append)

text \<open>
  C34: round trip of BPDUs. What \<open>fst_sendbpdu\<close> and \<open>fst_hello_vlan\<close> put on the wire, untagged or
  tagged, is recognised as a BPDU by the receiving switch, belongs to the VLAN it was sent for,
  is long enough, and gives back the fields of the sender.
\<close>

theorem bpdu_roundtrip:
  assumes "vlst_sizes w" and "proto_sizes sw" and "vlan < 4096"
  shows "ISBPDU (fstbpdu sw w port flags) \<and> length (fstbpdu sw w port flags) = 53 \<and> \<not> pkt_tagged (fstbpdu sw w port flags) \<and>
    bpdu_fields (fstbpdu sw w port flags) =
      (2, 2, flags, v_root w, v_rootcost w, out_bridge sw, bpdu_port port) \<and>
    ISBPDU (fsttagbpdu sw w vlan port flags) \<and> length (fsttagbpdu sw w vlan port flags) = 57 \<and>
    pkt_tagged (fsttagbpdu sw w vlan port flags) \<and> pkt_vlan (fsttagbpdu sw w vlan port flags) = vlan \<and>
    bpdu_fields (drop 4 (fsttagbpdu sw w vlan port flags)) =
      (2, 2, flags, v_root w, v_rootcost w, out_bridge sw, bpdu_port port)"
proof -
  note z = assms(1,2) [unfolded vlst_sizes_def proto_sizes_def]
  have b: "length (bpdu_port port) = 2" "length bpduaddrp = 6" by (simp_all add: bpdu_port_def bpduaddrp_def)
  have "bpdu_fields (fstbpdu sw w port flags) = (2, 2, flags, v_root w, v_rootcost w, out_bridge sw, bpdu_port port)"
    using z b bpdu_fields_build [of "bpduaddrp @ out_src sw @ [0x00, 0x27]" "v_root w" "v_rootcost w" "out_bridge sw" "bpdu_port port"]
    by (simp add: fstbpdu_def bpdu_body_def)
  moreover have "bpdu_fields (drop 4 (fsttagbpdu sw w vlan port flags)) =
      (2, 2, flags, v_root w, v_rootcost w, out_bridge sw, bpdu_port port)"
    using z b bpdu_fields_build [of "drop 4 bpduaddrp @ out_src sw @ [0x81, 0x00, of_nat ((vlan div 256) mod 16), of_nat vlan, 0x00, 0x27]"
        "v_root w" "v_rootcost w" "out_bridge sw" "bpdu_port port"]
    by (simp add: fsttagbpdu_def bpdu_body_def)
  moreover have "pkt_vlan (fsttagbpdu sw w vlan port flags) = vlan"
    using z b assms(3) by (simp add: fsttagbpdu_def pkt_vlan_def nth_append unat_of_nat take_bit_eq_mod)
  ultimately show ?thesis
    using z b by (simp add: ISBPDU_def fstbpdu_def fsttagbpdu_def bpdu_body_def ETH_ALEN_def pkt_tagged_def nth_append Let_def)
qed

theorem bpdu_roundtrip_witness:
  "bpdu_fields (drop 4 (fsttagbpdu example_switch example_vlst 5 3 0x3c)) =
     (2, 2, 0x3c, [0x80, 0, 0, 0xff, 1, 2, 3, 4], replicate 4 0, replicate 8 0, [0x80, 3])"
proof -
  have "vlst_sizes example_vlst" by (simp add: vlst_sizes_def example_vlst_def)
  moreover have "proto_sizes example_switch" by (simp add: proto_sizes_def example_switch_def switch_zero_def ETH_ALEN_def SWITCHID_LEN_def)
  ultimately show ?thesis
    using bpdu_roundtrip [of example_vlst example_switch 5 3 "0x3c"]
    by (simp add: example_vlst_def example_switch_def switch_zero_def SWITCHID_LEN_def bpdu_port_def)
qed

lemma u8_mod: "(of_nat x :: u8) = of_nat y \<Longrightarrow> x mod 256 = y mod 256"
  by (drule arg_cong [where f = unat]) (simp add: unat_of_nat take_bit_eq_mod)

lemma or_128:
  assumes "x < 128"
  shows "(0x80 :: u8) OR of_nat x = of_nat (128 + x)" "(0x80 :: u8) OR of_nat (x + 128) = of_nat (128 + x)"
proof -
  have "\<forall>x \<in> set [0..<128]. (0x80 :: u8) OR of_nat x = of_nat (128 + x) \<and> (0x80 :: u8) OR of_nat (x + 128) = of_nat (128 + x)"
    by code_simp
  then show "(0x80 :: u8) OR of_nat x = of_nat (128 + x)" "(0x80 :: u8) OR of_nat (x + 128) = of_nat (128 + x)"
    using assms by auto
qed

text \<open>
  The cost and port fields. A cost read from a BPDU and written again is unchanged; two
  ports below 2048 have different port fields, and from 2048 on the field no longer identifies
  the port.
\<close>

theorem bpdu_fields_faithful:
  assumes "length s = 4" and "port < 2048" "port' < 2048"
  shows "ltonstring (nstringtol s) = s \<and> (bpdu_port port = bpdu_port port' \<longleftrightarrow> port = port') \<and>
    bpdu_port (port + 2048) = bpdu_port port"
proof -
  have port: "port = port'"
    if "port div 16 < 128" "port' div 16 < 128" "(of_nat (128 + port div 16) :: u8) = of_nat (128 + port' div 16)"
      "(of_nat port :: u8) = of_nat port'"
  proof -
    have "128 + port div 16 = 128 + port' div 16" using u8_mod [OF that(3)] that(1,2) by simp
    moreover have "port mod 256 = port' mod 256" by (rule u8_mod [OF that(4)])
    moreover have "port mod 16 = port' mod 16" using calculation(2) mod_mod_cancel [of 16 256 port] mod_mod_cancel [of 16 256 port'] by simp
    ultimately show ?thesis by (metis add_left_cancel div_mult_mod_eq)
  qed
  have div: "port div 16 < 128" "port' div 16 < 128" "(port + 2048) div 16 = port div 16 + 128" using assms by auto
  have "(of_nat (port + 2048) :: u8) = of_nat port + of_nat 2048" by simp
  then have "(of_nat (port + 2048) :: u8) = of_nat port" by simp
  then show ?thesis
    using port div or_128 [OF div(1)] or_128 [OF div(2)] ltonstring_nstringtol [OF assms(1)]
    by (auto simp: bpdu_port_def)
qed

theorem bpdu_fields_faithful_witness:
  "ltonstring (nstringtol [1, 2, 3, 200]) = [1, 2, 3, 200] \<and> bpdu_port 31 \<noteq> bpdu_port 287"
  using bpdu_fields_faithful [of "[1, 2, 3, 200]" 31 287] by simp

section \<open>Election of the root\<close>

definition vinfo :: "switch \<Rightarrow> nat \<Rightarrow> (bytes \<times> bytes \<times> bytes \<times> bytes \<times> nat \<times> u32) option" where
  "vinfo sw v = map_option (\<lambda>w. (v_root w, v_rootcost w, v_dessw w, v_port w, v_rootport w, v_roottimestamp w)) (fsttab sw v)"

lemma forall_ports_frame:
  assumes "\<And>i s. g (f i s) = g s" and "\<And>s. g (crash s) = g s"
  shows "g (forall_ports rd n f sw) = g sw"
  using ba_FORALL_inv [where I = "\<lambda>s. g s = g sw" and Q = "\<lambda>_. True" and f = f and rd = rd and s = sw and n = n] assms
  by (simp add: forall_ports_def)

lemma crash_frame [simp]:
  "vlant (crash s) = vlant s" "fsttab (crash s) = fsttab s" "hash (crash s) = hash s" "timers (crash s) = timers s"
  by (simp_all add: crash_def)

lemma port_send_packet_frame [simp]:
  "vlant (port_send_packet i p s) = vlant s" "fsttab (port_send_packet i p s) = fsttab s"
  "timers (port_send_packet i p s) = timers s"
  by (simp_all add: port_send_packet_def SEND_PACKET_PORT_def upd_port_def Let_def split: prod.split option.split)

lemma fst_sendbpdu_frame [simp]:
  "vlant (fst_sendbpdu v i a t c s) = vlant s" "fsttab (fst_sendbpdu v i a t c s) = fsttab s"
  "timers (fst_sendbpdu v i a t c s) = timers s"
  by (simp_all add: fst_sendbpdu_def Let_def split: option.split)

lemma port_set_status_frame [simp]:
  "fsttab (port_set_status i v st s) = fsttab s" "timers (port_set_status i v st s) = timers s"
  by (simp_all add: port_set_status_def vlan_set_def vlan_clr_def Let_def split: status.split option.split)

lemma fst_bit_frame [simp]:
  "vinfo (fst_set v fl i s) = vinfo s" "vinfo (fst_clr v fl i s) = vinfo s"
  "vlant (fst_set v fl i s) = vlant s" "vlant (fst_clr v fl i s) = vlant s"
  "timers (fst_set v fl i s) = timers s" "timers (fst_clr v fl i s) = timers s"
  by (auto simp: fun_eq_iff vinfo_def fst_set_def fst_clr_def upd_fst_def split: option.split)

lemma vinfo_frame [simp]:
  "vinfo (crash s) = vinfo s" "vinfo (fst_sendbpdu v i a t c s) = vinfo s" "vinfo (port_set_status i v st s) = vinfo s"
  by (simp_all add: fun_eq_iff vinfo_def)

lemma topology_change_keeps:
  assumes "\<And>i a t c s. g (fst_sendbpdu v i a t c s) = g s" "\<And>s. g (crash s) = g s"
    "\<And>x s. g (upd_fst v (\<lambda>w. w\<lparr>v_tctime := x\<rparr>) s) = g s" "\<And>h s. g (s\<lparr>hash := h\<rparr>) = g s"
  shows "g (topology_change v gen s) = g s"
  unfolding topology_change_def Let_def
  by (subst forall_ports_frame [where g = g], simp add: assms, simp add: assms)+ (simp add: assms)

lemma topology_change_frame:
  "vinfo (topology_change v gen s) = vinfo s" "vlant (topology_change v gen s) = vlant s"
  "timers (topology_change v gen s) = timers s" "fst_bits (topology_change v gen s) = fst_bits s"
  by (rule topology_change_keeps;
      auto simp: fun_eq_iff vinfo_def upd_fst_def fst_bits_def split: option.split)+

lemma fst_block_port_frame:
  "vinfo (fst_block_port v r i s) = vinfo s" "timers (fst_block_port v r i s) = timers s"
  by (simp_all add: fst_block_port_def)

lemma fst_block_keeps:
  "(\<And>i s. g (fst_block_port v r i s) = g s) \<Longrightarrow> (\<And>s. g (crash s) = g s) \<Longrightarrow> g (fst_block v r s) = g s"
  by (simp add: fst_block_def Let_def forall_ports_frame [where g = g])

lemma fst_block_frame: "vinfo (fst_block v r s) = vinfo s" "timers (fst_block v r s) = timers s"
  by (rule fst_block_keeps; simp add: fst_block_port_frame)+

lemma fstnewvlan_timers: "timers (snd (fstnewvlan mem v s)) = timers s"
  by (simp add: fstnewvlan_def fst_reset_def upd_fst_def forall_ports_frame [where g = timers] split: option.split)

text \<open>After \<open>fastprotocol\<close> the new root port forwards and every other port that speaks the protocol is blocked.\<close>

text \<open>A port that neither sends nor learns in a VLAN.\<close>

definition blocked :: "switch \<Rightarrow> nat \<Rightarrow> nat \<Rightarrow> bool" where
  "blocked s v j \<longleftrightarrow> port_get_status j v s = DISCARDING \<and> \<not> vlan_check s v Bctag j \<and> \<not> vlan_check s v Bcuntag j"

lemma blocked_iff: "blocked s v j \<longleftrightarrow> vlan_check s v Notlearning j \<and> \<not> vlan_check s v Bctag j \<and> \<not> vlan_check s v Bcuntag j"
  by (simp add: blocked_def port_get_status_def)

definition backup_blocked :: "switch \<Rightarrow> nat \<Rightarrow> nat \<Rightarrow> bool" where
  "backup_blocked s v j \<longleftrightarrow> (fst_check s v Backup j \<longrightarrow> blocked s v j)"

lemma fst_block_port_blocked:
  assumes ok: "struct_ok s" and cap: "ba_cap (fst_bits s v Backup) i" and tab: "vlan_check s v Table j" "vlan_check s v Table i"
    and b: "backup_blocked s v j"
  shows "backup_blocked (fst_block_port v r i s) v j"
proof (cases "fst_designated s v i r")
  case True
  define s1 where "s1 = port_set_status i v DISCARDING s"
  have "vlan_check (fst_block_port v r i s) = vlan_check s1"
    using True by (simp add: fst_block_port_def s1_def fun_eq_iff vlan_check_def)
  moreover have "blocked s1 v j \<longleftrightarrow> j = i \<or> blocked s v j"
    using port_set_status_check [OF ok tab(2), of DISCARDING] by (simp add: s1_def blocked_iff)
  moreover have "fst_check (fst_block_port v r i s) v Backup j \<longleftrightarrow> j = i \<or> fst_check s v Backup j"
  proof -
    have "fst_bits s1 = fst_bits s" by (simp add: s1_def fst_bits_def fun_eq_iff)
    moreover from this have "fst_check (fst_set v Backup i s1) v Backup j \<longleftrightarrow> j = i \<or> fst_check s1 v Backup j"
      using fst_set_simps(1) [of s1 v Backup i] cap by auto
    ultimately show ?thesis using True by (simp add: fst_block_port_def s1_def [symmetric] fst_check_def fst_bits_def)
  qed
  ultimately show ?thesis using b by (simp add: backup_blocked_def blocked_iff)
qed (use b in \<open>simp add: fst_block_port_def\<close>)

lemma fst_block_backup:
  assumes ok: "struct_ok sw" and v: "fsttab sw v \<noteq> None"
    and j: "member sw v j" "j \<noteq> r" "FSTP_ACTIVE sw v j" "\<not> fst_check sw v Edge j"
    and tab: "\<And>i. member sw v i \<Longrightarrow> vlan_check sw v Table i" and b: "backup_blocked sw v j"
  shows "fst_check (fst_block v r sw) v Backup j" and "blocked (fst_block v r sw) v j"
proof -
  let ?B = "fst_block_port v r"
  define I where "I = (\<lambda>s. stp_ok {v} sw s \<and> (\<forall>fl. fl \<noteq> Backup \<longrightarrow> fst_bits s v fl = fst_bits sw v fl))"
  define M where "M = (\<lambda>(S :: nat set) s. I s \<and> backup_blocked s v j \<and> (j \<in> S \<longrightarrow> fst_check s v Backup j))"
  have step: "M (insert i S) (?B i s)" if s: "M S s" and i: "member sw v i" for S i s
  proof -
    have Is: "I s" using s by (simp add: M_def)
    then have ok: "stp_ok {v} sw s" by (simp add: I_def)
    have fb: "fst_bits (port_set_status i v DISCARDING s) = fst_bits s" by (simp add: fst_bits_def fun_eq_iff)
    have cap: "ba_cap (fst_bits (port_set_status i v DISCARDING s) v Backup) i"
      using struct_cap(2) [OF stp_okD(1) [OF ok] stp_member(2) [OF ok i] stp_fst [OF ok v]] fb by simp
    have fs: "fst_bits (?B i s) v' fl = (if fst_designated s v i r \<and> v' = v \<and> fl = Backup
        then ba_set (fst_bits s v Backup) i else fst_bits s v' fl)" for v' fl
      using fst_set_bits [OF cap] fb by (simp add: fst_block_port_def fst_bits_def [of "fst_sendbpdu _ _ _ _ _ _"] flip: fst_bits_def)
    have "FSTP_ACTIVE s v j" "\<not> fst_check s v Edge j" using Is j by (auto simp: I_def FSTP_ACTIVE_def fst_check_def)
    then have "fst_designated s v j r \<or> fst_check s v Backup j" using j(2) by (auto simp: fst_designated_def)
    then have "fst_check (?B i s) v Backup j" if "i = j \<or> j \<in> S"
      using that s fs [of v Backup] cap fb by (auto simp: M_def fst_check_def ba.check_insert)
    moreover have "I (?B i s)" using Is fst_block_port_stp [OF ok v i] fs by (simp add: I_def)
    moreover have "backup_blocked (?B i s) v j"
      using s cap fb tab [OF i] tab [OF j(1)] stp_ok_simps(8) [OF ok]
      by (intro fst_block_port_blocked [OF stp_okD(1) [OF ok]]) (simp_all add: M_def)
    ultimately show ?thesis by (auto simp: M_def)
  qed
  have loop: "M (S \<union> {i. fst_check sw v fl i}) (forall_ports (\<lambda>s. fst_bits s v fl) (numports sw) ?B s)"
    if s: "M S s" and fl: "fl = Untag \<or> fl = Tagged" for S s fl
  proof -
    have st: "stp_ok {v} sw s" and bits: "fst_bits s v fl = fst_bits sw v fl" using s fl by (auto simp: M_def I_def)
    have mem: "member sw v i" if "fst_check sw v fl i" for i using that fl by (auto simp: member_def)
    have len: "length (fst_bits s v fl) = WORDSIZEROUND (numports sw)"
      using struct_okD(6) [OF ok] v by (simp add: arrays_ok_def bits)
    have "fst_bits (?B k t) v fl = fst_bits t v fl" for k t
      using fl by (auto simp: fst_block_port_def fst_bits_def fst_set_def upd_fst_def split: option.split)
    then have "forall_ports (\<lambda>s. fst_bits s v fl) (numports sw) ?B s = fold ?B (ba_members (fst_bits sw v fl) (numports sw)) s"
      using len by (simp add: forall_ports_def ba_FORALL_fold bits)
    moreover have "set (ba_members (fst_bits sw v fl) (numports sw)) = {i. fst_check sw v fl i}"
      using struct_member_less [OF ok mem] less_le_trans [OF _ less_WORDSIZEROUND [of "numports sw"]]
      by (auto simp: set_ba_members fst_check_def)
    moreover have "M (S \<union> set ks) (fold ?B ks s)" if "set ks \<subseteq> {i. fst_check sw v fl i}" for ks
    proof (rule fold_processed [where I = "\<lambda>T. M (S \<union> T)"])
      show "M (S \<union> {}) s" using s by simp
      show "M (S \<union> insert k T) (?B k t)" if "k \<in> set ks" "M (S \<union> T) t" for T k t
        using step [OF that(2) mem] that(1) \<open>set ks \<subseteq> {i. fst_check sw v fl i}\<close> by auto
    qed
    ultimately show ?thesis by (metis order_refl)
  qed
  have M0: "M {} sw" using stp_ok_refl [OF ok] b by (simp add: M_def I_def)
  define s1 where "s1 = forall_ports (\<lambda>s. fst_bits s v Untag) (fst_numports sw) ?B sw"
  have s1: "M {i. fst_check sw v Untag i} s1"
    using loop [OF M0, of Untag] struct_okD(3) [OF ok] by (simp add: s1_def)
  then have "stp_ok {v} sw s1" by (simp add: M_def I_def)
  then have "fst_numports s1 = numports sw" using stp_ok_simps(2) struct_okD(3) [OF ok] by simp
  then have "fst_block v r sw = forall_ports (\<lambda>s. fst_bits s v Tagged) (numports sw) ?B s1"
    by (simp add: fst_block_def Let_def s1_def)
  then have "M ({i. fst_check sw v Untag i} \<union> {i. fst_check sw v Tagged i}) (fst_block v r sw)" using loop [OF s1, of Tagged] by simp
  then show "fst_check (fst_block v r sw) v Backup j" "blocked (fst_block v r sw) v j"
    using j(1) by (auto simp: M_def member_def backup_blocked_def)
qed

lemma fastprotocol_effect:
  assumes ok: "struct_ok sw" and v: "fsttab sw v \<noteq> None" and r: "member sw v r" and tab: "vlan_check sw v Table r"
  shows "vinfo (fastprotocol v r sw) = vinfo sw" "timers (fastprotocol v r sw) = timers sw"
    "port_get_status r v (fastprotocol v r sw) = FORWARDING" "\<not> fst_check (fastprotocol v r sw) v Backup r"
    "(\<And>i. member sw v i \<Longrightarrow> vlan_check sw v Table i) \<Longrightarrow> backup_blocked sw v j \<Longrightarrow>
      member sw v j \<Longrightarrow> j \<noteq> r \<Longrightarrow> FSTP_ACTIVE sw v j \<Longrightarrow> \<not> fst_check sw v Edge j \<Longrightarrow>
      fst_check (fastprotocol v r sw) v Backup j \<and> blocked (fastprotocol v r sw) v j"
proof -
  define b where "b = fst_block v r sw"
  have sb: "stp_ok {v} sw b" unfolding b_def by (rule fst_block_stp [OF ok v]) simp
  have cap: "ba_cap (fst_bits b v Backup) r"
    by (rule struct_cap(2) [OF stp_okD(1) [OF sb] stp_member(2) [OF sb r] stp_fst [OF sb v]])
  define c where "c = fst_clr v Backup r b"
  have sc: "stp_ok {v} sw c"
    unfolding c_def using stp_member(2) [OF sb r] stp_fst [OF sb v] by (intro stp_then [OF sb] fst_clr_stp) auto
  have tc: "vlan_check c v Table r" using tab stp_ok_simps(8) [OF sc] by simp
  have eq: "fastprotocol v r sw = fst_sendbpdu v r True False False (port_set_status r v FORWARDING c)"
    by (simp add: fastprotocol_block b_def c_def)
  show "vinfo (fastprotocol v r sw) = vinfo sw" "timers (fastprotocol v r sw) = timers sw"
    by (simp_all add: eq c_def b_def fst_block_frame)
  have vb: "vlan_check (fastprotocol v r sw) = vlan_check (port_set_status r v FORWARDING c)"
    by (simp add: eq fun_eq_iff vlan_check_def)
  then show "port_get_status r v (fastprotocol v r sw) = FORWARDING"
    using port_set_status_check [OF stp_okD(1) [OF sc] tc] by (auto simp: port_get_status_def)
  have fb: "fst_check (fastprotocol v r sw) = fst_check c" by (simp add: eq fun_eq_iff fst_check_def fst_bits_def)
  show "\<not> fst_check (fastprotocol v r sw) v Backup r"
    unfolding fb c_def fst_clr_simps(1) [OF cap] by simp
  show "fst_check (fastprotocol v r sw) v Backup j \<and> blocked (fastprotocol v r sw) v j"
    if "\<And>i. member sw v i \<Longrightarrow> vlan_check sw v Table i" "backup_blocked sw v j"
      "member sw v j" "j \<noteq> r" "FSTP_ACTIVE sw v j" "\<not> fst_check sw v Edge j"
  proof -
    note B = fst_block_backup [OF ok v that(3-6) that(1,2), folded b_def]
    have "blocked (fastprotocol v r sw) v j"
      using B(2) that(4) port_set_status_check [OF stp_okD(1) [OF sc] tc, of FORWARDING]
      unfolding blocked_iff vb by (simp add: c_def vlan_check_def)
    then show ?thesis using B(1) that(4) unfolding fb c_def fst_clr_simps(1) [OF cap] by simp
  qed
qed

lemma fstnewvlan_bits:
  assumes "fsttab s v \<noteq> None" and "fl \<noteq> Backup"
  shows "fst_bits (snd (fstnewvlan mem v s)) v fl = fst_bits s v fl"
proof -
  have "fst_bits (fst_clr v Backup i t) v fl = fst_bits t v fl" for i t
    using assms(2) by (simp add: fst_clr_def upd_fst_def fst_bits_def split: option.split)
  then have "fst_bits (port_set_status i v st (fst_clr v Backup i t)) v fl = fst_bits t v fl" for i st t
    by (simp add: fst_bits_def)
  then have "fst_bits (forall_ports rd n (\<lambda>i t. port_set_status i v FORWARDING (fst_clr v Backup i t)) t) v fl = fst_bits t v fl"
    for rd n t
    by (intro forall_ports_frame [where g = "\<lambda>s. fst_bits s v fl"]) (simp_all add: fst_bits_def)
  then show ?thesis using assms(1) by (auto simp: fstnewvlan_def fst_reset_def upd_fst_def fst_bits_def)
qed

lemma fstnewvlan_blocked:
  assumes ok: "struct_ok sw" and v: "fsttab sw v \<noteq> None" and tab: "\<And>i. member sw v i \<Longrightarrow> vlan_check sw v Table i"
    and b: "backup_blocked sw v j"
  shows "backup_blocked (snd (fstnewvlan mem v sw)) v j"
proof -
  let ?f = "\<lambda>port s. port_set_status port v FORWARDING (fst_clr v Backup port s)"
  define sw1 where "sw1 = upd_fst v (\<lambda>w. w\<lparr>v_root := myid sw, v_rootcost := replicate 4 0, v_dessw := replicate SWITCHID_LEN 0xff,
      v_port := replicate 2 0, v_rootport := 0, v_roottimestamp := 0\<rparr>) sw"
  define I where "I = (\<lambda>s. stp_ok {} sw s \<and> backup_blocked s v j)"
  have step: "I (?f i s)" if s: "I s" and i: "member sw v i" for i s
  proof -
    have st: "stp_ok {} sw s" and bs: "backup_blocked s v j" using s by (auto simp: I_def)
    have cap: "ba_cap (fst_bits s v Backup) i"
      by (rule struct_cap(2) [OF stp_okD(1) [OF st] stp_member(2) [OF st i] stp_fst [OF st v]])
    define c where "c = fst_clr v Backup i s"
    have c: "stp_ok {} sw c"
      unfolding c_def using stp_member(2) [OF st i] stp_fst [OF st v] by (intro stp_then [OF st] fst_clr_stp) auto
    have "vlan_check c v Table i" using tab [OF i] stp_ok_simps(8) [OF c] by simp
    from port_set_status_check [OF stp_okD(1) [OF c] this, of FORWARDING]
    have "j \<noteq> i \<Longrightarrow> blocked (?f i s) v j \<longleftrightarrow> blocked s v j"
      by (simp add: c_def vlan_check_def blocked_iff)
    moreover have "fst_check (?f i s) v Backup j \<longleftrightarrow> j \<noteq> i \<and> fst_check s v Backup j"
      using fst_clr_simps(1) [OF cap] by (auto simp: fst_check_def fst_bits_def)
    ultimately show ?thesis using bs backup_forward_stp [OF st v i] by (simp add: I_def backup_blocked_def)
  qed
  have "I sw1"
    using b upd_fst_stp [OF ok v] v unfolding sw1_def
    by (auto simp: I_def backup_blocked_def blocked_iff fst_check_def fst_bits_def upd_fst_def vlan_check_def)
  then have "I (forall_ports (\<lambda>s. fst_bits s v Backup) (fst_numports sw) ?f sw1)"
    by (rule forall_ports_inv [where V = "{}", OF _ v]) (use step struct_okD(3) [OF ok] in \<open>auto simp: I_def\<close>)
  then show ?thesis using v by (auto simp: I_def fstnewvlan_def fst_reset_def sw1_def)
qed

lemma vinfo_upd_fst:
  "fsttab s v = Some w \<Longrightarrow> vinfo (upd_fst v f s) v =
     Some (v_root (f w), v_rootcost (f w), v_dessw (f w), v_port (f w), v_rootport (f w), v_roottimestamp (f w))"
  by (simp add: vinfo_def upd_fst_def)

lemma fst_newroot_effect:
  assumes ok: "struct_ok sw" and v: "fsttab sw v \<noteq> None" and r: "member sw v r" and tab: "vlan_check sw v Table r"
    and s: "s = fst_newroot v r w root cost bridge pport sw"
  shows "vinfo s v = Some (root, cost, bridge, pport, r, now_u32 sw)" "flushed v s"
    "port_get_status r v s = FORWARDING" "\<not> fst_check s v Backup r"
    "(\<And>i. member sw v i \<Longrightarrow> vlan_check sw v Table i) \<Longrightarrow> backup_blocked sw v j \<Longrightarrow>
      member sw v j \<Longrightarrow> j \<noteq> r \<Longrightarrow> FSTP_ACTIVE sw v j \<Longrightarrow> \<not> fst_check sw v Edge j \<Longrightarrow>
      fst_check s v Backup j \<and> blocked s v j"
proof -
  define s1 where "s1 = (if memcmp (v_root w) (out_src sw @ [0x00, 0x27]) \<le> 0 then snd (fstnewvlan 7 v sw) else sw)"
  have k1: "stp_ok {v} sw s1"
    using fstnewvlan_stp [OF ok v] stp_ok_refl [OF ok] by (simp add: s1_def)
  obtain w1 where w1: "fsttab s1 v = Some w1" using stp_fst [OF k1 v] by blast
  define s2 where "s2 = upd_fst v (\<lambda>w. w\<lparr>v_root := root, v_rootcost := cost, v_dessw := bridge, v_port := pport,
                   v_rootport := r, v_roottimestamp := now_u32 s1\<rparr>) s1"
  have k2: "stp_ok {v} sw s2"
    unfolding s2_def by (rule stp_then [OF k1]) (rule upd_fst_stp [OF _ stp_fst [OF k1 v]]; simp)
  have t1: "timers s1 = timers sw" by (simp add: s1_def fstnewvlan_timers)
  have vi: "vinfo s2 v = Some (root, cost, bridge, pport, r, now_u32 sw)"
    unfolding s2_def by (simp add: vinfo_upd_fst [OF w1] t1 now_u32_def)
  have hist: "fst_bits s2 v fl = fst_bits sw v fl" if "fl = Edge \<or> fl = Rcvhist0 \<or> fl = Rcvhist1" for fl
  proof -
    have "fst_bits s1 v fl = fst_bits sw v fl" using that fstnewvlan_bits [OF v, of fl 7] by (auto simp: s1_def)
    then show ?thesis by (simp add: s2_def upd_fst_def w1 fst_bits_def)
  qed
  note E = fastprotocol_effect [OF stp_okD(1) [OF k2] stp_fst [OF k2 v] stp_member(3) [OF k2 r]]
  have tab2: "vlan_check s2 v Table r" using tab stp_ok_simps(8) [OF k2] by simp
  have eq: "s = topology_change v r (fastprotocol v r s2)"
    by (simp add: s fst_newroot_def Let_def s1_def s2_def)
  have k3: "stp_ok {v} sw (fastprotocol v r s2)"
    using stp_fst [OF k2 v] stp_member(3) [OF k2 r] by (intro stp_then [OF k2] fastprotocol_stp) auto
  show "vinfo s v = Some (root, cost, bridge, pport, r, now_u32 sw)"
    by (simp add: eq topology_change_frame E [OF tab2] vi)
  show "flushed v s" unfolding eq by (rule topology_change_flushed [OF stp_okD(1) [OF k3] stp_fst [OF k3 v]])
  have fc: "fst_check s = fst_check (fastprotocol v r s2)" by (simp add: eq fun_eq_iff fst_check_def topology_change_frame)
  have "vlan_check s = vlan_check (fastprotocol v r s2)" by (simp add: eq fun_eq_iff vlan_check_def topology_change_frame)
  then have gs: "port_get_status k v s = port_get_status k v (fastprotocol v r s2)" "blocked s v k = blocked (fastprotocol v r s2) v k" for k
    unfolding port_get_status_def blocked_iff by (simp_all only:)
  show "port_get_status r v s = FORWARDING" using E(3) [OF tab2] gs by simp
  show "\<not> fst_check s v Backup r" using E(4) [OF tab2] fc by simp
  show "fst_check s v Backup j \<and> blocked s v j"
    if tab': "\<And>i. member sw v i \<Longrightarrow> vlan_check sw v Table i" and b: "backup_blocked sw v j"
      and j: "member sw v j" "j \<noteq> r" "FSTP_ACTIVE sw v j" "\<not> fst_check sw v Edge j"
  proof -
    have b1: "backup_blocked s1 v j" using b fstnewvlan_blocked [OF ok v tab' b] by (simp add: s1_def)
    have "fst_check s2 v fl i = fst_check s1 v fl i" "vlan_check s2 v f i = vlan_check s1 v f i" for fl f i
      by (simp_all add: s2_def upd_fst_def w1 fst_check_def fst_bits_def vlan_check_def)
    then have "backup_blocked s2 v j" using b1 by (simp add: backup_blocked_def blocked_iff)
    moreover have "vlan_check s2 v Table i" if "member s2 v i" for i using that tab' stp_ok_simps(8,9) [OF k2] by simp
    ultimately show ?thesis
      using E(5) [OF tab2, of j] j hist stp_ok_simps(9) [OF k2] fc gs by (simp add: FSTP_ACTIVE_def fst_check_def)
  qed
qed

definition vbonus :: "switch \<Rightarrow> nat \<Rightarrow> (nat \<times> int) option" where
  "vbonus sw v = map_option (\<lambda>w. (v_bonusport w, v_bonuscost w)) (fsttab sw v)"

lemma port_getcost_send: "port_getcost j (port_send_packet i p s) = port_getcost j s"
  by (auto simp: port_getcost_def port_send_packet_def SEND_PACKET_PORT_def upd_port_def crash_def get_port_def
      nth_list_update Let_def split: prod.split option.split)

lemma port_getcost_sendbpdu: "port_getcost j (fst_sendbpdu v i a t c s) = port_getcost j s"
  by (simp add: fst_sendbpdu_def Let_def port_getcost_send split: option.split)
    (simp add: port_getcost_def crash_def)

lemma cost_frame:
  "vbonus (topology_change v gen s) = vbonus s" "vbonus (fst_set v fl i s) = vbonus s"
  "port_getcost j (topology_change v gen s) = port_getcost j s" "port_getcost j (fst_set v fl i s) = port_getcost j s"
proof -
  show "vbonus (topology_change v gen s) = vbonus s"
    by (rule topology_change_keeps) (auto simp: fun_eq_iff vbonus_def upd_fst_def split: option.split)
  show "port_getcost j (topology_change v gen s) = port_getcost j s"
    by (rule topology_change_keeps [where g = "port_getcost j"], rule port_getcost_sendbpdu)
      (auto simp: port_getcost_def get_port_def upd_fst_def crash_def split: option.split)
qed (auto simp: fun_eq_iff vbonus_def port_getcost_def get_port_def fst_set_def upd_fst_def crash_def split: option.split)

text \<open>
  C4: election of the root. When a port of the VLAN that is not an edge port receives a
  well-formed BPDU with a better vector than the one held, the switch adopts the announced
  root, cost and bridge, makes the port its forwarding root port, and forgets the addresses
  learned in the VLAN. Every other port that speaks the protocol and is not an edge port is blocked: it
  becomes a backup port and its status is discarding, so that it is in neither broadcast set and
  nothing is learned from it. (A port that was a backup port before keeps its status when this switch was not the root; it
  is blocked when it was blocked before.)
\<close>

theorem better_bpdu_elects_root:
  assumes wf: "switch_wf sw" and w: "fsttab sw vlan = Some w"
    and port: "active sw port" "vlan_check sw vlan Table port" "\<not> fst_check sw vlan Edge port"
    and p: "p = (if tagged then drop 4 pkt else pkt)" "51 \<le> (if tagged then len - 4 else len)"
      "stp_version p = 2" "stp_type p = 2"
    and cost: "cost = bpdu_cost sw w port (stp_rootcost p)"
    and better: "0 < bpdu_compare w (stp_root p) cost (stp_bridge p) (stp_port p)"
    and s: "s = fst_in_bpdu port pkt len vlan tagged sw"
  shows "vinfo s vlan = Some (stp_root p, cost, stp_bridge p, stp_port p, port, now_u32 sw) \<and>
    port_get_status port vlan s = FORWARDING \<and> \<not> fst_check s vlan Backup port \<and>
    (\<forall>j. active sw j \<and> vlan_check sw vlan Table j \<and> j \<noteq> port \<and> FSTP_ACTIVE sw vlan j \<and> \<not> fst_check sw vlan Edge j \<and>
       (fst_check sw vlan Backup j \<longrightarrow> blocked sw vlan j) \<longrightarrow>
       fst_check s vlan Backup j \<and> blocked s vlan j) \<and>
    (\<forall>d. EMAC2VLAN d = word_of_int (int vlan) \<longrightarrow> hash_look (hash s) d = None)"
proof -
  note ok = switch_wfD(1) [OF wf]
  have v: "fsttab sw vlan \<noteq> None" using w by simp
  have mem: "member sw vlan port" using switch_wf_member [OF wf] port by simp
  define s1 where "s1 = fst_set vlan (rcvhist (rcvhistindex sw)) port sw"
  define s2 where "s2 = (if stp_flags p AND STP_TC \<noteq> 0 then topology_change vlan port s1 else s1)"
  have cap: "ba_cap (fst_bits sw vlan (rcvhist (rcvhistindex sw))) port"
    by (rule struct_cap(2) [OF ok struct_member_less [OF ok mem] v])
  have k1: "stp_ok {} sw s1"
    unfolding s1_def using struct_member_less [OF ok mem] by (intro fst_set_stp ok v) auto
  have k2: "stp_ok {} sw s2"
    using k1 stp_then [OF k1] topology_change_stp [OF _ stp_fst [OF k1 v]] by (simp add: s2_def)
  have vi: "vinfo s2 = vinfo sw" "timers s2 = timers sw" by (simp_all add: s2_def s1_def topology_change_frame)
  have "fst_bits s2 = fst_bits s1" by (simp add: s2_def topology_change_frame)
  then have chk: "fst_check s2 vlan fl j \<longleftrightarrow> fl = rcvhist (rcvhistindex sw) \<and> j = port \<or> fst_check sw vlan fl j" for fl j
    using fst_set_simps(1) [OF cap] by (simp add: s1_def fst_check_def)
  obtain w2 where w2: "fsttab s2 vlan = Some w2" using stp_fst [OF k2 v] by blast
  obtain q where q: "get_port port s2 = Some q" using struct_pview_Some [OF stp_member(1) [OF k2 mem]] by blast
  have same: "v_root w2 = v_root w" "v_rootcost w2 = v_rootcost w" "v_dessw w2 = v_dessw w" "v_port w2 = v_port w"
    "v_rootport w2 = v_rootport w"
    using fun_cong [OF vi(1), of vlan] w w2 by (simp_all add: vinfo_def)
  have cmp: "bpdu_compare w2 = bpdu_compare w" unfolding bpdu_compare_def [abs_def] same ..
  have "vbonus s2 = vbonus sw" "port_getcost port s2 = port_getcost port sw"
    by (simp_all add: s2_def s1_def cost_frame)
  moreover from this(1) have "v_bonusport w2 = v_bonusport w" "v_bonuscost w2 = v_bonuscost w"
    by (auto simp: vbonus_def w w2 dest: fun_cong [where x = vlan])
  ultimately have cost2: "bpdu_cost s2 w2 port (stp_rootcost p) = cost"
    unfolding cost bpdu_cost_def by (simp only:)
  have eq: "s = fst_newroot vlan port w2 (stp_root p) cost (stp_bridge p) (stp_port p) s2"
    using w port(3) p(2,3,4) w2 q better
    unfolding s fst_in_bpdu_def Let_def p(1) [symmetric] s1_def [symmetric] s2_def [symmetric]
    by (simp add: cost2 cmp)
  have tab2: "vlan_check s2 vlan Table port" using port(2) stp_ok_simps(8) [OF k2] by simp
  note E = fst_newroot_effect [OF stp_okD(1) [OF k2] stp_fst [OF k2 v] stp_member(3) [OF k2 mem] tab2 eq]
  have "fst_check s vlan Backup j \<and> blocked s vlan j"
    if j: "active sw j" "vlan_check sw vlan Table j" "j \<noteq> port" "FSTP_ACTIVE sw vlan j" "\<not> fst_check sw vlan Edge j"
      "fst_check sw vlan Backup j \<longrightarrow> blocked sw vlan j" for j
  proof -
    have "vlan_check s2 vlan f i = vlan_check sw vlan f i" for f i
      by (simp add: s2_def s1_def topology_change_frame vlan_check_def)
    moreover have "fst_check s2 vlan Backup j \<longleftrightarrow> fst_check sw vlan Backup j" using chk by (simp add: rcvhist_def)
    ultimately have "backup_blocked s2 vlan j"
      using j(6) by (simp add: backup_blocked_def blocked_iff)
    moreover have "vlan_check s2 vlan Table i" if "member s2 vlan i" for i
      using that switch_wf_member [OF wf, of vlan i] stp_ok_simps(8,9) [OF k2] by simp
    ultimately show ?thesis
      using E(5) [of j] j(1-5) switch_wf_member [OF wf, of vlan j] stp_ok_simps(9) [OF k2] chk by (simp add: FSTP_ACTIVE_def)
  qed
  then show ?thesis using E(1-4) vi(2) by (auto simp: now_u32_def flushed_def)
qed

definition example_bpdu :: bytes where
  "example_bpdu = (bpduaddrp @ [2, 0, 0, 0, 0, 9, 0, 0x27]) @ [0x42, 0x42, 3, 0, 0, 2, 2, 0x3c] @
     [0x10, 0, 2, 0, 0, 0, 0, 9] @ [0, 0, 0, 0] @ [0x10, 0, 2, 0, 0, 0, 0, 9] @ [0x80, 1] @ replicate 9 0"

theorem better_bpdu_elects_root_witness:
  "port_get_status 1 0 (fst_in_bpdu 1 example_bpdu 53 0 False example_switch) = FORWARDING \<and>
   map_option (\<lambda>(root, cost, bridge, pport, rootport, stamp). (root, rootport))
     (vinfo (fst_in_bpdu 1 example_bpdu 53 0 False example_switch) 0) = Some ([0x10, 0, 2, 0, 0, 0, 0, 9], 1)"
proof -
  have f: "bpdu_fields example_bpdu =
      (2, 2, 0x3c, [0x10, 0, 2, 0, 0, 0, 0, 9], [0, 0, 0, 0], [0x10, 0, 2, 0, 0, 0, 0, 9], [0x80, 1])"
    unfolding example_bpdu_def by (rule bpdu_fields_build) (simp_all add: bpduaddrp_def)
  have w: "fsttab example_switch 0 = Some example_vlst" by (simp add: example_switch_def)
  have "0 < bpdu_compare example_vlst [0x10, 0, 2, 0, 0, 0, 0, 9] cost bridge port" for cost bridge port
    by (simp add: bpdu_compare_def example_vlst_def Let_def)
  then show ?thesis
    using better_bpdu_elects_root [OF example_wf w, of 1 example_bpdu False example_bpdu 53, OF _ _ _ _ _ _ _ refl _ refl] f
    by (simp add: port_example vlan_check_example fst_check_example bpdu_fields_def)
qed

end
