(* ===== verification/Commands.thy ===== *)
theory Commands
  imports Example
begin

text \<open>
  The results of the operations on ports: who may connect, what closing a connection does, and
  what the management commands do when they fail.
\<close>

section \<open>Connecting\<close>

text \<open>
  C12: access control. Connecting to an existing port succeeds exactly when the port is free
  and the access control of the port admits the user, or the user already holds the port (and
  there is memory); otherwise the answer is \<open>EADDRINUSE\<close>, also when the access control was
  the reason, and nothing changes. A new endpoint belongs to the port asked for.
\<close>

theorem setup_ep_access:
  assumes wf: "switch_wf sw" and i: "0 < i" "i < numports sw" and p: "get_port i sw = Some p"
  shows "let granted = (p_ep p = [] \<and> checkport_ac db p user \<or> p_curuser p = user);
      r = setup_ep db mem memep (int i) fc fdt user m sw
    in fst r = (if granted then (if memep then Inr (new_endpoint i fc fdt) else Inl ENOMEM) else Inl EADDRINUSE) \<and>
       (\<not> granted \<longrightarrow> snd r = sw)"
proof -
  define p1 where "p1 = (if p_ep p = [] \<and> checkport_ac db p user then p\<lparr>p_curuser := user\<rparr> else p)"
  define s2 where "s2 = upd_port i (\<lambda>_. p1) sw"
  define ep where "ep = new_endpoint i fc fdt"
  define s3 where "s3 = upd_port i (\<lambda>p. p\<lparr>p_ms := Some m, p_ep := ep # p_ep p\<rparr>) s2"
  have al: "alloc_port mem (int i) sw = (int i, sw)" using i p by (simp add: alloc_port_def)
  have r: "setup_ep db mem memep (int i) fc fdt user m sw =
    (if p_curuser p1 = user \<and> memep
     then (Inr ep, if p_ep p1 = [] then activate_port i (p_vlanuntag p1) s3 else s3)
     else (Inl (if p_curuser p1 \<noteq> user then EADDRINUSE else ENOMEM), s2))"
    unfolding setup_ep_def al p1_def s2_def s3_def ep_def Let_def using p by simp
  have g: "p_curuser p1 = user \<longleftrightarrow> p_ep p = [] \<and> checkport_ac db p user \<or> p_curuser p = user" by (auto simp: p1_def)
  have same: "p_curuser p1 \<noteq> user \<Longrightarrow> s2 = sw"
    using p get_port_update_id [OF p] by (auto simp: p1_def s2_def upd_port_Some split: if_splits)
  show ?thesis using r g same by (auto simp: Let_def ep_def)
qed

theorem setup_ep_access_witness:
  "fst (setup_ep \<lparr>getpwuid = (\<lambda>_. None), getgrent = []\<rparr> True True 2 50 51 1000 ''unix'' example_switch) = Inl EADDRINUSE"
proof -
  have p: "get_port 2 example_switch = Some (example_port 2 0)" by (simp add: get_port_example)
  have "p_ep (example_port 2 0) \<noteq> []" "p_curuser (example_port 2 0) = 0" by (simp_all add: example_port_def)
  then show ?thesis
    using setup_ep_access [OF example_wf _ _ p, of "\<lparr>getpwuid = (\<lambda>_. None), getgrent = []\<rparr>" 1000 True True 50 51 "''unix''"]
    by (simp add: example_fields Let_def)
qed

section \<open>Closing\<close>

text \<open>
  A port that loses its last endpoint is out of the game: it is not active, no VLAN
  forwards to it, the spanning tree does not know it and no address is left on it.
\<close>

theorem inactive_port_is_out:
  assumes "switch_wf sw" and "\<not> active (snd (close_ep_port_fd n c sw)) i"
  shows "let s = snd (close_ep_port_fd n c sw)
    in \<not> vlan_check s v Bctag i \<and> \<not> vlan_check s v Bcuntag i \<and> \<not> fst_check s v Untag i \<and> \<not> fst_check s v Tagged i \<and>
       (\<forall>d p t. hash_look (hash s) d = Some (p, t) \<longrightarrow> p \<noteq> int i)"
proof -
  let ?s = "snd (close_ep_port_fd n c sw)"
  have wf: "switch_wf ?s" by (rule close_ep_port_fd_wf [OF assms(1)])
  note W = switch_wfD [OF wf]
  have "p \<noteq> int i" if "hash_look (hash ?s) d = Some (p, t)" for d p t
    using W(6) that assms(2) by (force simp: mac_ok_def entry_ok_def Let_def)
  then show ?thesis using W(4,5) assms(2) by (auto simp: Let_def bc_ok_def fst_ok_def)
qed

theorem inactive_port_is_out_witness:
  "\<not> vlan_check (snd (close_ep_port_fd 1 99 example_switch)) 0 Bctag 0"
proof -
  have "rec_close_ep 99 (p_ep (example_port 1 0)) = (None, p_ep (example_port 1 0))" "p_ep (example_port 1 0) \<noteq> []"
    by (simp_all add: example_port_def)
  then have "snd (close_ep_port_fd 1 99 example_switch) = example_switch"
    by (simp add: close_ep_port_fd_def example_fields get_port_example)
  then show ?thesis
    using inactive_port_is_out [OF example_wf, of 1 99 0 0] by (simp add: port_example Let_def)
qed

end
