(* ===== verification/Mainloop.thy ===== *)
theory Mainloop
  imports Prelude "HOL-Library.Monad_Syntax" "HOL-Library.Multiset"
begin

text \<open>
  The event loop of \<^verbatim>\<open>vde_switch.c\<close>: the list of modules, the table of descriptor types,
  the poll array with its parallel array of pointers to \<open>struct pollplus\<close> and the permutation
  array that maps a descriptor to its index, and one round of \<open>main_loop\<close>. The memory of the
  \<open>pollplus\<close> records is explicit, because \<open>remove_fd\<close> leaves a second pointer to a record
  behind. An array slot or a \<open>fdperm\<close> cell that was allocated and never written is \<open>None\<close>. The
  operations return \<open>None\<close> where the code reads such a cell as an index or a pointer, or
  leaves an array. Allocation succeeds.
\<close>

section \<open>Modules\<close>

text \<open>
  \<open>swmh\<close> is the list of the registered modules; \<open>add_swm\<close> appends one and numbers it with a
  \<open>char\<close>, a module whose number comes out as 0 is not linked.
\<close>

record 'm swmodules =
  swmh :: "('m \<times> 8 word) list"
  lastlwmtag :: int

definition add_swm :: "'m \<Rightarrow> 'm swmodules \<Rightarrow> 'm swmodules" where
  "add_swm new s =
     (let n = lastlwmtag s + 1; tag = word_of_int n
      in if tag \<noteq> 0 then s\<lparr>lastlwmtag := n, swmh := swmh s @ [(new, tag)]\<rparr> else s\<lparr>lastlwmtag := n\<rparr>)"

fun recdelswm :: "'m \<Rightarrow> ('m \<times> 8 word) list \<Rightarrow> ('m \<times> 8 word) list" where
  "recdelswm old [] = []"
| "recdelswm old (this # rest) = (if fst this = old then rest else this # recdelswm old rest)"

definition del_swm :: "'m \<Rightarrow> 'm swmodules \<Rightarrow> 'm swmodules" where
  "del_swm old s = s\<lparr>swmh := recdelswm old (swmh s)\<rparr>"

section \<open>The state of the loop\<close>

record pollfd =
  pfd_fd :: fd
  pfd_events :: u16
  pfd_revents :: u16

record 'd pollplus =
  pp_type :: u8
  pp_private :: 'd
  pp_timestamp :: int

record ('m, 'd) mloop =
  nfds :: nat
  nprio :: nat
  fds :: "pollfd option list"
  fdpp :: "nat option list"
  heap :: "nat \<Rightarrow> 'd pollplus option"
  fresh :: nat
  fdperm :: "16 word option list"
  fdtypes :: "'m option list"
  ntypes :: int

text \<open>\<open>maxfds\<close>, \<open>fdpermsize\<close> and \<open>maxtypes\<close> are the lengths of the arrays.\<close>

definition mloop_start :: "('m, 'd) mloop" where
  "mloop_start = \<lparr>nfds = 0, nprio = 0, fds = [], fdpp = [], heap = Map.empty, fresh = 0,
     fdperm = [], fdtypes = [], ntypes = 0\<rparr>"

definition MAXFDS_INITIAL :: nat where "MAXFDS_INITIAL = 8"
definition MAXFDS_STEP :: nat where "MAXFDS_STEP = 16"
definition FDPERMSIZE_LOGSTEP :: nat where "FDPERMSIZE_LOGSTEP = 4"
definition PRIOFLAG :: u8 where "PRIOFLAG = 0x80"
definition TYPEMASK :: u8 where "TYPEMASK = 0x7f"
definition POLLIN :: u16 where "POLLIN = 1"
definition POLLHUP :: u16 where "POLLHUP = 0x10"

definition ISPRIO :: "u8 \<Rightarrow> bool" where
  "ISPRIO X \<longleftrightarrow> X AND PRIOFLAG \<noteq> 0"

text \<open>Reading a cell of an array; the index is a C \<open>int\<close>.\<close>

definition cell :: "'a option list \<Rightarrow> int \<Rightarrow> 'a option" where
  "cell xs i = (if 0 \<le> i \<and> i < int (length xs) then xs ! nat i else None)"

definition TYPE2MGR :: "u8 \<Rightarrow> ('m, 'd) mloop \<Rightarrow> 'm option" where
  "TYPE2MGR X s = cell (fdtypes s) (uint (X AND TYPEMASK))"

section \<open>Types\<close>

text \<open>
  Enlarging the type table clears \<open>sizeof(struct swmodule *) * maxtypes - ntypes\<close> bytes from
  the address of element \<open>ntypes\<close> on (pointers of 8 bytes). \<open>memset_ok\<close> says whether these
  bytes are inside the array. \<open>TypesExit\<close> is the call of \<open>exit(1)\<close>.
\<close>

datatype 's type_result = TypesExit | TypesFault | NewType u8 's

definition memset_ok :: "nat \<Rightarrow> int \<Rightarrow> bool" where
  "memset_ok maxtypes n \<longleftrightarrow> 8 * n + (8 * int maxtypes - n) \<le> 8 * int maxtypes"

fun first_null :: "'a option list \<Rightarrow> nat" where
  "first_null [] = 0"
| "first_null (x # xs) = (if x = None then 0 else Suc (first_null xs))"

definition type_code :: "nat \<Rightarrow> bool \<Rightarrow> u8" where
  "type_code i prio = word_of_nat i OR (if prio then PRIOFLAG else 0)"

definition set_type :: "nat \<Rightarrow> 'm \<Rightarrow> bool \<Rightarrow> ('m, 'd) mloop \<Rightarrow> ('m, 'd) mloop type_result" where
  "set_type i mgr prio s =
     (if i < length (fdtypes s)
      then NewType (type_code i prio) (s\<lparr>fdtypes := (fdtypes s)[i := Some mgr], ntypes := ntypes s + 1\<rparr>)
      else TypesFault)"

definition add_type :: "'m \<Rightarrow> bool \<Rightarrow> ('m, 'd) mloop \<Rightarrow> ('m, 'd) mloop type_result" where
  "add_type mgr prio s =
     (if ntypes s = int (length (fdtypes s))
      then let maxtypes = (if length (fdtypes s) \<noteq> 0 then 2 * length (fdtypes s) else 8)
           in if maxtypes > unat PRIOFLAG then TypesExit
              else if \<not> memset_ok maxtypes (ntypes s) then TypesFault
              else set_type (nat (ntypes s)) mgr prio
                     (s\<lparr>fdtypes := fdtypes s @ replicate (maxtypes - length (fdtypes s)) None\<rparr>)
      else set_type (first_null (fdtypes s)) mgr prio s)"

definition del_type :: "u8 \<Rightarrow> ('m, 'd) mloop \<Rightarrow> ('m, 'd) mloop" where
  "del_type ty s =
     (let t = unat (ty AND TYPEMASK)
      in s\<lparr>fdtypes := (if t < length (fdtypes s) then (fdtypes s)[t := None] else fdtypes s),
           ntypes := ntypes s - 1\<rparr>)"

section \<open>Descriptors\<close>

text \<open>The three enlargements of \<open>add_fd\<close>; new cells hold nothing yet.\<close>

definition grow_fds :: "('m, 'd) mloop \<Rightarrow> ('m, 'd) mloop" where
  "grow_fds s =
     (if nfds s = length (fds s)
      then let k = (if length (fds s) \<noteq> 0 then MAXFDS_STEP else MAXFDS_INITIAL)
           in s\<lparr>fds := fds s @ replicate k None, fdpp := fdpp s @ replicate k None\<rparr>
      else s)"

definition grow_perm :: "fd \<Rightarrow> ('m, 'd) mloop \<Rightarrow> ('m, 'd) mloop" where
  "grow_perm fd s =
     (if fd \<ge> int (length (fdperm s))
      then let size = nat (push_bit FDPERMSIZE_LOGSTEP (drop_bit FDPERMSIZE_LOGSTEP fd + 1))
           in s\<lparr>fdperm := fdperm s @ replicate (size - length (fdperm s)) None\<rparr>
      else s)"

text \<open>
  Making room for a priority descriptor: the entry at \<open>nprio\<close> moves to the end. Its cell of
  \<open>fdperm\<close> is not changed.
\<close>

definition make_room :: "u8 \<Rightarrow> ('m, 'd) mloop \<Rightarrow> nat \<times> ('m, 'd) mloop" where
  "make_room ty s =
     (if ISPRIO ty
      then (nprio s, s\<lparr>fds := (fds s)[nfds s := fds s ! nprio s],
                       fdpp := (fdpp s)[nfds s := fdpp s ! nprio s], nprio := nprio s + 1\<rparr>)
      else (nfds s, s))"

text \<open>
  \<open>p->revents\<close> is not written: it keeps the value of the slot (\<open>poll\<close> writes it before it is
  read; a slot that was never used is given 0).
\<close>

definition store_fd :: "fd \<Rightarrow> u8 \<Rightarrow> 'd \<Rightarrow> nat \<Rightarrow> ('m, 'd) mloop \<Rightarrow> ('m, 'd) mloop option" where
  "store_fd fd ty pd index s =
     (if 0 \<le> fd \<and> fd < int (length (fdperm s)) \<and> index < length (fds s) \<and> index < length (fdpp s)
      then Some (s\<lparr>
        fdpp := (fdpp s)[index := Some (fresh s)],
        heap := (heap s)(fresh s \<mapsto> \<lparr>pp_type = ty, pp_private = pd, pp_timestamp = 0\<rparr>),
        fresh := fresh s + 1,
        fdperm := (fdperm s)[nat fd := Some (word_of_nat index)],
        fds := (fds s)[index := Some \<lparr>pfd_fd = fd, pfd_events = POLLIN OR POLLHUP,
                 pfd_revents = (case fds s ! index of None \<Rightarrow> 0 | Some p \<Rightarrow> pfd_revents p)\<rparr>],
        nfds := nfds s + 1\<rparr>)
      else None)"

definition add_fd :: "fd \<Rightarrow> u8 \<Rightarrow> 'd \<Rightarrow> ('m, 'd) mloop \<Rightarrow> ('m, 'd) mloop option" where
  "add_fd fd ty pd s =
     (case make_room ty (grow_perm fd (grow_fds s)) of (index, s') \<Rightarrow> store_fd fd ty pd index s')"

text \<open>A call of the \<open>cleanup\<close> function of a module.\<close>

type_synonym ('m, 'd) cleanup_call = "'m \<times> u8 \<times> fd \<times> 'd"

definition cleanup_entry :: "('m, 'd) mloop \<Rightarrow> nat \<Rightarrow> ('m, 'd) cleanup_call option" where
  "cleanup_entry s i =
     do {
       p \<leftarrow> cell (fds s) (int i);
       a \<leftarrow> cell (fdpp s) (int i);
       d \<leftarrow> heap s a;
       m \<leftarrow> TYPE2MGR (pp_type d) s;
       Some (m, pp_type d, pfd_fd p, pp_private d)
     }"

fun sequence :: "'a option list \<Rightarrow> 'a list option" where
  "sequence [] = Some []"
| "sequence (x # xs) = do { y \<leftarrow> x; ys \<leftarrow> sequence xs; Some (y # ys) }"

definition file_cleanup :: "('m, 'd) mloop \<Rightarrow> ('m, 'd) cleanup_call list option" where
  "file_cleanup s = sequence (map (cleanup_entry s) [0..<nfds s])"

text \<open>The search loop of \<open>remove_fd\<close> over the first \<open>nfds\<close> slots.\<close>

fun search_fd :: "fd \<Rightarrow> pollfd option list \<Rightarrow> nat" where
  "search_fd fd [] = 0"
| "search_fd fd (p # ps) = (if map_option pfd_fd p = Some fd then 0 else Suc (search_fd fd ps))"

text \<open>\<open>memmove(&xs[i], &xs[i + 1], n * sizeof(*xs))\<close>.\<close>

definition shift_down :: "nat \<Rightarrow> nat \<Rightarrow> 'a list \<Rightarrow> 'a list" where
  "shift_down i n xs = blit xs i (take n (drop (i + 1) xs))"

text \<open>The loop that stores the new indices; it runs to the old number of descriptors.\<close>

fun reindex :: "pollfd option list \<Rightarrow> nat list \<Rightarrow> 16 word option list \<Rightarrow> 16 word option list option" where
  "reindex ps [] perm = Some perm"
| "reindex ps (i # is) perm =
     do {
       p \<leftarrow> cell ps (int i);
       if 0 \<le> pfd_fd p \<and> pfd_fd p < int (length perm)
       then reindex ps is (perm[nat (pfd_fd p) := Some (word_of_nat i)]) else None
     }"

definition remove_fd ::
  "fd \<Rightarrow> ('m, 'd) mloop \<Rightarrow> (('m, 'd) cleanup_call list \<times> ('m, 'd) mloop) option" where
  "remove_fd fd s =
     (let i = search_fd fd (take (nfds s) (fds s))
      in if i = nfds s then Some ([], s)
         else do {
           call \<leftarrow> cleanup_entry s i;
           old \<leftarrow> cell (fdpp s) (int i);
           d \<leftarrow> heap s old;
           let s1 = (if ISPRIO (pp_type d) then s\<lparr>nprio := nprio s - 1\<rparr> else s);
           let s2 = s1\<lparr>fds := shift_down i (nfds s - i - 1) (fds s),
                      fdpp := shift_down i (nfds s - i - 1) (fdpp s)\<rparr>;
           perm \<leftarrow> reindex (fds s2) [i..<nfds s] (fdperm s);
           Some ([call], s2\<lparr>fdperm := perm, heap := (heap s)(old := None), nfds := nfds s - 1\<rparr>)
         })"

section \<open>Access by descriptor\<close>

definition perm_index :: "fd \<Rightarrow> ('m, 'd) mloop \<Rightarrow> int option" where
  "perm_index fd s = map_option sint (cell (fdperm s) fd)"

text \<open>The outer \<open>None\<close> is an invalid access, the inner one the result \<open>NULL\<close>.\<close>

definition mainloop_get_private_data :: "fd \<Rightarrow> ('m, 'd) mloop \<Rightarrow> 'd option option" where
  "mainloop_get_private_data fd s =
     (if 0 \<le> fd \<and> fd < int (length (fdperm s))
      then do { i \<leftarrow> perm_index fd s; a \<leftarrow> cell (fdpp s) i; d \<leftarrow> heap s a; Some (Some (pp_private d)) }
      else Some None)"

definition mainloop_set_private_data :: "fd \<Rightarrow> 'd \<Rightarrow> ('m, 'd) mloop \<Rightarrow> ('m, 'd) mloop option" where
  "mainloop_set_private_data fd pd s =
     (if 0 \<le> fd \<and> fd < int (length (fdperm s))
      then do { i \<leftarrow> perm_index fd s; a \<leftarrow> cell (fdpp s) i; d \<leftarrow> heap s a;
                Some (s\<lparr>heap := (heap s)(a \<mapsto> d\<lparr>pp_private := pd\<rparr>)\<rparr>) }
      else Some s)"

definition mainloop_pollmask_get :: "fd \<Rightarrow> ('m, 'd) mloop \<Rightarrow> u16 option" where
  "mainloop_pollmask_get fd s =
     do { i \<leftarrow> perm_index fd s; p \<leftarrow> cell (fds s) i; Some (pfd_events p) }"

definition upd_events :: "(u16 \<Rightarrow> u16) \<Rightarrow> fd \<Rightarrow> ('m, 'd) mloop \<Rightarrow> ('m, 'd) mloop option" where
  "upd_events f fd s =
     do { i \<leftarrow> perm_index fd s; p \<leftarrow> cell (fds s) i;
          Some (s\<lparr>fds := (fds s)[nat i := Some (p\<lparr>pfd_events := f (pfd_events p)\<rparr>)]\<rparr>) }"

definition mainloop_pollmask_add :: "fd \<Rightarrow> u16 \<Rightarrow> ('m, 'd) mloop \<Rightarrow> ('m, 'd) mloop option" where
  "mainloop_pollmask_add fd events = upd_events (\<lambda>e. e OR events) fd"

definition mainloop_pollmask_del :: "fd \<Rightarrow> u16 \<Rightarrow> ('m, 'd) mloop \<Rightarrow> ('m, 'd) mloop option" where
  "mainloop_pollmask_del fd events = upd_events (\<lambda>e. e AND NOT events) fd"

definition mainloop_pollmask_set :: "fd \<Rightarrow> u16 \<Rightarrow> ('m, 'd) mloop \<Rightarrow> ('m, 'd) mloop option" where
  "mainloop_pollmask_set fd events = upd_events (\<lambda>_. events) fd"

section \<open>A round of the loop\<close>

text \<open>
  \<open>handle_io\<close> of the modules is the function \<open>io\<close>: it may change the state of the loop (through
  the functions above) and the rest of the program, the second component.
\<close>

type_synonym ('m, 'd, 'w) handle_io =
  "'m \<Rightarrow> u8 \<Rightarrow> fd \<Rightarrow> u16 \<Rightarrow> 'd \<Rightarrow> ('m, 'd) mloop \<times> 'w \<Rightarrow> (('m, 'd) mloop \<times> 'w) option"

text \<open>The optimisation \<open>OPTPOLL\<close>: an entry used more recently moves one place up.\<close>

definition swap_slots :: "nat \<Rightarrow> nat \<Rightarrow> 'a list \<Rightarrow> 'a list" where
  "swap_slots i j xs = xs[i := xs ! j, j := xs ! i]"

definition optpoll :: "nat \<Rightarrow> ('m, 'd) mloop \<Rightarrow> ('m, 'd) mloop option" where
  "optpoll i s =
     (if i < nfds s \<and> i > 0 \<and> i \<noteq> nprio s
      then do {
        a \<leftarrow> cell (fdpp s) (int i); d \<leftarrow> heap s a;
        b \<leftarrow> cell (fdpp s) (int (i - 1)); e \<leftarrow> heap s b;
        if pp_timestamp d > pp_timestamp e
        then do {
          let s1 = s\<lparr>fds := swap_slots i (i - 1) (fds s), fdpp := swap_slots i (i - 1) (fdpp s)\<rparr>;
          perm1 \<leftarrow> reindex (fds s1) [i] (fdperm s);
          perm2 \<leftarrow> reindex (fds s1) [i - 1] perm1;
          Some (s1\<lparr>fdperm := perm2\<rparr>)
        } else Some s
      } else Some s)"

function dispatch ::
  "('m, 'd, 'w) handle_io \<Rightarrow> int \<Rightarrow> nat \<Rightarrow> nat \<Rightarrow> ('m, 'd) mloop \<Rightarrow> 'w \<Rightarrow> (('m, 'd) mloop \<times> 'w) option" where
  "dispatch io now i n s w =
     (if n = 0 then Some (s, w)
      else case cell (fds s) (int i) of
        None \<Rightarrow> None
      | Some p \<Rightarrow>
          if pfd_revents p \<noteq> 0
          then do {
            a \<leftarrow> cell (fdpp s) (int i);
            d \<leftarrow> heap s a;
            m \<leftarrow> TYPE2MGR (pp_type d) s;
            (s2, w2) \<leftarrow> io m (pp_type d) (pfd_fd p) (pfd_revents p) (pp_private d)
                         (s\<lparr>heap := (heap s)(a \<mapsto> d\<lparr>pp_timestamp := now\<rparr>)\<rparr>, w);
            if nfds s2 \<noteq> nfds s then Some (s2, w2) else dispatch io now (Suc i) (n - 1) s2 w2
          }
          else (case optpoll i s of None \<Rightarrow> None | Some s' \<Rightarrow> dispatch io now (Suc i) n s' w))"
  by pat_completeness auto

lemma length_swap_slots [simp]: "length (swap_slots i j xs) = length xs"
  by (simp add: swap_slots_def)

lemma optpoll_length: "optpoll i s = Some s' \<Longrightarrow> length (fds s') = length (fds s)"
  by (auto simp: optpoll_def Let_def split: if_splits Option.bind_splits)

termination dispatch
proof (relation "measures [\<lambda>(io, now, i, n, s, w). n, \<lambda>(io, now, i, n, s, w). length (fds s) - i]", goal_cases)
  case (3 io now i n s w p s')
  then have "i < length (fds s)" by (auto simp: cell_def split: if_splits)
  then show ?case using optpoll_length [OF 3(4)] by simp
qed auto

declare dispatch.simps [simp del]

text \<open>
  One iteration of \<open>while(1)\<close>: \<open>poll\<close> writes the \<open>revents\<close> of the first \<open>nfds\<close> slots and returns
  \<open>n\<close>; a negative \<open>n\<close> (a signal) does nothing.
\<close>

definition poll_writes :: "u16 list \<Rightarrow> ('m, 'd) mloop \<Rightarrow> ('m, 'd) mloop" where
  "poll_writes rs s =
     s\<lparr>fds := map2 (\<lambda>p r. map_option (\<lambda>p. p\<lparr>pfd_revents := r\<rparr>) p) (take (nfds s) (fds s)) rs @
              drop (nfds s) (fds s)\<rparr>"

definition main_loop_round ::
  "('m, 'd, 'w) handle_io \<Rightarrow> int \<Rightarrow> u16 list \<Rightarrow> int \<Rightarrow> ('m, 'd) mloop \<Rightarrow> 'w \<Rightarrow> (('m, 'd) mloop \<times> 'w) option" where
  "main_loop_round io now rs n s w =
     (if n < 0 then Some (s, w) else dispatch io now 0 (nat n) (poll_writes rs s) w)"

section \<open>The descriptor table\<close>

text \<open>
  What a caller sees: the descriptors with their types and private data, in the order of the
  poll array. In a well-formed state the first \<open>nprio\<close> of them are the priority descriptors,
  every slot in use has a record of its own, and descriptors fit \<open>fdperm\<close>.
\<close>

type_synonym 'd descr = "fd \<times> u8 \<times> 'd"

definition descr :: "('m, 'd) mloop \<Rightarrow> nat \<Rightarrow> 'd descr" where
  "descr s i = (let d = the (heap s (the (fdpp s ! i))) in (pfd_fd (the (fds s ! i)), pp_type d, pp_private d))"

definition table :: "('m, 'd) mloop \<Rightarrow> 'd descr list" where
  "table s = map (descr s) [0..<nfds s]"

definition good_slot :: "('m, 'd) mloop \<Rightarrow> nat \<Rightarrow> bool" where
  "good_slot s i \<longleftrightarrow> (\<exists>p a d. fds s ! i = Some p \<and> fdpp s ! i = Some a \<and> heap s a = Some d \<and> a < fresh s \<and>
     0 \<le> pfd_fd p \<and> pfd_fd p < int (length (fdperm s)) \<and> (ISPRIO (pp_type d) \<longleftrightarrow> i < nprio s))"

definition mloop_wf :: "('m, 'd) mloop \<Rightarrow> bool" where
  "mloop_wf s \<longleftrightarrow> nprio s \<le> nfds s \<and> nfds s \<le> length (fds s) \<and> length (fdpp s) = length (fds s) \<and>
     (\<forall>i < nfds s. good_slot s i) \<and> inj_on (\<lambda>i. fdpp s ! i) {..<nfds s}"

lemma length_table [simp]: "length (table s) = nfds s"
  by (simp add: table_def)

lemma nth_table [simp]: "i < nfds s \<Longrightarrow> table s ! i = descr s i"
  by (simp add: table_def)

lemma mloop_wf_start: "mloop_wf mloop_start"
  by (simp add: mloop_wf_def mloop_start_def)

lemma grow_fds_wf: "mloop_wf s \<Longrightarrow> mloop_wf (grow_fds s)"
  by (auto simp: mloop_wf_def grow_fds_def good_slot_def nth_append Let_def inj_on_def)

lemma grow_fds_table: "mloop_wf s \<Longrightarrow> table (grow_fds s) = table s"
  by (auto simp: mloop_wf_def grow_fds_def table_def descr_def nth_append Let_def)

lemma grow_fds_room: "mloop_wf s \<Longrightarrow> nfds (grow_fds s) < length (fds (grow_fds s))"
  by (auto simp: mloop_wf_def grow_fds_def Let_def MAXFDS_STEP_def MAXFDS_INITIAL_def)

lemma grow_fds_frame [simp]:
  "nfds (grow_fds s) = nfds s" "nprio (grow_fds s) = nprio s" "fdperm (grow_fds s) = fdperm s"
  "heap (grow_fds s) = heap s" "fdtypes (grow_fds s) = fdtypes s"
  by (simp_all add: grow_fds_def Let_def)

lemma grow_perm_frame [simp]:
  "nfds (grow_perm fd s) = nfds s" "nprio (grow_perm fd s) = nprio s" "fds (grow_perm fd s) = fds s"
  "fdpp (grow_perm fd s) = fdpp s" "heap (grow_perm fd s) = heap s" "fresh (grow_perm fd s) = fresh s"
  "fdtypes (grow_perm fd s) = fdtypes s"
  by (simp_all add: grow_perm_def Let_def)

lemma grow_perm_length: "length (fdperm s) \<le> length (fdperm (grow_perm fd s))"
  by (simp add: grow_perm_def Let_def)

lemma grow_perm_room: "0 \<le> fd \<Longrightarrow> fd < int (length (fdperm (grow_perm fd s)))"
  by (auto simp: grow_perm_def Let_def FDPERMSIZE_LOGSTEP_def push_bit_eq_mult drop_bit_eq_div)

lemma grow_perm_table [simp]: "table (grow_perm fd s) = table s"
  by (simp add: table_def descr_def)

lemma grow_perm_wf: "mloop_wf s \<Longrightarrow> mloop_wf (grow_perm fd s)"
  using grow_perm_length [of s fd] by (fastforce simp: mloop_wf_def good_slot_def)

text \<open>Where \<open>add_fd\<close> puts a new descriptor.\<close>

definition insert_descr :: "nat \<Rightarrow> 'd descr \<Rightarrow> 'd descr list \<Rightarrow> 'd descr list" where
  "insert_descr k e t =
     (if ISPRIO (fst (snd e)) then take k t @ e # drop (Suc k) t @ take 1 (drop k t) else t @ [e])"

lemma store_fd_facts:
  assumes "store_fd fd ty pd index s = Some s'"
  shows "nfds s' = Suc (nfds s)" "nprio s' = nprio s" "length (fds s') = length (fds s)"
    "length (fdpp s') = length (fdpp s)" "fdtypes s' = fdtypes s" "length (fdperm s') = length (fdperm s)"
    "good_slot s' index \<longleftrightarrow> (ISPRIO ty \<longleftrightarrow> index < nprio s)" "descr s' index = (fd, ty, pd)"
    "fdpp s' ! index = Some (fresh s)"
    "i \<noteq> index \<Longrightarrow> fdpp s' ! i = fdpp s ! i"
    "i \<noteq> index \<Longrightarrow> good_slot s i \<Longrightarrow> good_slot s' i"
    "i \<noteq> index \<Longrightarrow> good_slot s i \<Longrightarrow> descr s' i = descr s i"
  using assms by (auto simp: store_fd_def good_slot_def descr_def Let_def split: if_splits)

lemma good_slot_fresh: "good_slot s i \<Longrightarrow> fdpp s ! i \<noteq> Some (fresh s)"
  by (auto simp: good_slot_def)

lemma store_fd_wf:
  assumes pos: "0 \<le> fd" "fd < int (length (fdperm s))" and len: "length (fdpp s) = length (fds s)"
    and room: "nfds s < length (fds s)" and idx: "index \<le> nfds s" and prio: "nprio s \<le> Suc (nfds s)"
      "ISPRIO ty \<longleftrightarrow> index < nprio s"
    and good: "\<And>i. i \<le> nfds s \<Longrightarrow> i \<noteq> index \<Longrightarrow> good_slot s i"
    and inj: "inj_on (\<lambda>i. fdpp s ! i) ({..nfds s} - {index})"
  shows "\<exists>s'. store_fd fd ty pd index s = Some s' \<and> mloop_wf s' \<and> fdtypes s' = fdtypes s \<and>
    table s' = map (\<lambda>i. if i = index then (fd, ty, pd) else descr s i) [0..<Suc (nfds s)]"
proof -
  have "index < length (fds s)" using idx room by simp
  then obtain s' where s': "store_fd fd ty pd index s = Some s'"
    using pos len by (simp add: store_fd_def)
  note n = store_fd_facts(1-5) [OF s'] and new = store_fd_facts(8,9) [OF s']
    and old = store_fd_facts(10-12) [OF s']
  have gi: "good_slot s' index" using store_fd_facts(7) [OF s'] prio(2) by blast
  have "good_slot s' i" if "i < Suc (nfds s)" for i
    using that gi old(2) good by (cases "i = index") (auto simp: less_Suc_eq_le)
  moreover have "inj_on (\<lambda>i. fdpp s' ! i) {..<Suc (nfds s)}"
  proof (rule inj_onI)
    fix i j assume ij: "i \<in> {..<Suc (nfds s)}" "j \<in> {..<Suc (nfds s)}" and eq: "fdpp s' ! i = fdpp s' ! j"
    have "fdpp s' ! k \<noteq> fdpp s' ! index" if "k \<le> nfds s" "k \<noteq> index" for k
      using good_slot_fresh [OF good [OF that]] old(1) [OF that(2)] new(2) by simp
    with ij eq inj old(1) show "i = j"
      by (metis (no_types, lifting) DiffI atMost_iff inj_onD lessThan_iff less_Suc_eq_le singletonD)
  qed
  ultimately have "mloop_wf s'" using n room len prio(1) by (simp add: mloop_wf_def)
  moreover have "table s' = map (\<lambda>i. if i = index then (fd, ty, pd) else descr s i) [0..<Suc (nfds s)]"
    unfolding table_def n
    by (rule map_cong) (use new(1) old(3) good in \<open>auto simp: less_Suc_eq_le\<close>)
  ultimately show ?thesis using s' n by blast
qed

lemma add_fd_table:
  assumes wf: "mloop_wf s" and fd: "0 \<le> fd"
  shows "\<exists>s'. add_fd fd ty pd s = Some s' \<and> mloop_wf s' \<and> fdtypes s' = fdtypes s \<and>
    table s' = insert_descr (nprio s) (fd, ty, pd) (table s)"
proof -
  define r where "r = grow_perm fd (grow_fds s)"
  have r: "mloop_wf r" "table r = table s" "nfds r = nfds s" "nprio r = nprio s" "nfds r < length (fds r)"
    "fdtypes r = fdtypes s" "fd < int (length (fdperm r))"
    using grow_perm_wf [OF grow_fds_wf [OF wf]] grow_fds_table [OF wf] grow_fds_room [OF wf]
      grow_perm_room [OF fd] by (simp_all add: r_def)
  have good: "good_slot r i" if "i < nfds r" for i using r(1) that by (simp add: mloop_wf_def)
  have inj: "inj_on (\<lambda>i. fdpp r ! i) {..<nfds r}" and len: "length (fdpp r) = length (fds r)"
    and np: "nprio r \<le> nfds r" using r(1) by (simp_all add: mloop_wf_def)
  show ?thesis
  proof (cases "ISPRIO ty")
    case False
    have "\<exists>s'. store_fd fd ty pd (nfds r) r = Some s' \<and> mloop_wf s' \<and> fdtypes s' = fdtypes r \<and>
      table s' = map (\<lambda>i. if i = nfds r then (fd, ty, pd) else descr r i) [0..<Suc (nfds r)]"
      by (rule store_fd_wf)
        (use fd r np len good False inj in \<open>auto simp: less_Suc_eq_le inj_on_def\<close>)
    moreover have "map (\<lambda>i. if i = nfds r then (fd, ty, pd) else descr r i) [0..<Suc (nfds r)] = table s @ [(fd, ty, pd)]"
      unfolding r(2) [symmetric] by (simp add: table_def)
    ultimately show ?thesis
      using False r by (simp add: add_fd_def make_room_def insert_descr_def flip: r_def)
  next
    case True
    let ?q = "r\<lparr>fds := (fds r)[nfds r := fds r ! nprio r], fdpp := (fdpp r)[nfds r := fdpp r ! nprio r],
      nprio := nprio r + 1\<rparr>"
    have slot: "good_slot ?q i \<and> descr ?q i = descr r (if i = nfds r then nprio r else i) \<and>
        fdpp ?q ! i = fdpp r ! (if i = nfds r then nprio r else i)"
      if "i \<le> nfds r" "i \<noteq> nprio r" for i
      using good [of "if i = nfds r then nprio r else i"] that np r(5) len
      by (auto simp: good_slot_def descr_def nth_list_update)
    have "\<exists>s'. store_fd fd ty pd (nprio r) ?q = Some s' \<and> mloop_wf s' \<and> fdtypes s' = fdtypes ?q \<and>
      table s' = map (\<lambda>i. if i = nprio r then (fd, ty, pd) else descr ?q i) [0..<Suc (nfds ?q)]"
    proof (rule store_fd_wf)
      show "inj_on (\<lambda>i. fdpp ?q ! i) ({..nfds ?q} - {nprio r})"
      proof (rule inj_onI)
        fix i j assume "i \<in> {..nfds ?q} - {nprio r}" "j \<in> {..nfds ?q} - {nprio r}" "fdpp ?q ! i = fdpp ?q ! j"
        then show "i = j"
          using slot [of i] slot [of j] inj np unfolding inj_on_def
          by (auto split: if_splits)
      qed
    qed (use fd r np len slot True in \<open>auto simp: less_Suc_eq_le\<close>)
    moreover have "map (\<lambda>i. if i = nprio r then (fd, ty, pd) else descr ?q i) [0..<Suc (nfds ?q)] =
        insert_descr (nprio s) (fd, ty, pd) (table s)"
      using r slot np True
      by (intro nth_equalityI)
        (auto simp: insert_descr_def nth_append nth_Cons' take_Suc hd_drop_conv_nth min_def simp flip: r(2))
    ultimately show ?thesis
      using True r by (simp add: add_fd_def make_room_def flip: r_def)
  qed
qed

text \<open>Removing a descriptor.\<close>

lemma nth_shift_down:
  assumes "i < n" and "n \<le> length xs" and "j < length xs"
  shows "shift_down i (n - i - 1) xs ! j = (if i \<le> j \<and> j < n - 1 then xs ! Suc j else xs ! j)"
  using assms by (auto simp: shift_down_def nth_blit)

lemma length_shift_down [simp]: "i < length xs \<Longrightarrow> length (shift_down i n xs) = length xs"
  by (auto simp: shift_down_def blit_def min_def)

lemma reindex_some:
  assumes "\<And>j. j \<in> set js \<Longrightarrow> \<exists>p. cell ps (int j) = Some p \<and> 0 \<le> pfd_fd p \<and> pfd_fd p < int (length perm)"
  shows "\<exists>perm'. reindex ps js perm = Some perm' \<and> length perm' = length perm"
  using assms
proof (induction js arbitrary: perm)
  case (Cons j js)
  obtain p where p: "cell ps (int j) = Some p" "0 \<le> pfd_fd p" "pfd_fd p < int (length perm)"
    using Cons.prems [of j] by auto
  then show ?case
    using Cons.IH [of "perm[nat (pfd_fd p) := Some (word_of_nat j)]"] Cons.prems by auto
qed simp

lemma search_fd_le: "search_fd fd ps \<le> length ps"
  by (induction ps) auto

lemma search_fd_found:
  "search_fd fd ps < length ps \<Longrightarrow> map_option pfd_fd (ps ! search_fd fd ps) = Some fd"
  by (induction ps) (auto split: if_splits)

lemma search_fd_first: "j < search_fd fd ps \<Longrightarrow> map_option pfd_fd (ps ! j) \<noteq> Some fd"
proof (induction ps arbitrary: j)
  case (Cons p ps)
  then show ?case by (cases j) (auto split: if_splits)
qed simp

definition types_known :: "('m, 'd) mloop \<Rightarrow> bool" where
  "types_known s \<longleftrightarrow> (\<forall>e \<in> set (table s). TYPE2MGR (fst (snd e)) s \<noteq> None)"

lemma types_knownD: "types_known s \<Longrightarrow> i < nfds s \<Longrightarrow> \<exists>m. TYPE2MGR (fst (snd (descr s i))) s = Some m"
  by (auto simp: types_known_def table_def)

text \<open>The abstract removal: the first entry of the descriptor goes.\<close>

fun remove_descr :: "fd \<Rightarrow> 'd descr list \<Rightarrow> 'd descr list" where
  "remove_descr fd [] = []"
| "remove_descr fd (e # es) = (if fst e = fd then es else e # remove_descr fd es)"

lemma remove_descr_at:
  assumes "i < length es" and "fst (es ! i) = fd" and "\<And>j. j < i \<Longrightarrow> fst (es ! j) \<noteq> fd"
  shows "remove_descr fd es = take i es @ drop (Suc i) es"
  using assms
proof (induction es arbitrary: i)
  case (Cons e es)
  show ?case
  proof (cases i)
    case 0
    with Cons.prems show ?thesis by simp
  next
    case (Suc k)
    have "fst e \<noteq> fd" using Cons.prems(3) [of 0] Suc by simp
    moreover have "fst (es ! j) \<noteq> fd" if "j < k" for j using Cons.prems(3) [of "Suc j"] that Suc by simp
    then have "remove_descr fd es = take k es @ drop (Suc k) es"
      using Cons.prems Suc by (intro Cons.IH) auto
    ultimately show ?thesis using Suc by simp
  qed
qed simp

lemma first_match:
  assumes "i < length xs" and "P (xs ! i)" and "\<And>j. j < i \<Longrightarrow> \<not> P (xs ! j)"
  shows "take 1 (filter P xs) = [xs ! i]"
proof -
  have "filter P (take i xs) = []"
    using assms by (auto simp: filter_empty_conv in_set_conv_nth)
  moreover have "xs = take i xs @ xs ! i # drop (Suc i) xs"
    using assms(1) by (rule id_take_nth_drop)
  ultimately have "filter P xs = xs ! i # filter P (drop (Suc i) xs)"
    using assms(2) by (metis (no_types, lifting) filter.simps(2) filter_append self_append_conv2)
  then show ?thesis by simp
qed

lemma remove_descr_absent: "(\<And>e. e \<in> set es \<Longrightarrow> fst e \<noteq> fd) \<Longrightarrow> remove_descr fd es = es"
  by (induction es) auto

lemma good_slotD:
  assumes "good_slot s i"
  obtains p a d where "fds s ! i = Some p" "fdpp s ! i = Some a" "heap s a = Some d" "a < fresh s"
    "0 \<le> pfd_fd p" "pfd_fd p < int (length (fdperm s))" "ISPRIO (pp_type d) \<longleftrightarrow> i < nprio s"
    "descr s i = (pfd_fd p, pp_type d, pp_private d)"
  using assms by (auto simp: good_slot_def descr_def)

lemma cell_nat [simp]: "i < length xs \<Longrightarrow> cell xs (int i) = xs ! i"
  by (simp add: cell_def)

lemma search_fd_table:
  assumes wf: "mloop_wf s" and i: "i = search_fd fd (take (nfds s) (fds s))"
  shows "i \<le> nfds s" and "i < nfds s \<Longrightarrow> fst (descr s i) = fd"
    and "j < i \<Longrightarrow> fst (descr s j) \<noteq> fd"
proof -
  have len: "length (take (nfds s) (fds s)) = nfds s" using wf by (simp add: mloop_wf_def)
  show le: "i \<le> nfds s" using search_fd_le [of fd "take (nfds s) (fds s)"] i len by simp
  have good: "good_slot s k" if "k < nfds s" for k using wf that by (simp add: mloop_wf_def)
  show "fst (descr s i) = fd" if "i < nfds s"
    using search_fd_found [of fd "take (nfds s) (fds s)"] i len that good [OF that] by (auto elim!: good_slotD)
  show "fst (descr s j) \<noteq> fd" if "j < i"
    using search_fd_first [of j fd "take (nfds s) (fds s)"] i that le good [of j] by (auto elim!: good_slotD)
qed

lemma remove_fd_table:
  assumes wf: "mloop_wf s" and known: "types_known s"
  shows "\<exists>calls s'. remove_fd fd s = Some (calls, s') \<and> mloop_wf s' \<and> fdtypes s' = fdtypes s \<and>
    table s' = remove_descr fd (table s) \<and>
    calls = map (\<lambda>e. (the (TYPE2MGR (fst (snd e)) s), fst (snd e), fst e, snd (snd e)))
      (take 1 (filter (\<lambda>e. fst e = fd) (table s)))"
proof -
  define i where "i = search_fd fd (take (nfds s) (fds s))"
  note found = search_fd_table [OF wf i_def]
  have n: "nfds s \<le> length (fds s)" "length (fdpp s) = length (fds s)" "nprio s \<le> nfds s"
    using wf by (auto simp: mloop_wf_def)
  have good: "good_slot s k" if "k < nfds s" for k
    using wf that by (auto simp: mloop_wf_def)
  show ?thesis
  proof (cases "i = nfds s")
    case True
    have "fst e \<noteq> fd" if "e \<in> set (table s)" for e
      using that found(3) True by (fastforce simp: table_def)
    then show ?thesis
      using wf True remove_descr_absent [of "table s" fd]
      by (simp add: remove_fd_def Let_def flip: i_def)
  next
    case False
    then have i: "i < nfds s" using found(1) by simp
    obtain p a d where slot: "fds s ! i = Some p" "fdpp s ! i = Some a" "heap s a = Some d"
        "ISPRIO (pp_type d) \<longleftrightarrow> i < nprio s" and descr_i: "descr s i = (pfd_fd p, pp_type d, pp_private d)"
      by (rule good_slotD [OF good [OF i]]) auto
    obtain m where m: "TYPE2MGR (pp_type d) s = Some m"
      using types_knownD [OF known i] descr_i by auto
    let ?f = "shift_down i (nfds s - i - 1) (fds s)" and ?a = "shift_down i (nfds s - i - 1) (fdpp s)"
    have f: "?f ! j = (if i \<le> j \<and> j < nfds s - 1 then fds s ! Suc j else fds s ! j)" if "j < nfds s" for j
      by (rule nth_shift_down) (use i n that in auto)
    have a: "?a ! j = (if i \<le> j \<and> j < nfds s - 1 then fdpp s ! Suc j else fdpp s ! j)" if "j < nfds s" for j
      by (rule nth_shift_down) (use i n that in auto)
    have "\<exists>perm'. reindex ?f [i..<nfds s] (fdperm s) = Some perm' \<and> length perm' = length (fdperm s)"
    proof (rule reindex_some)
      fix j assume "j \<in> set [i..<nfds s]"
      then have j: "i \<le> j" "j < nfds s" by auto
      then have "good_slot s (if j < nfds s - 1 then Suc j else j)" by (intro good) auto
      with j show "\<exists>p. cell ?f (int j) = Some p \<and> 0 \<le> pfd_fd p \<and> pfd_fd p < int (length (fdperm s))"
        using f [of j] i n
        by (cases "j < nfds s - 1") (auto elim!: good_slotD)
    qed
    then obtain perm' where perm': "reindex ?f [i..<nfds s] (fdperm s) = Some perm'"
      "length perm' = length (fdperm s)" by blast
    define s' where "s' = s\<lparr>nprio := (if i < nprio s then nprio s - 1 else nprio s), fds := ?f, fdpp := ?a,
      fdperm := perm', heap := (heap s)(a := None), nfds := nfds s - 1\<rparr>"
    have run: "remove_fd fd s = Some ([(m, pp_type d, pfd_fd p, pp_private d)], s')"
      using False i n slot m perm'
      by (simp add: remove_fd_def cleanup_entry_def Let_def s'_def flip: i_def)
    have slots: "good_slot s' j \<and> descr s' j = descr s (if i \<le> j then Suc j else j) \<and>
        fdpp s' ! j = fdpp s ! (if i \<le> j then Suc j else j)" if "j < nfds s - 1" for j
    proof -
      let ?j = "if i \<le> j then Suc j else j"
      have j: "?j < nfds s" "?j \<noteq> i" using that by auto
      obtain p' a' d' where o: "fds s ! ?j = Some p'" "fdpp s ! ?j = Some a'" "heap s a' = Some d'" "a' < fresh s"
          "0 \<le> pfd_fd p'" "pfd_fd p' < int (length (fdperm s))" "ISPRIO (pp_type d') \<longleftrightarrow> ?j < nprio s"
        by (rule good_slotD [OF good [OF j(1)]])
      have "a' \<noteq> a" using wf i j slot(2) o(2) unfolding mloop_wf_def inj_on_def by force
      moreover have "fds s' ! j = Some p'" "fdpp s' ! j = Some a'"
        using that f [of j] a [of j] o(1,2) by (auto simp: s'_def split: if_splits)
      moreover have "(?j < nprio s) = (j < nprio s')" by (auto simp: s'_def)
      ultimately show ?thesis using o perm'(2) by (auto simp: good_slot_def descr_def s'_def)
    qed
    have "inj_on (\<lambda>j. fdpp s' ! j) {..<nfds s - 1}"
    proof (rule inj_onI)
      fix j k assume jk: "j \<in> {..<nfds s - 1}" "k \<in> {..<nfds s - 1}" and "fdpp s' ! j = fdpp s' ! k"
      then have "fdpp s ! (if i \<le> j then Suc j else j) = fdpp s ! (if i \<le> k then Suc k else k)"
        using slots by simp
      then have "(if i \<le> j then Suc j else j) = (if i \<le> k then Suc k else k)"
        using wf jk by (intro inj_onD [of "\<lambda>i. fdpp s ! i" "{..<nfds s}"]) (auto simp: mloop_wf_def)
      then show "j = k" by (auto split: if_splits)
    qed
    then have "mloop_wf s'" using slots n i by (auto simp: mloop_wf_def s'_def)
    moreover have "table s' = remove_descr fd (table s)"
    proof -
      have "remove_descr fd (table s) = take i (table s) @ drop (Suc i) (table s)"
        using i found by (intro remove_descr_at) auto
      also have "\<dots> = table s'"
        using i slots by (intro nth_equalityI) (auto simp: s'_def nth_append min_def)
      finally show ?thesis ..
    qed
    moreover have "take 1 (filter (\<lambda>e. fst e = fd) (table s)) = [descr s i]"
      using first_match [of i "table s" "\<lambda>e. fst e = fd"] found i by simp
    ultimately show ?thesis using run m descr_i by (simp add: s'_def)
  qed
qed

section \<open>What a round does\<close>

text \<open>The descriptors that are ready from index \<open>i\<close> on, in the order of the array.\<close>

definition ready :: "('m, 'd) mloop \<Rightarrow> nat \<Rightarrow> bool" where
  "ready s j \<longleftrightarrow> pfd_revents (the (fds s ! j)) \<noteq> 0"

definition events :: "('m, 'd) mloop \<Rightarrow> nat \<Rightarrow> ('d descr \<times> u16) list" where
  "events s i = map (\<lambda>j. (descr s j, pfd_revents (the (fds s ! j)))) (filter (ready s) [i..<nfds s])"

lemma events_rec:
  "i < nfds s \<Longrightarrow> events s i =
     (if ready s i then [(descr s i, pfd_revents (the (fds s ! i)))] else []) @ events s (Suc i)"
  by (simp add: events_def upt_rec [of i])

lemma events_end: "nfds s \<le> i \<Longrightarrow> events s i = []"
  by (simp add: events_def)

lemma events_cong:
  assumes "nfds s' = nfds s"
    and "\<And>j. i \<le> j \<Longrightarrow> j < nfds s \<Longrightarrow> fds s' ! j = fds s ! j \<and> descr s' j = descr s j"
  shows "events s' i = events s i"
proof -
  have "filter (ready s') [i..<nfds s] = filter (ready s) [i..<nfds s]"
    by (rule filter_cong) (use assms in \<open>auto simp: ready_def\<close>)
  then show ?thesis using assms by (auto simp: events_def)
qed

definition stamp :: "nat \<Rightarrow> int \<Rightarrow> ('m, 'd) mloop \<Rightarrow> ('m, 'd) mloop" where
  "stamp a now s = s\<lparr>heap := (heap s)(a := map_option (\<lambda>d. d\<lparr>pp_timestamp := now\<rparr>) (heap s a))\<rparr>"

lemma stamp_frame [simp]:
  "nfds (stamp a now s) = nfds s" "nprio (stamp a now s) = nprio s" "fds (stamp a now s) = fds s"
  "fdpp (stamp a now s) = fdpp s" "fdperm (stamp a now s) = fdperm s" "fdtypes (stamp a now s) = fdtypes s"
  "fresh (stamp a now s) = fresh s"
  by (simp_all add: stamp_def)

lemma stamp_good:
  assumes "good_slot s i"
  shows "good_slot (stamp a now s) i \<and> descr (stamp a now s) i = descr s i"
proof -
  obtain p b d where o: "fds s ! i = Some p" "fdpp s ! i = Some b" "heap s b = Some d" "b < fresh s"
    "0 \<le> pfd_fd p" "pfd_fd p < int (length (fdperm s))" "ISPRIO (pp_type d) \<longleftrightarrow> i < nprio s"
    using assms by (rule good_slotD)
  have "heap (stamp a now s) b = Some (if a = b then d\<lparr>pp_timestamp := now\<rparr> else d)"
    using o(3) by (auto simp: stamp_def)
  with o show ?thesis by (simp add: good_slot_def descr_def)
qed

lemma stamp_wf: "mloop_wf s \<Longrightarrow> mloop_wf (stamp a now s)"
  by (auto simp: mloop_wf_def stamp_good)

lemma stamp_table: "mloop_wf s \<Longrightarrow> table (stamp a now s) = table s"
  by (auto simp: mloop_wf_def table_def stamp_good)

lemma stamp_events: "mloop_wf s \<Longrightarrow> events (stamp a now s) i = events s i"
  by (rule events_cong) (auto simp: mloop_wf_def stamp_good)

lemma nth_swap_slots:
  "i < length xs \<Longrightarrow> j < length xs \<Longrightarrow> k < length xs \<Longrightarrow>
     swap_slots i j xs ! k = xs ! (if k = i then j else if k = j then i else k)"
  by (auto simp: swap_slots_def nth_list_update)

lemma swap_keeps:
  assumes wf: "mloop_wf s" and i: "i < nfds s" "0 < i" "i \<noteq> nprio s"
    and len: "length perm = length (fdperm s)"
  defines "s' \<equiv> s\<lparr>fds := swap_slots i (i - 1) (fds s), fdpp := swap_slots i (i - 1) (fdpp s), fdperm := perm\<rparr>"
  shows "mloop_wf s'" and "mset (table s') = mset (table s)" and "events s' (Suc i) = events s (Suc i)"
proof -
  let ?t = "\<lambda>k. if k = i then i - 1 else if k = i - 1 then i else k"
  have n: "nfds s \<le> length (fds s)" "length (fdpp s) = length (fds s)" "nprio s \<le> nfds s"
    and inj: "inj_on (\<lambda>i. fdpp s ! i) {..<nfds s}"
    using wf by (auto simp: mloop_wf_def)
  have slot: "good_slot s' k \<and> descr s' k = descr s (?t k) \<and> fds s' ! k = fds s ! ?t k \<and>
      fdpp s' ! k = fdpp s ! ?t k" if "k < nfds s" for k
  proof -
    have "?t k < nfds s" "(?t k < nprio s) = (k < nprio s)" using that i by auto
    moreover have "good_slot s (?t k)" using wf that i by (simp add: mloop_wf_def)
    moreover have "fds s' ! k = fds s ! ?t k" "fdpp s' ! k = fdpp s ! ?t k"
      using that i n by (auto simp: s'_def nth_swap_slots)
    ultimately show ?thesis using len by (simp add: good_slot_def descr_def s'_def)
  qed
  have inj': "inj_on (\<lambda>i. fdpp s' ! i) {..<nfds s}"
  proof (rule inj_onI)
    fix j k assume jk: "j \<in> {..<nfds s}" "k \<in> {..<nfds s}" "fdpp s' ! j = fdpp s' ! k"
    then have "fdpp s ! ?t j = fdpp s ! ?t k" using slot by simp
    moreover have "?t j < nfds s" "?t k < nfds s" using jk i by auto
    ultimately have "?t j = ?t k" by (intro inj_onD [OF inj]) auto
    then show "j = k" by (auto split: if_splits)
  qed
  then show "mloop_wf s'"
    using slot n by (simp add: mloop_wf_def s'_def)
  have "table s' = (table s)[i := table s ! (i - 1), i - 1 := table s ! i]"
    using slot i by (intro nth_equalityI) (auto simp: s'_def nth_list_update)
  then show "mset (table s') = mset (table s)" using mset_swap [of "i - 1" "table s" i] i by simp
  show "events s' (Suc i) = events s (Suc i)"
    by (rule events_cong) (use slot in \<open>auto simp: s'_def\<close>)
qed

lemma optpoll_keeps:
  assumes wf: "mloop_wf s" and i: "i < nfds s"
  shows "\<exists>s'. optpoll i s = Some s' \<and> mloop_wf s' \<and> nfds s' = nfds s \<and> fdtypes s' = fdtypes s \<and>
    mset (table s') = mset (table s) \<and> events s' (Suc i) = events s (Suc i)"
proof (cases "0 < i \<and> i \<noteq> nprio s")
  case False
  with wf show ?thesis by (auto simp: optpoll_def)
next
  case True
  have n: "nfds s \<le> length (fds s)" "length (fdpp s) = length (fds s)" using wf by (auto simp: mloop_wf_def)
  obtain p a d where o: "fds s ! i = Some p" "fdpp s ! i = Some a" "heap s a = Some d"
      "0 \<le> pfd_fd p" "pfd_fd p < int (length (fdperm s))"
    using wf i by (auto simp: mloop_wf_def elim!: good_slotD)
  have "good_slot s (i - 1)" using wf i by (simp add: mloop_wf_def)
  then obtain p' a' d' where o': "fds s ! (i - 1) = Some p'" "fdpp s ! (i - 1) = Some a'" "heap s a' = Some d'"
      "0 \<le> pfd_fd p'" "pfd_fd p' < int (length (fdperm s))"
    by (auto elim: good_slotD)
  show ?thesis
  proof (cases "pp_timestamp d > pp_timestamp d'")
    case False
    then show ?thesis using wf i n True o o' by (simp add: optpoll_def del: of_nat_diff)
  next
    case swap: True
    let ?perm = "((fdperm s)[nat (pfd_fd p') := Some (word_of_nat i)])[nat (pfd_fd p) := Some (word_of_nat (i - 1))]"
    have "optpoll i s = Some (s\<lparr>fds := swap_slots i (i - 1) (fds s), fdpp := swap_slots i (i - 1) (fdpp s),
        fdperm := ?perm\<rparr>)"
      using True swap i n o o' by (simp add: optpoll_def Let_def nth_swap_slots del: of_nat_diff)
    then show ?thesis using swap_keeps [OF wf i, of ?perm] True by simp
  qed
qed

text \<open>
  Modules whose \<open>handle_io\<close> leaves the descriptors alone, as the data sockets do while packets
  flow: the call only changes the rest of the program.
\<close>

locale quiet_io =
  fixes io :: "('m, 'd, 'w) handle_io" and serve :: "'m \<Rightarrow> u8 \<Rightarrow> fd \<Rightarrow> u16 \<Rightarrow> 'd \<Rightarrow> 'w \<Rightarrow> 'w"
  assumes quiet: "io m ty fd re pd (s, w) = Some (s, serve m ty fd re pd w)"
begin

definition serve_all :: "('m, 'd) mloop \<Rightarrow> ('d descr \<times> u16) list \<Rightarrow> 'w \<Rightarrow> 'w" where
  "serve_all s = fold (\<lambda>((fd, ty, pd), re). serve (the (TYPE2MGR ty s)) ty fd re pd)"

lemma serve_all_cong: "fdtypes s' = fdtypes s \<Longrightarrow> serve_all s' = serve_all s"
  by (simp add: serve_all_def TYPE2MGR_def)

lemma dispatch_from:
  assumes "mloop_wf s" and "types_known s" and "n = length (events s i)"
  shows "\<exists>s'. dispatch io now i n s w = Some (s', serve_all s (events s i) w) \<and>
    mloop_wf s' \<and> types_known s' \<and> mset (table s') = mset (table s)"
  using assms
proof (induction "nfds s - i" arbitrary: i n s w)
  case 0
  then show ?case by (auto simp: events_end serve_all_def dispatch.simps)
next
  case (Suc k)
  show ?case
  proof (cases "n = 0")
    case True
    then show ?thesis using Suc.prems by (auto simp: serve_all_def dispatch.simps)
  next
    case n: False
    have i: "i < nfds s" using Suc.hyps(2) by simp
    obtain p a d where o: "fds s ! i = Some p" "fdpp s ! i = Some a" "heap s a = Some d"
        "descr s i = (pfd_fd p, pp_type d, pp_private d)"
      using Suc.prems(1) i by (auto simp: mloop_wf_def elim!: good_slotD)
    have len: "i < length (fds s)" "i < length (fdpp s)" using Suc.prems(1) i by (auto simp: mloop_wf_def)
    show ?thesis
    proof (cases "pfd_revents p = 0")
      case False
      obtain m where m: "TYPE2MGR (pp_type d) s = Some m" using types_knownD [OF Suc.prems(2) i] o(4) by auto
      define s1 where "s1 = stamp a now s"
      define w1 where "w1 = serve m (pp_type d) (pfd_fd p) (pfd_revents p) (pp_private d) w"
      have s1: "s1 = s\<lparr>heap := (heap s)(a \<mapsto> d\<lparr>pp_timestamp := now\<rparr>)\<rparr>"
        by (simp add: s1_def stamp_def o(3))
      have ev: "events s i = (descr s i, pfd_revents p) # events s1 (Suc i)"
        using False o(1) stamp_events [OF Suc.prems(1)] by (simp add: events_rec [OF i] ready_def s1_def)
      have st: "mloop_wf s1" "types_known s1" "table s1 = table s" "fdtypes s1 = fdtypes s" "nfds s1 = nfds s"
        using Suc.prems(1,2) stamp_wf [OF Suc.prems(1)] stamp_table [OF Suc.prems(1)]
        by (simp_all add: s1_def types_known_def TYPE2MGR_def)
      have "dispatch io now i n s w = dispatch io now (Suc i) (n - 1) s1 w1"
        using n False len o m by (simp add: dispatch.simps [of io now i] quiet w1_def flip: s1)
      moreover have "k = nfds s1 - Suc i" "n - 1 = length (events s1 (Suc i))"
        using Suc.hyps(2) Suc.prems(3) ev st by auto
      moreover have "serve_all s (events s i) w = serve_all s1 (events s1 (Suc i)) w1"
        using ev o(4) m serve_all_cong [OF st(4)] by (simp add: serve_all_def w1_def)
      ultimately show ?thesis using Suc.hyps(1) [of s1 "Suc i" "n - 1" w1] st by simp
    next
      case True
      obtain s1 where s1: "optpoll i s = Some s1" "mloop_wf s1" "nfds s1 = nfds s" "fdtypes s1 = fdtypes s"
          "mset (table s1) = mset (table s)" "events s1 (Suc i) = events s (Suc i)"
        using optpoll_keeps [OF Suc.prems(1) i] by blast
      have "types_known s1"
        using Suc.prems(2) s1(4) mset_eq_setD [OF s1(5)] by (simp add: types_known_def TYPE2MGR_def)
      moreover have "dispatch io now i n s w = dispatch io now (Suc i) n s1 w"
        using n True len o s1(1) by (simp add: dispatch.simps [of io now i])
      moreover have ev: "events s i = events s1 (Suc i)"
        using True o(1) s1(6) by (simp add: events_rec [OF i] ready_def)
      ultimately show ?thesis
        using Suc.hyps(1) [of s1 "Suc i" n w] Suc.hyps(2) Suc.prems(3) s1 serve_all_cong [OF s1(4)] by simp
    qed
  qed
qed

end

lemma poll_writes_slot:
  assumes "mloop_wf s" and "length rs = nfds s" and "j < nfds s"
  shows "good_slot (poll_writes rs s) j" and "descr (poll_writes rs s) j = descr s j"
    and "pfd_revents (the (fds (poll_writes rs s) ! j)) = rs ! j"
proof -
  have len: "nfds s \<le> length (fds s)" using assms(1) by (simp add: mloop_wf_def)
  have "good_slot s j" using assms by (simp add: mloop_wf_def)
  then obtain p a d where o: "fds s ! j = Some p" "fdpp s ! j = Some a" "heap s a = Some d" "a < fresh s"
      "0 \<le> pfd_fd p" "pfd_fd p < int (length (fdperm s))" "ISPRIO (pp_type d) \<longleftrightarrow> j < nprio s"
    by (rule good_slotD)
  have slot: "fds (poll_writes rs s) ! j = Some (p\<lparr>pfd_revents := rs ! j\<rparr>)"
    using assms(2,3) o(1) len by (simp add: poll_writes_def nth_append)
  have rest: "fdpp (poll_writes rs s) = fdpp s" "heap (poll_writes rs s) = heap s" "fresh (poll_writes rs s) = fresh s"
      "fdperm (poll_writes rs s) = fdperm s" "nprio (poll_writes rs s) = nprio s"
    by (simp_all add: poll_writes_def)
  show "good_slot (poll_writes rs s) j" using o slot by (simp add: good_slot_def rest)
  show "descr (poll_writes rs s) j = descr s j" using o slot by (simp add: descr_def rest)
  show "pfd_revents (the (fds (poll_writes rs s) ! j)) = rs ! j" using slot by simp
qed

lemma poll_writes_wf:
  assumes "mloop_wf s" and "length rs = nfds s"
  shows "mloop_wf (poll_writes rs s)" and "table (poll_writes rs s) = table s"
    and "types_known s \<Longrightarrow> types_known (poll_writes rs s)"
    and "events (poll_writes rs s) 0 = filter (\<lambda>e. snd e \<noteq> 0) (zip (table s) rs)"
proof -
  have n: "nfds (poll_writes rs s) = nfds s" by (simp add: poll_writes_def)
  show "mloop_wf (poll_writes rs s)"
    using assms poll_writes_slot(1) [OF assms] by (simp add: mloop_wf_def poll_writes_def)
  show t: "table (poll_writes rs s) = table s"
    using poll_writes_slot(2) [OF assms] by (simp add: table_def n)
  show "types_known s \<Longrightarrow> types_known (poll_writes rs s)"
    using t by (simp add: types_known_def TYPE2MGR_def) (simp add: poll_writes_def)
  have "events (poll_writes rs s) 0 =
      filter (\<lambda>e. snd e \<noteq> 0) (map (\<lambda>j. (descr s j, rs ! j)) [0..<nfds s])"
    unfolding events_def n filter_map
    using poll_writes_slot(2,3) [OF assms] by (auto simp: ready_def intro!: map_cong filter_cong)
  also have "map (\<lambda>j. (descr s j, rs ! j)) [0..<nfds s] = zip (table s) rs"
    using assms(2) by (intro nth_equalityI) auto
  finally show "events (poll_writes rs s) 0 = filter (\<lambda>e. snd e \<noteq> 0) (zip (table s) rs)" .
qed

section \<open>The permutation array\<close>

definition perm_ok :: "('m, 'd) mloop \<Rightarrow> bool" where
  "perm_ok s \<longleftrightarrow> (\<forall>i < nfds s. cell (fdperm s) (fst (descr s i)) = Some (word_of_nat i))"

lemma sint_word_of_nat_16: "i < 2 ^ 15 \<Longrightarrow> sint (word_of_nat i :: 16 word) = int i"
  by (simp add: signed_of_nat signed_take_bit_int_eq_self)

lemma perm_ok_index:
  assumes "perm_ok s" and "i < nfds s" and "nfds s \<le> 2 ^ 15"
  shows "perm_index (fst (descr s i)) s = Some (int i)"
    and "0 \<le> fst (descr s i)" and "fst (descr s i) < int (length (fdperm s))"
proof -
  have c: "cell (fdperm s) (fst (descr s i)) = Some (word_of_nat i)" using assms by (simp add: perm_ok_def)
  then show "perm_index (fst (descr s i)) s = Some (int i)"
    using assms sint_word_of_nat_16 [of i] by (simp add: perm_index_def)
  from c show "0 \<le> fst (descr s i)" "fst (descr s i) < int (length (fdperm s))"
    by (auto simp: cell_def split: if_splits)
qed

text \<open>Private data through the permutation array: the entry of the descriptor itself.\<close>

lemma get_private_data_ok:
  assumes wf: "mloop_wf s" and perm: "perm_ok s" and i: "i < nfds s" and n: "nfds s \<le> 2 ^ 15"
  shows "mainloop_get_private_data (fst (descr s i)) s = Some (Some (snd (snd (descr s i))))"
proof -
  have "good_slot s i" using wf i by (simp add: mloop_wf_def)
  then obtain p :: pollfd and a d where "fdpp s ! i = Some a" "heap s a = Some d"
      "descr s i = (pfd_fd p, pp_type d, pp_private d)"
    by (rule good_slotD)
  then show ?thesis
    using perm_ok_index [OF perm i n] wf i by (simp add: mainloop_get_private_data_def mloop_wf_def)
qed

lemma set_private_data_at:
  assumes wf: "mloop_wf s" and c: "cell (fdperm s) g = Some (word_of_nat i)" and i: "i < nfds s" and n: "nfds s \<le> 2 ^ 15"
  shows "\<exists>s'. mainloop_set_private_data g x s = Some s' \<and> mloop_wf s' \<and> (perm_ok s \<longrightarrow> perm_ok s') \<and>
    table s' = (table s)[i := (fst (descr s i), fst (snd (descr s i)), x)]"
proof -
  obtain p a d where o: "fds s ! i = Some p" "fdpp s ! i = Some a" "heap s a = Some d"
      "descr s i = (pfd_fd p, pp_type d, pp_private d)"
    using wf i by (auto simp: mloop_wf_def elim!: good_slotD)
  define s' where "s' = s\<lparr>heap := (heap s)(a \<mapsto> d\<lparr>pp_private := x\<rparr>)\<rparr>"
  have "perm_index g s = Some (int i)" "0 \<le> g" "g < int (length (fdperm s))"
    using c i n sint_word_of_nat_16 [of i] by (simp_all add: perm_index_def cell_def split: if_splits)
  then have run: "mainloop_set_private_data g x s = Some s'"
    using o wf i by (simp add: mainloop_set_private_data_def mloop_wf_def s'_def)
  have slot: "good_slot s' j \<and> descr s' j = (if j = i then (pfd_fd p, pp_type d, x) else descr s j)"
    if j: "j < nfds s" for j
  proof -
    have g: "good_slot s j" and inj: "j \<noteq> i \<Longrightarrow> fdpp s ! j \<noteq> fdpp s ! i"
      using wf i j unfolding mloop_wf_def inj_on_def by auto
    obtain p' a' d' where o': "fds s ! j = Some p'" "fdpp s ! j = Some a'" "heap s a' = Some d'" "a' < fresh s"
      "0 \<le> pfd_fd p'" "pfd_fd p' < int (length (fdperm s))" "ISPRIO (pp_type d') \<longleftrightarrow> j < nprio s"
      using g by (rule good_slotD)
    show ?thesis
    proof (cases "j = i")
      case True
      then show ?thesis using o o' by (simp add: good_slot_def descr_def s'_def)
    next
      case False
      then have "heap s' a' = Some d'" using inj o o' by (auto simp: s'_def)
      then show ?thesis using o' False by (simp add: good_slot_def descr_def s'_def)
    qed
  qed
  then have "mloop_wf s'" using wf by (simp add: mloop_wf_def s'_def)
  moreover have "perm_ok s'" if "perm_ok s" using that slot o(4) by (auto simp: perm_ok_def s'_def)
  moreover have "table s' = (table s)[i := (pfd_fd p, pp_type d, x)]"
    using slot by (intro nth_equalityI) (auto simp: s'_def nth_list_update)
  ultimately show ?thesis using run o(4) by simp
qed

lemma set_private_data_ok:
  assumes "mloop_wf s" and "perm_ok s" and "i < nfds s" and "nfds s \<le> 2 ^ 15"
  shows "\<exists>s'. mainloop_set_private_data (fst (descr s i)) x s = Some s' \<and> mloop_wf s' \<and> perm_ok s' \<and>
    table s' = (table s)[i := (fst (descr s i), fst (snd (descr s i)), x)]"
  using set_private_data_at [OF assms(1) _ assms(3,4), of "fst (descr s i)" x] assms(2,3) by (auto simp: perm_ok_def)

lemma perm_ok_add:
  assumes wf: "mloop_wf s" and perm: "perm_ok s" and fd: "0 \<le> fd" and new: "fd \<notin> fst ` set (table s)"
    and ty: "\<not> ISPRIO ty \<or> nprio s = nfds s" and add: "add_fd fd ty pd s = Some s'"
  shows "perm_ok s'"
proof -
  define r where "r = grow_perm fd (grow_fds s)"
  have perm_r: "cell (fdperm r) g = cell (fdperm s) g" if "cell (fdperm s) g \<noteq> None" for g
    using that by (auto simp: r_def grow_perm_def cell_def nth_append Let_def split: if_splits)
  have "fdperm s' = (fdperm r)[nat fd := Some (word_of_nat (nfds s))]" "length (fdperm r) > nat fd"
    "nfds s' = Suc (nfds s)"
    using add ty fd unfolding add_fd_def make_room_def store_fd_def r_def
    by (auto split: if_splits)
  then have cells: "cell (fdperm s') fd = Some (word_of_nat (nfds s))"
      "\<forall>g. g \<noteq> fd \<longrightarrow> cell (fdperm s') g = cell (fdperm r) g"
    using fd by (auto simp: cell_def nat_eq_iff)
  have "table s' = table s @ [(fd, ty, pd)]"
    using add_fd_table [OF wf fd, of ty pd] add ty length_table [of s]
    by (auto simp: insert_descr_def simp del: length_table)
  then have d: "descr s' i = (if i = nfds s then (fd, ty, pd) else descr s i)" if "i < Suc (nfds s)" for i
    using that \<open>nfds s' = Suc (nfds s)\<close> nth_table [of i s'] by (auto simp: nth_append)
  have "cell (fdperm s') (fst (descr s' i)) = Some (word_of_nat i)" if "i < Suc (nfds s)" for i
  proof (cases "i = nfds s")
    case True
    then show ?thesis using d [OF that] cells(1) by simp
  next
    case False
    then have i: "i < nfds s" using that by simp
    then have "fst (descr s i) \<noteq> fd" using new by (force simp: table_def)
    then show ?thesis using d [OF that] False cells(2) perm_r perm i by (simp add: perm_ok_def)
  qed
  then show ?thesis using \<open>nfds s' = Suc (nfds s)\<close> by (simp add: perm_ok_def)
qed

section \<open>Properties\<close>

text \<open>
  C10: \<open>add_fd\<close> and \<open>remove_fd\<close> implement a table of descriptors. From a well-formed state both
  succeed without an invalid access and keep it well formed; a new descriptor is appended, or
  put behind the priority descriptors (the entry there moves to the end) when its type has
  priority; removing takes out the first entry of the descriptor, calls the cleanup of its
  module exactly once with its type and private data, and changes nothing when the descriptor
  is not in the table.
\<close>

theorem descriptor_table:
  assumes "mloop_wf s" and "types_known s" and "0 \<le> fd"
  shows "(\<exists>s'. add_fd fd ty pd s = Some s' \<and> mloop_wf s' \<and>
      table s' = insert_descr (nprio s) (fd, ty, pd) (table s)) \<and>
    (\<exists>calls s'. remove_fd fd s = Some (calls, s') \<and> mloop_wf s' \<and>
      table s' = remove_descr fd (table s) \<and>
      calls = map (\<lambda>e. (the (TYPE2MGR (fst (snd e)) s), fst (snd e), fst e, snd (snd e)))
        (take 1 (filter (\<lambda>e. fst e = fd) (table s))))"
  using add_fd_table [OF assms(1,3), of ty pd] remove_fd_table [OF assms(1,2), of fd] by blast

text \<open>A loop with one module of two types, the second with priority, and two descriptors.\<close>

definition example_loop :: "(string, string) mloop" where
  "example_loop = mloop_start\<lparr>nfds := 2, nprio := 1,
     fds := [Some \<lparr>pfd_fd = 5, pfd_events = 17, pfd_revents = 0\<rparr>,
             Some \<lparr>pfd_fd = 4, pfd_events = 17, pfd_revents = 0\<rparr>, None, None],
     fdpp := [Some 1, Some 0, None, None],
     heap := [0 \<mapsto> \<lparr>pp_type = 0, pp_private = ''ctl'', pp_timestamp = 0\<rparr>,
              1 \<mapsto> \<lparr>pp_type = 0x81, pp_private = ''data'', pp_timestamp = 0\<rparr>],
     fresh := 2, fdperm := replicate 4 None @ [Some 1, Some 0] @ replicate 10 None,
     fdtypes := [Some ''unix'', Some ''unix'', None], ntypes := 2\<rparr>"

lemma less_2_iff: "i < (2 :: nat) \<longleftrightarrow> i = 0 \<or> i = 1"
  by auto

lemma example_loop_wf: "mloop_wf example_loop"
  by (auto simp: mloop_wf_def example_loop_def mloop_start_def good_slot_def less_2_iff
      ISPRIO_def PRIOFLAG_def inj_on_def)

lemma example_loop_table: "table example_loop = [(5, 0x81, ''data''), (4, 0, ''ctl'')]"
  by (simp add: table_def example_loop_def mloop_start_def descr_def upt_rec)

lemma example_loop_types: "types_known example_loop"
  by (simp add: types_known_def example_loop_table TYPE2MGR_def TYPEMASK_def cell_def)
    (simp add: example_loop_def mloop_start_def)

lemma example_loop_nprio: "nprio example_loop = 1"
  by (simp add: example_loop_def)

theorem descriptor_table_witness:
  "(\<exists>s'. add_fd 6 0x81 ''new'' example_loop = Some s' \<and>
      table s' = [(5, 0x81, ''data''), (6, 0x81, ''new''), (4, 0, ''ctl'')]) \<and>
   (\<exists>calls s'. remove_fd 5 example_loop = Some (calls, s') \<and> table s' = [(4, 0, ''ctl'')] \<and>
      map snd calls = [(0x81, 5, ''data'')])"
  using descriptor_table [OF example_loop_wf example_loop_types, of 6 "0x81" "''new''"]
    descriptor_table [OF example_loop_wf example_loop_types, of 5 0 "[]"]
  by (auto simp: example_loop_table insert_descr_def ISPRIO_def PRIOFLAG_def example_loop_nprio)

text \<open>
  The permutation array gives a caller the entry of the descriptor it names as long as it
  is exact: reading returns that entry's private data, writing changes that entry and no
  other. Adding a descriptor keeps the array exact, unless the descriptor has priority and
  another entry has to move.
\<close>

theorem private_data_by_descriptor:
  assumes "mloop_wf s" and "perm_ok s" and "nfds s \<le> 2 ^ 15"
  shows "(\<forall>i < nfds s.
      mainloop_get_private_data (fst (descr s i)) s = Some (Some (snd (snd (descr s i)))) \<and>
      (\<exists>s'. mainloop_set_private_data (fst (descr s i)) x s = Some s' \<and> mloop_wf s' \<and> perm_ok s' \<and>
         table s' = (table s)[i := (fst (descr s i), fst (snd (descr s i)), x)])) \<and>
    (\<forall>fd ty pd s'. 0 \<le> fd \<longrightarrow> fd \<notin> fst ` set (table s) \<longrightarrow> \<not> ISPRIO ty \<or> nprio s = nfds s \<longrightarrow>
       add_fd fd ty pd s = Some s' \<longrightarrow> perm_ok s')"
  using get_private_data_ok [OF assms(1,2) _ assms(3)] set_private_data_ok [OF assms(1,2) _ assms(3)]
    perm_ok_add [OF assms(1,2)] by blast

lemma example_loop_perm: "perm_ok example_loop"
  by (auto simp: perm_ok_def example_loop_def mloop_start_def descr_def cell_def less_2_iff
      nth_append nth_Cons')

theorem private_data_by_descriptor_witness:
  "mainloop_get_private_data 4 example_loop = Some (Some ''ctl'')"
proof -
  have "1 < nfds example_loop" "nfds example_loop \<le> 2 ^ 15" "descr example_loop 1 = (4, 0, ''ctl'')"
    by (simp_all add: example_loop_def mloop_start_def descr_def)
  then show ?thesis
    using private_data_by_descriptor [OF example_loop_wf example_loop_perm, of "[]"] by fastforce
qed

text \<open>
  \<open>add_fd\<close> writes the index of the new descriptor only; \<open>remove_fd\<close> ends by writing the old index of
  the descriptor that was last.
\<close>

lemma add_fd_cell:
  assumes "add_fd fd ty pd s = Some s'" and "g \<noteq> fd" and "cell (fdperm s) g = Some w"
  shows "cell (fdperm s') g = Some w"
proof -
  define r where "r = grow_perm fd (grow_fds s)"
  have r: "cell (fdperm r) g = Some w"
    using assms(3) by (auto simp: r_def grow_perm_def cell_def nth_append Let_def split: if_splits)
  obtain index where "fdperm s' = (fdperm r)[nat fd := Some (word_of_nat index)]" "0 \<le> fd"
    using assms(1) unfolding add_fd_def store_fd_def make_room_def r_def by (auto split: if_splits)
  then show ?thesis using r assms(2) by (auto simp: cell_def nth_list_update nat_eq_iff split: if_splits)
qed

lemma reindex_last:
  assumes "reindex ps (js @ [i]) perm = Some perm'" and "cell ps (int i) = Some p"
  shows "cell perm' (pfd_fd p) = Some (word_of_nat i)"
  using assms(1)
proof (induction js arbitrary: perm)
  case Nil then show ?case using assms(2) by (auto simp: cell_def split: if_splits)
next
  case (Cons j js) then show ?case by (auto split: Option.bind_splits if_splits)
qed

lemma remove_fd_last_cell:
  assumes wf: "mloop_wf s" and run: "remove_fd fd s = Some (calls, s')"
    and "fd \<in> fst ` set (table s)" and "fst (descr s (nfds s - 1)) \<noteq> fd"
  shows "cell (fdperm s') (fst (descr s (nfds s - 1))) = Some (word_of_nat (nfds s - 1))" and "nfds s' = nfds s - 1"
proof -
  define i where "i = search_fd fd (take (nfds s) (fds s))"
  note found = search_fd_table [OF wf i_def]
  obtain j where "j < nfds s" "fst (descr s j) = fd" using assms(3) by (auto simp: table_def)
  then have "i \<noteq> nfds s" using found(3) [of j] by fastforce
  then have i: "i < nfds s" using found(1) by simp
  then have lt: "i < nfds s - 1" using found(2) assms(4) by (cases "i = nfds s - 1") auto
  have n: "nfds s \<le> length (fds s)" "good_slot s (nfds s - 1)" using wf i by (auto simp: mloop_wf_def)
  then obtain p where p: "fds s ! (nfds s - 1) = Some p" "fst (descr s (nfds s - 1)) = pfd_fd p" by (auto elim!: good_slotD)
  let ?f = "shift_down i (nfds s - i - 1) (fds s)"
  have "?f ! (nfds s - 1) = Some p" using nth_shift_down [of i "nfds s" "fds s" "nfds s - 1"] i n(1) p(1) by simp
  then have c: "cell ?f (int (nfds s - 1)) = Some p" using i n(1) by (subst cell_nat) simp_all
  obtain perm where perm: "reindex ?f [i..<nfds s] (fdperm s) = Some perm" "fdperm s' = perm" "nfds s' = nfds s - 1"
    using run i unfolding remove_fd_def Let_def i_def [symmetric] by (auto split: Option.bind_splits)
  have "[i..<nfds s] = [i..<nfds s - 1] @ [nfds s - 1]" using lt upt_Suc_append [of i "nfds s - 1"] by simp
  from reindex_last [OF perm(1) [unfolded this] c]
  show "cell (fdperm s') (fst (descr s (nfds s - 1))) = Some (word_of_nat (nfds s - 1))" using perm(2) p(2) by simp
  show "nfds s' = nfds s - 1" by (rule perm(3))
qed

text \<open>
  C35: the permutation array goes wrong. In every table, after the removal of a descriptor that is not
  the last, the last descriptor keeps its old index; when the next descriptor is added (without priority) it
  takes that slot, and \<open>mainloop_set_private_data\<close> for the one
  descriptor, as \<open>handle_io\<close> of the data sockets calls it for a new connection, then changes the
  private data of the other instead of its own. And in every table with an exact array, the descriptor that a new priority descriptor
  displaces keeps its index, so that setting its private data changes those of the new one.
\<close>

theorem stale_permutation:
  assumes wf: "mloop_wf s" and known: "types_known s" and n: "nfds s < 2 ^ 15" and new: "0 \<le> new"
  shows "(fd \<in> fst ` set (table s) \<and> f = fst (last (table s)) \<and> f \<noteq> fd \<and> f \<noteq> new \<and> \<not> ISPRIO ty \<longrightarrow>
      (\<exists>calls s1 s2 s3. remove_fd fd s = Some (calls, s1) \<and> add_fd new ty pd s1 = Some s2 \<and>
         mainloop_set_private_data f x s2 = Some s3 \<and> table s3 = remove_descr fd (table s) @ [(new, ty, x)])) \<and>
    (perm_ok s \<and> nprio s < nfds s \<and> f = fst (table s ! nprio s) \<and> f \<noteq> new \<and> ISPRIO ty \<longrightarrow>
      (\<exists>s1 s2. add_fd new ty pd s = Some s1 \<and> mainloop_set_private_data f x s1 = Some s2 \<and>
         table s2 = insert_descr (nprio s) (new, ty, x) (table s)))"
proof (intro conjI impI)
  assume a: "fd \<in> fst ` set (table s) \<and> f = fst (last (table s)) \<and> f \<noteq> fd \<and> f \<noteq> new \<and> \<not> ISPRIO ty"
  then have ne: "table s \<noteq> []" by auto
  then have pos: "0 < nfds s" using length_table [of s] by (metis length_greater_0_conv)
  have "last (table s) = table s ! (nfds s - 1)" using last_conv_nth [OF ne] by simp
  also have "\<dots> = descr s (nfds s - 1)" using pos by (intro nth_table) simp
  finally have f: "f = fst (descr s (nfds s - 1))" using a by simp
  from remove_fd_table [OF wf known, of fd] obtain calls s1 where
    s1: "remove_fd fd s = Some (calls, s1)" "mloop_wf s1" "table s1 = remove_descr fd (table s)" by blast
  have c1: "cell (fdperm s1) f = Some (word_of_nat (nfds s - 1))" "nfds s1 = nfds s - 1"
    using remove_fd_last_cell [OF wf s1(1)] a f by auto
  from add_fd_table [OF s1(2) new, of ty pd] obtain s2 where
    s2: "add_fd new ty pd s1 = Some s2" "mloop_wf s2" "table s2 = table s1 @ [(new, ty, pd)]"
    using a by (auto simp: insert_descr_def)
  have n2: "nfds s2 = nfds s" using arg_cong [OF s2(3), of length] c1(2) pos by simp
  have "cell (fdperm s2) f = Some (word_of_nat (nfds s - 1))" using add_fd_cell [OF s2(1) _ c1(1)] a by blast
  moreover have i: "nfds s - 1 < nfds s2" using n2 pos by simp
  ultimately obtain s3 where s3: "mainloop_set_private_data f x s2 = Some s3"
    "table s3 = (table s2)[nfds s - 1 := (fst (descr s2 (nfds s - 1)), fst (snd (descr s2 (nfds s - 1))), x)]"
    using set_private_data_at [OF s2(2), of f "nfds s - 1" x] n n2 by auto
  have "descr s2 (nfds s - 1) = (new, ty, pd)"
    using nth_table [OF i] s2(3) c1(2) length_table [of s1] by (simp add: nth_append del: nth_table length_table)
  then have "table s3 = remove_descr fd (table s) @ [(new, ty, x)]"
    using s3(2) s2(3) s1(3) c1(2) length_table [of s1] by (simp add: list_update_append del: length_table)
  then show "\<exists>calls s1 s2 s3. remove_fd fd s = Some (calls, s1) \<and> add_fd new ty pd s1 = Some s2 \<and>
         mainloop_set_private_data f x s2 = Some s3 \<and> table s3 = remove_descr fd (table s) @ [(new, ty, x)]"
    using s1(1) s2(1) s3(1) by blast
next
  assume a: "perm_ok s \<and> nprio s < nfds s \<and> f = fst (table s ! nprio s) \<and> f \<noteq> new \<and> ISPRIO ty"
  from add_fd_table [OF wf new, of ty pd] obtain s1 where
    s1: "add_fd new ty pd s = Some s1" "mloop_wf s1" "table s1 = insert_descr (nprio s) (new, ty, pd) (table s)" by blast
  have t: "table s1 = take (nprio s) (table s) @ (new, ty, pd) # drop (Suc (nprio s)) (table s) @ take 1 (drop (nprio s) (table s))"
    using s1(3) a by (simp add: insert_descr_def)
  have n1: "nfds s1 = Suc (nfds s)" using arg_cong [OF t, of length] a by simp linarith
  have "cell (fdperm s) f = Some (word_of_nat (nprio s))" using a by (auto simp: perm_ok_def)
  from add_fd_cell [OF s1(1) _ this] have "cell (fdperm s1) f = Some (word_of_nat (nprio s))" using a by blast
  moreover have i: "nprio s < nfds s1" using n1 a by simp
  ultimately obtain s2 where s2: "mainloop_set_private_data f x s1 = Some s2"
    "table s2 = (table s1)[nprio s := (fst (descr s1 (nprio s)), fst (snd (descr s1 (nprio s))), x)]"
    using set_private_data_at [OF s1(2), of f "nprio s" x] n n1 by auto
  have "descr s1 (nprio s) = (new, ty, pd)"
    using nth_table [OF i] t a by (simp add: nth_append min_def del: nth_table)
  then have "table s2 = insert_descr (nprio s) (new, ty, x) (table s)"
    using s2(2) t a by (simp add: insert_descr_def list_update_append min_def)
  then show "\<exists>s1 s2. add_fd new ty pd s = Some s1 \<and> mainloop_set_private_data f x s1 = Some s2 \<and>
         table s2 = insert_descr (nprio s) (new, ty, x) (table s)" using s1(1) s2(1) by blast
qed

theorem stale_permutation_witness:
  "(\<exists>calls s1 s2 s3. remove_fd 5 example_loop = Some (calls, s1) \<and> add_fd 12 0 ''c'' s1 = Some s2 \<and>
      mainloop_set_private_data 4 ''x'' s2 = Some s3 \<and> table s3 = [(4, 0, ''ctl''), (12, 0, ''x'')]) \<and>
   (\<exists>s1 s2. add_fd 12 0x81 ''c'' example_loop = Some s1 \<and> mainloop_set_private_data 4 ''x'' s1 = Some s2 \<and>
      table s2 = [(5, 0x81, ''data''), (12, 0x81, ''x''), (4, 0, ''ctl'')])"
proof -
  have n: "nfds example_loop < 2 ^ 15" "nprio example_loop < nfds example_loop" by (simp_all add: example_loop_def mloop_start_def)
  have p: "\<not> ISPRIO 0" "ISPRIO 0x81" by (simp_all add: ISPRIO_def PRIOFLAG_def)
  note st = stale_permutation [OF example_loop_wf example_loop_types n(1), unfolded example_loop_table example_loop_nprio]
  show ?thesis
    using st [of 12 5 4 0 "''c''" "''x''"] st [of 12 5 4 "0x81" "''c''" "''x''"] p n(2) example_loop_perm example_loop_nprio
    by (simp add: insert_descr_def)
qed

section \<open>The type table\<close>

definition types_wf :: "('m, 'd) mloop \<Rightarrow> bool" where
  "types_wf s \<longleftrightarrow> ntypes s = int (length (filter (\<lambda>x. x \<noteq> None) (fdtypes s))) \<and> length (fdtypes s) \<le> 128"

lemma type_code_bits:
  "\<forall>i \<in> set [0..<128]. \<forall>prio \<in> {True, False}.
     uint (type_code i prio AND TYPEMASK) = int i \<and> (ISPRIO (type_code i prio) \<longleftrightarrow> prio)"
  by code_simp

lemma type_code_index: "i < 128 \<Longrightarrow> uint (type_code i prio AND TYPEMASK) = int i"
  and type_code_prio: "i < 128 \<Longrightarrow> ISPRIO (type_code i prio) \<longleftrightarrow> prio"
  using bspec [OF bspec [OF type_code_bits, of i], of prio] by (cases prio, simp_all)

lemma first_null_le: "first_null xs \<le> length xs"
  by (induction xs) auto

lemma first_null_nth: "first_null xs < length xs \<Longrightarrow> xs ! first_null xs = None"
  by (induction xs) auto

lemma first_null_full: "first_null xs = length xs \<longleftrightarrow> length (filter (\<lambda>x. x \<noteq> None) xs) = length xs"
proof (induction xs)
  case (Cons x xs)
  then show ?case by (cases x) (auto, metis Suc_n_not_le_n length_filter_le)
qed simp

lemma cell_replicate_None: "cell (replicate n None) i = None"
  by (auto simp: cell_def nat_less_iff)

lemma count_set_slot:
  "i < length xs \<Longrightarrow> xs ! i = None \<Longrightarrow>
     length (filter (\<lambda>x. x \<noteq> None) (xs[i := Some m])) = Suc (length (filter (\<lambda>x. x \<noteq> None) xs))"
proof (induction xs arbitrary: i)
  case (Cons x xs)
  then show ?case by (cases i) auto
qed simp

lemma set_type_ok:
  assumes wf: "types_wf s" and i: "i < length (fdtypes s)" and free: "fdtypes s ! i = None"
  shows "\<exists>s'. set_type i mgr prio s = NewType (type_code i prio) s' \<and> types_wf s' \<and>
    (ISPRIO (type_code i prio) \<longleftrightarrow> prio) \<and> TYPE2MGR (type_code i prio) s = None \<and>
    TYPE2MGR (type_code i prio) s' = Some mgr \<and>
    (\<forall>t. t AND TYPEMASK \<noteq> type_code i prio AND TYPEMASK \<longrightarrow> TYPE2MGR t s' = TYPE2MGR t s)"
proof -
  have i128: "i < 128" using wf i by (simp add: types_wf_def)
  have code: "uint (type_code i prio AND TYPEMASK) = int i" using type_code_index [OF i128] .
  have other: "nat (uint (t AND TYPEMASK)) \<noteq> i" if "t AND TYPEMASK \<noteq> type_code i prio AND TYPEMASK" for t
    using that code by (metis nat_eq_iff2 uint_ge_0 word_uint_eq_iff)
  let ?s = "s\<lparr>fdtypes := (fdtypes s)[i := Some mgr], ntypes := ntypes s + 1\<rparr>"
  have "set_type i mgr prio s = NewType (type_code i prio) ?s" using i by (simp add: set_type_def)
  moreover have "types_wf ?s" using wf count_set_slot [OF i free, of mgr] by (simp add: types_wf_def)
  moreover have "TYPE2MGR (type_code i prio) s = None" "TYPE2MGR (type_code i prio) ?s = Some mgr"
    using i free by (simp_all add: TYPE2MGR_def code)
  moreover have "TYPE2MGR t ?s = TYPE2MGR t s" if "t AND TYPEMASK \<noteq> type_code i prio AND TYPEMASK" for t
    unfolding TYPE2MGR_def cell_def using other [OF that] by simp
  ultimately show ?thesis using type_code_prio [OF i128, of prio] by blast
qed

text \<open>
  Registering a type gives a code that no other registered type has, marked with the
  priority bit exactly when priority was asked for; the code leads to its module and the
  codes given before lead where they did. This holds for the first eight types: with a table
  that is full the array is doubled, and clearing its new half writes past the end of the
  block (\<open>sizeof(*p) * maxtypes - ntypes\<close> bytes instead of \<open>sizeof(*p) * (maxtypes - ntypes)\<close>).
\<close>

theorem add_type_fresh:
  assumes "types_wf s"
  shows "(ntypes s < int (length (fdtypes s)) \<or> fdtypes s = [] \<longrightarrow>
      (\<exists>ty s'. add_type mgr prio s = NewType ty s' \<and> types_wf s' \<and> (ISPRIO ty \<longleftrightarrow> prio) \<and>
         TYPE2MGR ty s = None \<and> TYPE2MGR ty s' = Some mgr \<and>
         (\<forall>t. t AND TYPEMASK \<noteq> ty AND TYPEMASK \<longrightarrow> TYPE2MGR t s' = TYPE2MGR t s))) \<and>
    (ntypes s = int (length (fdtypes s)) \<and> fdtypes s \<noteq> [] \<longrightarrow>
      add_type mgr prio s = (if length (fdtypes s) \<le> 64 then TypesFault else TypesExit))"
proof (intro conjI impI)
  assume room: "ntypes s < int (length (fdtypes s)) \<or> fdtypes s = []"
  show "\<exists>ty s'. add_type mgr prio s = NewType ty s' \<and> types_wf s' \<and> (ISPRIO ty \<longleftrightarrow> prio) \<and>
      TYPE2MGR ty s = None \<and> TYPE2MGR ty s' = Some mgr \<and>
      (\<forall>t. t AND TYPEMASK \<noteq> ty AND TYPEMASK \<longrightarrow> TYPE2MGR t s' = TYPE2MGR t s)"
  proof (cases "fdtypes s = []")
    case True
    define r where "r = s\<lparr>fdtypes := replicate 8 None\<rparr>"
    have eq: "add_type mgr prio s = set_type 0 mgr prio r"
      using assms True by (simp add: add_type_def types_wf_def PRIOFLAG_def memset_ok_def r_def)
    have none: "TYPE2MGR t r = None" for t by (simp add: TYPE2MGR_def cell_replicate_None r_def)
    have wf: "types_wf r" using assms True by (simp add: types_wf_def r_def filter_replicate)
    have "TYPE2MGR t s = None" for t using True by (simp add: TYPE2MGR_def cell_def)
    then show ?thesis
      using set_type_ok [OF wf, of 0 mgr prio] none eq by (auto simp: r_def)
  next
    case False
    let ?i = "first_null (fdtypes s)"
    have "length (filter (\<lambda>x. x \<noteq> None) (fdtypes s)) \<noteq> length (fdtypes s)"
      using room False assms by (auto simp: types_wf_def)
    then have i: "?i < length (fdtypes s)"
      using first_null_le [of "fdtypes s"] first_null_full [of "fdtypes s"] by linarith
    have "add_type mgr prio s = set_type ?i mgr prio s" using room False by (simp add: add_type_def)
    then show ?thesis using set_type_ok [OF assms i first_null_nth [OF i], of mgr prio] by auto
  qed
next
  assume full: "ntypes s = int (length (fdtypes s)) \<and> fdtypes s \<noteq> []"
  then show "add_type mgr prio s = (if length (fdtypes s) \<le> 64 then TypesFault else TypesExit)"
    by (auto simp: add_type_def PRIOFLAG_def memset_ok_def Let_def)
qed

theorem add_type_fresh_witness:
  "(\<exists>ty s'. add_type ''tuntap'' True example_loop = NewType ty s' \<and> TYPE2MGR ty s' = Some ''tuntap'' \<and>
      TYPE2MGR 1 s' = TYPE2MGR 1 example_loop) \<and>
   add_type ''ninth'' False (example_loop\<lparr>fdtypes := replicate 8 (Some ''unix''), ntypes := 8\<rparr>) = TypesFault"
proof
  have "types_wf example_loop" "ntypes example_loop < int (length (fdtypes example_loop))"
    by (simp_all add: types_wf_def example_loop_def mloop_start_def)
  moreover have "TYPE2MGR 1 example_loop \<noteq> None"
    by (simp add: TYPE2MGR_def TYPEMASK_def cell_def example_loop_def mloop_start_def)
  ultimately show "\<exists>ty s'. add_type ''tuntap'' True example_loop = NewType ty s' \<and>
      TYPE2MGR ty s' = Some ''tuntap'' \<and> TYPE2MGR 1 s' = TYPE2MGR 1 example_loop"
    using add_type_fresh [of example_loop "''tuntap''" True] by (metis TYPE2MGR_def)
  show "add_type ''ninth'' False (example_loop\<lparr>fdtypes := replicate 8 (Some ''unix''), ntypes := 8\<rparr>) = TypesFault"
    using add_type_fresh [of "example_loop\<lparr>fdtypes := replicate 8 (Some ''unix''), ntypes := 8\<rparr>" "''ninth''" False]
    by (simp add: types_wf_def filter_replicate)
qed

end
