(* ===== verification/Datasock.thy ===== *)
theory Datasock
  imports Mainloop Forwarding
begin

text \<open>
  The module of the UNIX-domain sockets, \<^verbatim>\<open>vde_switch/datasock.c\<close>: connections, requests for a
  port, data packets, hang-ups. It works on the descriptors of the main loop and on the
  switch. The results of the system calls are an argument, the private data of a descriptor
  are the endpoint or \<open>NULL\<close>. Memory that was never written (the rest of a buffer behind the
  bytes read) is the argument \<open>stack\<close>.
\<close>

section \<open>Data packets\<close>

definition ETH_HEADER_SIZE :: nat where "ETH_HEADER_SIZE = 14"

datatype sysread = Again | Failed | Eof | Got bytes

text \<open>The branch of \<open>handle_io\<close> for a data socket; the packet is read behind the four filler bytes.\<close>

definition handle_data :: "bytes \<Rightarrow> bool \<Rightarrow> sysread \<Rightarrow> u16 \<Rightarrow> endpoint option \<Rightarrow> switch \<Rightarrow> switch" where
  "handle_data stack mem received revents arg sw =
     (if revents AND POLLIN \<noteq> 0
      then (case received of
              Got packet \<Rightarrow>
                if ETH_HEADER_SIZE \<le> length packet
                then (case arg of
                        None \<Rightarrow> crash sw
                      | Some ep \<Rightarrow> handle_in_packet mem ep (blit stack 4 packet, 4, int (length packet)) sw)
                else sw
            | _ \<Rightarrow> sw)
      else sw)"

text \<open>\<open>handle_io\<close> of a round in which only data sockets are served.\<close>

definition data_io :: "bytes \<Rightarrow> bool \<Rightarrow> (fd \<Rightarrow> sysread) \<Rightarrow> (string, endpoint option, switch) handle_io" where
  "data_io stack mem recv m ty fd revents arg = (\<lambda>(s, sw). Some (s, handle_data stack mem (recv fd) revents arg sw))"

interpretation data: quiet_io "data_io stack mem recv" "\<lambda>m ty fd revents arg. handle_data stack mem (recv fd) revents arg"
  for stack mem recv
  by unfold_locales (simp add: data_io_def)

section \<open>Requests\<close>

definition SWITCH_MAGIC :: nat where "SWITCH_MAGIC = 0xfeedface"
definition REQBUFLEN :: nat where "REQBUFLEN = 256"

text \<open>
  The fields of \<open>struct request_v1\<close> and \<open>struct request_v3\<close> (packed, little-endian, a
  \<open>sockaddr_un\<close> of 110 bytes whose path starts at its third byte).
\<close>

definition rd_u32 :: "bytes \<Rightarrow> nat \<Rightarrow> nat" where
  "rd_u32 b k = unat (b ! k) + 256 * unat (b ! (k + 1)) + 65536 * unat (b ! (k + 2)) + 16777216 * unat (b ! (k + 3))"

definition rd_string :: "bytes \<Rightarrow> nat \<Rightarrow> bytes" where
  "rd_string b k = takeWhile (\<lambda>c. c \<noteq> 0) (drop k b)"

record request =
  rq_type :: int
  rq_path :: bytes
  rq_description :: string

definition to_int :: "nat \<Rightarrow> int" where
  "to_int n = sint (of_nat n :: u32)"

definition request_v1 :: "bytes \<Rightarrow> request" where
  "request_v1 b = \<lparr>rq_type = to_int (rd_u32 b 4), rq_path = rd_string b 16,
     rq_description = map char_of (map unat (rd_string b 124))\<rparr>"

definition request_v3 :: "bytes \<Rightarrow> request" where
  "request_v3 b = \<lparr>rq_type = to_int (rd_u32 b 8), rq_path = rd_string b 14,
     rq_description = map char_of (map unat (rd_string b 122))\<rparr>"

section \<open>Connections\<close>

text \<open>
  The state the module works on, the types it has registered, and the results of the system
  calls of one call of \<open>handle_io\<close>: \<open>sys_bind\<close> says that \<open>unlink\<close> and \<open>bind\<close> succeed.
\<close>

record ds_state =
  ds_loop :: "(string, endpoint option) mloop"
  ds_switch :: switch
  ds_closed :: "fd list"

record ds_types =
  ctl_type :: u8
  wd_type :: u8
  data_type :: u8

record sysans =
  sys_recv :: sysread
  sys_accept :: "fd option"
  sys_access :: bool
  sys_owner :: int
  sys_socket :: "fd option"
  sys_nonblock :: bool
  sys_connect :: bool
  sys_bind :: bool
  sys_chown :: bool
  sys_write :: bool

definition MODULENAME :: string where "MODULENAME = ''unix prog''"

definition ds_remove_fd :: "fd \<Rightarrow> ds_state \<Rightarrow> ds_state option" where
  "ds_remove_fd fd st =
     map_option (\<lambda>(calls, s). st\<lparr>ds_loop := s, ds_closed := ds_closed st @ map (fst \<circ> snd \<circ> snd) calls\<rparr>)
       (remove_fd fd (ds_loop st))"

definition ds_add_fd :: "fd \<Rightarrow> u8 \<Rightarrow> endpoint option \<Rightarrow> ds_state \<Rightarrow> ds_state option" where
  "ds_add_fd fd ty pd st = map_option (\<lambda>s. st\<lparr>ds_loop := s\<rparr>) (add_fd fd ty pd (ds_loop st))"

definition delep :: "fd \<Rightarrow> fd \<Rightarrow> ds_state \<Rightarrow> ds_state option" where
  "delep fd_ctl fd_data st =
     do {
       st1 \<leftarrow> (if fd_data \<ge> 0 then ds_remove_fd fd_data st else Some st);
       if fd_ctl \<ge> 0 then ds_remove_fd fd_ctl st1 else Some st1
     }"

text \<open>\<open>close_ep\<close> calls \<open>delep\<close> for the endpoint it has removed.\<close>

fun run_delep :: "event list \<Rightarrow> ds_state \<Rightarrow> ds_state option" where
  "run_delep [] st = Some st"
| "run_delep (DelEp m fd_ctl fd_data d # es) st = do { st' \<leftarrow> delep fd_ctl fd_data st; run_delep es st' }"
| "run_delep (_ # es) st = run_delep es st"

definition ds_close_ep :: "endpoint \<Rightarrow> ds_state \<Rightarrow> ds_state option" where
  "ds_close_ep ep st =
     (case close_ep ep (ds_switch st) of (_, sw) \<Rightarrow>
        run_delep (drop (length (outs (ds_switch st))) (outs sw)) (st\<lparr>ds_switch := sw\<rparr>))"

text \<open>
  \<open>new_port_v1_v3\<close>: the endpoint, if a port was given. When \<open>setup_ep\<close> fails the data socket is
  neither closed nor registered and the connection stays.
\<close>

definition new_port_v1_v3 ::
  "userdb \<Rightarrow> sysans \<Rightarrow> ds_types \<Rightarrow> fd \<Rightarrow> int \<Rightarrow> bytes \<Rightarrow> ds_state \<Rightarrow> (endpoint option \<times> ds_state) option" where
  "new_port_v1_v3 db ans ty fd_ctl type_port path st =
     (let type = type_port mod 256;
          port_request = (if type = 1 then - 1 else type_port div 256);
          fail = map_option (Pair None) (ds_remove_fd fd_ctl st)
      in if type \<noteq> 0 \<and> type \<noteq> 1 then fail
         else if path \<noteq> [] \<and> \<not> sys_access ans then fail
         else
           let user = (if path \<noteq> [] then sys_owner ans else - 1)
           in case sys_socket ans of
                None \<Rightarrow> fail
              | Some fd_data \<Rightarrow>
                  if \<not> sys_nonblock ans \<or> \<not> sys_connect ans then fail
                  else
                    (case setup_ep db True True port_request fd_ctl fd_data user MODULENAME (ds_switch st) of
                       (Inl e, sw) \<Rightarrow> Some (None, st\<lparr>ds_switch := sw\<rparr>)
                     | (Inr ep, sw) \<Rightarrow>
                         do {
                           st1 \<leftarrow> ds_add_fd fd_data (data_type ty) (Some ep) (st\<lparr>ds_switch := sw\<rparr>);
                           if sys_bind ans \<and> sys_chown ans \<and> sys_write ans then Some (Some ep, st1)
                           else map_option (Pair None) (ds_close_ep ep st1)
                         }))"

definition serve_request ::
  "userdb \<Rightarrow> sysans \<Rightarrow> ds_types \<Rightarrow> fd \<Rightarrow> request \<Rightarrow> ds_state \<Rightarrow> ds_state option" where
  "serve_request db ans ty fd req st =
     do {
       (r, st1) \<leftarrow> new_port_v1_v3 db ans ty fd (rq_type req) (rq_path req) st;
       case r of
         None \<Rightarrow> Some st1
       | Some ep \<Rightarrow>
           map_option (\<lambda>s. st1\<lparr>ds_loop := s, ds_switch := setup_description ep (rq_description req) (ds_switch st1)\<rparr>)
             (mainloop_set_private_data fd (Some ep) (ds_loop st1))
     }"

definition handle_request ::
  "bytes \<Rightarrow> userdb \<Rightarrow> sysans \<Rightarrow> ds_types \<Rightarrow> fd \<Rightarrow> endpoint option \<Rightarrow> ds_state \<Rightarrow> ds_state option" where
  "handle_request stack db ans ty fd arg st =
     (case sys_recv ans of
        Again \<Rightarrow> Some st
      | Failed \<Rightarrow> ds_remove_fd fd st
      | Eof \<Rightarrow> (case arg of Some ep \<Rightarrow> ds_close_ep ep st | None \<Rightarrow> ds_remove_fd fd st)
      | Got req \<Rightarrow>
          let b = blit stack 0 (take REQBUFLEN req @ [0])
          in if rd_u32 b 0 = SWITCH_MAGIC
             then (if rd_u32 b 4 = 3 then serve_request db ans ty fd (request_v3 b) st
                   else if rd_u32 b 4 \<ge> 2 then ds_remove_fd fd st
                   else serve_request db ans ty fd (request_v1 b) st)
             else ds_remove_fd fd st)"

definition handle_io ::
  "bytes \<Rightarrow> bool \<Rightarrow> userdb \<Rightarrow> sysans \<Rightarrow> ds_types \<Rightarrow> u8 \<Rightarrow> fd \<Rightarrow> u16 \<Rightarrow> endpoint option \<Rightarrow> ds_state \<Rightarrow> ds_state option" where
  "handle_io stack mem db ans ty type fd revents arg st =
     (if type = data_type ty
      then Some (st\<lparr>ds_switch := handle_data stack mem (sys_recv ans) revents arg (ds_switch st)\<rparr>)
      else if type = wd_type ty then handle_request stack db ans ty fd arg st
      else (case sys_accept ans of
              None \<Rightarrow> Some st
            | Some new \<Rightarrow> ds_add_fd new (wd_type ty) None st))"

text \<open>The modes of the sockets when \<open>init\<close> has filled in those the user left out (-1).\<close>

definition ADDBIT :: "int \<Rightarrow> int \<Rightarrow> int \<Rightarrow> int" where
  "ADDBIT mode conditionmask add =
     (if mode AND conditionmask \<noteq> 0 then (mode AND conditionmask) OR add else mode AND conditionmask)"

definition init_modes :: "int \<Rightarrow> int \<Rightarrow> int \<times> int" where
  "init_modes mode dirmode =
     (if mode < 0 \<and> dirmode < 0 then (384, 1472)
      else if mode \<ge> 0 \<and> dirmode < 0
      then (mode, 1024 OR ADDBIT mode 384 64 OR ADDBIT mode 48 8 OR ADDBIT mode 6 1)
      else if mode < 0 \<and> dirmode \<ge> 0 then (dirmode AND 438, dirmode)
      else (mode, dirmode))"

section \<open>A round of packets\<close>

text \<open>
  C5: a round of the main loop in which only data sockets are ready serves every one of them
  exactly once, in the order of the poll array: the switch ends up as if the packets that
  \<open>recv\<close> returned had been given to \<open>handle_in_packet\<close> one after the other. The loop stops
  within the array, keeps the descriptors (their order may change, the most recently used
  move up) and stays well formed.
\<close>

theorem round_forwards:
  assumes "mloop_wf s" and "types_known s" and "length rs = nfds s"
  shows "\<exists>s'. main_loop_round (data_io stack mem recv) now rs (int (length (filter (\<lambda>r. r \<noteq> 0) rs))) s sw =
      Some (s', fold (\<lambda>((fd, ty, arg), re). handle_data stack mem (recv fd) re arg)
                  (filter (\<lambda>e. snd e \<noteq> 0) (zip (table s) rs)) sw) \<and>
    mloop_wf s' \<and> mset (table s') = mset (table s)"
proof -
  let ?s = "poll_writes rs s"
  note p = poll_writes_wf [OF assms(1,3)]
  have "length (filter (\<lambda>r. r \<noteq> 0) rs) = length (filter (\<lambda>r. r \<noteq> 0) (map snd (zip (table s) rs)))"
    using assms(3) by simp
  also have "\<dots> = length (events ?s 0)" unfolding p(4) by (simp add: filter_map comp_def)
  finally have n: "length (filter (\<lambda>r. r \<noteq> 0) rs) = length (events ?s 0)" .
  have "\<exists>s'. dispatch (data_io stack mem recv) now 0 (length (filter (\<lambda>r. r \<noteq> 0) rs)) ?s sw =
      Some (s', data.serve_all stack mem recv ?s (events ?s 0) sw) \<and>
    mloop_wf s' \<and> types_known s' \<and> mset (table s') = mset (table ?s)"
    by (rule data.dispatch_from [OF p(1) p(3) [OF assms(2)] n])
  then show ?thesis
    unfolding main_loop_round_def p(2,4) data.serve_all_def by (auto simp: case_prod_unfold)
qed

definition data_loop :: "(string, endpoint option) mloop" where
  "data_loop = mloop_start\<lparr>nfds := 1, nprio := 1,
     fds := [Some \<lparr>pfd_fd = 11, pfd_events = 17, pfd_revents = 0\<rparr>],
     fdpp := [Some 0],
     heap := [0 \<mapsto> \<lparr>pp_type = 0x80, pp_private = Some (new_endpoint 1 10 11), pp_timestamp = 0\<rparr>],
     fresh := 1, fdperm := replicate 11 None @ [Some 0] @ replicate 4 None,
     fdtypes := [Some ''unix prog''], ntypes := 1\<rparr>"

lemma data_loop_wf: "mloop_wf data_loop"
  by (simp add: mloop_wf_def data_loop_def mloop_start_def good_slot_def ISPRIO_def PRIOFLAG_def inj_on_def)

lemma data_loop_table: "table data_loop = [(11, 0x80, Some (new_endpoint 1 10 11))]"
  by (simp add: table_def data_loop_def mloop_start_def descr_def)

lemma data_loop_types: "types_known data_loop"
  by (simp add: types_known_def data_loop_table TYPE2MGR_def TYPEMASK_def cell_def)
    (simp add: data_loop_def mloop_start_def)

theorem round_forwards_witness:
  "\<exists>s'. main_loop_round (data_io (replicate 1522 0) True (\<lambda>_. Got (replicate 16 0xff))) 5 [POLLIN] 1 data_loop
      example_switch =
    Some (s', handle_in_packet True (new_endpoint 1 10 11)
      (blit (replicate 1522 0) 4 (replicate 16 0xff), 4, 16) example_switch)"
proof -
  have "length [POLLIN] = nfds data_loop" by (simp add: data_loop_def)
  from round_forwards [OF data_loop_wf data_loop_types this, of "replicate 1522 0" True
      "\<lambda>_. Got (replicate 16 0xff)" 5 example_switch]
  show ?thesis
    by (auto simp: data_loop_table POLLIN_def handle_data_def ETH_HEADER_SIZE_def)
qed

definition refused :: "bytes \<Rightarrow> sysans \<Rightarrow> endpoint option \<Rightarrow> bool" where
  "refused stack ans arg =
     (case sys_recv ans of
        Again \<Rightarrow> False
      | Failed \<Rightarrow> True
      | Eof \<Rightarrow> arg = None
      | Got req \<Rightarrow> let b = blit stack 0 (take REQBUFLEN req @ [0])
                    in rd_u32 b 0 \<noteq> SWITCH_MAGIC \<or> rd_u32 b 4 \<ge> 2 \<and> rd_u32 b 4 \<noteq> 3)"

text \<open>
  What the switch does not understand ends the connection and nothing else. A request
  without the magic number or of an unsupported version, a failed read and a hang-up before a
  port was given take exactly the descriptor of the connection out of the main loop and close
  it; ports, VLANs and addresses are as before. A request that is understood and refused by
  \<open>setup_ep\<close> leaves the connection in the loop without an answer, and the data socket that was
  created for it is neither registered nor closed.
\<close>

theorem requests_refused:
  assumes "mloop_wf (ds_loop st)" and "types_known (ds_loop st)" and "wd_type ty \<noteq> data_type ty"
  shows "(refused stack ans arg \<longrightarrow> (\<exists>st'. handle_io stack mem db ans ty (wd_type ty) fd revents arg st = Some st' \<and>
       table (ds_loop st') = remove_descr fd (table (ds_loop st)) \<and> ds_switch st' = ds_switch st \<and>
       ds_closed st' = ds_closed st @ take 1 (filter (\<lambda>e. e = fd) (map fst (table (ds_loop st)))))) \<and>
    (\<forall>new e sw. sys_socket ans = Some new \<and> sys_access ans \<and> sys_nonblock ans \<and> sys_connect ans \<and> tp mod 256 = 0 \<and>
       setup_ep db True True (tp div 256) fd new (if path \<noteq> [] then sys_owner ans else - 1) MODULENAME (ds_switch st) = (Inl e, sw) \<longrightarrow>
       new_port_v1_v3 db ans ty fd tp path st = Some (None, st\<lparr>ds_switch := sw\<rparr>))"
proof (intro conjI impI allI)
  assume r: "refused stack ans arg"
  obtain calls s' where run: "remove_fd fd (ds_loop st) = Some (calls, s')"
    "table s' = remove_descr fd (table (ds_loop st))"
    "calls = map (\<lambda>e. (the (TYPE2MGR (fst (snd e)) (ds_loop st)), fst (snd e), fst e, snd (snd e)))
        (take 1 (filter (\<lambda>e. fst e = fd) (table (ds_loop st))))"
    using remove_fd_table [OF assms(1,2), of fd] by blast
  have "map (fst \<circ> snd \<circ> snd) calls = take 1 (filter (\<lambda>e. e = fd) (map fst (table (ds_loop st))))"
    unfolding run(3) by (simp add: comp_def filter_map take_map)
  moreover have "handle_io stack mem db ans ty (wd_type ty) fd revents arg st = ds_remove_fd fd st"
    using r assms(3) by (auto simp: refused_def handle_io_def handle_request_def Let_def split: sysread.splits)
  ultimately show "\<exists>st'. handle_io stack mem db ans ty (wd_type ty) fd revents arg st = Some st' \<and>
       table (ds_loop st') = remove_descr fd (table (ds_loop st)) \<and> ds_switch st' = ds_switch st \<and>
       ds_closed st' = ds_closed st @ take 1 (filter (\<lambda>e. e = fd) (map fst (table (ds_loop st))))"
    using run by (simp add: ds_remove_fd_def)
next
  fix new e sw
  assume "sys_socket ans = Some new \<and> sys_access ans \<and> sys_nonblock ans \<and> sys_connect ans \<and> tp mod 256 = 0 \<and>
       setup_ep db True True (tp div 256) fd new (if path \<noteq> [] then sys_owner ans else - 1) MODULENAME (ds_switch st) = (Inl e, sw)"
  then show "new_port_v1_v3 db ans ty fd tp path st = Some (None, st\<lparr>ds_switch := sw\<rparr>)"
    by (simp add: new_port_v1_v3_def Let_def split: if_splits)
qed

theorem requests_refused_witness:
  "\<exists>st'. handle_io (replicate 257 0) True \<lparr>getpwuid = (\<lambda>_. None), getgrent = []\<rparr>
      \<lparr>sys_recv = Got [1, 2, 3, 4], sys_accept = None, sys_access = True, sys_owner = 0, sys_socket = Some 12,
       sys_nonblock = True, sys_connect = True, sys_bind = True, sys_chown = True, sys_write = True\<rparr>
      \<lparr>ctl_type = 0, wd_type = 1, data_type = 0x80\<rparr> 1 11 POLLIN None
      \<lparr>ds_loop = data_loop, ds_switch = example_switch, ds_closed = []\<rparr> = Some st' \<and>
    table (ds_loop st') = [] \<and> ds_closed st' = [11]"
  using requests_refused [where st = "\<lparr>ds_loop = data_loop, ds_switch = example_switch, ds_closed = []\<rparr>"
      and ty = "\<lparr>ctl_type = 0, wd_type = 1, data_type = 0x80\<rparr>"
      and ans = "\<lparr>sys_recv = Got [1, 2, 3, 4], sys_accept = None, sys_access = True, sys_owner = 0, sys_socket = Some 12,
       sys_nonblock = True, sys_connect = True, sys_bind = True, sys_chown = True, sys_write = True\<rparr>"
      and arg = None and stack = "replicate 257 0" and mem = True and fd = 11 and revents = POLLIN
      and db = "\<lparr>getpwuid = (\<lambda>_. None), getgrent = []\<rparr>" and tp = 0 and path = "[]"]
  by (auto simp: data_loop_wf data_loop_types data_loop_table rd_u32_def blit_def REQBUFLEN_def SWITCH_MAGIC_def
      Let_def refused_def)

end
