(* ===== verification/NsCodec.thy ===== *)
theory NsCodec
  imports Prelude
begin

text \<open>
  The encodings of the DNS tunnel \<^verbatim>\<open>vde_over_ns\<close>: the base-64 alphabet of \<^verbatim>\<open>encode.c\<close>,
  and the length-prefixed strings of \<^verbatim>\<open>dns.c\<close> in which TXT records (255 bytes) and domain
  names (63 bytes) are pad. C strings are lists without the final NUL.
\<close>

section \<open>\<open>encode.c\<close>\<close>

definition nstx_map :: bytes where
  "nstx_map = map of_char ''abcdefghijklmnopqrstuvwxyzABCDEFGHIJKLMNOPQRSTUVWXYZ-_1234567890''"

text \<open>
  \<open>revmap\<close> has 256 cells from \<open>malloc\<close>; \<open>init_revmap\<close> writes those of the alphabet, the others
  hold nothing.
\<close>

fun init_revmap :: "nat \<Rightarrow> bytes \<Rightarrow> u8 option list \<Rightarrow> u8 option list" where
  "init_revmap i [] tab = tab"
| "init_revmap i (c # cs) tab = init_revmap (Suc i) cs (tab[unat c := Some (of_nat i)])"

definition revmap :: "u8 option list" where
  "revmap = init_revmap 0 nstx_map (replicate 256 None)"

definition map_at :: "u8 \<Rightarrow> u8" where
  "map_at i = nstx_map ! unat i"

text \<open>One round of the loop of \<open>nstx_encode\<close>: three bytes become four characters.\<close>

definition enc3 :: "u8 \<Rightarrow> u8 \<Rightarrow> u8 \<Rightarrow> bytes" where
  "enc3 a b c =
     [map_at (drop_bit 2 (a AND 252)),
      map_at (push_bit 4 (a AND 3) OR drop_bit 4 (b AND 240)),
      map_at (push_bit 2 (b AND 15) OR drop_bit 6 (c AND 192)),
      map_at (c AND 63)]"

text \<open>The loop reads up to two bytes behind the data; they are the argument \<open>junk\<close>.\<close>

fun enc_loop :: "u8 \<times> u8 \<Rightarrow> bytes \<Rightarrow> bytes" where
  "enc_loop junk [] = []"
| "enc_loop junk [a] = enc3 a (fst junk) (snd junk)"
| "enc_loop junk [a, b] = enc3 a b (fst junk)"
| "enc_loop junk (a # b # c # rest) = enc3 a b c @ enc_loop junk rest"

definition nstx_encode :: "u8 \<times> u8 \<Rightarrow> bytes \<Rightarrow> bytes" where
  "nstx_encode junk data =
     (let len = length data; pad = (if len mod 3 \<noteq> 0 then 3 - len mod 3 else 0)
      in map_at (of_nat pad) # enc_loop junk data)"

text \<open>
  \<open>nstx_decode\<close>: the decoded buffer and the length stored in \<open>*rlen\<close>; \<open>None\<close> when a cell of
  \<open>revmap\<close> is used that was never written.
\<close>

definition dec4 :: "u8 \<Rightarrow> u8 \<Rightarrow> u8 \<Rightarrow> u8 \<Rightarrow> bytes" where
  "dec4 a b c d =
     [push_bit 2 a OR drop_bit 4 (b AND 48),
      push_bit 4 (b AND 15) OR drop_bit 2 (c AND 60),
      push_bit 6 (c AND 3) OR d]"

definition rev_at :: "u8 \<Rightarrow> u8 option" where
  "rev_at c = revmap ! unat c"

fun dec_loop :: "bytes \<Rightarrow> bytes option" where
  "dec_loop (a # b # c # d # rest) =
     (case (rev_at a, rev_at b, rev_at c, rev_at d) of
        (Some a', Some b', Some c', Some d') \<Rightarrow> map_option (\<lambda>r. dec4 a' b' c' d' @ r) (dec_loop rest)
      | _ \<Rightarrow> None)"
| "dec_loop _ = Some []"

definition nstx_decode :: "bytes \<Rightarrow> (bytes \<times> int) option" where
  "nstx_decode data =
     (case (dec_loop (drop 1 data), rev_at (case data of [] \<Rightarrow> 0 | c # _ \<Rightarrow> c)) of
        (Some buf, Some pad) \<Rightarrow> Some (buf, int (length buf) - uint pad)
      | _ \<Rightarrow> None)"

section \<open>Strings of \<open>dns.c\<close>\<close>

text \<open>\<open>_cstringify\<close>, with the final zero byte that \<open>*dlen\<close> counts; \<open>clen\<close> is 63 or 255.\<close>

function cstringify :: "nat \<Rightarrow> bytes \<Rightarrow> bytes" where
  "cstringify clen data =
     (if data = [] \<or> clen = 0 then [0]
      else let llen = (if length data > clen then clen else length data)
           in of_nat llen # take llen data @ cstringify clen (drop llen data))"
  by pat_completeness auto
termination by (relation "measure (length \<circ> snd)") auto

declare cstringify.simps [simp del]

definition data2lbl :: "bytes \<Rightarrow> bytes" where
  "data2lbl data = cstringify 63 data"

definition data2txt :: "bytes \<Rightarrow> bytes" where
  "data2txt data = cstringify 255 data"

text \<open>
  \<open>txt2data\<close> on the bytes it may read: \<open>Overrun\<close> is a read behind them, \<open>Bad\<close> the result
  \<open>NULL\<close>.
\<close>

datatype parse_result = Overrun | Bad | Parsed bytes

fun cons_chunk :: "bytes \<Rightarrow> parse_result \<Rightarrow> parse_result" where
  "cons_chunk c (Parsed r) = Parsed (c @ r)"
| "cons_chunk c r = r"

function txt2data :: "bytes \<Rightarrow> parse_result" where
  "txt2data [] = Overrun"
| "txt2data (l # s) =
     (let llen = unat l
      in if llen > length s then Bad
         else if llen = 0 then Parsed []
         else cons_chunk (take llen s) (txt2data (drop llen s)))"
  by pat_completeness auto
termination by (relation "measure length") auto

text \<open>
  \<open>lbl2data\<close> on a name and the number of bytes in front of the suffix: it stops quietly at the
  first length byte that does not fit.
\<close>

function lbl2data :: "bytes \<Rightarrow> int \<Rightarrow> parse_result" where
  "lbl2data [] len = Overrun"
| "lbl2data (l # s) len =
     (let llen = unat l
      in if llen > 63 \<or> int llen > len - 1 then Parsed []
         else if llen = 0 then Parsed []
         else if llen > length s then Overrun
         else cons_chunk (take llen s) (lbl2data (drop llen s) (len - 1 - int llen)))"
  by pat_completeness auto
termination by (relation "measure (length \<circ> fst)") auto

text \<open>\<open>str2lbl\<close>: a dotted name as labels; \<open>None\<close> for a label that is empty or too long.\<close>

function str2lbl :: "bytes \<Rightarrow> bytes option" where
  "str2lbl ptr =
     (let chunk = takeWhile (\<lambda>c. c \<noteq> of_char (CHR ''.'')) ptr; chunklen = length chunk
      in if chunklen < length ptr
         then (if chunklen > 63 \<or> chunklen = 0 then None
               else map_option (\<lambda>r. of_nat chunklen # chunk @ r) (str2lbl (drop (Suc chunklen) ptr)))
         else Some (of_nat chunklen # chunk @ [0]))"
  by pat_completeness auto
termination by (relation "measure length") auto

declare txt2data.simps [simp del] lbl2data.simps [simp del] str2lbl.simps [simp del]

text \<open>A C string in a buffer: the bytes in front of the first NUL.\<close>

definition cstr :: "bytes \<Rightarrow> bytes" where
  "cstr b = takeWhile (\<lambda>c. c \<noteq> 0) b"

definition dns_data2fqdn :: "bytes \<Rightarrow> bytes \<Rightarrow> bytes" where
  "dns_data2fqdn suffix data = cstr (data2lbl data) @ cstr suffix"

text \<open>\<open>strstr\<close>: the position of the first occurrence.\<close>

fun strstr :: "bytes \<Rightarrow> bytes \<Rightarrow> nat option" where
  "strstr [] pat = (if pat = [] then Some 0 else None)"
| "strstr (c # cs) pat =
     (if take (length pat) (c # cs) = pat then Some 0 else map_option Suc (strstr cs pat))"

definition dns_fqdn2data :: "bytes \<Rightarrow> bytes \<Rightarrow> parse_result" where
  "dns_fqdn2data suffix fqdn =
     (case strstr fqdn (cstr suffix) of
        None \<Rightarrow> Bad
      | Some off \<Rightarrow> if off \<noteq> 0 then lbl2data (fqdn @ [0]) (int off) else Bad)"

section \<open>Round trip of the alphabet\<close>

lemma rev_map_table: "\<forall>i \<in> set [0..<64]. rev_at (map_at (of_nat i)) = Some (of_nat i)"
  by code_simp

lemma rev_map_at: "unat i < 64 \<Longrightarrow> rev_at (map_at i) = Some i"
  using bspec [OF rev_map_table, of "unat i"] by simp

lemma word8_eqI: "(\<And>n. n < 8 \<Longrightarrow> bit x n = bit y n) \<Longrightarrow> x = (y :: u8)"
  by (rule bit_word_eqI) simp

lemma less_8_cases: "n < (8::nat) \<longleftrightarrow> n = 0 \<or> n = 1 \<or> n = 2 \<or> n = 3 \<or> n = 4 \<or> n = 5 \<or> n = 6 \<or> n = 7"
  by auto

lemma dec4_first: "push_bit 2 (drop_bit 2 (a AND 252)) OR
    drop_bit 4 ((push_bit 4 (a AND 3) OR drop_bit 4 (b AND 240)) AND 48) = (a :: u8)"
  by (rule word8_eqI) (auto simp: less_8_cases bit_simps simp flip: numeral_2_eq_2)

lemmas word8_bits = less_8_cases bit_simps numeral_2_eq_2 [symmetric]

lemma dec4_second: "push_bit 4 ((push_bit 4 (a AND 3) OR drop_bit 4 (b AND 240)) AND 15) OR
    drop_bit 2 ((push_bit 2 (b AND 15) OR drop_bit 6 (c AND 192)) AND 60) = (b :: u8)"
  by (rule word8_eqI) (auto simp: word8_bits)

lemma dec4_third: "push_bit 6 ((push_bit 2 (b AND 15) OR drop_bit 6 (c AND 192)) AND 3) OR (c AND 63) = (c :: u8)"
  by (rule word8_eqI) (auto simp: word8_bits)

lemma index_bound: "x AND 63 = x \<Longrightarrow> unat (x :: u8) < 64"
  using word_and_le1 [of x 63] by (simp add: word_le_nat_alt)

lemma enc3_indices:
  "unat (drop_bit 2 (a AND 252) :: u8) < 64"
  "unat (push_bit 4 (a AND 3) OR drop_bit 4 (b AND 240) :: u8) < 64"
  "unat (push_bit 2 (b AND 15) OR drop_bit 6 (c AND 192) :: u8) < 64"
  "unat (c AND 63 :: u8) < 64"
  by (rule index_bound, rule word8_eqI, (auto simp: word8_bits) [])+

lemma dec_enc3: "dec_loop (enc3 a b c @ rest) = map_option (\<lambda>r. [a, b, c] @ r) (dec_loop rest)"
  by (simp only: enc3_def append.simps dec_loop.simps rev_map_at enc3_indices dec4_def
      dec4_first dec4_second dec4_third prod.case option.case) (cases "dec_loop rest", simp_all)

lemma dec_enc_loop:
  "\<exists>extra. dec_loop (enc_loop junk data) = Some (data @ extra) \<and>
     length extra = (if length data mod 3 \<noteq> 0 then 3 - length data mod 3 else 0)"
proof (induction junk data rule: enc_loop.induct)
  case (4 junk a b c rest)
  then show ?case by (auto simp: dec_enc3)
next
  case (2 junk a)
  then show ?case using dec_enc3 [of a "fst junk" "snd junk" "[]"] by simp
next
  case (3 junk a b)
  then show ?case using dec_enc3 [of a b "fst junk" "[]"] by simp
qed simp

section \<open>Round trips of the strings\<close>

lemma txt2data_chunk:
  "unat l = length c \<Longrightarrow> 0 < length c \<Longrightarrow> txt2data (l # c @ r) = cons_chunk c (txt2data r)"
  by (simp add: txt2data.simps)

lemma txt2data_cstringify:
  assumes "0 < clen" and "clen < 256"
  shows "txt2data (cstringify clen data @ junk) = Parsed data"
  using assms
proof (induction clen data rule: cstringify.induct)
  case (1 clen data)
  show ?case
  proof (cases "data = []")
    case True
    then show ?thesis by (simp add: cstringify.simps txt2data.simps Let_def)
  next
    case False
    let ?l = "if length data > clen then clen else length data"
    have l: "?l \<le> length data" "0 < ?l" "?l < 256" using 1(2,3) False by auto
    have "unat (of_nat ?l :: u8) = ?l" using l(3) by (simp add: unat_of_nat)
    moreover have "txt2data (cstringify clen (drop ?l data) @ junk) = Parsed (drop ?l data)"
      using 1 False by simp
    moreover have "cstringify clen data = of_nat ?l # take ?l data @ cstringify clen (drop ?l data)"
      using 1(2) False by (subst cstringify.simps) (simp add: Let_def)
    ultimately show ?thesis
      using l txt2data_chunk [of "of_nat ?l" "take ?l data" "cstringify clen (drop ?l data) @ junk"] by simp
  qed
qed

lemma cstringify_step:
  assumes "0 < clen" and "data \<noteq> []"
  defines "l \<equiv> if length data > clen then clen else length data"
  shows "cstringify clen data = of_nat l # take l data @ cstringify clen (drop l data)"
    and "0 < l" and "l \<le> length data" and "l \<le> clen"
  using assms by (auto simp: cstringify.simps [of clen data] Let_def)

lemma cstringify_nonempty: "cstringify clen data \<noteq> []"
  by (subst cstringify.simps) (simp add: Let_def)

text \<open>The labels of a name without zero bytes, as a C string.\<close>

definition labels :: "bytes \<Rightarrow> bytes" where
  "labels data = butlast (cstringify 63 data)"

lemma labels_Nil [simp]: "labels [] = []"
  by (simp add: labels_def cstringify.simps)

lemma labels_step:
  assumes "data \<noteq> []"
  defines "l \<equiv> if length data > 63 then 63 else length data"
  shows "labels data = of_nat l # take l data @ labels (drop l data)" and "0 < l" "l \<le> length data" "l \<le> 63"
  using cstringify_step [of 63 data] assms cstringify_nonempty [of 63 "drop l data"]
  by (auto simp: labels_def butlast_append)

lemma takeWhile_Cons_append:
  "P x \<Longrightarrow> (\<forall>y \<in> set xs. P y) \<Longrightarrow> takeWhile P (x # xs @ ys) = x # xs @ takeWhile P ys"
  by (simp add: takeWhile_append2)

lemma cstr_data2lbl: "0 \<notin> set data \<Longrightarrow> cstr (data2lbl data) = labels data"
proof (induction "length data" arbitrary: data rule: less_induct)
  case less
  show ?case
  proof (cases "data = []")
    case True
    then show ?thesis by (simp add: cstr_def data2lbl_def cstringify.simps)
  next
    case False
    let ?l = "if length data > 63 then 63 else length data"
    have l: "0 < ?l" "?l \<le> length data" "?l \<le> 63" using False by auto
    have nz: "(of_nat ?l :: u8) \<noteq> 0" using l by (simp add: unat_eq_zero [symmetric] unat_of_nat)
    have d: "0 \<notin> set (drop ?l data)" "\<forall>c \<in> set (take ?l data). c \<noteq> 0"
      using less.prems in_set_dropD in_set_takeD by metis+
    have "cstr (data2lbl data) = of_nat ?l # take ?l data @ cstr (data2lbl (drop ?l data))"
      unfolding cstr_def data2lbl_def cstringify_step(1) [OF zero_less_numeral False]
      by (rule takeWhile_Cons_append [OF nz d(2)])
    moreover have "cstr (data2lbl (drop ?l data)) = labels (drop ?l data)"
      using less.hyps [OF _ d(1)] l by simp
    ultimately show ?thesis using labels_step(1) [OF False] by simp
  qed
qed

lemma lbl2data_labels: "rest \<noteq> [] \<Longrightarrow> lbl2data (labels data @ rest) (int (length (labels data))) = Parsed data"
proof (induction "length data" arbitrary: data rule: less_induct)
  case less
  show ?case
  proof (cases "data = []")
    case True
    then show ?thesis using less.prems by (cases rest) (simp_all add: lbl2data.simps Let_def)
  next
    case False
    let ?l = "if length data > 63 then 63 else length data"
    let ?d = "drop ?l data"
    have l: "0 < ?l" "?l \<le> length data" "?l \<le> 63" using False by auto
    have u: "unat (of_nat ?l :: u8) = ?l" using l by (simp add: unat_of_nat)
    have "lbl2data (labels ?d @ rest) (int (length (labels ?d))) = Parsed ?d"
      using less l by simp
    moreover have "lbl2data (labels data @ rest) (int (length (labels data))) =
        cons_chunk (take ?l data) (lbl2data (labels ?d @ rest) (int (length (labels ?d))))"
      unfolding labels_step(1) [OF False] using l u by (simp add: lbl2data.simps Let_def)
    ultimately show ?thesis by simp
  qed
qed

section \<open>Properties\<close>

lemma map_at_nonzero: "unat i < 64 \<Longrightarrow> map_at i \<noteq> 0"
proof -
  have table: "\<forall>i \<in> set [0..<64]. map_at (of_nat i) \<noteq> 0" by code_simp
  assume "unat i < 64"
  then show ?thesis using bspec [OF table, of "unat i"] by simp
qed

lemma enc_loop_nonzero: "0 \<notin> set (enc_loop junk data)"
  by (induction junk data rule: enc_loop.induct)
    (auto simp only: enc_loop.simps enc3_def list.set set_append map_at_nonzero enc3_indices
       insert_iff empty_iff Un_iff dest: sym)

lemma nstx_encode_nonzero: "0 \<notin> set (nstx_encode junk data)"
proof -
  have "(if length data mod 3 \<noteq> 0 then 3 - length data mod 3 else 0) < 64" by auto
  then have "map_at (of_nat (if length data mod 3 \<noteq> 0 then 3 - length data mod 3 else 0)) \<noteq> 0"
    by (intro map_at_nonzero) (simp add: unat_of_nat)
  then show ?thesis using enc_loop_nonzero [of junk data] by (auto simp: nstx_encode_def Let_def)
qed

lemma decode_encode:
  "\<exists>extra. nstx_decode (nstx_encode junk data) = Some (data @ extra, int (length data))"
proof -
  obtain extra where e: "dec_loop (enc_loop junk data) = Some (data @ extra)"
    "length extra = (if length data mod 3 \<noteq> 0 then 3 - length data mod 3 else 0)"
    using dec_enc_loop by blast
  have "length extra < 64" unfolding e(2) by auto
  then have "rev_at (map_at (of_nat (length extra))) = Some (of_nat (length extra))"
      "uint (of_nat (length extra) :: u8) = int (length extra)"
    by (simp_all add: rev_map_at unat_of_nat uint_nat)
  then show ?thesis
    using e by (intro exI [of _ extra]) (simp add: nstx_encode_def nstx_decode_def Let_def flip: e(2))
qed

text \<open>
  C16: what the client sends is what the server gets. Any bytes put into the tunnel's alphabet,
  cut into labels and given the domain as suffix come back from \<open>dns_fqdn2data\<close> and
  \<open>nstx_decode\<close> unchanged, with their exact length (the two bytes read behind the data do not
  matter), provided the suffix does not occur earlier in the name.
\<close>

theorem query_roundtrip:
  assumes "strstr (dns_data2fqdn suffix (nstx_encode junk data)) (cstr suffix) =
    Some (length (labels (nstx_encode junk data)))"
  shows "\<exists>text extra. dns_fqdn2data suffix (dns_data2fqdn suffix (nstx_encode junk data)) = Parsed text \<and>
    nstx_decode text = Some (data @ extra, int (length data))"
proof -
  let ?t = "nstx_encode junk data"
  have name: "dns_data2fqdn suffix ?t = labels ?t @ cstr suffix"
    by (simp add: dns_data2fqdn_def cstr_data2lbl nstx_encode_nonzero)
  have "?t \<noteq> []" by (simp add: nstx_encode_def Let_def)
  then have "length (labels ?t) \<noteq> 0" using labels_step(1) [of ?t] by auto
  then have "dns_fqdn2data suffix (dns_data2fqdn suffix ?t) =
      lbl2data (labels ?t @ (cstr suffix @ [0])) (int (length (labels ?t)))"
    using assms by (simp add: dns_fqdn2data_def name)
  then show ?thesis using lbl2data_labels [of "cstr suffix @ [0]" ?t] decode_encode by auto
qed

theorem query_roundtrip_witness:
  "\<exists>text extra. dns_fqdn2data [3, 118, 100, 101, 0]
      (dns_data2fqdn [3, 118, 100, 101, 0] (nstx_encode (7, 9) [0, 255, 16, 32])) = Parsed text \<and>
    nstx_decode text = Some ([0, 255, 16, 32] @ extra, 4)"
proof -
  have "strstr (dns_data2fqdn [3, 118, 100, 101, 0] (nstx_encode (7, 9) [0, 255, 16, 32])) (cstr [3, 118, 100, 101, 0]) =
      Some (length (labels (nstx_encode (7, 9) [0, 255, 16, 32])))"
    by code_simp
  then show ?thesis
    using query_roundtrip [of "[3, 118, 100, 101, 0]" "(7, 9)" "[0, 255, 16, 32]"] by simp
qed

text \<open>
  The answers of the server survive as well: the text record made by \<open>data2txt\<close> is read
  back by \<open>txt2data\<close> whatever follows it, and a record that ends inside a string is refused.
\<close>

theorem txt_roundtrip:
  "txt2data (data2txt data @ rest) = Parsed data \<and>
   (length s < unat l \<longrightarrow> txt2data (l # s) = Bad)"
  by (simp add: data2txt_def txt2data_cstringify txt2data.simps)

theorem txt_roundtrip_witness:
  "txt2data (data2txt [1, 2, 3] @ [9]) = Parsed [1, 2, 3] \<and> txt2data [4, 1, 2] = Bad"
  using txt_roundtrip [of "[1, 2, 3]" "[9]" "[1, 2]" 4] by simp

end
