(* ===== verification/NsTunnel.thy ===== *)
theory NsTunnel
  imports Prelude "HOL-Library.Multiset"
begin

text \<open>
  The DNS tunnel \<^verbatim>\<open>vde_over_ns\<close>: the queue of the queries that wait for an answer (\<^verbatim>\<open>queue.c\<close>),
  the fragments of a frame on the sending sides (\<^verbatim>\<open>vde_over_ns.c\<close>) and their reassembly
  (\<^verbatim>\<open>pstack.c\<close>). The header of a fragment has the layout of \<open>struct nstxhdr\<close> on a
  little-endian machine with bit fields allocated from the low bits. \<open>time(NULL)\<close> is an
  argument.
\<close>

section \<open>Waiting queries\<close>

record 'p nstxqueue =
  q_id :: u16
  q_timeout :: int
  q_name :: bytes
  q_peer :: "'p option"

record 'p nsqueue =
  qhead :: "'p nstxqueue list"
  qlen :: int
  qtimeout :: int

definition QUEUETIMEOUT :: int where "QUEUETIMEOUT = 5"

definition nsqueue_start :: "'p nsqueue" where
  "nsqueue_start = \<lparr>qhead = [], qlen = 0, qtimeout = QUEUETIMEOUT\<rparr>"

fun finditem :: "u16 \<Rightarrow> 'p nstxqueue list \<Rightarrow> 'p nstxqueue option" where
  "finditem i [] = None"
| "finditem i (p # ps) = (if q_id p = i then Some p else finditem i ps)"

text \<open>\<open>strcpy\<close> into the 257 bytes of \<open>name\<close>: \<open>None\<close> when the string does not fit.\<close>

definition queueitem :: "int \<Rightarrow> u16 \<Rightarrow> bytes option \<Rightarrow> 'p option \<Rightarrow> 'p nsqueue \<Rightarrow> 'p nsqueue option" where
  "queueitem now i name peer q =
     (if finditem i (qhead q) \<noteq> None then Some q
      else if case name of None \<Rightarrow> False | Some n \<Rightarrow> length n > 256 then None
      else Some (q\<lparr>qlen := qlen q + 1,
                   qhead := qhead q @ [\<lparr>q_id = i, q_timeout = now + qtimeout q,
                     q_name = (case name of None \<Rightarrow> [] | Some n \<Rightarrow> n), q_peer = peer\<rparr>]\<rparr>))"

definition queueid :: "int \<Rightarrow> u16 \<Rightarrow> 'p nsqueue \<Rightarrow> 'p nsqueue option" where
  "queueid now i = queueitem now i None None"

text \<open>The loop of \<open>dequeueitem\<close> behind the head: the item taken out and the rest.\<close>

fun dequeue_loop :: "int \<Rightarrow> 'p nstxqueue list \<Rightarrow> 'p nstxqueue option \<times> 'p nstxqueue list" where
  "dequeue_loop i [] = (None, [])"
| "dequeue_loop i (t # ts) =
     (if uint (q_id t) = i then (Some t, ts)
      else case dequeue_loop i ts of (r, rest) \<Rightarrow> (r, t # rest))"

definition dequeueitem :: "int \<Rightarrow> 'p nsqueue \<Rightarrow> 'p nstxqueue option \<times> 'p nsqueue" where
  "dequeueitem i q =
     (case qhead q of
        [] \<Rightarrow> (None, q)
      | h # t \<Rightarrow>
          if i < 0 \<or> uint (q_id h) = i then (Some h, q\<lparr>qhead := t, qlen := qlen q - 1\<rparr>)
          else case dequeue_loop i t of
                 (None, _) \<Rightarrow> (None, q)
               | (Some r, rest) \<Rightarrow> (Some r, q\<lparr>qhead := h # rest, qlen := qlen q - 1\<rparr>))"

text \<open>\<open>timeoutqueue\<close>: the items given to the callback, and the queue.\<close>

fun expire :: "int \<Rightarrow> 'p nstxqueue list \<Rightarrow> 'p nstxqueue list \<times> 'p nstxqueue list" where
  "expire now [] = ([], [])"
| "expire now (h # t) =
     (if q_timeout h \<le> now then (case expire now t of (out, rest) \<Rightarrow> (h # out, rest)) else ([], h # t))"

definition timeoutqueue :: "int \<Rightarrow> 'p nsqueue \<Rightarrow> 'p nstxqueue list \<times> 'p nsqueue" where
  "timeoutqueue now q =
     (case expire now (qhead q) of (out, rest) \<Rightarrow> (out, q\<lparr>qhead := rest, qlen := qlen q - int (length out)\<rparr>))"

definition queuelen :: "'p nsqueue \<Rightarrow> int" where
  "queuelen q = qlen q"

definition qsettimeout :: "int \<Rightarrow> 'p nsqueue \<Rightarrow> 'p nsqueue" where
  "qsettimeout t q = q\<lparr>qtimeout := t\<rparr>"

section \<open>Fragments\<close>

definition NSTX_MAGIC :: u8 where "NSTX_MAGIC = 0xb4"
definition NSTX_LF :: u8 where "NSTX_LF = 1"
definition NSTX_TIMEOUT :: u32 where "NSTX_TIMEOUT = 30"

text \<open>\<open>struct nstxhdr\<close>: magic, \<open>seq:4\<close> and \<open>chan:4\<close> (never written by the sender, here 0, and read nowhere), \<open>id:12\<close> and \<open>flags:4\<close>.\<close>

definition nstxhdr :: "nat \<Rightarrow> nat \<Rightarrow> u8 \<Rightarrow> bytes" where
  "nstxhdr seq i flags =
     [NSTX_MAGIC, of_nat (seq mod 16), of_nat (i mod 256), of_nat (i div 256 mod 16) OR push_bit 4 (flags AND 15)]"

definition hdr_seq :: "bytes \<Rightarrow> nat" where "hdr_seq p = unat (p ! 1 AND 15)"
definition hdr_id :: "bytes \<Rightarrow> nat" where "hdr_id p = unat (p ! 2) + 256 * unat (p ! 3 AND 15)"
definition hdr_flags :: "bytes \<Rightarrow> u8" where "hdr_flags p = drop_bit 4 (p ! 3)"

text \<open>The frames that wait to be sent by the server.\<close>

record senditem =
  s_data :: bytes
  s_id :: nat
  s_offset :: nat
  s_seq :: nat

definition queue_senditem :: "bytes \<Rightarrow> nat \<times> senditem list \<Rightarrow> nat \<times> senditem list" where
  "queue_senditem buf = (\<lambda>(last_id, items).
     (Suc last_id, items @ [\<lparr>s_data = buf, s_id = Suc last_id, s_offset = 0, s_seq = 0\<rparr>]))"

text \<open>
  \<open>dequeue_senditem\<close> with \<open>len\<close> bytes of room: the fragment and the queue. \<open>None\<close>: no item, or a
  negative size given to \<open>memcpy\<close>.
\<close>

definition dequeue_senditem :: "int \<Rightarrow> senditem list \<Rightarrow> (bytes \<times> senditem list) option" where
  "dequeue_senditem len items =
     (case items of
        [] \<Rightarrow> None
      | item # rest \<Rightarrow>
          let remain = int (length (s_data item)) - int (s_offset item);
              dlen = (if len - 4 > remain then remain else len - 4)
          in if dlen < 0 then None
             else
               let d = nat dlen; off = s_offset item + d; done = (off = length (s_data item))
               in Some (nstxhdr (s_seq item) (s_id item) (if done then NSTX_LF else 0) @
                          take d (drop (s_offset item) (s_data item)),
                        if done then rest else item\<lparr>s_seq := s_seq item + 1, s_offset := off\<rparr> # rest))"

text \<open>
  The fragments of one frame the client sends: \<open>l = Suc m\<close> bytes of payload fit a query
  (\<open>dns_getfreespace\<close> less the header; the loop would not end for \<open>l = 0\<close>). The last fragment flag
  is set when the rest is shorter than a full fragment.
\<close>

function client_fragments :: "nat \<Rightarrow> nat \<Rightarrow> nat \<Rightarrow> bytes \<Rightarrow> bytes list" where
  "client_fragments m i seq data =
     (let l = Suc m
      in if l > length data then [nstxhdr seq i NSTX_LF @ data]
         else (nstxhdr seq i 0 @ take l data) #
                (if drop l data = [] then [] else client_fragments m i (Suc seq) (drop l data)))"
  by pat_completeness auto
termination by (relation "measure (\<lambda>(m, i, seq, data). length data)") auto

declare client_fragments.simps [simp del]

section \<open>Reassembly\<close>

record nstx_item =
  it_id :: nat
  it_timestamp :: u32
  it_frc :: nat
  it_chunks :: "(nat \<times> bytes) list"

fun get_item_by_id :: "nat \<Rightarrow> nstx_item list \<Rightarrow> nstx_item option" where
  "get_item_by_id i [] = None"
| "get_item_by_id i (p # ps) = (if it_id p = i then Some p else get_item_by_id i ps)"

definition alloc_item :: "nat \<Rightarrow> nstx_item" where
  "alloc_item i = \<lparr>it_id = i, it_timestamp = 0, it_frc = 0, it_chunks = []\<rparr>"

text \<open>Changing the item found, and taking it out of the list.\<close>

fun upd_item :: "nat \<Rightarrow> (nstx_item \<Rightarrow> nstx_item) \<Rightarrow> nstx_item list \<Rightarrow> nstx_item list" where
  "upd_item i f [] = []"
| "upd_item i f (p # ps) = (if it_id p = i then f p # ps else p # upd_item i f ps)"

fun del_item :: "nat \<Rightarrow> nstx_item list \<Rightarrow> nstx_item list" where
  "del_item i [] = []"
| "del_item i (p # ps) = (if it_id p = i then ps else p # del_item i ps)"

definition dealloc_item :: "nstx_item \<Rightarrow> bytes" where
  "dealloc_item p = concat (map snd (it_chunks p))"

fun add_data_chunk :: "nat \<Rightarrow> bytes \<Rightarrow> (nat \<times> bytes) list \<Rightarrow> (nat \<times> bytes) list" where
  "add_data_chunk seq data [] = [(seq, data)]"
| "add_data_chunk seq data (c # cs) =
     (if fst c = seq then c # cs
      else if fst c > seq then (seq, data) # c # cs
      else c # add_data_chunk seq data cs)"

fun find_sequence :: "nat \<Rightarrow> (nat \<times> bytes) list \<Rightarrow> nat" where
  "find_sequence i [] = i"
| "find_sequence i (c # cs) = (if fst c \<noteq> i then i else find_sequence (Suc i) cs)"

definition add_data :: "u32 \<Rightarrow> bytes \<Rightarrow> nstx_item \<Rightarrow> bool \<times> nstx_item" where
  "add_data now pkt item =
     (let frc = (if hdr_flags pkt AND NSTX_LF \<noteq> 0 then hdr_seq pkt + 1 else it_frc item);
          chunks = add_data_chunk (hdr_seq pkt) (drop 4 pkt) (it_chunks item)
      in (frc \<noteq> 0 \<and> find_sequence 0 chunks = frc,
          item\<lparr>it_timestamp := now, it_frc := frc, it_chunks := chunks\<rparr>))"

definition check_timeouts :: "u32 \<Rightarrow> nstx_item list \<Rightarrow> nstx_item list" where
  "check_timeouts now items = filter (\<lambda>p. \<not> now > it_timestamp p + NSTX_TIMEOUT) items"

text \<open>\<open>nstx_handlepacket\<close>: the frame given to the callback, if any, and the list of items.\<close>

definition nstx_handlepacket :: "u32 \<Rightarrow> bytes \<Rightarrow> nstx_item list \<Rightarrow> bytes option \<times> nstx_item list" where
  "nstx_handlepacket now pkt items =
     (if length pkt < 4 then (None, items)
      else let i = hdr_id pkt
           in if i = 0 then (None, items)
              else
                let items1 = (if get_item_by_id i items = None then alloc_item i # items else items);
                    item = the (get_item_by_id i items1)
                in case add_data now pkt item of (complete, item') \<Rightarrow>
                     if complete
                     then (Some (dealloc_item item'), check_timeouts now (del_item i items1))
                     else (None, check_timeouts now (upd_item i (\<lambda>_. item') items1)))"

section \<open>Headers\<close>

lemma hdr_table:
  "\<forall>k \<in> set [0..<16]. \<forall>f \<in> {0, NSTX_LF}.
     (of_nat k OR push_bit 4 (f AND 15)) AND 15 = (of_nat k :: u8) \<and>
     drop_bit 4 (of_nat k OR push_bit 4 (f AND 15) :: u8) = f \<and> of_nat k AND 15 = (of_nat k :: u8)"
  by code_simp

lemma hdr_fields:
  assumes "f \<in> {0, NSTX_LF}"
  shows "hdr_seq (nstxhdr s i f @ d) = s mod 16" and "hdr_id (nstxhdr s i f @ d) = i mod 4096"
    and "hdr_flags (nstxhdr s i f @ d) = f" and "drop 4 (nstxhdr s i f @ d) = d"
    and "length (nstxhdr s i f @ d) = 4 + length d"
proof -
  note t = bspec [OF bspec [OF hdr_table, of "i div 256 mod 16"], of f]
    and u = bspec [OF bspec [OF hdr_table, of "s mod 16"], of 0]
  show "hdr_seq (nstxhdr s i f @ d) = s mod 16"
    using u by (simp add: hdr_seq_def nstxhdr_def unat_of_nat)
  have "i mod 4096 = i mod 256 + 256 * (i div 256 mod 16)"
    using mod_mult2_eq [of i 256 16] by simp
  then show "hdr_id (nstxhdr s i f @ d) = i mod 4096"
    using t assms by (simp add: hdr_id_def nstxhdr_def unat_of_nat)
  show "hdr_flags (nstxhdr s i f @ d) = f"
    using t assms by (simp add: hdr_flags_def nstxhdr_def)
qed (simp_all add: nstxhdr_def)

section \<open>Chunks\<close>

text \<open>The chunk list after some fragments have arrived, in whatever order.\<close>

definition chunks :: "(nat \<Rightarrow> bytes) \<Rightarrow> nat list \<Rightarrow> (nat \<times> bytes) list" where
  "chunks p xs = map (\<lambda>i. (i, p i)) xs"

lemma add_data_chunk_sorted:
  "sorted_wrt (<) xs \<Longrightarrow> add_data_chunk i (p i) (chunks p xs) =
     chunks p (sorted_list_of_set (insert i (set xs)))"
proof -
  assume s: "sorted_wrt (<) xs"
  have "add_data_chunk i (p i) (chunks p xs) = chunks p (if i \<in> set xs then xs else insort i xs)"
    using s by (induction xs) (auto simp: chunks_def)
  moreover have "sorted_list_of_set (insert i (set xs)) = (if i \<in> set xs then xs else insort i xs)"
    using s by (cases "i \<in> set xs")
      (simp_all add: strict_sorted_iff insert_absorb sorted_list_of_set.idem_if_sorted_distinct)
  ultimately show ?thesis by simp
qed

lemma find_sequence_upt: "j \<le> k \<Longrightarrow> find_sequence j (chunks p [j..<k]) = k"
  by (induction "k - j" arbitrary: j) (auto simp: chunks_def upt_rec)

lemma find_sequence_complete:
  assumes "sorted_wrt (<) xs" and "\<forall>x \<in> set xs. j \<le> x \<and> x < k" and "find_sequence j (chunks p xs) = k"
    and "j \<le> k"
  shows "set xs = {j..<k}"
  using assms
proof (induction xs arbitrary: j)
  case Nil
  then show ?case by (auto simp: chunks_def)
next
  case (Cons x xs)
  have x: "x = j" using Cons.prems by (auto simp: chunks_def split: if_splits)
  then have "\<forall>y \<in> set xs. Suc j \<le> y \<and> y < k" "sorted_wrt (<) xs" "Suc j \<le> k"
    using Cons.prems by auto
  moreover have "find_sequence (Suc j) (chunks p xs) = k"
    using Cons.prems(3) x by (simp add: chunks_def)
  ultimately have "set xs = {Suc j..<k}" by (intro Cons.IH)
  then show ?case using x \<open>Suc j \<le> k\<close> by auto
qed

lemma find_sequence_iff:
  assumes "S \<subseteq> {..<k}" and "0 < k"
  shows "find_sequence 0 (chunks p (sorted_list_of_set S)) = k \<longleftrightarrow> S = {..<k}"
proof
  have fin: "finite S" using assms(1) finite_subset by blast
  assume "find_sequence 0 (chunks p (sorted_list_of_set S)) = k"
  moreover have "\<forall>x \<in> set (sorted_list_of_set S). 0 \<le> x \<and> x < k" using fin assms(1) by auto
  ultimately have "set (sorted_list_of_set S) = {0..<k}"
    by (intro find_sequence_complete [where p = p]) simp_all
  then show "S = {..<k}" using fin by (simp add: lessThan_atLeast0)
next
  assume "S = {..<k}"
  then have "sorted_list_of_set S = [0..<k]" by (simp add: lessThan_atLeast0)
  then show "find_sequence 0 (chunks p (sorted_list_of_set S)) = k" by (simp add: find_sequence_upt)
qed

section \<open>Reassembly of a frame\<close>

fun receive :: "(u32 \<times> bytes) list \<Rightarrow> nstx_item list \<Rightarrow> bytes list \<times> nstx_item list" where
  "receive [] items = ([], items)"
| "receive ((now, pkt) # rest) items =
     (case nstx_handlepacket now pkt items of (r, items') \<Rightarrow>
        case receive rest items' of (out, items'') \<Rightarrow>
          ((case r of None \<Rightarrow> out | Some f \<Rightarrow> f # out), items''))"

text \<open>Fragment \<open>j\<close> of \<open>k\<close>, and the list of items while the fragments in \<open>S\<close> have arrived.\<close>

definition fragment :: "nat \<Rightarrow> nat \<Rightarrow> (nat \<Rightarrow> bytes) \<Rightarrow> nat \<Rightarrow> bytes" where
  "fragment i k p j = nstxhdr j i (if Suc j = k then NSTX_LF else 0) @ p j"

definition arrived :: "nat \<Rightarrow> nat \<Rightarrow> (nat \<Rightarrow> bytes) \<Rightarrow> nat set \<Rightarrow> nstx_item list \<Rightarrow> bool" where
  "arrived i k p S items \<longleftrightarrow>
     (if S = {} then get_item_by_id (i mod 4096) items = None
      else \<exists>t others. items = \<lparr>it_id = i mod 4096, it_timestamp = t, it_frc = (if k - 1 \<in> S then k else 0),
             it_chunks = chunks p (sorted_list_of_set S)\<rparr> # others \<and>
           get_item_by_id (i mod 4096) others = None)"

lemma get_item_check_timeouts:
  "get_item_by_id i items = None \<Longrightarrow> get_item_by_id i (check_timeouts now items) = None"
  by (induction items) (auto simp: check_timeouts_def split: if_splits)

lemma hdr_LF [simp]: "hdr_flags (fragment i k p j) AND NSTX_LF \<noteq> 0 \<longleftrightarrow> Suc j = k"
  by (simp add: fragment_def hdr_fields NSTX_LF_def)

lemma fragment_fields:
  "hdr_id (fragment i k p j) = i mod 4096" "drop 4 (fragment i k p j) = p j"
  "length (fragment i k p j) = 4 + length (p j)" "j < 16 \<Longrightarrow> hdr_seq (fragment i k p j) = j"
  using hdr_fields [of "if Suc j = k then NSTX_LF else 0" j i "p j"] by (auto simp: fragment_def)

lemma add_data_fragment:
  assumes "S \<subseteq> {..<k}" and "j < k" and "k \<le> 16"
    and "it_chunks item = chunks p (sorted_list_of_set S)" and "it_frc item = (if k - 1 \<in> S then k else 0)"
  shows "add_data now (fragment i k p j) item =
    (insert j S = {..<k}, item\<lparr>it_timestamp := now, it_frc := (if k - 1 \<in> insert j S then k else 0),
       it_chunks := chunks p (sorted_list_of_set (insert j S))\<rparr>)"
proof -
  have fin: "finite S" using assms(1) finite_subset by blast
  have ch: "add_data_chunk j (p j) (it_chunks item) = chunks p (sorted_list_of_set (insert j S))"
    using add_data_chunk_sorted [of "sorted_list_of_set S" j p] assms(4) fin by simp
  have sub: "insert j S \<subseteq> {..<k}" using assms by auto
  have frc: "(if Suc j = k then j + 1 else it_frc item) = (if k - 1 \<in> insert j S then k else 0)"
    using assms(2,5) by auto
  have complete: "((if k - 1 \<in> insert j S then k else 0) \<noteq> 0 \<and>
      find_sequence 0 (chunks p (sorted_list_of_set (insert j S))) = (if k - 1 \<in> insert j S then k else 0)) =
      (insert j S = {..<k})"
    using find_sequence_iff [OF sub] assms(2) by auto
  have seq: "hdr_seq (fragment i k p j) = j" using assms(2,3) by (simp add: fragment_fields)
  show ?thesis
    unfolding add_data_def Let_def seq hdr_LF fragment_fields(2) ch frc complete by (rule refl)
qed

lemma handle_fragment:
  assumes arr: "arrived i k p S items" and S: "S \<subseteq> {..<k}" and j: "j < k" and k: "k \<le> 16"
    and i: "i mod 4096 \<noteq> 0" and now: "unat now + 30 < 2 ^ 32"
  shows "\<exists>items'. nstx_handlepacket now (fragment i k p j) items =
      (if insert j S = {..<k} then Some (concat (map p [0..<k])) else None, items') \<and>
    arrived i k p (if insert j S = {..<k} then {} else insert j S) items'"
proof -
  obtain t f others where item: "(if get_item_by_id (i mod 4096) items = None then alloc_item (i mod 4096) # items else items) =
      \<lparr>it_id = i mod 4096, it_timestamp = t, it_frc = (if k - 1 \<in> S then k else 0),
        it_chunks = chunks p (sorted_list_of_set S)\<rparr> # others"
    and others: "get_item_by_id (i mod 4096) others = None"
    using arr by (auto simp: arrived_def alloc_item_def chunks_def split: if_splits)
  have alive: "\<not> now > now + NSTX_TIMEOUT"
    using now by (simp add: NSTX_TIMEOUT_def word_less_nat_alt unat_word_ariths)
  have full: "dealloc_item \<lparr>it_id = i mod 4096, it_timestamp = now, it_frc = k,
      it_chunks = chunks p (sorted_list_of_set {..<k})\<rparr> = concat (map p [0..<k])"
    by (simp add: dealloc_item_def chunks_def comp_def lessThan_atLeast0)
  show ?thesis
    using add_data_fragment [OF S j k, of "\<lparr>it_id = i mod 4096, it_timestamp = t, it_frc = (if k - 1 \<in> S then k else 0),
        it_chunks = chunks p (sorted_list_of_set S)\<rparr>" p now i] i j alive full get_item_check_timeouts [OF others]
    by (auto simp: nstx_handlepacket_def fragment_fields item arrived_def check_timeouts_def)
qed

lemma receive_fragments:
  assumes "arrived i k p S items" and "S \<subseteq> {..<k}" and "k \<le> 16" and "i mod 4096 \<noteq> 0"
    and "distinct js" and "set js = {..<k} - S" and "js \<noteq> []"
    and "length ts = length js" and "\<forall>t \<in> set ts. unat t + 30 < 2 ^ 32"
  shows "\<exists>items'. receive (zip ts (map (fragment i k p) js)) items = ([concat (map p [0..<k])], items') \<and>
    get_item_by_id (i mod 4096) items' = None"
  using assms
proof (induction js arbitrary: S items ts)
  case (Cons j js)
  obtain t ts' where ts: "ts = t # ts'" using Cons.prems(8) by (cases ts) auto
  have j: "j < k" "j \<notin> S" "set js = {..<k} - insert j S" "j \<notin> set js"
    using Cons.prems(5,6) by auto
  have done_iff: "insert j S = {..<k} \<longleftrightarrow> js = []"
    using j Cons.prems(2) by auto
  obtain items' where items': "nstx_handlepacket t (fragment i k p j) items =
      (if insert j S = {..<k} then Some (concat (map p [0..<k])) else None, items')"
      "arrived i k p (if insert j S = {..<k} then {} else insert j S) items'"
    using handle_fragment [OF Cons.prems(1,2) j(1) Cons.prems(3,4)] Cons.prems(9) ts by auto
  show ?case
  proof (cases "js = []")
    case True
    then show ?thesis using items' ts done_iff Cons.prems(8) by (simp add: arrived_def)
  next
    case False
    have "\<exists>items''. receive (zip ts' (map (fragment i k p) js)) items' = ([concat (map p [0..<k])], items'') \<and>
        get_item_by_id (i mod 4096) items'' = None"
      using items'(2) False done_iff Cons.prems j ts by (intro Cons.IH [of "insert j S"]) auto
    then show ?thesis using items'(1) False done_iff ts by auto
  qed
qed simp

text \<open>The server empties the queue with the room each answer has.\<close>

fun dequeue_all :: "int list \<Rightarrow> senditem list \<Rightarrow> (bytes list \<times> senditem list) option" where
  "dequeue_all [] items = Some ([], items)"
| "dequeue_all (l # ls) items =
     (case dequeue_senditem l items of
        None \<Rightarrow> None
      | Some (f, items') \<Rightarrow> map_option (\<lambda>(fs, r). (f # fs, r)) (dequeue_all ls items'))"

lemma dequeue_all_fragments:
  assumes "dequeue_all ls [it] = Some (fs, [])" and "s_offset it \<le> length (s_data it)"
  shows "\<exists>p. fs = map (fragment (s_id it) (s_seq it + length fs) p) [s_seq it..<s_seq it + length fs] \<and>
    concat (map p [s_seq it..<s_seq it + length fs]) = drop (s_offset it) (s_data it) \<and> fs \<noteq> []"
  using assms
proof (induction ls arbitrary: it fs)
  case (Cons l ls)
  let ?remain = "int (length (s_data it)) - int (s_offset it)"
  define d where "d = nat (if l - 4 > ?remain then ?remain else l - 4)"
  define off where "off = s_offset it + d"
  define dat where "dat = take d (drop (s_offset it) (s_data it))"
  have ge: "\<not> (if l - 4 > ?remain then ?remain else l - 4) < 0"
    using Cons.prems(1) by (auto simp: dequeue_senditem_def Let_def split: if_splits)
  have le: "off \<le> length (s_data it)" using Cons.prems(2) ge by (auto simp: off_def d_def)
  have rest: "drop (s_offset it) (s_data it) = dat @ drop off (s_data it)"
    by (simp add: dat_def off_def add.commute flip: drop_drop)
  let ?it = "it\<lparr>s_seq := s_seq it + 1, s_offset := off\<rparr>"
  have step: "dequeue_senditem l [it] =
      Some (nstxhdr (s_seq it) (s_id it) (if off = length (s_data it) then NSTX_LF else 0) @ dat,
        if off = length (s_data it) then [] else [?it])"
    using ge by (simp add: dequeue_senditem_def Let_def flip: d_def off_def dat_def)
  show ?case
  proof (cases "off = length (s_data it)")
    case True
    then have "fs = [nstxhdr (s_seq it) (s_id it) NSTX_LF @ dat]"
      using Cons.prems(1) step by (cases ls) (auto simp: dequeue_senditem_def)
    then show ?thesis using rest True by (intro exI [of _ "\<lambda>_. dat"]) (simp add: fragment_def)
  next
    case False
    then obtain fs' where fs': "dequeue_all ls [?it] = Some (fs', [])"
        "fs = (nstxhdr (s_seq it) (s_id it) 0 @ dat) # fs'"
      using Cons.prems(1) step by auto
    obtain p where p: "fs' = map (fragment (s_id it) (Suc (s_seq it) + length fs') p)
          [Suc (s_seq it)..<Suc (s_seq it) + length fs']"
        "concat (map p [Suc (s_seq it)..<Suc (s_seq it) + length fs']) = drop off (s_data it)" "fs' \<noteq> []"
      using Cons.IH [OF fs'(1)] le by auto
    define q where "q = p(s_seq it := dat)"
    have at_s: "q (s_seq it) = dat" by (simp add: q_def)
    let ?n = "Suc (s_seq it) + length fs'"
    have "map (fragment (s_id it) ?n q) [Suc (s_seq it)..<?n] = map (fragment (s_id it) ?n p) [Suc (s_seq it)..<?n]"
      by (rule map_cong) (auto simp: fragment_def q_def simp del: upt_Suc)
    then have "map (fragment (s_id it) ?n q) [Suc (s_seq it)..<?n] = fs'" unfolding p(1) [symmetric] .
    moreover have mq: "map q [Suc (s_seq it)..<?n] = map p [Suc (s_seq it)..<?n]"
      by (rule map_cong) (auto simp: q_def simp del: upt_Suc)
    have "concat (map q [Suc (s_seq it)..<?n]) = drop off (s_data it)"
      unfolding mq by (rule p(2))
    moreover have "fragment (s_id it) ?n q (s_seq it) = nstxhdr (s_seq it) (s_id it) 0 @ dat"
      using p(3) by (simp add: fragment_def q_def)
    moreover have "[s_seq it..<s_seq it + length fs] = s_seq it # [Suc (s_seq it)..<?n]"
      using fs'(2) by (simp add: upt_conv_Cons del: upt_Suc)
    ultimately show ?thesis
      using rest fs'(2) at_s by (intro exI [of _ q]) (simp del: upt_Suc)
  qed
qed simp

section \<open>The waiting queries as a queue\<close>

definition nsqueue_wf :: "'p nsqueue \<Rightarrow> bool" where
  "nsqueue_wf q \<longleftrightarrow> qlen q = int (length (qhead q)) \<and> distinct (map q_id (qhead q))"

lemma finditem_None: "finditem i ps = None \<longleftrightarrow> i \<notin> q_id ` set ps"
  by (induction ps) auto

lemma queueitem_wf: "nsqueue_wf q \<Longrightarrow> queueitem now i name peer q = Some q' \<Longrightarrow> nsqueue_wf q'"
  by (auto simp: nsqueue_wf_def queueitem_def finditem_None image_def split: if_splits option.splits)

lemma dequeue_loop_find:
  "distinct (map q_id ps) \<Longrightarrow> dequeue_loop (uint j) ps = (finditem j ps, filter (\<lambda>p. q_id p \<noteq> j) ps)"
proof (induction ps)
  case (Cons p ps)
  have "filter (\<lambda>x. q_id x \<noteq> j) ps = ps" if "q_id p = j"
    using Cons.prems that by (auto simp: filter_id_conv) (metis imageI)
  moreover have "uint (q_id p) = uint j \<longleftrightarrow> q_id p = j" by (simp add: word_uint_eq_iff)
  ultimately show ?case using Cons by auto
qed simp

lemma distinct_id_head:
  "distinct (map q_id (h # t)) \<Longrightarrow> filter (\<lambda>p. q_id p \<noteq> q_id h) t = t"
  by (auto simp: filter_id_conv) (metis imageI)

lemma finditem_filter:
  "distinct (map q_id ps) \<Longrightarrow> finditem j ps \<noteq> None \<Longrightarrow>
     length (filter (\<lambda>p. q_id p \<noteq> j) ps) = length ps - 1"
proof (induction ps)
  case (Cons p ps)
  then show ?case
  proof (cases "q_id p = j")
    case False
    then have "ps \<noteq> []" using Cons.prems by auto
    then show ?thesis using Cons False by simp
  qed (use distinct_id_head [of p ps] in auto)
qed simp

lemma dequeueitem_exact:
  assumes "nsqueue_wf q"
  shows "case dequeueitem (uint j) q of (r, q') \<Rightarrow> r = finditem j (qhead q) \<and> nsqueue_wf q' \<and>
    qhead q' = filter (\<lambda>p. q_id p \<noteq> j) (qhead q)"
proof (cases "qhead q")
  case Nil
  then show ?thesis using assms by (simp add: dequeueitem_def)
next
  case (Cons h t)
  have d: "distinct (map q_id (h # t))" and n: "qlen q = int (length t) + 1"
    using assms Cons by (simp_all add: nsqueue_wf_def)
  have eq: "uint (q_id h) = uint j \<longleftrightarrow> q_id h = j" by (simp add: word_uint_eq_iff)
  show ?thesis
  proof (cases "q_id h = j")
    case True
    then show ?thesis
      using Cons d n distinct_id_head [OF d] by (simp add: dequeueitem_def nsqueue_wf_def)
  next
    case False
    have t: "distinct (map q_id t)" using d by simp
    note loop = dequeue_loop_find [OF t, of j]
    show ?thesis
    proof (cases "finditem j t")
      case None
      then have "filter (\<lambda>p. q_id p \<noteq> j) t = t" by (auto simp: finditem_None filter_id_conv)
      then show ?thesis using assms False Cons None eq loop by (simp add: dequeueitem_def)
    next
      case (Some r)
      then have "t \<noteq> []" by auto
      then show ?thesis
        using False Cons Some eq loop d n finditem_filter [OF t, of j]
        by (auto simp: dequeueitem_def nsqueue_wf_def distinct_map_filter)
    qed
  qed
qed

lemma expire_sorted:
  "sorted (map q_timeout ps) \<Longrightarrow>
     expire now ps = (filter (\<lambda>p. q_timeout p \<le> now) ps, filter (\<lambda>p. \<not> q_timeout p \<le> now) ps)"
proof (induction ps)
  case (Cons p ps)
  show ?case
  proof (cases "q_timeout p \<le> now")
    case False
    then have "\<forall>x \<in> set (p # ps). \<not> q_timeout x \<le> now" using Cons.prems by auto
    then show ?thesis using False by (simp add: filter_id_conv)
  qed (use Cons in auto)
qed simp

section \<open>Delivery\<close>

lemma fragments_reassembled:
  assumes fs: "fs = map (fragment i n p) [0..<n]" and n: "0 < n" "n \<le> 16"
    and items: "get_item_by_id (i mod 4096) items = None"
    and pkts: "mset pkts = mset fs" and ts: "length ts = length pkts" "\<forall>t \<in> set ts. unat t + 30 < 2 ^ 32"
  shows "fst (receive (zip ts pkts) items) = (if i mod 4096 = 0 then [] else [concat (map p [0..<n])])"
proof -
  have mem: "\<exists>j < n. q = fragment i n p j" if "q \<in> set pkts" for q
    using that mset_eq_setD [OF pkts] by (auto simp: fs)
  show ?thesis
  proof (cases "i mod 4096 = 0")
    case True
    have "fst (receive (zip us qs) items) = []" if "set qs \<subseteq> set pkts" "length us = length qs" for us qs
      using that
    proof (induction qs arbitrary: us)
      case (Cons q qs)
      obtain t us' where us: "us = t # us'" using Cons.prems(2) by (cases us) auto
      obtain j where "q = fragment i n p j" using mem Cons.prems(1) by auto
      then have "nstx_handlepacket t q items = (None, items)"
        using True by (simp add: nstx_handlepacket_def fragment_fields)
      then show ?case using Cons us by (simp split: prod.splits)
    qed simp
    then show ?thesis using True ts by simp
  next
    case False
    define js where "js = map hdr_seq pkts"
    have "q = fragment i n p (hdr_seq q)" if "q \<in> set pkts" for q
      using mem [OF that] n by (auto simp: fragment_fields)
    then have pkts': "pkts = map (fragment i n p) js"
      unfolding js_def map_map by (intro map_idI [symmetric]) simp
    have "map hdr_seq fs = [0..<n]"
      using n unfolding fs map_map by (intro map_idI) (simp add: fragment_fields)
    then have "mset js = mset [0..<n]" unfolding js_def using pkts by (metis mset_map)
    then have js: "distinct js" "set js = {..<n}" "length js = n"
      using mset_eq_imp_distinct_iff [of js "[0..<n]"] mset_eq_setD [of js "[0..<n]"] mset_eq_length [of js "[0..<n]"]
      by (simp_all add: lessThan_atLeast0)
    have "\<exists>items'. receive (zip ts (map (fragment i n p) js)) items =
        ([concat (map p [0..<n])], items') \<and> get_item_by_id (i mod 4096) items' = None"
      by (rule receive_fragments [where S = "{}"])
        (use n ts js False items in \<open>auto simp: arrived_def js_def\<close>)
    then show ?thesis using False by (auto simp flip: pkts')
  qed
qed

text \<open>The client's fragments: complete, or without a last fragment.\<close>

lemma client_fragments_shape:
  "\<exists>p n. client_fragments m i seq data = map (\<lambda>j. nstxhdr j i
       (if Suc j = n \<and> (length data mod Suc m \<noteq> 0 \<or> data = []) then NSTX_LF else 0) @ p j) [seq..<n] \<and>
     seq < n \<and> concat (map p [seq..<n]) = data"
proof (induction m i seq data rule: client_fragments.induct)
  case (1 m i seq data)
  consider (last) "Suc m > length data" | (full) "length data = Suc m" | (more) "length data > Suc m"
    by linarith
  then show ?case
  proof cases
    case last
    then show ?thesis
      by (intro exI [of _ "\<lambda>_. data"] exI [of _ "Suc seq"]) (auto simp: client_fragments.simps Let_def)
  next
    case full
    then show ?thesis
      by (intro exI [of _ "\<lambda>_. data"] exI [of _ "Suc seq"]) (auto simp: client_fragments.simps Let_def)
  next
    case more
    let ?rest = "drop (Suc m) data"
    have ne: "?rest \<noteq> []" "data \<noteq> []" using more by auto
    have md: "length ?rest mod Suc m = length data mod Suc m"
      using more by (simp add: mod_if [of "length data"])
    obtain p n where p: "client_fragments m i (Suc seq) ?rest = map (\<lambda>j. nstxhdr j i
         (if Suc j = n \<and> length data mod Suc m \<noteq> 0 then NSTX_LF else 0) @ p j) [Suc seq..<n]"
       "Suc seq < n" "concat (map p [Suc seq..<n]) = ?rest"
      using 1 [OF refl] more ne md by auto
    define q where "q = p(seq := take (Suc m) data)"
    have upt: "[seq..<n] = seq # [Suc seq..<n]" using p(2) by (simp add: upt_conv_Cons)
    have eq: "map (\<lambda>j. nstxhdr j i (if Suc j = n \<and> length data mod Suc m \<noteq> 0 then NSTX_LF else 0) @ q j) [Suc seq..<n] =
        client_fragments m i (Suc seq) ?rest" "map q [Suc seq..<n] = map p [Suc seq..<n]"
      unfolding p(1) by (rule map_cong; simp add: q_def)+
    have "client_fragments m i seq data = (nstxhdr seq i 0 @ q seq) # client_fragments m i (Suc seq) ?rest"
      using more ne by (subst client_fragments.simps) (simp add: Let_def q_def)
    moreover have "concat (map q [Suc seq..<n]) = ?rest" unfolding eq(2) by (rule p(3))
    moreover have "q seq = take (Suc m) data" by (simp add: q_def)
    ultimately show ?thesis
      using p(2) eq(1) ne by (intro exI [of _ q] exI [of _ n]) (simp add: upt)
  qed
qed

text \<open>Fragments without the last one: the frame number never completes.\<close>

lemma receive_without_last:
  assumes "\<forall>q \<in> set pkts. hdr_id q = i \<and> hdr_flags q AND NSTX_LF = 0"
    and "\<forall>it \<in> set items. it_id it = i \<longrightarrow> it_frc it = 0"
  shows "fst (receive (zip ts pkts) items) = []"
  using assms
proof (induction pkts arbitrary: ts items)
  case (Cons q qs)
  show ?case
  proof (cases ts)
    case (Cons t ts')
    have frc: "it_frc (the (get_item_by_id i its)) = 0"
      if "\<forall>it \<in> set its. it_id it = i \<longrightarrow> it_frc it = 0" "get_item_by_id i its \<noteq> None" for its
      using that by (induction its) (auto split: if_splits)
    have upd: "\<forall>x \<in> set (upd_item i (\<lambda>_. y) its). it_id x = i \<longrightarrow> it_frc x = 0"
      if "\<forall>it \<in> set its. it_id it = i \<longrightarrow> it_frc it = 0" "it_frc y = 0" for its y
      using that by (induction its) auto
    define its where "its = (if get_item_by_id i items = None then alloc_item i # items else items)"
    have its: "\<forall>it \<in> set its. it_id it = i \<longrightarrow> it_frc it = 0" "get_item_by_id i its \<noteq> None"
      using Cons.prems(2) by (auto simp: alloc_item_def its_def)
    obtain y where y: "add_data t q (the (get_item_by_id i its)) = (False, y)" "it_frc y = 0"
      using Cons.prems(1) frc [OF its] by (simp add: add_data_def Let_def)
    define items' where "items' = (if length q < 4 \<or> i = 0 then items else check_timeouts t (upd_item i (\<lambda>_. y) its))"
    have "nstx_handlepacket t q items = (None, items')"
      using Cons.prems(1) y(1) by (simp add: nstx_handlepacket_def Let_def items'_def flip: its_def)
    moreover have "\<forall>it \<in> set items'. it_id it = i \<longrightarrow> it_frc it = 0"
      using Cons.prems(2) upd [OF its(1) y(2)] by (simp add: check_timeouts_def items'_def)
    ultimately show ?thesis using Cons.IH [of items' ts'] Cons.prems(1) Cons by (simp split: prod.splits)
  qed simp
qed simp

section \<open>Properties\<close>

text \<open>
  C7: a frame that the server cuts into at most 16 fragments, whatever room each answer has,
  is delivered by the client exactly once, byte for byte, whatever the order in which the
  fragments arrive, when no fragment of another frame with the same 12-bit number is waiting.
  Frames whose number is a multiple of 4096 are the exception: every fragment of them is
  ignored.
\<close>

theorem frame_reassembled:
  assumes "dequeue_all ls [\<lparr>s_data = data, s_id = i, s_offset = 0, s_seq = 0\<rparr>] = Some (fs, [])"
    and "length fs \<le> 16" and "get_item_by_id (i mod 4096) items = None"
    and "mset pkts = mset fs" and "length ts = length pkts" and "\<forall>t \<in> set ts. unat t + 30 < 2 ^ 32"
  shows "fst (receive (zip ts pkts) items) = (if i mod 4096 = 0 then [] else [data])"
proof -
  obtain p where p: "fs = map (fragment i (length fs) p) [0..<length fs]"
      "concat (map p [0..<length fs]) = data" "fs \<noteq> []"
    using dequeue_all_fragments [OF assms(1)] by auto
  show ?thesis
    using fragments_reassembled [OF p(1) _ assms(2-6)] p(2,3) by simp
qed

lemma example_drained:
  "dequeue_all [6, 6] [\<lparr>s_data = [1, 2, 3], s_id = 7, s_offset = 0, s_seq = 0\<rparr>] =
     Some ([nstxhdr 0 7 0 @ [1, 2], nstxhdr 1 7 NSTX_LF @ [3]], [])"
  by (simp add: dequeue_senditem_def)

theorem frame_reassembled_witness:
  "fst (receive (zip [1000, 1001] [nstxhdr 1 7 NSTX_LF @ [3], nstxhdr 0 7 0 @ [1, 2]]) []) = [[1, 2, 3]]"
  using frame_reassembled [OF example_drained, of "[]"
      "[nstxhdr 1 7 NSTX_LF @ [3], nstxhdr 0 7 0 @ [1, 2]]" "[1000, 1001]"]
  by (simp add: add_mset_commute)

lemma receive_number_0:
  assumes "\<forall>q \<in> set pkts. hdr_id q = 0"
  shows "fst (receive (zip ts pkts) items) = []"
  using assms
proof (induction pkts arbitrary: ts)
  case (Cons q qs)
  show ?case
  proof (cases ts)
    case (Cons t ts')
    have "nstx_handlepacket t q items = (None, items)" using Cons.prems by (simp add: nstx_handlepacket_def Let_def)
    then show ?thesis using Cons.IH [of ts'] Cons.prems Cons by (simp split: prod.splits)
  qed simp
qed simp

text \<open>
  C36: frames of the client. A frame that the client cuts into at most 16 fragments, the range
  of the sequence number, is delivered by the server in whatever order the queries arrive, with two exceptions: a frame whose length is
  a positive multiple of the payload of a query gets no fragment with the last-fragment flag
  (the test is \<open>l > datalen\<close>, not \<open>l >= datalen\<close>), and a frame whose number is a
  multiple of 4096 arrives with the number 0, which the server drops. Of these nothing is delivered.
\<close>

theorem client_frames_delivered:
  assumes "length (client_fragments m i 0 data) \<le> 16"
    and "get_item_by_id (i mod 4096) items = None" and "\<forall>it \<in> set items. it_id it \<noteq> i mod 4096"
    and "mset pkts = mset (client_fragments m i 0 data)" and "length ts = length pkts"
    and "\<forall>t \<in> set ts. unat t + 30 < 2 ^ 32"
  shows "fst (receive (zip ts pkts) items) =
    (if data \<noteq> [] \<and> length data mod Suc m = 0 \<or> i mod 4096 = 0 then [] else [data])"
proof -
  obtain p n where p: "client_fragments m i 0 data = map (\<lambda>j. nstxhdr j i
       (if Suc j = n \<and> (length data mod Suc m \<noteq> 0 \<or> data = []) then NSTX_LF else 0) @ p j) [0..<n]"
     "0 < n" "concat (map p [0..<n]) = data"
    using client_fragments_shape [of m i 0 data] by auto
  have ids: "hdr_id q = i mod 4096" if "q \<in> set pkts" for q
    using that mset_eq_setD [OF assms(4)] by (auto simp: p(1) hdr_fields)
  consider (zero) "i mod 4096 = 0" | (nolast) "data \<noteq> [] \<and> length data mod Suc m = 0" |
    (whole) "\<not> (data \<noteq> [] \<and> length data mod Suc m = 0)" "i mod 4096 \<noteq> 0" by blast
  then show ?thesis
  proof cases
    case zero then show ?thesis using receive_number_0 [of pkts ts items] ids by simp
  next
    case nolast
    have "hdr_flags q AND NSTX_LF = 0" if "q \<in> set pkts" for q
      using that nolast mset_eq_setD [OF assms(4)] by (auto simp: p(1) hdr_fields)
    then show ?thesis using nolast receive_without_last [of pkts "i mod 4096" items ts] assms(3) ids by simp
  next
    case whole
    then have "client_fragments m i 0 data = map (fragment i n p) [0..<n]"
      unfolding p(1) by (auto simp: fragment_def)
    moreover have "n \<le> 16" using assms(1) p(1) by simp
    ultimately show ?thesis
      using whole assms fragments_reassembled [of "client_fragments m i 0 data" i n p items pkts ts] p(2,3) by auto
  qed
qed

theorem client_frames_delivered_witness:
  "fst (receive (zip [1000, 1001] (client_fragments 1 7 0 [1, 2, 3])) []) = [[1, 2, 3]] \<and>
   fst (receive (zip [1000, 1001] (client_fragments 1 7 0 [1, 2, 3, 4])) []) = []"
proof -
  have len: "length (client_fragments 1 7 0 [1, 2, 3]) = 2" "length (client_fragments 1 7 0 [1, 2, 3, 4]) = 2"
    by (simp_all add: client_fragments.simps)
  then show ?thesis
    using client_frames_delivered [of 1 7 "[1, 2, 3]" "[]" "client_fragments 1 7 0 [1, 2, 3]" "[1000, 1001]"]
      client_frames_delivered [of 1 7 "[1, 2, 3, 4]" "[]" "client_fragments 1 7 0 [1, 2, 3, 4]" "[1000, 1001]"]
    by (simp flip: numeral_2_eq_2)
qed

text \<open>
  The queue of waiting queries keeps at most one entry for an identifier and counts them
  rightly. A new identifier is found afterwards, an identifier that is waiting is not entered
  again; taking out an identifier returns its entry and leaves the others, a negative one
  takes the oldest; and while entries stand in the order of their deadlines, \<open>timeoutqueue\<close>
  takes out exactly the expired ones. A name of more than 256 bytes overflows the entry.
\<close>

theorem waiting_queries:
  assumes "nsqueue_wf q" and "length name \<le> 256"
  shows "(\<exists>q'. queueitem now j (Some name) peer q = Some q' \<and> nsqueue_wf q' \<and>
      finditem j (qhead q') \<noteq> None \<and> (finditem j (qhead q) \<noteq> None \<longrightarrow> q' = q)) \<and>
    (case dequeueitem (uint j) q of (r, q') \<Rightarrow> r = finditem j (qhead q) \<and> nsqueue_wf q' \<and>
      qhead q' = filter (\<lambda>p. q_id p \<noteq> j) (qhead q)) \<and>
    (case dequeueitem (- 1) q of (r, q') \<Rightarrow> nsqueue_wf q' \<and> r = (if qhead q = [] then None else Some (hd (qhead q))) \<and>
      qhead q' = tl (qhead q)) \<and>
    (sorted (map q_timeout (qhead q)) \<longrightarrow> (case timeoutqueue now q of (out, q') \<Rightarrow> nsqueue_wf q' \<and>
      out = filter (\<lambda>p. q_timeout p \<le> now) (qhead q) \<and> qhead q' = filter (\<lambda>p. \<not> q_timeout p \<le> now) (qhead q)))"
proof (intro conjI impI)
  show "\<exists>q'. queueitem now j (Some name) peer q = Some q' \<and> nsqueue_wf q' \<and>
      finditem j (qhead q') \<noteq> None \<and> (finditem j (qhead q) \<noteq> None \<longrightarrow> q' = q)"
    using assms by (auto simp: queueitem_def finditem_None nsqueue_wf_def)
  show "case dequeueitem (uint j) q of (r, q') \<Rightarrow> r = finditem j (qhead q) \<and> nsqueue_wf q' \<and>
      qhead q' = filter (\<lambda>p. q_id p \<noteq> j) (qhead q)"
    by (rule dequeueitem_exact [OF assms(1)])
  show "case dequeueitem (- 1) q of (r, q') \<Rightarrow> nsqueue_wf q' \<and>
      r = (if qhead q = [] then None else Some (hd (qhead q))) \<and> qhead q' = tl (qhead q)"
    using assms by (cases "qhead q") (auto simp: dequeueitem_def nsqueue_wf_def)
  assume "sorted (map q_timeout (qhead q))"
  then show "case timeoutqueue now q of (out, q') \<Rightarrow> nsqueue_wf q' \<and>
      out = filter (\<lambda>p. q_timeout p \<le> now) (qhead q) \<and> qhead q' = filter (\<lambda>p. \<not> q_timeout p \<le> now) (qhead q)"
    using assms sum_length_filter_compl [of "\<lambda>p. q_timeout p \<le> now" "qhead q"]
    by (simp add: timeoutqueue_def expire_sorted nsqueue_wf_def distinct_map_filter)
qed

theorem waiting_queries_witness:
  "case dequeueitem 5 \<lparr>qhead = [\<lparr>q_id = 5, q_timeout = 10, q_name = [], q_peer = Some ''peer''\<rparr>,
       \<lparr>q_id = 6, q_timeout = 12, q_name = [], q_peer = None\<rparr>], qlen = 2, qtimeout = 5\<rparr> of
     (r, q') \<Rightarrow> map_option q_peer r = Some (Some ''peer'') \<and> map q_id (qhead q') = [6]"
  using waiting_queries [of "\<lparr>qhead = [\<lparr>q_id = 5, q_timeout = 10, q_name = [], q_peer = Some ''peer''\<rparr>,
       \<lparr>q_id = 6, q_timeout = 12, q_name = [], q_peer = None\<rparr>], qlen = 2, qtimeout = 5\<rparr>" "[]" 11 5 None]
  by (simp add: nsqueue_wf_def split: prod.splits)

end
