(* ===== verification/Wirefilter.thy ===== *)
theory Wirefilter
  imports Prelude "HOL-Library.Multiset"
begin

text \<open>
  The packet queue and the stream splitting of \<^verbatim>\<open>wirefilter.c\<close>: delayed packets wait in a
  binary heap ordered by the time they are due and a counter, and the two pipes carry packets
  with a length prefix that arrive in arbitrary pieces. Times are milliseconds, the current
  time is an argument.
\<close>

section \<open>The queue of delayed packets\<close>

record packpq =
  pq_when :: u64
  pq_counter :: u32
  pq_dir :: nat
  pq_buf :: bytes

definition sentinel :: packpq where
  "sentinel = \<lparr>pq_when = 0, pq_counter = 0, pq_dir = 0, pq_buf = []\<rparr>"

definition PQCHUNK :: nat where "PQCHUNK = 100"

text \<open>
  \<open>pqh\<close> is the part of the array in use, the sentinel and the \<open>npq\<close> packets (\<open>NULL\<close> is the empty
  list), \<open>maxpq\<close> the number of slots allocated.
\<close>

record wirequeue =
  pqh :: "packpq list"
  maxpq :: nat
  maxwhen :: u64
  pq_count :: u32
  delay_bufsize :: "nat \<Rightarrow> int"

definition wirequeue_start :: wirequeue where
  "wirequeue_start = \<lparr>pqh = [], maxpq = 0, maxwhen = 0, pq_count = 0, delay_bufsize = (\<lambda>_. 0)\<rparr>"

definition npq :: "wirequeue \<Rightarrow> nat" where
  "npq s = length (pqh s) - 1"

text \<open>The comparison of the code: earlier, or at the same time with a smaller counter.\<close>

definition pq_less :: "packpq \<Rightarrow> packpq \<Rightarrow> bool" where
  "pq_less a b \<longleftrightarrow> pq_when a < pq_when b \<or> pq_when a = pq_when b \<and> pq_counter a < pq_counter b"

text \<open>
  The loop of \<open>packet_enqueue\<close>. Nothing is smaller than the sentinel in slot 0, so the loop ends
  at slot 1 at the latest.
\<close>

function sift_up :: "packpq \<Rightarrow> nat \<Rightarrow> packpq list \<Rightarrow> packpq list" where
  "sift_up new k h =
     (if k \<noteq> 0 \<and> pq_less new (h ! (k div 2)) then sift_up new (k div 2) (h[k := h ! (k div 2)])
      else h[k := new])"
  by pat_completeness auto
termination by (relation "measure (\<lambda>(new, k, h). k)") auto

text \<open>The loop of \<open>packet_dequeue\<close> that rebuilds the heap.\<close>

function sift_down :: "packpq \<Rightarrow> nat \<Rightarrow> packpq list \<Rightarrow> packpq list" where
  "sift_down old k h =
     (let n = length h - 1
      in if k = 0 then h
         else if k \<le> n div 2
         then let j = (if 2 * k < n \<and> pq_less (h ! (2 * k + 1)) (h ! (2 * k)) then 2 * k + 1 else 2 * k)
              in if pq_less old (h ! j) then h[k := old] else sift_down old j (h[k := h ! j])
         else h[k := old])"
  by pat_completeness auto
termination by (relation "measure (\<lambda>(old, k, h). length h - k)") (auto simp: Let_def)

declare sift_up.simps [simp del] sift_down.simps [simp del]

definition heap_insert :: "packpq \<Rightarrow> packpq list \<Rightarrow> packpq list" where
  "heap_insert new h = sift_up new (length h) (h @ [new])"

text \<open>
  \<open>packet_enqueue\<close>: the time it is due, the counter that keeps the order of packets due at the
  same time, room for the pointer, and the heap. \<open>None\<close>: the slot lies behind the array.
\<close>

definition pq_stamp :: "bool \<Rightarrow> u64 \<Rightarrow> wirequeue \<Rightarrow> u64 \<times> u64 \<times> u32" where
  "pq_stamp nofifo when s =
     (let (mw, c) = (if when > maxwhen s then (when, 0) else (maxwhen s, pq_count s))
      in if \<not> nofifo \<and> when \<le> mw then (mw, mw, c + 1) else (when, mw, c))"

definition packet_enqueue :: "bool \<Rightarrow> u64 \<Rightarrow> nat \<Rightarrow> bytes \<Rightarrow> int \<Rightarrow> wirequeue \<Rightarrow> wirequeue option" where
  "packet_enqueue nofifo now dir buf delms s =
     (case pq_stamp nofifo (now + word_of_int delms) s of (when, mw, c) \<Rightarrow>
        let new = \<lparr>pq_when = when, pq_counter = c, pq_dir = dir, pq_buf = buf\<rparr>;
            h = (if pqh s = [] then [sentinel] else pqh s);
            m0 = (if pqh s = [] then PQCHUNK else maxpq s);
            m = (if npq s \<ge> m0 then m0 + PQCHUNK else m0);
            k = npq s + 1
        in if k < m
           then Some \<lparr>pqh = heap_insert new h, maxpq = m, maxwhen = mw, pq_count = c,
                  delay_bufsize = (delay_bufsize s)(dir := delay_bufsize s dir + int (length buf))\<rparr>
           else None)"

text \<open>\<open>packet_dequeue\<close>: the packets written, in order, and the queue.\<close>

definition heap_delete :: "packpq list \<Rightarrow> packpq list" where
  "heap_delete h = (let old = last h; g = butlast h in if length g = 1 then g else sift_down old 1 g)"

definition dequeue_root :: "wirequeue \<Rightarrow> wirequeue" where
  "dequeue_root s =
     (let root = pqh s ! 1
      in s\<lparr>pqh := heap_delete (pqh s),
           delay_bufsize := (delay_bufsize s)(pq_dir root := delay_bufsize s (pq_dir root) - int (length (pq_buf root)))\<rparr>)"

lemma length_sift_down [simp]: "length (sift_down old k h) = length h"
  by (induction old k h rule: sift_down.induct) (subst sift_down.simps, simp add: Let_def)

lemma npq_dequeue_root: "0 < npq s \<Longrightarrow> npq (dequeue_root s) = npq s - 1"
  by (simp add: npq_def dequeue_root_def heap_delete_def Let_def)

function packet_dequeue :: "u64 \<Rightarrow> wirequeue \<Rightarrow> packpq list \<times> wirequeue" where
  "packet_dequeue now s =
     (if 0 < npq s \<and> pq_when (pqh s ! 1) \<le> now
      then (case packet_dequeue now (dequeue_root s) of (out, s') \<Rightarrow> (pqh s ! 1 # out, s'))
      else ([], s))"
  by pat_completeness auto
termination by (relation "measure (\<lambda>(now, s). npq s)") (auto simp: npq_dequeue_root)

declare packet_dequeue.simps [simp del]

definition nextms :: "u64 \<Rightarrow> wirequeue \<Rightarrow> u64" where
  "nextms now s =
     (if 0 < npq s then (if pq_when (pqh s ! 1) > now then pq_when (pqh s ! 1) - now else 0) else - 1)"

section \<open>The heap order\<close>

definition key :: "packpq \<Rightarrow> nat" where
  "key p = unat (pq_when p) * 2 ^ 32 + unat (pq_counter p)"

lemma lex_less_iff:
  assumes "c < N" and "d < (N :: nat)"
  shows "x * N + c < y * N + d \<longleftrightarrow> x < y \<or> x = y \<and> c < d"
proof -
  have less: "u * N + e < v * N + f" if "u < v" "e < N" for u v e f
    using mult_le_mono1 [of "Suc u" v N] that by simp
  show ?thesis
    using less [of x y c d] less [of y x d c] assms by (cases x y rule: linorder_cases) auto
qed

lemma pq_less_key: "pq_less a b \<longleftrightarrow> key a < key b"
proof -
  have "unat (pq_counter x) < 2 ^ LENGTH(32)" for x by (rule unsigned_less)
  then have "unat (pq_counter x) < 2 ^ 32" for x by simp
  from lex_less_iff [OF this this, of "unat (pq_when a)" a "unat (pq_when b)" b] show ?thesis
    by (simp add: pq_less_def key_def word_less_nat_alt word_unat_eq_iff)
qed

definition heap_ok :: "packpq list \<Rightarrow> bool" where
  "heap_ok h \<longleftrightarrow> (\<forall>k. 2 \<le> k \<longrightarrow> k < length h \<longrightarrow> key (h ! (k div 2)) \<le> key (h ! k))"

text \<open>Sifting up: the order holds but for the hole at \<open>k\<close>, whose subtrees are above \<open>new\<close>.\<close>

definition up_inv :: "packpq \<Rightarrow> nat \<Rightarrow> packpq list \<Rightarrow> bool" where
  "up_inv new k h \<longleftrightarrow> 1 \<le> k \<and> k < length h \<and> h ! 0 = sentinel \<and>
     (\<forall>j. 2 \<le> j \<longrightarrow> j < length h \<longrightarrow> j \<noteq> k \<longrightarrow> j div 2 \<noteq> k \<longrightarrow> key (h ! (j div 2)) \<le> key (h ! j)) \<and>
     (\<forall>j < length h. j div 2 = k \<longrightarrow> key new \<le> key (h ! j) \<and> (2 \<le> k \<longrightarrow> key (h ! (k div 2)) \<le> key (h ! j)))"

lemma key_sentinel [simp]: "key sentinel = 0"
  by (simp add: key_def sentinel_def)

lemma mset_move:
  assumes "k < length h" and "j < length h" and "j \<noteq> k"
  shows "mset (h[k := h ! j, j := x]) = mset (h[k := x])"
  using mset_swap [of j "h[k := x]" k] assms by (simp add: list_update_swap)

lemma up_step:
  assumes inv: "up_inv new k h" and less: "key new < key (h ! (k div 2))"
  shows "up_inv new (k div 2) (h[k := h ! (k div 2)])"
proof -
  have k: "2 \<le> k" using inv less by (cases "k = 1") (auto simp: up_inv_def)
  let ?h = "h[k := h ! (k div 2)]"
  have "key (?h ! (j div 2)) \<le> key (?h ! j)"
    if "2 \<le> j" "j < length h" "j \<noteq> k div 2" "j div 2 \<noteq> k div 2" for j
    using that inv k by (cases "j div 2 = k") (auto simp: up_inv_def nth_list_update)
  moreover have "key new \<le> key (?h ! j) \<and> (2 \<le> k div 2 \<longrightarrow> key (?h ! (k div 2 div 2)) \<le> key (?h ! j))"
    if "j < length h" "j div 2 = k div 2" for j
  proof -
    have par: "2 \<le> k div 2 \<Longrightarrow> key (h ! (k div 2 div 2)) \<le> key (h ! (k div 2))"
      using inv k by (auto simp: up_inv_def)
    show ?thesis
    proof (cases "j = k")
      case True
      then show ?thesis using less par k inv by (auto simp: up_inv_def nth_list_update)
    next
      case False
      moreover have "2 \<le> j" using that k by (cases j; cases "j = 1") auto
      ultimately have "key (h ! (k div 2)) \<le> key (h ! j)"
        using inv that k unfolding up_inv_def by force
      then show ?thesis using False less par k by (auto simp: nth_list_update)
    qed
  qed
  ultimately show ?thesis using inv k by (auto simp: up_inv_def)
qed

lemma sift_up_heap:
  assumes "up_inv new k h"
  shows "heap_ok (sift_up new k h) \<and> mset (sift_up new k h) = mset (h[k := new]) \<and> sift_up new k h ! 0 = sentinel"
  using assms
proof (induction new k h rule: sift_up.induct)
  case (1 new k h)
  show ?case
  proof (cases "pq_less new (h ! (k div 2))")
    case True
    have k: "k \<noteq> 0" "k < length h" using 1(2) by (auto simp: up_inv_def)
    have "up_inv new (k div 2) (h[k := h ! (k div 2)])" using up_step [OF 1(2)] True by (simp add: pq_less_key)
    then show ?thesis
      using 1(1) True k mset_move [of k h "k div 2" new] by (subst (1 2 3) sift_up.simps) auto
  next
    case False
    have "heap_ok (h[k := new])"
      using 1(2) False unfolding heap_ok_def up_inv_def pq_less_key
      by (auto simp: nth_list_update)
    then show ?thesis using False 1(2) by (subst (1 2 3) sift_up.simps) (auto simp: up_inv_def nth_list_update)
  qed
qed

text \<open>Sifting down: the hole at \<open>k\<close> is below its parent, which is below its children.\<close>

definition down_inv :: "packpq \<Rightarrow> nat \<Rightarrow> packpq list \<Rightarrow> bool" where
  "down_inv old k h \<longleftrightarrow> 1 \<le> k \<and> k < length h \<and> h ! 0 = sentinel \<and>
     (\<forall>j. 2 \<le> j \<longrightarrow> j < length h \<longrightarrow> j \<noteq> k \<longrightarrow> j div 2 \<noteq> k \<longrightarrow> key (h ! (j div 2)) \<le> key (h ! j)) \<and>
     (2 \<le> k \<longrightarrow> key (h ! (k div 2)) \<le> key old \<and>
        (\<forall>j < length h. j div 2 = k \<longrightarrow> key (h ! (k div 2)) \<le> key (h ! j)))"

lemma down_place:
  assumes "down_inv old k h" and "\<forall>j < length h. j div 2 = k \<longrightarrow> key old \<le> key (h ! j)"
  shows "heap_ok (h[k := old])"
  using assms unfolding down_inv_def heap_ok_def by (auto simp: nth_list_update)

lemma down_step:
  assumes inv: "down_inv old k h" and j: "j < length h" "j div 2 = k"
    and least: "\<forall>i < length h. i div 2 = k \<longrightarrow> key (h ! j) \<le> key (h ! i)" and "key (h ! j) \<le> key old"
  shows "down_inv old j (h[k := h ! j])"
proof -
  have jk: "1 \<le> k" "k < j" "2 \<le> j" using inv j by (auto simp: down_inv_def)
  let ?h = "h[k := h ! j]"
  have "key (?h ! (i div 2)) \<le> key (?h ! i)" if "2 \<le> i" "i < length h" "i \<noteq> j" "i div 2 \<noteq> j" for i
  proof -
    consider "i = k" | "i div 2 = k" "i \<noteq> k" | "i \<noteq> k" "i div 2 \<noteq> k" by blast
    then show ?thesis
    proof cases
      case 1
      then show ?thesis using inv j that jk by (auto simp: down_inv_def nth_list_update)
    next
      case 2
      then show ?thesis using least that jk j by (auto simp: nth_list_update)
    next
      case 3
      then show ?thesis using inv that by (auto simp: down_inv_def nth_list_update)
    qed
  qed
  moreover have "key (h ! j) \<le> key (?h ! i)" if "i < length h" "i div 2 = j" for i
  proof -
    have "2 \<le> i" "i \<noteq> k" "i div 2 \<noteq> k" using that jk by auto
    then show ?thesis using inv that unfolding down_inv_def by (metis nth_list_update_neq)
  qed
  ultimately show ?thesis using inv j jk assms(5) by (auto simp: down_inv_def nth_list_update)
qed

lemma sift_down_heap:
  assumes "down_inv old k h"
  shows "heap_ok (sift_down old k h) \<and> mset (sift_down old k h) = mset (h[k := old]) \<and> sift_down old k h ! 0 = sentinel"
  using assms
proof (induction old k h rule: sift_down.induct)
  case (1 old k h)
  let ?n = "length h - 1"
  let ?j = "if 2 * k < ?n \<and> pq_less (h ! (2 * k + 1)) (h ! (2 * k)) then 2 * k + 1 else 2 * k"
  have k: "1 \<le> k" "k < length h" "h ! 0 = sentinel" using 1(2) by (auto simp: down_inv_def)
  have place: "heap_ok (h[k := old]) \<Longrightarrow> ?case" if "sift_down old k h = h[k := old]"
    using that k by (auto simp: nth_list_update)
  show ?case
  proof (cases "k \<le> ?n div 2")
    case False
    then have "\<forall>j < length h. j div 2 \<noteq> k" by auto
    then show ?thesis
      using False k 1(2) by (intro place down_place) (auto simp: sift_down.simps [of old k h] Let_def)
  next
    case True
    define j where "j = ?j"
    have j: "j < length h" "j div 2 = k" "j \<noteq> k" using True k by (auto simp: j_def)
    have least: "key (h ! j) \<le> key (h ! i)" if "i < length h" "i div 2 = k" for i
    proof -
      have "i = 2 * k \<or> i = 2 * k + 1 \<and> 2 * k < ?n" using that by linarith
      then show ?thesis by (auto simp: j_def pq_less_key)
    qed
    show ?thesis
    proof (cases "pq_less old (h ! j)")
      case less: True
      have "key old \<le> key (h ! i)" if "i < length h" "i div 2 = k" for i
        using least [OF that] less by (simp add: pq_less_key)
      moreover have "sift_down old k h = h[k := old]"
        using True less k by (subst sift_down.simps) (simp add: Let_def j_def)
      ultimately show ?thesis using 1(2) by (intro place down_place) auto
    next
      case False
      have inv: "down_inv old j (h[k := h ! j])"
        using down_step [OF 1(2) j(1,2)] least False by (simp add: pq_less_key)
      have eq: "sift_down old k h = sift_down old j (h[k := h ! j])"
        using True False k by (subst sift_down.simps) (simp add: Let_def j_def)
      have "k \<noteq> 0" using k by simp
      from 1(1) [OF refl this True j_def False] inv show ?thesis
        unfolding eq using mset_move [of k h j old] k j by simp
    qed
  qed
qed

section \<open>The queue as a priority queue\<close>

text \<open>
  What the users of the queue rely on: inserting adds one element, the root is an element of
  least rank, deleting the root removes just that.
\<close>

locale delay_queue =
  fixes insert :: "'a \<Rightarrow> 'q \<Rightarrow> 'q" and root :: "'q \<Rightarrow> 'a" and delete :: "'q \<Rightarrow> 'q"
    and elems :: "'q \<Rightarrow> 'a multiset" and ok :: "'q \<Rightarrow> bool" and rank :: "'a \<Rightarrow> nat"
  assumes ok_insert: "ok q \<Longrightarrow> ok (insert x q)"
    and elems_insert: "ok q \<Longrightarrow> elems (insert x q) = add_mset x (elems q)"
    and ok_delete: "ok q \<Longrightarrow> elems q \<noteq> {#} \<Longrightarrow> ok (delete q)"
    and elems_delete: "ok q \<Longrightarrow> elems q \<noteq> {#} \<Longrightarrow> elems (delete q) = elems q - {#root q#}"
    and root_in: "ok q \<Longrightarrow> elems q \<noteq> {#} \<Longrightarrow> root q \<in># elems q"
    and root_least: "ok q \<Longrightarrow> x \<in># elems q \<Longrightarrow> rank (root q) \<le> rank x"
begin

text \<open>With distinct ranks the elements leave in the order of their ranks.\<close>

lemma root_hd:
  assumes "ok q" and "elems q = mset (x # xs)" and "sorted_wrt (\<lambda>a b. rank a < rank b) (x # xs)"
  shows "root q = x" and "elems (delete q) = mset xs" and "ok (delete q)"
proof -
  have ne: "elems q \<noteq> {#}" using assms(2) by simp
  have "root q \<in> set (x # xs)" using root_in [OF assms(1) ne] assms(2) by (metis set_mset_mset)
  moreover have "rank (root q) \<le> rank x" using root_least [OF assms(1), of x] assms(2) by simp
  ultimately show root: "root q = x" using assms(3) by auto
  show "elems (delete q) = mset xs" using elems_delete [OF assms(1) ne] root assms(2) by simp
  show "ok (delete q)" using ok_delete [OF assms(1) ne] .
qed

end

definition heap_good :: "packpq list \<Rightarrow> bool" where
  "heap_good h \<longleftrightarrow> h \<noteq> [] \<and> h ! 0 = sentinel \<and> heap_ok h"

definition heap_elems :: "packpq list \<Rightarrow> packpq multiset" where
  "heap_elems h = mset (tl h)"

lemma mset_tl_nth: "h \<noteq> [] \<Longrightarrow> mset (tl h) = mset h - {#h ! 0#}"
  by (cases h) auto

lemma heap_root_least: "heap_ok h \<Longrightarrow> 1 \<le> k \<Longrightarrow> k < length h \<Longrightarrow> key (h ! 1) \<le> key (h ! k)"
proof (induction k rule: less_induct)
  case (less k)
  show ?case
  proof (cases "k = 1")
    case False
    then have "key (h ! 1) \<le> key (h ! (k div 2))" using less by (intro less.IH) auto
    also have "\<dots> \<le> key (h ! k)" using less False by (auto simp: heap_ok_def)
    finally show ?thesis .
  qed simp
qed

lemma heap_insert_good:
  assumes "heap_good h"
  shows "heap_good (heap_insert p h) \<and> heap_elems (heap_insert p h) = add_mset p (heap_elems h)"
proof -
  have "up_inv p (length h) (h @ [p])"
    using assms unfolding heap_good_def heap_ok_def up_inv_def by (auto simp: nth_append Suc_le_eq)
  from sift_up_heap [OF this]
  have i: "heap_ok (heap_insert p h)" "mset (heap_insert p h) = add_mset p (mset h)" "heap_insert p h ! 0 = sentinel"
    by (simp_all add: heap_insert_def)
  have ne: "heap_insert p h \<noteq> []" using i(2) by auto
  moreover have "sentinel \<in># mset h" using assms by (auto simp: heap_good_def in_set_conv_nth)
  ultimately show ?thesis
    using i assms by (simp add: heap_good_def heap_elems_def mset_tl_nth)
qed

lemma heap_delete_good:
  assumes "heap_good h" and "heap_elems h \<noteq> {#}"
  shows "heap_good (heap_delete h) \<and> heap_elems (heap_delete h) = heap_elems h - {#h ! 1#}"
proof -
  obtain r rest where h: "h = sentinel # r # rest"
    using assms by (cases h; cases "tl h") (auto simp: heap_good_def heap_elems_def)
  show ?thesis
  proof (cases "rest = []")
    case True
    then show ?thesis by (simp add: h heap_delete_def heap_good_def heap_elems_def heap_ok_def)
  next
    case False
    define g where "g = sentinel # r # butlast rest"
    have h': "h = g @ [last rest]" using False by (simp add: h g_def)
    have ok: "key (g ! (k div 2)) \<le> key (g ! k)" if "2 \<le> k" "k < length g" for k
    proof -
      have "key (h ! (k div 2)) \<le> key (h ! k)"
        using assms(1) that by (simp add: heap_good_def heap_ok_def h')
      moreover have "k div 2 < length g" using that by linarith
      ultimately show ?thesis using that by (simp add: h' nth_append)
    qed
    have "1 < length g" "g ! 0 = sentinel" by (simp_all add: g_def)
    then have "down_inv (last rest) 1 g" using ok by (auto simp: down_inv_def)
    from sift_down_heap [OF this]
    have d: "heap_ok (sift_down (last rest) 1 g)" "mset (sift_down (last rest) 1 g) = mset (g[1 := last rest])"
      "sift_down (last rest) 1 g ! 0 = sentinel" by simp_all
    have del: "heap_delete h = sift_down (last rest) 1 g"
      using False by (simp add: heap_delete_def Let_def h g_def)
    have rest: "mset rest = add_mset (last rest) (mset (butlast rest))"
      using False by (metis append_butlast_last_id mset_append mset_single_iff_right union_mset_add_mset_right add.right_neutral mset.simps)
    have ne: "heap_delete h \<noteq> []" by (simp add: del flip: length_greater_0_conv) (simp add: g_def)
    have "mset (heap_delete h) = add_mset sentinel (mset rest)"
      unfolding del d(2) rest by (simp add: g_def)
    then have "heap_elems (heap_delete h) = mset rest"
      using ne d(3) by (simp add: heap_elems_def mset_tl_nth del)
    moreover have "heap_elems h - {#h ! 1#} = mset rest" by (simp add: heap_elems_def h)
    ultimately show ?thesis using ne d(1,3) by (simp add: heap_good_def del)
  qed
qed

interpretation heap: delay_queue heap_insert "\<lambda>h. h ! 1" heap_delete heap_elems heap_good key
proof (unfold_locales, goal_cases)
  case (5 q)
  then show ?case by (cases q; cases "tl q") (auto simp: heap_good_def heap_elems_def)
next
  case (6 q x)
  then obtain k where "k < length (tl q)" "x = tl q ! k" by (auto simp: heap_elems_def in_set_conv_nth)
  then have "Suc k < length q" "x = q ! Suc k" by (auto simp: nth_tl)
  then show ?case using 6(1) heap_root_least [of q "Suc k"] by (simp add: heap_good_def)
qed (simp_all add: heap_insert_good heap_delete_good)

section \<open>First in, first out\<close>

text \<open>The packets in the order they came, while the order of arrival is kept (\<open>nofifo\<close> is off).\<close>

definition stamp_key :: "wirequeue \<Rightarrow> nat" where
  "stamp_key s = unat (maxwhen s) * 2 ^ 32 + unat (pq_count s)"

definition fifo :: "wirequeue \<Rightarrow> packpq list \<Rightarrow> bool" where
  "fifo s q \<longleftrightarrow>
     (if pqh s = [] then q = [] else heap_good (pqh s) \<and> heap_elems (pqh s) = mset q \<and> maxpq s = PQCHUNK) \<and>
     sorted_wrt (\<lambda>a b. key a < key b) q \<and> (\<forall>p \<in> set q. key p \<le> stamp_key s)"

lemma fifo_start: "fifo wirequeue_start []"
  by (simp add: fifo_def wirequeue_start_def)

lemma fifo_npq: "fifo s q \<Longrightarrow> npq s = length q"
proof (cases "pqh s")
  case (Cons x xs)
  assume "fifo s q"
  then have "mset xs = mset q" using Cons by (simp add: fifo_def heap_elems_def)
  then show ?thesis using Cons by (metis diff_Suc_1 length_Cons mset_eq_length npq_def)
qed (simp add: fifo_def npq_def)

lemma pq_stamp_eq:
  "pq_stamp False w s = (if w > maxwhen s then (w, w, 1) else (maxwhen s, maxwhen s, pq_count s + 1))"
  by (auto simp: pq_stamp_def Let_def not_le not_less)

lemma pq_stamp_fifo:
  assumes st: "pq_stamp False w s = (due, mw, c)" and cnt: "pq_count s \<noteq> - 1"
  shows "due = mw" and "w \<le> due" and "stamp_key s < unat mw * 2 ^ 32 + unat c"
proof -
  show "due = mw" and "w \<le> due" using st by (auto simp: pq_stamp_eq split: if_splits)
  show "stamp_key s < unat mw * 2 ^ 32 + unat c"
  proof (cases "w > maxwhen s")
    case True
    have "unat (pq_count s) < 2 ^ LENGTH(32)" by (rule unsigned_less)
    moreover have "Suc (unat (maxwhen s)) * 2 ^ 32 \<le> unat w * 2 ^ 32"
      using True by (simp add: word_less_nat_alt)
    moreover have "mw = w" using st True by (auto simp: pq_stamp_eq)
    ultimately show ?thesis by (simp add: stamp_key_def)
  next
    case False
    have "1 + pq_count s \<noteq> 0" using cnt minus_unique [of 1 "pq_count s"] by auto
    then have "unat (pq_count s + 1) = Suc (unat (pq_count s))" using unatSuc [of "pq_count s"] by (simp add: add.commute)
    then show ?thesis using st False by (auto simp: pq_stamp_eq stamp_key_def)
  qed
qed

lemma enqueue_fifo:
  assumes q: "fifo s q" and room: "length q < 99" and cnt: "pq_count s \<noteq> - 1"
  shows "\<exists>s' p. packet_enqueue False now dir buf delms s = Some s' \<and> fifo s' (q @ [p]) \<and>
    pq_dir p = dir \<and> pq_buf p = buf \<and> now + word_of_int delms \<le> pq_when p"
proof -
  obtain due mw c where st: "pq_stamp False (now + word_of_int delms) s = (due, mw, c)"
    by (metis prod_cases3)
  note key_facts = pq_stamp_fifo [OF st cnt]
  define p where "p = \<lparr>pq_when = due, pq_counter = c, pq_dir = dir, pq_buf = buf\<rparr>"
  define h where "h = (if pqh s = [] then [sentinel] else pqh s)"
  have h: "heap_good h" "heap_elems h = mset q"
    using q by (auto simp: fifo_def h_def heap_good_def heap_ok_def heap_elems_def)
  have cap: "(if pqh s = [] then PQCHUNK else maxpq s) = 100"
    using q by (auto simp: fifo_def PQCHUNK_def split: if_splits)
  have "npq s = length q" using fifo_npq [OF q] .
  then have "packet_enqueue False now dir buf delms s = Some \<lparr>pqh = heap_insert p h, maxpq = 100, maxwhen = mw,
      pq_count = c, delay_bufsize = (delay_bufsize s)(dir := delay_bufsize s dir + int (length buf))\<rparr>"
    using room by (simp add: packet_enqueue_def st cap Let_def flip: p_def h_def)
  then obtain s' where s': "packet_enqueue False now dir buf delms s = Some s'" "pqh s' = heap_insert p h"
      "maxpq s' = PQCHUNK" "maxwhen s' = mw" "pq_count s' = c"
    by (simp add: PQCHUNK_def)
  have kp: "key p = stamp_key s'" using key_facts(1) by (simp add: key_def p_def stamp_key_def s')
  have lt: "key x < key p" if "x \<in> set q" for x
    using that q key_facts(3) by (fastforce simp: fifo_def kp stamp_key_def s')
  then have "fifo s' (q @ [p])"
    using q heap.ok_insert [OF h(1), of p] heap.elems_insert [OF h(1), of p] h(2) kp s'
    by (auto simp: fifo_def sorted_wrt_append heap_good_def intro: less_imp_le)
  moreover have "pq_dir p = dir" "pq_buf p = buf" "now + word_of_int delms \<le> pq_when p"
    using key_facts(2) by (simp_all add: p_def)
  ultimately show ?thesis using s'(1) by blast
qed

lemma dequeue_fifo:
  "fifo s q \<Longrightarrow> \<exists>s'. packet_dequeue now s = (takeWhile (\<lambda>p. pq_when p \<le> now) q, s') \<and>
     fifo s' (dropWhile (\<lambda>p. pq_when p \<le> now) q)"
proof (induction q arbitrary: s)
  case Nil
  then show ?case using fifo_npq [OF Nil] by (auto simp: packet_dequeue.simps [of now s])
next
  case (Cons p q)
  have ne: "pqh s \<noteq> []" and h: "heap_good (pqh s)" "heap_elems (pqh s) = mset (p # q)"
    and srt: "sorted_wrt (\<lambda>a b. key a < key b) (p # q)"
    using Cons.prems by (auto simp: fifo_def split: if_splits)
  note root = heap.root_hd [OF h srt]
  show ?case
  proof (cases "pq_when p \<le> now")
    case False
    then show ?thesis using Cons.prems root(1) by (auto simp: packet_dequeue.simps [of now s])
  next
    case True
    have "fifo (dequeue_root s) q"
      using Cons.prems root ne by (auto simp: fifo_def dequeue_root_def heap_good_def stamp_key_def Let_def split: if_splits)
    from Cons.IH [OF this] obtain s' where "packet_dequeue now (dequeue_root s) =
        (takeWhile (\<lambda>p. pq_when p \<le> now) q, s')" "fifo s' (dropWhile (\<lambda>p. pq_when p \<le> now) q)" by blast
    then show ?thesis
      using True root(1) fifo_npq [OF Cons.prems] by (auto simp: packet_dequeue.simps [of now s])
  qed
qed

text \<open>
  C13: the queue of delayed packets keeps the order of arrival on each wire. Unless \<open>nofifo\<close> is
  set, a packet is queued behind all the waiting ones and due no earlier than asked for; a
  call of \<open>packet_dequeue\<close> writes exactly the packets that are due up to the first that is not,
  in the order of their arrival, and \<open>nextms\<close> is the time until the oldest packet is due. This
  holds for at most 99 waiting packets: the slot of the hundredth lies behind the end of the
  array, because the test before it is enlarged forgets the slot of the sentinel.
\<close>

theorem delayed_packets_fifo:
  assumes "fifo s q" and "pq_count s \<noteq> - 1"
  shows "(length q < 99 \<longrightarrow> (\<exists>s' p. packet_enqueue False now dir buf delms s = Some s' \<and> fifo s' (q @ [p]) \<and>
       pq_dir p = dir \<and> pq_buf p = buf \<and> now + word_of_int delms \<le> pq_when p)) \<and>
    (length q = 99 \<longrightarrow> packet_enqueue False now dir buf delms s = None) \<and>
    (\<exists>s'. packet_dequeue now s = (takeWhile (\<lambda>p. pq_when p \<le> now) q, s') \<and>
       fifo s' (dropWhile (\<lambda>p. pq_when p \<le> now) q)) \<and>
    (q \<noteq> [] \<longrightarrow> nextms now s = (if pq_when (hd q) > now then pq_when (hd q) - now else 0))"
proof (intro conjI impI)
  show "length q < 99 \<Longrightarrow> \<exists>s' p. packet_enqueue False now dir buf delms s = Some s' \<and> fifo s' (q @ [p]) \<and>
       pq_dir p = dir \<and> pq_buf p = buf \<and> now + word_of_int delms \<le> pq_when p"
    by (rule enqueue_fifo [OF assms(1) _ assms(2)])
  show "packet_enqueue False now dir buf delms s = None" if "length q = 99"
    using assms(1) that fifo_npq [OF assms(1)]
    by (auto simp: packet_enqueue_def fifo_def PQCHUNK_def Let_def split: if_splits prod.splits)
  show "\<exists>s'. packet_dequeue now s = (takeWhile (\<lambda>p. pq_when p \<le> now) q, s') \<and>
       fifo s' (dropWhile (\<lambda>p. pq_when p \<le> now) q)"
    by (rule dequeue_fifo [OF assms(1)])
  show "nextms now s = (if pq_when (hd q) > now then pq_when (hd q) - now else 0)" if "q \<noteq> []"
  proof -
    have "pqh s ! 1 = hd q"
      using assms(1) that heap.root_hd(1) [of "pqh s" "hd q" "tl q"] by (auto simp: fifo_def split: if_splits)
    then show ?thesis using that fifo_npq [OF assms(1)] by (simp add: nextms_def)
  qed
qed

theorem delayed_packets_fifo_witness:
  "\<exists>s' p. packet_enqueue False 1000 0 [1, 2] 50 wirequeue_start = Some s' \<and> fifo s' [p] \<and> pq_buf p = [1, 2]"
  using delayed_packets_fifo [OF fifo_start, of 1000 0 "[1, 2]" 50]
  by (auto simp: wirequeue_start_def)

section \<open>Splitting the stream of a pipe into packets\<close>

text \<open>
  \<open>splitpacket\<close> cuts the bytes read from a pipe into packets with a length prefix of two bytes.
  A packet that is not complete is collected in \<open>fragment\<close>. The code declares
  \<open>fragment[BUFSIZE][2]\<close>, so \<open>fragment[dir]\<close> starts \<open>2 * dir\<close> bytes into the one area of
  \<open>2 * BUFSIZE\<close> bytes that \<open>fragment\<close> is here; \<open>fragp\<close> is an index into it.
\<close>

definition WF_BUFSIZE :: nat where "WF_BUFSIZE = 2048"

record split =
  fragment :: "nat \<Rightarrow> u8"
  fragp :: "nat \<Rightarrow> nat"
  rnx :: "nat \<Rightarrow> nat"
  remaining :: "nat \<Rightarrow> nat"

definition split_start :: split where
  "split_start = \<lparr>fragment = (\<lambda>_. 0), fragp = (\<lambda>_. 0), rnx = (\<lambda>_. 0), remaining = (\<lambda>_. 0)\<rparr>"

definition fragment_base :: "nat \<Rightarrow> nat" where "fragment_base dir = 2 * dir"

definition memcpy_at :: "(nat \<Rightarrow> u8) \<Rightarrow> nat \<Rightarrow> bytes \<Rightarrow> nat \<Rightarrow> u8" where
  "memcpy_at f p bs = (\<lambda>i. if p \<le> i \<and> i < p + length bs then bs ! (i - p) else f i)"

definition be16 :: "u8 \<Rightarrow> u8 \<Rightarrow> nat" where "be16 a b = unat a * 256 + unat b"

text \<open>
  The packets handed to \<open>handle_packet\<close>, with their direction. \<open>SplitFault\<close> is a read behind the
  buffer or a write behind \<open>fragment\<close>, \<open>SplitExit\<close> the end of the program at the end of the pipe.
\<close>

datatype split_result = SplitFault | SplitExit | Packets "(nat \<times> bytes) list" split

text \<open>
  The loop. \<open>buf\<close> is the buffer from the pointer to its end, \<open>size\<close> the number of bytes left of
  those read: the second byte of the length is read even when only the first one has come.
\<close>

function split_loop :: "bytes \<Rightarrow> int \<Rightarrow> nat \<Rightarrow> split \<Rightarrow> split_result" where
  "split_loop buf sz dir s =
     (if sz \<le> 0 then Packets [] s
      else if length buf < 2 then SplitFault
      else let n = be16 (buf ! 0) (buf ! 1)
           in if n > 1521 then Packets [] (s\<lparr>rnx := (rnx s)(dir := 0)\<rparr>)
              else if int (n + 2) > sz
              then let p = fragment_base dir
                   in if p + nat sz > 2 * WF_BUFSIZE \<or> nat sz > length buf then SplitFault
                      else Packets [] (s\<lparr>fragment := memcpy_at (fragment s) p (take (nat sz) buf),
                             fragp := (fragp s)(dir := p + nat sz), rnx := (rnx s)(dir := n),
                             remaining := (remaining s)(dir := n + 2 - nat sz)\<rparr>)
              else if n + 2 > length buf then SplitFault
              else (case split_loop (drop (n + 2) buf) (sz - int (n + 2)) dir (s\<lparr>rnx := (rnx s)(dir := 0)\<rparr>) of
                      Packets ps s' \<Rightarrow> Packets ((dir, take (n + 2) buf) # ps) s'
                    | r \<Rightarrow> r))"
  by pat_completeness auto
termination by (relation "measure (\<lambda>(buf, sz, dir, s). nat sz)") auto

declare split_loop.simps [simp del]

text \<open>
  \<open>amount\<close> is the smaller of an unsigned and a signed number, compared as unsigned ones: a
  negative \<open>size\<close>, from a read that failed, is larger than \<open>remaining\<close>.
\<close>

definition splitpacket :: "bytes \<Rightarrow> int \<Rightarrow> nat \<Rightarrow> split \<Rightarrow> split_result" where
  "splitpacket buf sz dir s =
     (if sz = 0 then Packets [] s
      else if rnx s dir > 0
      then let amount = (if sz < 0 then remaining s dir else min (remaining s dir) (nat sz));
               f = memcpy_at (fragment s) (fragp s dir) (take amount buf);
               s' = s\<lparr>fragment := f, fragp := (fragp s)(dir := fragp s dir + amount),
                      remaining := (remaining s)(dir := remaining s dir - amount)\<rparr>
           in if amount > length buf \<or> fragp s dir + amount > 2 * WF_BUFSIZE then SplitFault
              else if remaining s' dir = 0
              then (let p = fragment_base dir; packet = map f [p..<p + (rnx s dir + 2)]
                    in case split_loop (drop amount buf) (sz - int amount) dir (s'\<lparr>rnx := (rnx s)(dir := 0)\<rparr>) of
                         Packets ps s'' \<Rightarrow> Packets ((dir, packet) # ps) s''
                       | r \<Rightarrow> r)
              else split_loop (drop amount buf) (sz - int amount) dir s'
      else split_loop buf sz dir s)"

text \<open>
  \<open>packet_in\<close>: a packet from a switch (\<open>plug\<close>) is given its length prefix, what comes from a pipe
  is split. \<open>n\<close> is the result of \<open>vde_recv\<close> or \<open>read\<close> and \<open>buf\<close> the buffer, all \<open>BUFSIZE\<close> bytes of
  it, after the call (for a switch, behind the prefix).
\<close>

definition packet_in :: "bool \<Rightarrow> nat \<Rightarrow> int \<Rightarrow> bytes \<Rightarrow> split \<Rightarrow> split_result" where
  "packet_in plug dir n buf s =
     (if plug then Packets [(dir, take (nat (n + 2)) ([word_of_int (n div 256), word_of_int n] @ buf))] s
      else if n = 0 then SplitExit
      else splitpacket buf n dir s)"

text \<open>
  The reference: the packets of a stream of bytes and the bytes that are left over.
\<close>

function frames :: "bytes \<Rightarrow> bytes list \<times> bytes" where
  "frames bs =
     (if length bs < 2 then ([], bs)
      else let n = be16 (bs ! 0) (bs ! 1)
           in if length bs < n + 2 then ([], bs)
              else (case frames (drop (n + 2) bs) of (fs, r) \<Rightarrow> (take (n + 2) bs # fs, r)))"
  by pat_completeness auto
termination by (relation "measure length") auto

declare frames.simps [simp del]

definition wf_frame :: "bytes \<Rightarrow> bytes" where
  "wf_frame p = [word_of_nat (length p div 256), word_of_nat (length p)] @ p"

text \<open>A stream whose packets have lengths the code accepts.\<close>

inductive frames_ok :: "bytes \<Rightarrow> bool" where
  short: "length bs < 2 \<Longrightarrow> frames_ok bs"
| open_frame: "be16 (bs ! 0) (bs ! 1) \<le> 1521 \<Longrightarrow> length bs < be16 (bs ! 0) (bs ! 1) + 2 \<Longrightarrow> frames_ok bs"
| frame: "be16 (bs ! 0) (bs ! 1) = n \<Longrightarrow> n \<le> 1521 \<Longrightarrow> n + 2 \<le> length bs \<Longrightarrow> frames_ok (drop (n + 2) bs) \<Longrightarrow>
    frames_ok bs"

lemma frames_ok_split:
  assumes "frames_ok bs" and "2 \<le> length bs"
  shows "be16 (bs ! 0) (bs ! 1) \<le> 1521"
    and "be16 (bs ! 0) (bs ! 1) + 2 \<le> length bs \<Longrightarrow> frames_ok (drop (be16 (bs ! 0) (bs ! 1) + 2) bs)"
  using assms by (auto elim: frames_ok.cases)

lemma frames_short [simp]: "length bs < 2 \<Longrightarrow> frames bs = ([], bs)"
  by (subst frames.simps) simp

lemma frames_open: "2 \<le> length bs \<Longrightarrow> length bs < be16 (bs ! 0) (bs ! 1) + 2 \<Longrightarrow> frames bs = ([], bs)"
  by (subst frames.simps) (simp add: Let_def)

lemma frames_frame:
  "be16 (bs ! 0) (bs ! 1) = n \<Longrightarrow> n + 2 \<le> length bs \<Longrightarrow>
   frames bs = (take (n + 2) bs # fst (frames (drop (n + 2) bs)), snd (frames (drop (n + 2) bs)))"
  by (subst frames.simps) (simp add: Let_def split_beta)

lemma frames_append:
  "frames (a @ b) = (fst (frames a) @ fst (frames (snd (frames a) @ b)), snd (frames (snd (frames a) @ b)))"
proof (induction a rule: frames.induct)
  case (1 a)
  define n where "n = be16 (a ! 0) (a ! 1)"
  show ?case
  proof (cases "2 \<le> length a \<and> n + 2 \<le> length a")
    case True
    then have a: "frames a = (take (n + 2) a # fst (frames (drop (n + 2) a)), snd (frames (drop (n + 2) a)))"
      by (intro frames_frame) (auto simp: n_def)
    have "frames (a @ b) = (take (n + 2) (a @ b) # fst (frames (drop (n + 2) (a @ b))), snd (frames (drop (n + 2) (a @ b))))"
      using True by (intro frames_frame) (auto simp: n_def nth_append)
    moreover have "frames (drop (n + 2) a @ b) = (fst (frames (drop (n + 2) a)) @ fst (frames (snd (frames (drop (n + 2) a)) @ b)),
        snd (frames (snd (frames (drop (n + 2) a)) @ b)))"
      using True by (intro 1) (auto simp: n_def)
    ultimately show ?thesis using True a by simp
  next
    case False
    then have "frames a = ([], a)" using frames_open [of a] by (cases "length a < 2") (auto simp: n_def)
    then show ?thesis by simp
  qed
qed

lemma frames_ok_append: "frames_ok (a @ b) \<Longrightarrow> frames_ok (snd (frames a) @ b)"
proof (induction a rule: frames.induct)
  case (1 a)
  define n where "n = be16 (a ! 0) (a ! 1)"
  show ?case
  proof (cases "2 \<le> length a \<and> n + 2 \<le> length a")
    case True
    then have a: "frames a = (take (n + 2) a # fst (frames (drop (n + 2) a)), snd (frames (drop (n + 2) a)))"
      by (intro frames_frame) (auto simp: n_def)
    have "be16 ((a @ b) ! 0) ((a @ b) ! 1) = n" using True by (auto simp: n_def nth_append)
    then have "frames_ok (drop (n + 2) a @ b)"
      using frames_ok_split(2) [OF 1(2)] True by (simp del: nth_append_length_plus)
    then show ?thesis using 1(1) True a by (auto simp: n_def)
  next
    case False
    then have "frames a = ([], a)" using frames_open [of a] by (cases "length a < 2") (auto simp: n_def)
    then show ?thesis using 1(2) by simp
  qed
qed

lemma frames_ok_prefix: "frames_ok (a @ b) \<Longrightarrow> frames_ok a"
proof (induction a rule: frames.induct)
  case (1 a)
  define n where "n = be16 (a ! 0) (a ! 1)"
  show ?case
  proof (cases "length a < 2")
    case True then show ?thesis by (rule frames_ok.short)
  next
    case False
    then have n: "be16 ((a @ b) ! 0) ((a @ b) ! 1) = n" by (auto simp: n_def nth_append)
    have le: "n \<le> 1521" using frames_ok_split(1) [OF 1(2)] False n by simp
    show ?thesis
    proof (cases "length a < n + 2")
      case True then show ?thesis using le by (intro frames_ok.open_frame) (auto simp: n_def)
    next
      case full: False
      then have "frames_ok (drop (n + 2) a @ b)" using frames_ok_split(2) [OF 1(2)] False n by simp
      then have "frames_ok (drop (n + 2) a)" using 1(1) False full by (simp add: n_def)
      then show ?thesis using le full by (intro frames_ok.frame [of a n]) (auto simp: n_def)
    qed
  qed
qed

lemma be16_length: "length p < 65536 \<Longrightarrow> be16 (word_of_nat (length p div 256)) (word_of_nat (length p)) = length p"
  by (simp add: be16_def unat_of_nat)

lemma frames_of_frames:
  assumes "\<forall>p \<in> set ps. length p \<le> 1521"
  shows "frames (concat (map wf_frame ps)) = (map wf_frame ps, [])" and "frames_ok (concat (map wf_frame ps))"
proof -
  have "frames (concat (map wf_frame ps)) = (map wf_frame ps, []) \<and> frames_ok (concat (map wf_frame ps))"
    using assms
  proof (induction ps)
    case Nil then show ?case by (simp add: frames_ok.short)
  next
    case (Cons p ps)
    let ?bs = "wf_frame p @ concat (map wf_frame ps)"
    have n: "be16 (?bs ! 0) (?bs ! 1) = length p"
      using Cons.prems be16_length [of p] by (simp add: wf_frame_def)
    have l: "length (wf_frame p) = length p + 2" by (simp add: wf_frame_def)
    have "frames ?bs = (wf_frame p # map wf_frame ps, [])"
      using frames_frame [OF n] l Cons by simp
    moreover have "frames_ok ?bs" using l Cons by (intro frames_ok.frame [OF n]) auto
    ultimately show ?case by simp
  qed
  then show "frames (concat (map wf_frame ps)) = (map wf_frame ps, [])" "frames_ok (concat (map wf_frame ps))" by auto
qed

text \<open>
  \<open>holds s d r\<close>: the direction \<open>d\<close> has collected the bytes \<open>r\<close> of a packet that is not complete.
\<close>

definition holds :: "split \<Rightarrow> nat \<Rightarrow> bytes \<Rightarrow> bool" where
  "holds s d r \<longleftrightarrow>
     (if r = [] then rnx s d = 0
      else 2 \<le> length r \<and> rnx s d = be16 (r ! 0) (r ! 1) \<and> rnx s d \<le> 1521 \<and> length r < rnx s d + 2 \<and>
        remaining s d = rnx s d + 2 - length r \<and> fragp s d = fragment_base d + length r \<and>
        map (fragment s) [fragment_base d..<fragment_base d + length r] = r)"

lemma map_memcpy_at:
  assumes "map f [p..<p + length r] = r"
  shows "map (memcpy_at f (p + length r) bs) [p..<p + (length r + length bs)] = r @ bs"
proof (rule nth_equalityI)
  fix i assume "i < length (map (memcpy_at f (p + length r) bs) [p..<p + (length r + length bs)])"
  moreover have "f (p + i) = r ! i" if "i < length r"
    using arg_cong [OF assms, of "\<lambda>l. l ! i"] that by simp
  ultimately show "map (memcpy_at f (p + length r) bs) [p..<p + (length r + length bs)] ! i = (r @ bs) ! i"
    by (auto simp: memcpy_at_def nth_append)
qed simp

lemma split_loop_done [simp]: "split_loop buf 0 d s = Packets [] s"
  by (subst split_loop.simps) simp

lemma split_loop_frames:
  assumes "frames_ok bs" and "length (snd (frames bs)) \<noteq> 1" and "rnx s d = 0" and "length bs \<le> WF_BUFSIZE" and "d < 2"
  shows "\<exists>s'. split_loop (bs @ junk) (int (length bs)) d s = Packets (map (Pair d) (fst (frames bs))) s' \<and>
    holds s' d (snd (frames bs))"
  using assms
proof (induction bs arbitrary: s rule: frames.induct)
  case (1 bs)
  define n where "n = be16 (bs ! 0) (bs ! 1)"
  consider "bs = []" | "2 \<le> length bs" "length bs < n + 2" | "2 \<le> length bs" "n + 2 \<le> length bs"
    using 1(3) by (cases "length bs < 2"; cases "length bs < n + 2") (auto simp: less_2_cases_iff)
  then show ?case
  proof cases
    case 1 then show ?thesis using "1.prems"(3) by (simp add: holds_def)
  next
    case 2
    then have "frames bs = ([], bs)" using frames_open by (simp add: n_def)
    moreover have "n \<le> 1521" using frames_ok_split(1) [OF "1.prems"(1) 2(1)] by (simp add: n_def)
    moreover have "be16 ((bs @ junk) ! 0) ((bs @ junk) ! 1) = n" using 2 by (auto simp: n_def nth_append)
    moreover have "map (memcpy_at (fragment s) (fragment_base d) bs) [fragment_base d..<fragment_base d + length bs] = bs"
      using map_memcpy_at [of _ "fragment_base d" "[]"] by simp
    ultimately show ?thesis
      using 2 "1.prems" unfolding split_loop.simps [of "bs @ junk"]
      by (auto simp: Let_def holds_def WF_BUFSIZE_def fragment_base_def n_def)
  next
    case 3
    let ?r = "drop (n + 2) bs" and ?s = "s\<lparr>rnx := (rnx s)(d := 0)\<rparr>"
    have f: "frames bs = (take (n + 2) bs # fst (frames ?r), snd (frames ?r))"
      using 3 by (intro frames_frame) (auto simp: n_def)
    have n: "n \<le> 1521" and ok: "frames_ok ?r" 
      using frames_ok_split [OF "1.prems"(1) 3(1)] 3(2) by (auto simp: n_def)
    have h: "be16 ((bs @ junk) ! 0) ((bs @ junk) ! 1) = n" using 3 by (auto simp: n_def nth_append)
    have "\<exists>s'. split_loop (?r @ junk) (int (length ?r)) d ?s = Packets (map (Pair d) (fst (frames ?r))) s' \<and>
        holds s' d (snd (frames ?r))"
      using 3 ok "1.prems" f unfolding n_def by (intro "1.IH") auto
    then show ?thesis
      using 3 n h f unfolding split_loop.simps [of "bs @ junk"] by (auto simp: Let_def of_nat_diff)
  qed
qed

lemma splitpacket_frames:
  assumes h: "holds s d r" and ok: "frames_ok (r @ bs)" and l: "length (snd (frames (r @ bs))) \<noteq> 1"
    and b: "bs \<noteq> []" "length bs \<le> WF_BUFSIZE" and d: "d < 2"
  shows "\<exists>s'. splitpacket (bs @ junk) (int (length bs)) d s = Packets (map (Pair d) (fst (frames (r @ bs)))) s' \<and>
    holds s' d (snd (frames (r @ bs)))"
proof (cases "r = []")
  case True
  then show ?thesis using h split_loop_frames [OF _ _ _ b(2) d, of s junk] ok l b(1)
    by (simp add: splitpacket_def holds_def)
next
  case False
  let ?n = "rnx s d" and ?p = "fragment_base d"
  have hd: "2 \<le> length r" "be16 ((r @ bs) ! 0) ((r @ bs) ! 1) = ?n" "?n \<le> 1521" "length r < ?n + 2" "0 < ?n"
    and rem: "remaining s d = ?n + 2 - length r" and fp: "fragp s d = ?p + length r"
    and m: "map (fragment s) [?p..<?p + length r] = r"
    using h False by (auto simp: holds_def nth_append)
  show ?thesis
  proof (cases "length r + length bs < ?n + 2")
    case True
    have "frames (r @ bs) = ([], r @ bs)" using hd True by (intro frames_open) auto
    then show ?thesis
      using True hd rem fp b d map_memcpy_at [OF m, of bs]
      by (auto simp: splitpacket_def Let_def holds_def WF_BUFSIZE_def fragment_base_def min_def nth_append)
  next
    case full: False
    define a where "a = ?n + 2 - length r"
    have la: "a \<le> length bs" "length r + a = ?n + 2" "min a (length bs) = a" using full hd(4) by (auto simp: a_def)
    have t: "take (?n + 2) (r @ bs) = r @ take a bs" "drop (?n + 2) (r @ bs) = drop a bs"
      using hd(4) by (auto simp: a_def)
    have f: "frames (r @ bs) = ((r @ take a bs) # fst (frames (drop a bs)), snd (frames (drop a bs)))"
      using frames_frame [OF hd(2)] full t by simp
    have ok': "frames_ok (drop a bs)" using frames_ok_split(2) [OF ok] hd full t by simp
    define g where "g = memcpy_at (fragment s) (?p + length r) (take a bs)"
    define s1 where "s1 = s\<lparr>fragment := g, fragp := (fragp s)(d := ?p + length r + a),
      remaining := (remaining s)(d := 0), rnx := (rnx s)(d := 0)\<rparr>"
    obtain s' where s': "split_loop (drop a bs @ junk) (int (length (drop a bs))) d s1 =
        Packets (map (Pair d) (fst (frames (drop a bs)))) s'" "holds s' d (snd (frames (drop a bs)))"
    proof -
      have "length (snd (frames (drop a bs))) \<noteq> 1" "length (drop a bs) \<le> WF_BUFSIZE" using l f b(2) by simp_all
      moreover have "rnx s1 d = 0" by (simp add: s1_def)
      ultimately show ?thesis using split_loop_frames [OF ok'] d that by blast
    qed
    have pk: "map g [?p..<?p + (?n + 2)] = r @ take a bs"
      using map_memcpy_at [OF m, of "take a bs"] la by (simp add: g_def del: upt_Suc)
    have i: "int (length bs) - int a = int (length (drop a bs))" using la by simp
    have bound: "\<not> ?p + length r + a > 2 * WF_BUFSIZE"
      using la hd d by (simp add: WF_BUFSIZE_def fragment_base_def)
    have "splitpacket (bs @ junk) (int (length bs)) d s =
        Packets ((d, r @ take a bs) # map (Pair d) (fst (frames (drop a bs)))) s'"
      using b hd la bound pk s'(1) rem [folded a_def]
      by (simp add: splitpacket_def Let_def fp i s1_def del: upt_Suc of_nat_diff flip: g_def)
    then show ?thesis using f s'(2) by simp
  qed
qed

text \<open>
  Successive reads from the pipe of one direction: the bytes each read returned, and what the
  rest of the buffer held.
\<close>

fun split_run :: "nat \<Rightarrow> (bytes \<times> bytes) list \<Rightarrow> split \<Rightarrow> split_result" where
  "split_run d [] s = Packets [] s"
| "split_run d ((bs, junk) # reads) s =
     (case packet_in False d (int (length bs)) (bs @ junk) s of
        Packets ps s' \<Rightarrow>
          (case split_run d reads s' of Packets qs s'' \<Rightarrow> Packets (ps @ qs) s'' | r \<Rightarrow> r)
      | r \<Rightarrow> r)"

definition whole_headers :: "bytes \<Rightarrow> (bytes \<times> bytes) list \<Rightarrow> bool" where
  "whole_headers r reads \<longleftrightarrow>
     (\<forall>k < length reads. length (snd (frames (r @ concat (map fst (take (Suc k) reads))))) \<noteq> 1)"

lemma whole_headers_Cons:
  "whole_headers r (x # reads) \<longleftrightarrow>
     length (snd (frames (r @ fst x))) \<noteq> 1 \<and> whole_headers (snd (frames (r @ fst x))) reads"
proof -
  have *: "snd (frames (snd (frames (r @ fst x)) @ b)) = snd (frames (r @ fst x @ b))" for b
    using frames_append [of "r @ fst x" b] by simp
  show ?thesis by (auto simp: whole_headers_def * All_less_Suc2)
qed

lemma split_run_frames:
  assumes "holds s d r" and "frames_ok (r @ concat (map fst reads))" and "whole_headers r reads"
    and "\<forall>x \<in> set reads. fst x \<noteq> [] \<and> length (fst x) \<le> WF_BUFSIZE" and "d < 2"
  shows "\<exists>s'. split_run d reads s = Packets (map (Pair d) (fst (frames (r @ concat (map fst reads))))) s' \<and>
    holds s' d (snd (frames (r @ concat (map fst reads))))"
  using assms
proof (induction reads arbitrary: s r)
  case Nil
  then have "frames r = ([], r)"
    using frames_open [of r] by (cases "r = []") (auto simp: holds_def)
  then show ?case using Nil by simp
next
  case (Cons x reads)
  obtain bs junk where x: "x = (bs, junk)" by (cases x)
  let ?m = "concat (map fst reads)" and ?r = "snd (frames (r @ bs))"
  have app: "frames (r @ bs @ ?m) = (fst (frames (r @ bs)) @ fst (frames (?r @ ?m)), snd (frames (?r @ ?m)))"
    using frames_append [of "r @ bs" ?m] by simp
  have ok: "frames_ok (r @ bs)" using Cons.prems(2) frames_ok_prefix [of "r @ bs" ?m] by (simp add: x)
  have b: "bs \<noteq> []" "length bs \<le> WF_BUFSIZE" "length ?r \<noteq> 1" "whole_headers ?r reads"
    using Cons.prems(3,4) by (auto simp: x whole_headers_Cons)
  obtain s' where s': "splitpacket (bs @ junk) (int (length bs)) d s = Packets (map (Pair d) (fst (frames (r @ bs)))) s'"
      "holds s' d ?r"
    using splitpacket_frames [OF Cons.prems(1) ok b(3,1,2) Cons.prems(5)] by blast
  have "frames_ok (?r @ ?m)" using frames_ok_append [of "r @ bs" ?m] Cons.prems(2) by (simp add: x)
  from Cons.IH [OF s'(2) this b(4)] Cons.prems(4,5) s'(1) b(1) app
  show ?case by (fastforce simp: x packet_in_def)
qed

text \<open>
  C14: packets that come through a pipe are recognised whatever the pieces they are read in. If
  the bytes of a sequence of packets with their length prefixes, none longer than 1521 bytes,
  come in reads of any sizes, none of which ends between the two bytes of a length, then
  exactly these packets are handed on, in order, and nothing is left over; no read or write
  leaves its buffer.
\<close>

theorem pipe_stream_split:
  assumes "concat (map fst reads) = concat (map wf_frame ps)" and "\<forall>p \<in> set ps. length p \<le> 1521"
    and "\<forall>x \<in> set reads. fst x \<noteq> [] \<and> length (fst x) \<le> WF_BUFSIZE" and "whole_headers [] reads"
    and "rnx s d = 0" and "d < 2"
  shows "\<exists>s'. split_run d reads s = Packets (map (\<lambda>p. (d, wf_frame p)) ps) s' \<and> rnx s' d = 0"
proof -
  have "holds s d []" using assms(5) by (simp add: holds_def)
  from split_run_frames [OF this _ assms(4,3,6)] show ?thesis
    using frames_of_frames [OF assms(2)] assms(1) by (auto simp: holds_def comp_def)
qed

theorem pipe_stream_split_witness:
  "\<exists>s'. split_run 1 [([0, 3, 7], [0, 0]), ([8, 9, 0, 1], []), ([5], [1])] split_start =
     Packets [(1, [0, 3, 7, 8, 9]), (1, [0, 1, 5])] s' \<and> rnx s' 1 = 0"
proof -
  have f: "frames [0, 3, 7] = ([], [0, 3, 7])" "frames [0, 3, 7, 8, 9, 0, 1] = ([[0, 3, 7, 8, 9]], [0, 1])"
    "frames [0, 3, 7, 8, 9, 0, 1, 5] = ([[0, 3, 7, 8, 9], [0, 1, 5]], [])"
    by code_simp+
  have "whole_headers [] [([0, 3, 7], [0, 0]), ([8, 9, 0, 1], []), ([5], [1])]"
    by (simp add: whole_headers_def f All_less_Suc numeral_3_eq_3)
  then show ?thesis
    using pipe_stream_split [of "[([0, 3, 7], [0, 0]), ([8, 9, 0, 1], []), ([5], [1])]" "[[7, 8, 9], [5]]" split_start 1]
    by (simp add: wf_frame_def WF_BUFSIZE_def split_start_def)
qed

definition partial :: "bytes \<Rightarrow> bool" where
  "partial r \<longleftrightarrow> 2 \<le> length r \<and> length r < be16 (r ! 0) (r ! 1) + 2 \<and> be16 (r ! 0) (r ! 1) \<le> 1521"

lemma split_partial:
  assumes "rnx s d = 0" and "partial r" and "d < 2"
  shows "splitpacket (r @ junk) (int (length r)) d s =
    Packets [] (s\<lparr>fragment := memcpy_at (fragment s) (fragment_base d) r, fragp := (fragp s)(d := fragment_base d + length r),
      rnx := (rnx s)(d := be16 (r ! 0) (r ! 1)), remaining := (remaining s)(d := be16 (r ! 0) (r ! 1) + 2 - length r)\<rparr>)"
  using assms
  by (auto simp: splitpacket_def split_loop.simps [of "r @ junk"] partial_def Let_def nth_append fragment_base_def WF_BUFSIZE_def)

text \<open>The rest of a packet arrives, or the read fails and the rest is what the buffer holds.\<close>

lemma split_complete:
  assumes "0 < rnx s d" and "0 < remaining s d" and "remaining s d \<le> length buf" and "sz < 0 \<or> sz = int (remaining s d)"
    and "fragp s d + remaining s d \<le> 2 * WF_BUFSIZE"
  shows "\<exists>s'. splitpacket buf sz d s = Packets [(d, map (memcpy_at (fragment s) (fragp s d) (take (remaining s d) buf))
      [fragment_base d..<fragment_base d + (rnx s d + 2)])] s'"
proof -
  define m where "m = remaining s d"
  have am: "(if sz < 0 then m else min m (nat sz)) = m" using assms(4) by (auto simp: m_def)
  have nz: "sz \<noteq> 0" using assms(2,4) by auto
  have stop: "split_loop b (sz - int m) d t = Packets [] t" for b t
    using assms(4) by (subst split_loop.simps) (auto simp: m_def)
  show ?thesis using assms(1,3,5) nz
    unfolding splitpacket_def Let_def m_def [symmetric] am by (simp add: stop del: upt_Suc)
qed

text \<open>The bytes of a packet when those of the other direction were written over it two bytes further on.\<close>

lemma overlap:
  assumes "2 \<le> length a"
  shows "map (memcpy_at (memcpy_at (memcpy_at g 0 a) 2 b) (length a) c) [0..<length a + length c] =
    take 2 a @ take (length a - 2) b @ drop (2 + length b) a @ c" (is "map ?f _ = ?l @ ?m @ ?r @ c")
proof (rule nth_equalityI)
  have len: "length (?l @ ?m @ ?r) = length a" "length ?l = 2" using assms by auto
  then show "length (map ?f [0..<length a + length c]) = length (?l @ ?m @ ?r @ c)" by simp
  fix i assume "i < length (map ?f [0..<length a + length c])"
  then have i: "i < length a + length c" by simp
  have "?f i = (if i < length a then if i < 2 then a ! i else if i < 2 + length b then b ! (i - 2) else a ! i else c ! (i - length a))"
    using i by (simp add: memcpy_at_def)
  also have "\<dots> = (if i < length a then (?l @ ?m @ ?r) ! i else c ! (i - length a))"
    using assms len(2) by (auto simp: nth_append min_def Suc_diff_Suc numeral_2_eq_2)
  also have "\<dots> = ((?l @ ?m @ ?r) @ c) ! i" unfolding nth_append [of _ c] len(1) ..
  finally show "map ?f [0..<length a + length c] ! i = (?l @ ?m @ ?r @ c) ! i" using i by simp
qed

lemma holds_partial:
  assumes "holds s d r" and "partial r"
  shows "rnx s d = be16 (r ! 0) (r ! 1)" "remaining s d = be16 (r ! 0) (r ! 1) + 2 - length r"
    "fragp s d = fragment_base d + length r" "map (fragment s) [fragment_base d..<fragment_base d + length r] = r"
proof -
  have "r \<noteq> []" using assms(2) by (auto simp: partial_def)
  then show "rnx s d = be16 (r ! 0) (r ! 1)" "remaining s d = be16 (r ! 0) (r ! 1) + 2 - length r"
    "fragp s d = fragment_base d + length r" "map (fragment s) [fragment_base d..<fragment_base d + length r] = r"
    using assms(1) by (simp_all add: holds_def)
qed

text \<open>
  C37: where splitting fails. Both directions collect their packets in the same bytes but two:
  whenever a packet of the one direction is read in two pieces (the first with its length) and the other
  direction collects the beginning of a packet in between, the bytes of the first piece behind the length are delivered as the bytes of that
  other packet, as far as it reaches. A read that fails in the middle of any packet completes it with the old
  bytes of the buffer. A read that ends after the first byte of a length takes the second from
  the bytes behind: the packet delivered has that length, whatever the second byte of the stream is.
\<close>

theorem pipe_stream_corrupted:
  shows "(rnx s 0 = 0 \<and> rnx s 1 = 0 \<and> partial a \<and> partial b \<and> length a + length c = be16 (a ! 0) (a ! 1) + 2 \<longrightarrow>
      (\<exists>s1 s2 s3. packet_in False 0 (int (length a)) (a @ junk) s = Packets [] s1 \<and>
         packet_in False 1 (int (length b)) (b @ junk) s1 = Packets [] s2 \<and>
         packet_in False 0 (int (length c)) (c @ junk) s2 =
           Packets [(0, take 2 a @ take (length a - 2) b @ drop (2 + length b) a @ c)] s3)) \<and>
    (d < 2 \<and> holds s d r \<and> partial r \<and> be16 (r ! 0) (r ! 1) + 2 - length r \<le> length junk \<longrightarrow>
      (\<exists>s'. packet_in False d (- 1) junk s = Packets [(d, r @ take (be16 (r ! 0) (r ! 1) + 2 - length r) junk)] s')) \<and>
    (d < 2 \<and> rnx s d = 0 \<and> 0 < be16 p q \<and> be16 p q \<le> 1521 \<and> length bs = be16 p q + 1 \<longrightarrow>
      (\<exists>s1 s2. packet_in False d 1 (p # q # junk) s = Packets [] s1 \<and>
         packet_in False d (int (length bs)) (bs @ junk) s1 = Packets [(d, p # bs)] s2))"
proof (intro conjI impI)
  assume h: "rnx s 0 = 0 \<and> rnx s 1 = 0 \<and> partial a \<and> partial b \<and> length a + length c = be16 (a ! 0) (a ! 1) + 2"
  define s1 where "s1 = s\<lparr>fragment := memcpy_at (fragment s) 0 a, fragp := (fragp s)(0 := length a),
      rnx := (rnx s)(0 := be16 (a ! 0) (a ! 1)), remaining := (remaining s)(0 := length c)\<rparr>"
  have "be16 (a ! 0) (a ! 1) + 2 - length a = length c" using h by linarith
  then have 1: "splitpacket (a @ junk) (int (length a)) 0 s = Packets [] s1"
    using split_partial [of s 0 a junk] h by (simp add: s1_def fragment_base_def)
  define s2 where "s2 = s1\<lparr>fragment := memcpy_at (fragment s1) 2 b, fragp := (fragp s1)(1 := 2 + length b),
      rnx := (rnx s1)(1 := be16 (b ! 0) (b ! 1)), remaining := (remaining s1)(1 := be16 (b ! 0) (b ! 1) + 2 - length b)\<rparr>"
  have 2: "splitpacket (b @ junk) (int (length b)) 1 s1 = Packets [] s2"
    using split_partial [of s1 1 b junk] h by (simp add: s1_def s2_def fragment_base_def)
  have f: "rnx s2 0 = be16 (a ! 0) (a ! 1)" "remaining s2 0 = length c" "fragp s2 0 = length a"
    "fragment s2 = memcpy_at (memcpy_at (fragment s) 0 a) 2 b" by (simp_all add: s2_def s1_def)
  have pos: "0 < be16 (a ! 0) (a ! 1)" "0 < length c" "length a + length c \<le> 2 * WF_BUFSIZE"
    using h by (auto simp: partial_def WF_BUFSIZE_def)
  have "map (memcpy_at (fragment s2) (length a) c) [0..<length a + length c] =
      take 2 a @ take (length a - 2) b @ drop (2 + length b) a @ c"
    unfolding f(4) by (rule overlap) (use h in \<open>simp add: partial_def\<close>)
  then obtain s3 where "splitpacket (c @ junk) (int (length c)) 0 s2 =
      Packets [(0, take 2 a @ take (length a - 2) b @ drop (2 + length b) a @ c)] s3"
    using split_complete [of s2 0 "c @ junk" "int (length c)"] pos h by (auto simp: f fragment_base_def simp del: upt_Suc)
  then show "\<exists>s1 s2 s3. packet_in False 0 (int (length a)) (a @ junk) s = Packets [] s1 \<and>
         packet_in False 1 (int (length b)) (b @ junk) s1 = Packets [] s2 \<and>
         packet_in False 0 (int (length c)) (c @ junk) s2 =
           Packets [(0, take 2 a @ take (length a - 2) b @ drop (2 + length b) a @ c)] s3"
    using 1 2 h by (auto simp: packet_in_def partial_def)
next
  assume h: "d < 2 \<and> holds s d r \<and> partial r \<and> be16 (r ! 0) (r ! 1) + 2 - length r \<le> length junk"
  let ?m = "be16 (r ! 0) (r ! 1) + 2 - length r" and ?b = "fragment_base d"
  note hp = holds_partial [of s d r]
  have "length r + length (take ?m junk) = be16 (r ! 0) (r ! 1) + 2" using h by (simp add: partial_def)
  with map_memcpy_at [OF hp(4), of "take ?m junk"] h
  have e: "map (memcpy_at (fragment s) (?b + length r) (take ?m junk)) [?b..<?b + (be16 (r ! 0) (r ! 1) + 2)] = r @ take ?m junk"
    by (simp del: upt_Suc)
  have pos: "0 < be16 (r ! 0) (r ! 1)" "0 < ?m" "?b + length r + ?m \<le> 2 * WF_BUFSIZE"
    using h by (auto simp: partial_def WF_BUFSIZE_def fragment_base_def)
  then show "\<exists>s'. packet_in False d (- 1) junk s = Packets [(d, r @ take ?m junk)] s'"
    using split_complete [of s d junk "- 1"] hp h e by (auto simp: packet_in_def simp del: upt_Suc)
next
  assume h: "d < 2 \<and> rnx s d = 0 \<and> 0 < be16 p q \<and> be16 p q \<le> 1521 \<and> length bs = be16 p q + 1"
  let ?b = "fragment_base d"
  define s1 where "s1 = s\<lparr>fragment := memcpy_at (fragment s) ?b [p], fragp := (fragp s)(d := ?b + 1),
      rnx := (rnx s)(d := be16 p q), remaining := (remaining s)(d := length bs)\<rparr>"
  have 1: "splitpacket (p # q # junk) 1 d s = Packets [] s1"
    using h by (simp add: splitpacket_def split_loop.simps [of "p # q # junk"] Let_def s1_def WF_BUFSIZE_def fragment_base_def)
  have f: "rnx s1 d = be16 p q" "remaining s1 d = length bs" "fragp s1 d = ?b + 1" "fragment s1 = memcpy_at (fragment s) ?b [p]"
    by (simp_all add: s1_def)
  have "map (fragment s1) [?b..<?b + length [p]] = [p]" by (simp add: f memcpy_at_def)
  from map_memcpy_at [OF this, of bs] h
  have "map (memcpy_at (fragment s1) (?b + 1) bs) [?b..<?b + (be16 p q + 2)] = p # bs" by (simp del: upt_Suc)
  moreover have "?b + 1 + length bs \<le> 2 * WF_BUFSIZE" using h by (simp add: fragment_base_def WF_BUFSIZE_def)
  ultimately obtain s2 where "splitpacket (bs @ junk) (int (length bs)) d s1 = Packets [(d, p # bs)] s2"
    using split_complete [of s1 d "bs @ junk" "int (length bs)"] h by (auto simp: f simp del: upt_Suc)
  then show "\<exists>s1 s2. packet_in False d 1 (p # q # junk) s = Packets [] s1 \<and>
         packet_in False d (int (length bs)) (bs @ junk) s1 = Packets [(d, p # bs)] s2"
    using 1 h by (auto simp: packet_in_def)
qed

theorem pipe_stream_corrupted_witness:
  "\<exists>s1 s2 s3. packet_in False 0 4 [0, 4, 1, 2, 7] split_start = Packets [] s1 \<and> packet_in False 1 4 [0, 6, 9, 9, 7] s1 = Packets [] s2 \<and>
     packet_in False 0 2 [3, 4, 7] s2 = Packets [(0, [0, 4, 0, 6, 3, 4])] s3"
  using pipe_stream_corrupted [of split_start "[0, 4, 1, 2]" "[0, 6, 9, 9]" "[3, 4]" "[7]" 0 "[]" 0 0 "[]"]
  by (simp add: partial_def be16_def split_start_def)

end
