(* ===== verification/Console.thy ===== *)
theory Console
  imports System
begin

text \<open>
  The management console, \<^verbatim>\<open>vde_switch/consmgmt.c\<close>: the list of commands that the modules
  register, the interpretation of a command line and of scripts, the debug classes with their
  subscribers and callbacks, and the connections of the console. The commands that only print
  (lists, tables, help) and the loading of plugins are arguments of the interpreter; every
  command that changes the switch is the operation of \<open>System\<close> it stands for.
\<close>

section \<open>The list of commands\<close>

text \<open>
  \<open>clh\<close> and \<open>clt\<close>: a list linked through the field \<open>next\<close> of the entries and a pointer to the
  field that holds its final \<open>NULL\<close>. Entries are addresses; \<open>clt\<close> is the address of \<open>clh\<close> or of
  the field \<open>next\<close> of an entry.
\<close>

datatype 'a link = Head | Next 'a

record 'a clist =
  clh :: "'a option"
  cnext :: "'a \<Rightarrow> 'a option"
  clt :: "'a link"

definition clist_start :: "'a clist" where
  "clist_start = \<lparr>clh = None, cnext = (\<lambda>_. None), clt = Head\<rparr>"

definition deref :: "'a link \<Rightarrow> 'a clist \<Rightarrow> 'a option" where
  "deref p s = (case p of Head \<Rightarrow> clh s | Next c \<Rightarrow> cnext s c)"

definition set_next :: "'a \<Rightarrow> 'a option \<Rightarrow> 'a clist \<Rightarrow> 'a clist" where
  "set_next c v s = s\<lparr>cnext := (cnext s)(c := v)\<rparr>"

definition assign :: "'a link \<Rightarrow> 'a option \<Rightarrow> 'a clist \<Rightarrow> 'a clist" where
  "assign p v s = (case p of Head \<Rightarrow> s\<lparr>clh := v\<rparr> | Next c \<Rightarrow> set_next c v s)"

fun addcl :: "'a list \<Rightarrow> 'a clist \<Rightarrow> 'a clist" where
  "addcl [] s = s"
| "addcl (c # cl) s =
     addcl cl (assign (clt s) (Some c) (set_next c None s)\<lparr>clt := Next c\<rparr>)"

text \<open>
  The loop of \<open>delcl\<close>, which walks the list behind a pointer to the link. It ends because a list
  has no cycle; \<open>n\<close> bounds its steps, and \<open>None\<close> says that it has not ended within them.
\<close>

fun delcl_loop :: "nat \<Rightarrow> 'a \<Rightarrow> 'a link \<Rightarrow> 'a clist \<Rightarrow> 'a clist option" where
  "delcl_loop 0 c p s = None"
| "delcl_loop (Suc n) c p s =
     (case deref p s of
        None \<Rightarrow> Some s
      | Some x \<Rightarrow>
          if x = c then delcl_loop n c p (assign p (cnext s c) s)
          else delcl_loop n c (Next x) (s\<lparr>clt := Next x\<rparr>))"

fun delcl :: "nat \<Rightarrow> 'a list \<Rightarrow> 'a clist \<Rightarrow> 'a clist option" where
  "delcl n [] s = Some s"
| "delcl n (c # cl) s = (case delcl_loop n c Head s of None \<Rightarrow> None | Some s' \<Rightarrow> delcl n cl s')"

text \<open>The list from a link on.\<close>

fun chain :: "'a clist \<Rightarrow> 'a link \<Rightarrow> 'a list \<Rightarrow> bool" where
  "chain s p [] = (deref p s = None)"
| "chain s p (x # xs) = (deref p s = Some x \<and> chain s (Next x) xs)"

definition end_link :: "'a link \<Rightarrow> 'a list \<Rightarrow> 'a link" where
  "end_link p xs = (if xs = [] then p else Next (last xs))"

definition holds_list :: "'a clist \<Rightarrow> 'a list \<Rightarrow> bool" where
  "holds_list s xs \<longleftrightarrow> chain s Head xs \<and> distinct xs \<and> clt s = end_link Head xs"

lemma deref_assign [simp]: "deref q (assign p v s) = (if q = p then v else deref q s)"
  by (cases p; cases q) (auto simp: deref_def assign_def set_next_def)

lemma deref_clt [simp]: "deref q (s\<lparr>clt := l\<rparr>) = deref q s"
  by (cases q) (auto simp: deref_def)

lemma deref_set_next [simp]: "deref q (set_next c v s) = (if q = Next c then v else deref q s)"
  by (cases q) (auto simp: deref_def set_next_def)

lemma clt_assign [simp]: "clt (assign p v s) = clt s"
  by (cases p) (auto simp: assign_def set_next_def)

lemma chain_frame:
  "(\<And>q. q = p \<or> q \<in> Next ` set xs \<Longrightarrow> deref q s' = deref q s) \<Longrightarrow> chain s' p xs = chain s p xs"
  by (induction xs arbitrary: p) auto

lemma chain_clt [simp]: "chain (s\<lparr>clt := l\<rparr>) p xs = chain s p xs"
  by (rule chain_frame) simp

lemma end_link_Cons: "end_link p (x # xs) = end_link (Next x) xs"
  by (simp add: end_link_def)

lemma end_link_in: "end_link p xs = p \<or> end_link p xs \<in> Next ` set xs"
  by (simp add: end_link_def)

lemma chain_snoc:
  assumes "chain s p xs" and "distinct (xs @ [c])" and "p \<notin> Next ` set (xs @ [c])"
  shows "chain (assign (end_link p xs) (Some c) (set_next c None s)) p (xs @ [c])"
  using assms
proof (induction xs arbitrary: p)
  case Nil then show ?case by (simp add: end_link_def)
next
  case (Cons x xs)
  have "end_link (Next x) xs \<noteq> p" using Cons.prems(3) end_link_in [of "Next x" xs] by auto
  then show ?case using Cons by (auto simp: end_link_Cons)
qed

lemma addcl_holds:
  assumes "holds_list s xs" and "distinct (xs @ cl)"
  shows "holds_list (addcl cl s) (xs @ cl)"
  using assms
proof (induction cl arbitrary: xs s)
  case (Cons c cl)
  have "holds_list (assign (clt s) (Some c) (set_next c None s)\<lparr>clt := Next c\<rparr>) (xs @ [c])"
    using Cons.prems chain_snoc [of s Head xs c] by (auto simp: holds_list_def end_link_def image_iff)
  from Cons.IH [OF this] Cons.prems(2) show ?case by simp
qed simp

lemma delcl_loop_chain:
  assumes "chain s p ys" and "distinct ys" and "p \<notin> Next ` set ys" and "length ys < n"
  shows "\<exists>s'. delcl_loop n c p s = Some s' \<and> chain s' p (filter (\<lambda>y. y \<noteq> c) ys) \<and>
    (\<forall>q. q \<noteq> p \<and> q \<notin> Next ` set ys \<longrightarrow> deref q s' = deref q s) \<and>
    clt s' = (if filter (\<lambda>y. y \<noteq> c) ys = [] then clt s else Next (last (filter (\<lambda>y. y \<noteq> c) ys)))"
  using assms
proof (induction ys arbitrary: p s n)
  case Nil
  then show ?case by (cases n) auto
next
  case (Cons y ys)
  then obtain m where n: "n = Suc m" and m: "length ys < m" by (cases n) auto
  show ?case
  proof (cases "y = c")
    case True
    let ?s = "assign p (cnext s c) s"
    have "deref p ?s = deref (Next c) s" by (simp add: deref_def [of "Next c"])
    moreover have "chain ?s (Next z) zs" if "ys = z # zs" for z zs
      using Cons.prems(1,3) that by (subst chain_frame [of _ _ _ s]) auto
    ultimately have "chain ?s p ys" using Cons.prems(1) True by (cases ys) auto
    from Cons.IH [OF this _ _ m] obtain s' where "delcl_loop m c p ?s = Some s'" "chain s' p (filter (\<lambda>y. y \<noteq> c) ys)"
      "\<forall>q. q \<noteq> p \<and> q \<notin> Next ` set ys \<longrightarrow> deref q s' = deref q ?s"
      "clt s' = (if filter (\<lambda>y. y \<noteq> c) ys = [] then clt ?s else Next (last (filter (\<lambda>y. y \<noteq> c) ys)))"
      using Cons.prems by auto
    then show ?thesis using Cons.prems True n by (auto split: if_splits)
  next
    case False
    have "chain (s\<lparr>clt := Next y\<rparr>) (Next y) ys" using Cons.prems by simp
    from Cons.IH [OF this _ _ m] obtain s' where s': "delcl_loop m c (Next y) (s\<lparr>clt := Next y\<rparr>) = Some s'"
      "chain s' (Next y) (filter (\<lambda>y. y \<noteq> c) ys)"
      "\<forall>q. q \<noteq> Next y \<and> q \<notin> Next ` set ys \<longrightarrow> deref q s' = deref q s"
      "clt s' = (if filter (\<lambda>y. y \<noteq> c) ys = [] then Next y else Next (last (filter (\<lambda>y. y \<noteq> c) ys)))"
      using Cons.prems by (auto simp: image_iff)
    have "deref p s' = Some y" using s'(3) Cons.prems by auto
    then show ?thesis using s' False Cons.prems n by (auto split: if_splits)
  qed
qed

lemma delcl_holds:
  assumes "holds_list s xs" and "length xs < n" and "filter (\<lambda>x. x \<notin> set cl) xs \<noteq> []"
  shows "\<exists>s'. delcl n cl s = Some s' \<and> holds_list s' (filter (\<lambda>x. x \<notin> set cl) xs)"
  using assms
proof (induction cl arbitrary: s xs)
  case (Cons c cl)
  let ?ys = "filter (\<lambda>y. y \<noteq> c) xs"
  have f: "filter (\<lambda>x. x \<notin> set (c # cl)) xs = filter (\<lambda>x. x \<notin> set cl) ?ys" by simp
  have ne: "?ys \<noteq> []" using Cons.prems(3) by (auto simp: filter_empty_conv)
  obtain s' where s': "delcl_loop n c Head s = Some s'" "chain s' Head ?ys" "clt s' = Next (last ?ys)"
    using delcl_loop_chain [of s Head xs n c] Cons.prems(1,2) ne by (auto simp: holds_list_def)
  then have "holds_list s' ?ys" using Cons.prems(1) ne by (simp add: holds_list_def end_link_def)
  moreover have "length ?ys < n" using Cons.prems(2) le_less_trans [OF length_filter_le] by blast
  ultimately show ?case using Cons.IH [of s' ?ys] Cons.prems(3) s'(1) unfolding f by simp
qed simp

section \<open>The commands\<close>

text \<open>The functions that the tables of the modules name.\<close>

datatype doit =
    Do_ds_showinfo
  | Do_help | Do_logout | Do_shutdown | Do_showinfo | Do_runscript | Do_debuglist | Do_debugadd | Do_debugdel
  | Do_pluginlist | Do_pluginadd | Do_plugindel
  | Do_hash_showinfo | Do_hash_resize | Do_hash_set_gc_interval | Do_hash_set_gc_expire | Do_hash_set_minper
  | Do_print_hash | Do_find_hash
  | Do_fstpshowinfo | Do_fstpsetonoff | Do_fstsetedge | Do_fstsetbonus | Do_fstprint
  | Do_port_showinfo | Do_portsetnumports | Do_portsethub | Do_portsetvlan | Do_portcreateauto | Do_portcreate
  | Do_portremove | Do_portallocatable | Do_portsetuser | Do_portsetgroup | Do_epclose | Do_portresetcounters
  | Do_print_ptable | Do_print_ptableall
  | Do_vlancreate | Do_vlanremove | Do_vlanaddport | Do_vlandelport | Do_vlanprint | Do_vlanprintall

definition NOARG :: u8 where "NOARG = 0"
definition INTARG :: u8 where "INTARG = 1"
definition STRARG :: u8 where "STRARG = 2"
definition WITHFILE :: u8 where "WITHFILE = 0x40"
definition WITHFD :: u8 where "WITHFD = 0x80"

record comlist =
  cl_path :: string
  cl_doit :: "doit option"
  cl_type :: u8

definition menu :: "string \<Rightarrow> comlist" where
  "menu path = \<lparr>cl_path = path, cl_doit = None, cl_type = NOARG\<rparr>"

definition cmd :: "string \<Rightarrow> doit \<Rightarrow> u8 \<Rightarrow> comlist" where
  "cmd path d ty = \<lparr>cl_path = path, cl_doit = Some d, cl_type = ty\<rparr>"

definition datasock_cl :: "comlist list" where
  "datasock_cl = [
     menu ''ds'',
     cmd ''ds/showinfo'' Do_ds_showinfo (NOARG OR WITHFILE)]"

definition consmgmt_cl :: "comlist list" where
  "consmgmt_cl = [
     cmd ''help'' Do_help (STRARG OR WITHFILE),
     cmd ''logout'' Do_logout NOARG,
     cmd ''shutdown'' Do_shutdown NOARG,
     cmd ''showinfo'' Do_showinfo (NOARG OR WITHFILE),
     cmd ''load'' Do_runscript (STRARG OR WITHFD),
     menu ''debug'',
     cmd ''debug/list'' Do_debuglist (STRARG OR WITHFILE OR WITHFD),
     cmd ''debug/add'' Do_debugadd (WITHFD OR STRARG),
     cmd ''debug/del'' Do_debugdel (WITHFD OR STRARG),
     menu ''plugin'',
     cmd ''plugin/list'' Do_pluginlist (STRARG OR WITHFILE),
     cmd ''plugin/add'' Do_pluginadd STRARG,
     cmd ''plugin/del'' Do_plugindel STRARG]"

definition hash_cl :: "comlist list" where
  "hash_cl = [
     menu ''hash'',
     cmd ''hash/showinfo'' Do_hash_showinfo (NOARG OR WITHFILE),
     cmd ''hash/setsize'' Do_hash_resize INTARG,
     cmd ''hash/setgcint'' Do_hash_set_gc_interval INTARG,
     cmd ''hash/setexpire'' Do_hash_set_gc_expire INTARG,
     cmd ''hash/setminper'' Do_hash_set_minper INTARG,
     cmd ''hash/print'' Do_print_hash (NOARG OR WITHFILE),
     cmd ''hash/find'' Do_find_hash (STRARG OR WITHFILE)]"

definition fstp_cl :: "comlist list" where
  "fstp_cl = [
     menu ''fstp'',
     cmd ''fstp/showinfo'' Do_fstpshowinfo (NOARG OR WITHFILE),
     cmd ''fstp/setfstp'' Do_fstpsetonoff (INTARG OR WITHFILE),
     cmd ''fstp/setedge'' Do_fstsetedge STRARG,
     cmd ''fstp/bonus'' Do_fstsetbonus STRARG,
     cmd ''fstp/print'' Do_fstprint (STRARG OR WITHFILE)]"

definition port_cl :: "comlist list" where
  "port_cl = [
     menu ''port'',
     cmd ''port/showinfo'' Do_port_showinfo (NOARG OR WITHFILE),
     cmd ''port/setnumports'' Do_portsetnumports INTARG,
     cmd ''port/sethub'' Do_portsethub INTARG,
     cmd ''port/setvlan'' Do_portsetvlan STRARG,
     cmd ''port/createauto'' Do_portcreateauto (NOARG OR WITHFILE),
     cmd ''port/create'' Do_portcreate INTARG,
     cmd ''port/remove'' Do_portremove INTARG,
     cmd ''port/allocatable'' Do_portallocatable STRARG,
     cmd ''port/setuser'' Do_portsetuser STRARG,
     cmd ''port/setgroup'' Do_portsetgroup STRARG,
     cmd ''port/epclose'' Do_epclose STRARG,
     cmd ''port/resetcounter'' Do_portresetcounters STRARG,
     cmd ''port/print'' Do_print_ptable (STRARG OR WITHFILE),
     cmd ''port/allprint'' Do_print_ptableall (STRARG OR WITHFILE),
     menu ''vlan'',
     cmd ''vlan/create'' Do_vlancreate INTARG,
     cmd ''vlan/remove'' Do_vlanremove INTARG,
     cmd ''vlan/addport'' Do_vlanaddport STRARG,
     cmd ''vlan/delport'' Do_vlandelport STRARG,
     cmd ''vlan/print'' Do_vlanprint (STRARG OR WITHFILE),
     cmd ''vlan/allprint'' Do_vlanprintall (STRARG OR WITHFILE)]"

text \<open>The order in which \<open>main\<close> starts the modules and initialises the parts.\<close>

definition command_table :: "comlist list" where
  "command_table = datasock_cl @ consmgmt_cl @ hash_cl @ fstp_cl @ port_cl"

text \<open>\<open>strncmp(p, s, strlen(p)) == 0\<close>: the string \<open>s\<close> begins with \<open>p\<close>.\<close>

definition begins :: "string \<Rightarrow> string \<Rightarrow> bool" where
  "begins p s \<longleftrightarrow> take (length p) s = p"

definition skip_blanks :: "string \<Rightarrow> string" where
  "skip_blanks = dropWhile (\<lambda>c. c = CHR '' '' \<or> c = CHR 0x09)"

definition find_command :: "comlist list \<Rightarrow> string \<Rightarrow> comlist option" where
  "find_command cls inbuf = find (\<lambda>p. cl_doit p \<noteq> None \<and> begins (cl_path p) inbuf) cls"

section \<open>Debug classes\<close>

text \<open>
  \<open>d_fds\<close> are the subscribers in use of the array (\<open>None\<close>: the array was lost when \<open>realloc\<close>
  failed), \<open>d_fun\<close> the callbacks in use, \<open>d_funarg\<close> the whole array of their arguments.
\<close>

record dbgcl =
  d_path :: string
  d_help :: bool
  d_fds :: "fd list option"
  d_maxfds :: nat
  d_fun :: "nat list"
  d_funarg :: "nat list"
  d_maxfun :: nat

definition DBGCLSTEP :: nat where "DBGCLSTEP = 8"

definition dbg :: "string \<Rightarrow> bool \<Rightarrow> dbgcl" where
  "dbg path help = \<lparr>d_path = path, d_help = help, d_fds = Some [], d_maxfds = 0, d_fun = [], d_funarg = [], d_maxfun = 0\<rparr>"

definition dbg_table :: "dbgcl list" where
  "dbg_table = [
     dbg ''mgmt/+'' False, dbg ''mgmt/-'' False, dbg ''sig/hup'' False,
     dbg ''hash/+'' True, dbg ''hash/-'' True,
     dbg ''fstp/status'' True, dbg ''fstp/root'' True, dbg ''fstp/+'' True, dbg ''fstp/-'' True,
     dbg ''port/+'' True, dbg ''port/-'' True, dbg ''port/descr'' True, dbg ''port/ep/+'' True, dbg ''port/ep/-'' True,
     dbg ''packet/in'' False, dbg ''packet/out'' False]"

text \<open>One turn of the loop of \<open>debugadd\<close>; \<open>None\<close> is an access through a lost array.\<close>

definition debugadd_class :: "bool \<Rightarrow> fd \<Rightarrow> string \<Rightarrow> errno \<Rightarrow> dbgcl \<Rightarrow> (errno \<times> dbgcl) option" where
  "debugadd_class mem fd path rv p =
     (if d_help p \<and> begins path (d_path p)
      then (case d_fds p of
              None \<Rightarrow> None
            | Some fds \<Rightarrow>
                let rv = (if rv = EINVAL then EEXIST else rv)
                in if fd \<in> set fds then Some (rv, p)
                   else if length fds \<ge> d_maxfds p
                   then (if mem then Some (if rv \<noteq> ENOMEM then EOK else rv,
                                           p\<lparr>d_maxfds := d_maxfds p + DBGCLSTEP, d_fds := Some (fds @ [fd])\<rparr>)
                         else Some (ENOMEM, p\<lparr>d_fds := (if fds = [] then Some [] else None)\<rparr>))
                   else Some (if rv \<noteq> ENOMEM then EOK else rv, p\<lparr>d_fds := Some (fds @ [fd])\<rparr>))
      else Some (rv, p))"

fun class_loop :: "(errno \<Rightarrow> dbgcl \<Rightarrow> (errno \<times> dbgcl) option) \<Rightarrow> errno \<Rightarrow> dbgcl list \<Rightarrow> (errno \<times> dbgcl list) option" where
  "class_loop f rv [] = Some (rv, [])"
| "class_loop f rv (p # ps) =
     (case f rv p of
        None \<Rightarrow> None
      | Some (rv', p') \<Rightarrow> (case class_loop f rv' ps of None \<Rightarrow> None | Some (rv'', ps') \<Rightarrow> Some (rv'', p' # ps')))"

definition debugadd :: "bool \<Rightarrow> fd \<Rightarrow> string \<Rightarrow> dbgcl list \<Rightarrow> (errno \<times> dbgcl list) option" where
  "debugadd mem fd path = class_loop (debugadd_class mem fd path) EINVAL"

text \<open>Deleting puts the last subscriber in the place of the one deleted.\<close>

fun index_of :: "'a \<Rightarrow> 'a list \<Rightarrow> nat" where
  "index_of x [] = 0"
| "index_of x (y # ys) = (if x = y then 0 else Suc (index_of x ys))"

definition swap_delete :: "nat \<Rightarrow> 'a list \<Rightarrow> 'a list" where
  "swap_delete i xs = butlast (xs[i := last xs])"

definition debugdel_class :: "fd \<Rightarrow> string \<Rightarrow> errno \<Rightarrow> dbgcl \<Rightarrow> (errno \<times> dbgcl) option" where
  "debugdel_class fd path rv p =
     (if begins path (d_path p)
      then (case d_fds p of
              None \<Rightarrow> None
            | Some fds \<Rightarrow>
                let rv = (if rv = EINVAL then ENOENT else rv)
                in if fd \<in> set fds then Some (EOK, p\<lparr>d_fds := Some (swap_delete (index_of fd fds) fds)\<rparr>)
                   else Some (rv, p))
      else Some (rv, p))"

definition debugdel :: "fd \<Rightarrow> string \<Rightarrow> dbgcl list \<Rightarrow> (errno \<times> dbgcl list) option" where
  "debugdel fd path = class_loop (debugdel_class fd path) EINVAL"

text \<open>
  Callbacks of plugins. Functions and arguments are addresses. The array of functions is
  allocated with the size of that many \<open>int\<close>s, half of what the pointers need; \<open>junk\<close> is what the new
  memory for the arguments holds. \<open>None\<close>: a write behind the array. (Allocations succeed.)
\<close>

definition eventadd_class :: "(nat \<Rightarrow> nat) \<Rightarrow> nat \<Rightarrow> string \<Rightarrow> nat \<Rightarrow> errno \<Rightarrow> dbgcl \<Rightarrow> (errno \<times> dbgcl) option" where
  "eventadd_class junk fn path arg rv p =
     (if begins path (d_path p)
      then let rv = (if rv = EINVAL then EEXIST else rv); i = length (d_fun p)
           in if fn \<in> set (d_fun p) then Some (rv, p)
              else let grow = (i \<ge> d_maxfun p);
                       m = (if grow then d_maxfun p + DBGCLSTEP else d_maxfun p);
                       args = (if grow then d_funarg p @ map junk [d_maxfun p..<m] else d_funarg p)
                   in if 8 * (i + 1) > 4 * m then None
                      else Some (if rv \<noteq> ENOMEM then EOK else rv,
                             p\<lparr>d_maxfun := m, d_fun := d_fun p @ [fn],
                               d_funarg := (if grow then args[i := arg] else args)\<rparr>)
      else Some (rv, p))"

definition eventadd :: "(nat \<Rightarrow> nat) \<Rightarrow> nat \<Rightarrow> string \<Rightarrow> nat \<Rightarrow> dbgcl list \<Rightarrow> (errno \<times> dbgcl list) option" where
  "eventadd junk fn path arg = class_loop (eventadd_class junk fn path arg) EINVAL"

fun event_index :: "nat \<Rightarrow> nat \<Rightarrow> nat list \<Rightarrow> nat list \<Rightarrow> nat" where
  "event_index fn arg (f # fs) (a # as) = (if f \<noteq> fn \<and> a \<noteq> arg then Suc (event_index fn arg fs as) else 0)"
| "event_index fn arg _ _ = 0"

definition eventdel_class :: "nat \<Rightarrow> string \<Rightarrow> nat \<Rightarrow> errno \<Rightarrow> dbgcl \<Rightarrow> (errno \<times> dbgcl) option" where
  "eventdel_class fn path arg rv p =
     (if begins path (d_path p)
      then let rv = (if rv = EINVAL then ENOENT else rv); i = event_index fn arg (d_fun p) (d_funarg p)
           in if i < length (d_fun p) then Some (EOK, p\<lparr>d_fun := swap_delete i (d_fun p)\<rparr>) else Some (rv, p)
      else Some (rv, p))"

definition eventdel :: "nat \<Rightarrow> string \<Rightarrow> nat \<Rightarrow> dbgcl list \<Rightarrow> (errno \<times> dbgcl list) option" where
  "eventdel fn path arg = class_loop (eventdel_class fn path arg) EINVAL"

section \<open>The interpreter\<close>

text \<open>
  The state of the console: the switch, the debug classes, what has been done with descriptors
  (\<open>Exited\<close>: \<open>exit\<close> was called) and whether memory was accessed outside its bounds.
\<close>

datatype con_event = Written fd string | Added fd | Removed fd | Exited

record console =
  con_switch :: switch
  con_dbg :: "dbgcl list"
  con_out :: "con_event list"
  con_fault :: bool

definition con_emit :: "con_event list \<Rightarrow> console \<Rightarrow> console" where
  "con_emit es st = st\<lparr>con_out := con_out st @ es\<rparr>"

text \<open>
  What the interpreter uses of its surroundings: the C library and the file system, the
  commands that only print (their result and their text), the plugin commands (their result,
  and what loading or unloading a plugin does to the callbacks of the debug classes)
  and whether allocations succeed.
\<close>

record cenv =
  strerror :: "int \<Rightarrow> string"
  fopen :: "string \<Rightarrow> int + string"
  getpwnam_uid :: "string \<Rightarrow> int option"
  getgrnam_gid :: "string \<Rightarrow> int option"
  print_cmd :: "doit \<Rightarrow> string \<Rightarrow> fd \<Rightarrow> console \<Rightarrow> int \<times> string"
  plugin_cmd :: "doit \<Rightarrow> string \<Rightarrow> dbgcl list \<Rightarrow> int \<times> dbgcl list"
  alloc_ok :: bool
  package_version :: string

fun errno_code :: "errno \<Rightarrow> int" where
  "errno_code EOK = 0"
| "errno_code EPERM = 1"
| "errno_code ENOENT = 2"
| "errno_code ENXIO = 6"
| "errno_code EBADF = 9"
| "errno_code ENOMEM = 12"
| "errno_code EEXIST = 17"
| "errno_code ENODEV = 19"
| "errno_code EINVAL = 22"
| "errno_code ENOSPC = 28"
| "errno_code ENOSYS = 38"
| "errno_code EADDRINUSE = 98"


fun decimal :: "nat \<Rightarrow> string" where
  "decimal n = (if n < 10 then [char_of (48 + n)] else decimal (n div 10) @ [char_of (48 + n mod 10)])"

declare decimal.simps [simp del]

definition padded :: "nat \<Rightarrow> nat \<Rightarrow> string" where
  "padded w n = replicate (w - length (decimal n)) (CHR ''0'') @ decimal n"

definition newline :: char where "newline = CHR 0x0A"

datatype carg = NoArg | IntArg int | StrArg string

definition call_arg :: "u8 \<Rightarrow> string \<Rightarrow> carg option" where
  "call_arg ty inbuf =
     (let t = ty AND NOT (WITHFILE OR WITHFD)
      in if t = NOARG then Some NoArg
         else if t = INTARG then Some (IntArg (atoi inbuf))
         else if t = STRARG then Some (StrArg inbuf)
         else None)"

text \<open>The operation on the switch that a command stands for, and the value it returns.\<close>

definition command_op :: "cenv \<Rightarrow> doit \<Rightarrow> carg \<Rightarrow> operation option" where
  "command_op env d arg =
     (case arg of
        NoArg \<Rightarrow>
          (case d of
               Do_portcreateauto \<Rightarrow> Some (PortCreateauto (alloc_ok env))
             | _ \<Rightarrow> None)
      | IntArg n \<Rightarrow>
          (case d of
               Do_hash_resize \<Rightarrow> Some (HashSetsize (alloc_ok env) n)
             | Do_hash_set_gc_interval \<Rightarrow> Some (HashSetgcint n)
             | Do_hash_set_gc_expire \<Rightarrow> Some (HashSetexpire n)
             | Do_hash_set_minper \<Rightarrow> Some (HashSetminper n)
             | Do_fstpsetonoff \<Rightarrow> Some (FstpSetfstp n)
             | Do_portsetnumports \<Rightarrow> Some (PortSetnumports (alloc_ok env) (\<lambda>_ _. alloc_ok env) (\<lambda>_ _. alloc_ok env) n)
             | Do_portsethub \<Rightarrow> Some (PortSethub n)
             | Do_portcreate \<Rightarrow> Some (PortCreate (alloc_ok env) n)
             | Do_portremove \<Rightarrow> Some (PortRemove n)
             | Do_vlancreate \<Rightarrow> Some (VlanCreate (\<lambda>_. alloc_ok env) (if alloc_ok env then 7 else 0) n)
             | Do_vlanremove \<Rightarrow> Some (VlanRemove n)
             | _ \<Rightarrow> None)
      | StrArg a \<Rightarrow>
          (case d of
               Do_fstsetedge \<Rightarrow> Some (FstpSetedge a)
             | Do_fstsetbonus \<Rightarrow> Some (FstpBonus a)
             | Do_portsetvlan \<Rightarrow> Some (PortSetvlan a)
             | Do_portallocatable \<Rightarrow> Some (PortAllocatable a)
             | Do_portsetuser \<Rightarrow> Some (PortSetuser (getpwnam_uid env) a)
             | Do_portsetgroup \<Rightarrow> Some (PortSetgroup (getgrnam_gid env) a)
             | Do_epclose \<Rightarrow> Some (PortEpclose a)
             | Do_portresetcounters \<Rightarrow> Some (PortResetcounter a)
             | Do_vlanaddport \<Rightarrow> Some (VlanAddport a)
             | Do_vlandelport \<Rightarrow> Some (VlanDelport a)
             | _ \<Rightarrow> None))"

fun op_result :: "operation \<Rightarrow> switch \<Rightarrow> errno" where
  "op_result (HashSetsize mem n) sw = (case hash_resize mem n (hash sw) of None \<Rightarrow> EOK | Some (r, _) \<Rightarrow> r)"
| "op_result (HashSetgcint n) sw = fst (hash_set_gc_interval n (hash sw, timers sw))"
| "op_result (HashSetexpire n) sw = fst (hash_set_gc_expire n (hash sw))"
| "op_result (HashSetminper n) sw = fst (hash_set_minper n (hash sw))"
| "op_result (FstpSetfstp n) sw = fst (fstpsetonoff n sw)"
| "op_result (FstpSetedge arg) sw = fst (fstsetedge arg sw)"
| "op_result (FstpBonus arg) sw = fst (fstsetbonus arg sw)"
| "op_result (PortSetnumports mem memv memf n) sw = (case portsetnumports mem memv memf n sw of None \<Rightarrow> EOK | Some (r, _) \<Rightarrow> r)"
| "op_result (PortSethub n) sw = fst (portsethub n sw)"
| "op_result (PortSetvlan arg) sw = fst (portsetvlan arg sw)"
| "op_result (PortCreateauto mem) sw = fst (portcreateauto mem sw)"
| "op_result (PortCreate mem n) sw = fst (portcreate mem n sw)"
| "op_result (PortRemove n) sw = fst (portremove n sw)"
| "op_result (PortAllocatable arg) sw = fst (portallocatable arg sw)"
| "op_result (PortSetuser getpwnam arg) sw = fst (portsetuser getpwnam arg sw)"
| "op_result (PortSetgroup getgrnam arg) sw = fst (portsetgroup getgrnam arg sw)"
| "op_result (PortEpclose arg) sw = fst (epclose arg sw)"
| "op_result (PortResetcounter arg) sw = fst (portresetcounters arg sw)"
| "op_result (VlanCreate mem memfst n) sw = fst (vlancreate mem memfst n sw)"
| "op_result (VlanRemove n) sw = fst (vlanremove n sw)"
| "op_result (VlanAddport arg) sw = fst (vlanaddport arg sw)"
| "op_result (VlanDelport arg) sw = fst (vlandelport arg sw)"
| "op_result _ sw = EOK"

text \<open>The two commands that may end the program, when memory runs out.\<close>

fun op_exits :: "operation \<Rightarrow> switch \<Rightarrow> bool" where
  "op_exits (HashSetsize mem n) sw = (hash_resize mem n (hash sw) = None)"
| "op_exits (PortSetnumports mem memv memf n) sw = (portsetnumports mem memv memf n sw = None)"
| "op_exits _ sw = False"

text \<open>What two of these commands print.\<close>

fun op_text :: "operation \<Rightarrow> switch \<Rightarrow> string" where
  "op_text (PortCreateauto mem) sw =
     (let port = fst (alloc_port mem 0 sw) in if port < 0 then [] else ''Port '' @ padded 4 (nat port) @ [newline])"
| "op_text (FstpSetfstp n) sw =
     (if fst (portflag P_GETFLAG HUB_TAG sw) \<noteq> 0 then ''Can't use fstp in hub mode'' @ [newline] else [])"
| "op_text _ sw = []"

definition with_dbg :: "(errno \<times> dbgcl list) option \<Rightarrow> console \<Rightarrow> int \<times> console" where
  "with_dbg r st = (case r of None \<Rightarrow> (0, st\<lparr>con_fault := True\<rparr>) | Some (rv, ds) \<Rightarrow> (errno_code rv, st\<lparr>con_dbg := ds\<rparr>))"

text \<open>A command: its result, its text and the state. \<open>script\<close> runs a script.\<close>

definition run_doit ::
    "(fd \<Rightarrow> string \<Rightarrow> console \<Rightarrow> int \<times> console) \<Rightarrow> cenv \<Rightarrow> doit \<Rightarrow> carg \<Rightarrow> fd \<Rightarrow> console \<Rightarrow> int \<times> string \<times> console" where
  "run_doit script env d arg fd st =
     (let s = (case arg of StrArg a \<Rightarrow> a | _ \<Rightarrow> [])
      in case command_op env d arg of
           Some opn \<Rightarrow>
             if op_exits opn (con_switch st) then (0, [], con_emit [Exited] st)
             else (errno_code (op_result opn (con_switch st)), op_text opn (con_switch st),
                   st\<lparr>con_switch := perform opn (con_switch st)\<rparr>)
         | None \<Rightarrow>
             (case d of
                Do_logout \<Rightarrow> (- 1, [], st)
              | Do_shutdown \<Rightarrow> (- 2, [], st)
              | Do_runscript \<Rightarrow> (case script fd s st of (rv, st') \<Rightarrow> (rv, [], st'))
              | Do_debugadd \<Rightarrow> (case with_dbg (debugadd (alloc_ok env) fd s (con_dbg st)) st of (rv, st') \<Rightarrow> (rv, [], st'))
              | Do_debugdel \<Rightarrow> (case with_dbg (debugdel fd s (con_dbg st)) st of (rv, st') \<Rightarrow> (rv, [], st'))
              | Do_pluginadd \<Rightarrow> (case plugin_cmd env d s (con_dbg st) of (rv, ds) \<Rightarrow> (rv, [], st\<lparr>con_dbg := ds\<rparr>))
              | Do_plugindel \<Rightarrow> (case plugin_cmd env d s (con_dbg st) of (rv, ds) \<Rightarrow> (rv, [], st\<lparr>con_dbg := ds\<rparr>))
              | _ \<Rightarrow> (case print_cmd env d s fd st of (rv, text) \<Rightarrow> (rv, text, st))))"

definition reply :: "cenv \<Rightarrow> fd \<Rightarrow> string \<Rightarrow> int \<Rightarrow> console \<Rightarrow> int \<times> console" where
  "reply env fd text rv st =
     (let verdict = (if rv = 0 then ''1000 Success'' @ [newline]
                     else if rv > 0 then ''1'' @ padded 3 (nat rv) @ '' '' @ strerror env rv @ [newline]
                     else [])
      in (rv, if fd \<ge> 0 then con_emit [Written fd (text @ verdict)] st else st))"

definition handle_cmd_with ::
    "(fd \<Rightarrow> string \<Rightarrow> console \<Rightarrow> int \<times> console) \<Rightarrow> cenv \<Rightarrow> comlist list \<Rightarrow> fd \<Rightarrow> string \<Rightarrow> console \<Rightarrow> int \<times> console" where
  "handle_cmd_with script env cls fd inbuf st =
     (let line = skip_blanks inbuf
      in if line = [] \<or> hd line = CHR ''#'' then (errno_code ENOSYS, st)
         else
           (case find_command cls line of
              None \<Rightarrow> reply env fd [] (errno_code ENOSYS) st
            | Some p \<Rightarrow>
                let arg = skip_blanks (drop (length (cl_path p)) line); ty = cl_type p;
                    frame = (\<lambda>text. if ty AND WITHFILE \<noteq> 0
                                     then ''0000 DATA END WITH '' @ [CHR 0x27] @ ''.'' @ [CHR 0x27] @ [newline] @ text @ ''.'' @ [newline]
                                     else [])
                in if ty AND WITHFD \<noteq> 0 \<and> fd < 0 then reply env fd [] (errno_code EBADF) st
                   else (case call_arg ty arg of
                           None \<Rightarrow> reply env fd (frame []) (errno_code ENOSYS) st
                         | Some a \<Rightarrow>
                             (case run_doit script env (the (cl_doit p)) a fd st of
                                (rv, text, st') \<Rightarrow> reply env fd (frame text) rv st'))))"













section \<open>Connections\<close>




text \<open>Forgetting a connection: its debug subscriptions end before the descriptor is closed.\<close>

definition hang_up :: "fd \<Rightarrow> console \<Rightarrow> console" where
  "hang_up fd st = con_emit [Removed fd] (snd (with_dbg (debugdel fd [] (con_dbg st)) st))"


section \<open>Properties\<close>

definition blank :: "char \<Rightarrow> bool" where
  "blank c \<longleftrightarrow> c = CHR '' '' \<or> c = CHR 0x09"

lemma table_paths:
  "list_all (\<lambda>c. list_all (\<lambda>x. \<not> blank x \<and> x \<noteq> CHR ''#'') (cl_path c) \<and> cl_path c \<noteq> []) command_table"
  by code_simp

lemma table_first:
  "list_all (\<lambda>c. cl_doit c = None \<or> find_command command_table (cl_path c) = Some c) command_table"
  by code_simp

lemma begins_word:
  assumes "list_all (\<lambda>x. \<not> blank x) p" and r: "r = [] \<or> blank (hd r)"
  shows "begins p (q @ r) \<longleftrightarrow> begins p q"
proof (cases "length p \<le> length q")
  case False
  have "\<not> begins p (q @ r)"
  proof
    assume "begins p (q @ r)"
    then have eq: "take (length p) (q @ r) = p" by (simp add: begins_def)
    then have "length p \<le> length (q @ r)" by (metis length_take min.cobounded1 min.commute)
    then have "r \<noteq> []" using False by auto
    moreover have "p ! length q = (q @ r) ! length q" 
      using arg_cong [OF eq, of "\<lambda>l. l ! length q"] False by (simp del: take_append)
    ultimately have "p ! length q = hd r" by (simp add: hd_conv_nth nth_append)
    moreover have "p ! length q \<in> set p" using False by simp
    ultimately show False using assms \<open>r \<noteq> []\<close> by (auto simp: list_all_iff)
  qed
  moreover have "\<not> begins p q" using False by (auto simp: begins_def)
  ultimately show ?thesis by simp
qed (simp add: begins_def)

lemma find_command_word:
  assumes "c \<in> set command_table" and "cl_doit c \<noteq> None" and r: "r = [] \<or> blank (hd r)"
  shows "find_command command_table (cl_path c @ r) = Some c"
proof -
  have "find_command command_table (cl_path c @ r) = find_command command_table (cl_path c)"
    unfolding find_command_def
    by (rule find_cong) (use begins_word [OF _ r] table_paths in \<open>auto simp: list_all_iff\<close>)
  then show ?thesis using assms table_first by (auto simp: list_all_iff)
qed

lemma skip_blanks_word:
  assumes "\<forall>x \<in> set bs. blank x" and "p \<noteq> []" and "\<not> blank (hd p)"
  shows "skip_blanks (bs @ p @ r) = p @ r"
  using assms by (cases p) (auto simp: skip_blanks_def blank_def dropWhile_append1 dropWhile_eq_Nil_conv dropWhile_append)

lemma con_emit_switch [simp]: "con_switch (con_emit es st) = con_switch st"
  by (simp add: con_emit_def)

lemma reply_switch [simp]: "con_switch (snd (reply env fd text rv st)) = con_switch st"
  by (simp add: reply_def Let_def)

lemma with_dbg_switch [simp]: "con_switch (snd (with_dbg r st)) = con_switch st"
  by (simp add: with_dbg_def split: option.split)

lemma hang_up_switch [simp]: "con_switch (hang_up fd st) = con_switch st"
  by (simp add: hang_up_def)

lemma op_exits_perform: "op_exits opn sw \<Longrightarrow> perform opn sw = sw"
  by (cases opn) (auto split: option.splits)

lemma run_doit_switch:
  assumes "d \<noteq> Do_runscript"
  shows "con_switch (snd (snd (run_doit script env d a fd st))) =
    (case command_op env d a of None \<Rightarrow> con_switch st | Some opn \<Rightarrow> perform opn (con_switch st))"
proof (cases "command_op env d a")
  case (Some opn) then show ?thesis by (simp add: run_doit_def Let_def op_exits_perform)
next
  case None
  then show ?thesis using assms by (cases d) (simp_all add: run_doit_def Let_def split_beta)
qed

text \<open>
  C8: a command line that begins with the path of a command, after blanks and followed by a blank
  or the end, runs that command and no other, although the interpreter takes the first entry
  whose path begins the line: no path hides a later one in the order in which the modules
  register them. What follows the path, without its leading blanks, is the argument, and what
  the command does to the switch is the operation it stands for.
\<close>

theorem console_finds_command:
  assumes "c \<in> set command_table" and "cl_doit c = Some d" and "\<forall>x \<in> set bs. blank x" and "r = [] \<or> blank (hd r)"
    and "0 \<le> fd" and "call_arg (cl_type c) (skip_blanks r) = Some a"
  shows "handle_cmd_with script env command_table fd (bs @ cl_path c @ r) st =
      (case run_doit script env d a fd st of (rv, text, st') \<Rightarrow>
         reply env fd (if cl_type c AND WITHFILE \<noteq> 0
                       then ''0000 DATA END WITH '' @ [CHR 0x27] @ ''.'' @ [CHR 0x27] @ [newline] @ text @ ''.'' @ [newline]
                       else []) rv st') \<and>
    (d \<noteq> Do_runscript \<longrightarrow>
       con_switch (snd (handle_cmd_with script env command_table fd (bs @ cl_path c @ r) st)) =
         (case command_op env d a of None \<Rightarrow> con_switch st | Some opn \<Rightarrow> perform opn (con_switch st)))"
proof -
  have p: "cl_path c \<noteq> []" "\<not> blank (hd (cl_path c))" "hd (cl_path c) \<noteq> CHR ''#''"
    using table_paths assms(1) by (auto simp: list_all_iff)
  have s: "skip_blanks (bs @ cl_path c @ r) = cl_path c @ r" by (rule skip_blanks_word [OF assms(3) p(1,2)])
  have f: "find_command command_table (cl_path c @ r) = Some c" using assms by (intro find_command_word) auto
  show ?thesis
    using p assms(2,5,6) run_doit_switch [of d script env a fd st]
    by (simp add: handle_cmd_with_def s f Let_def split_beta)
qed

definition quiet_env :: cenv where
  "quiet_env = \<lparr>strerror = (\<lambda>_. ''error''), fopen = (\<lambda>_. Inl 2), getpwnam_uid = (\<lambda>_. None), getgrnam_gid = (\<lambda>_. None),
     print_cmd = (\<lambda>_ _ _ _. (0, [])), plugin_cmd = (\<lambda>_ _ ds. (2, ds)), alloc_ok = True, package_version = ''2''\<rparr>"

definition console_of :: "switch \<Rightarrow> console" where
  "console_of sw = \<lparr>con_switch = sw, con_dbg = dbg_table, con_out = [], con_fault = False\<rparr>"

theorem console_finds_command_witness:
  "con_switch (snd (handle_cmd_with (\<lambda>_ _ st. (24, st)) quiet_env command_table 4 ''  port/createauto '' (console_of (switch_zero [] [])))) =
     perform (PortCreateauto True) (switch_zero [] [])"
proof -
  let ?c = "cmd ''port/createauto'' Do_portcreateauto (NOARG OR WITHFILE)"
  have c: "?c \<in> set command_table" by (simp add: command_table_def port_cl_def)
  have a: "call_arg (cl_type ?c) (skip_blanks '' '') = Some NoArg" by code_simp
  have l: "cl_doit ?c = Some Do_portcreateauto" "\<forall>x \<in> set ''  ''. blank x" "'' '' = [] \<or> blank (hd '' '')" "(0::fd) \<le> 4"
    "''  '' @ cl_path ?c @ '' '' = ''  port/createauto ''"
    by (simp_all add: cmd_def blank_def)
  have opn: "command_op quiet_env Do_portcreateauto NoArg = Some (PortCreateauto True)"
    by (simp add: command_op_def quiet_env_def)
  show ?thesis
    using console_finds_command [OF c l(1-4) a, of "\<lambda>_ _ st. (24, st)" quiet_env "console_of (switch_zero [] [])", THEN conjunct2]
    unfolding l(5) opn by (simp add: console_of_def)
qed












definition subs :: "dbgcl \<Rightarrow> fd set" where
  "subs p = set (the (d_fds p))"

definition dbg_ok :: "dbgcl list \<Rightarrow> bool" where
  "dbg_ok ds \<longleftrightarrow> (\<forall>p \<in> set ds. \<exists>fds. d_fds p = Some fds \<and> distinct fds)"

lemma index_of_less: "x \<in> set xs \<Longrightarrow> index_of x xs < length xs \<and> xs ! index_of x xs = x"
  by (induction xs) auto

lemma swap_delete_set:
  assumes "distinct xs" and "i < length xs"
  shows "set (swap_delete i xs) = set xs - {xs ! i}" and "distinct (swap_delete i xs)"
proof -
  obtain ys z where xs: "xs = ys @ [z]" using assms(2) by (cases xs rule: rev_cases) auto
  have "swap_delete i xs = (if i = length ys then ys else ys[i := z])"
    using assms(2) by (auto simp: swap_delete_def xs list_update_append)
  then show "set (swap_delete i xs) = set xs - {xs ! i}" and "distinct (swap_delete i xs)"
    using assms by (auto simp: xs nth_append set_update_distinct distinct_list_update split: if_splits)
qed

lemma class_loop_status:
  assumes "\<And>rv p. p \<in> set ds \<Longrightarrow> rv \<noteq> ENOMEM \<Longrightarrow>
      f rv p = Some (if m p then (if hit p then EOK else if rv = EINVAL then e else rv) else rv, h p)"
    and "e \<noteq> ENOMEM" and "e \<noteq> EINVAL" and "rv \<noteq> ENOMEM"
  shows "class_loop f rv ds = Some
    (if \<exists>p \<in> set ds. m p \<and> hit p then EOK else if rv = EINVAL \<and> (\<exists>p \<in> set ds. m p) then e else rv, map h ds)"
  using assms
proof (induction ds arbitrary: rv)
  case (Cons p ds)
  define r where "r = (if m p then (if hit p then EOK else if rv = EINVAL then e else rv) else rv)"
  have "f rv p = Some (r, h p)" "r \<noteq> ENOMEM" using Cons.prems by (auto simp: r_def)
  moreover have "class_loop f r ds = Some
      (if \<exists>p \<in> set ds. m p \<and> hit p then EOK else if r = EINVAL \<and> (\<exists>p \<in> set ds. m p) then e else r, map h ds)"
    using Cons.prems \<open>r \<noteq> ENOMEM\<close> by (intro Cons.IH) auto
  ultimately have "class_loop f rv (p # ds) = Some
      (if \<exists>p \<in> set ds. m p \<and> hit p then EOK else if r = EINVAL \<and> (\<exists>p \<in> set ds. m p) then e else r, map h (p # ds))"
    by simp
  also have "(if \<exists>p \<in> set ds. m p \<and> hit p then EOK else if r = EINVAL \<and> (\<exists>p \<in> set ds. m p) then e else r) =
      (if \<exists>p \<in> set (p # ds). m p \<and> hit p then EOK else if rv = EINVAL \<and> (\<exists>p \<in> set (p # ds). m p) then e else rv)"
    using Cons.prems(3) unfolding r_def by (cases "m p"; cases "hit p"; cases "rv = EINVAL") auto
  finally show ?case .
qed simp

definition wants :: "string \<Rightarrow> dbgcl \<Rightarrow> bool" where
  "wants path p \<longleftrightarrow> d_help p \<and> begins path (d_path p)"

definition add_sub :: "fd \<Rightarrow> string \<Rightarrow> dbgcl \<Rightarrow> dbgcl" where
  "add_sub fd path p =
     (if wants path p \<and> fd \<notin> subs p
      then (if d_maxfds p \<le> length (the (d_fds p)) then p\<lparr>d_maxfds := d_maxfds p + DBGCLSTEP\<rparr> else p)
             \<lparr>d_fds := Some (the (d_fds p) @ [fd])\<rparr>
      else p)"

definition del_sub :: "fd \<Rightarrow> string \<Rightarrow> dbgcl \<Rightarrow> dbgcl" where
  "del_sub fd path p =
     (if begins path (d_path p) \<and> fd \<in> subs p
      then p\<lparr>d_fds := Some (swap_delete (index_of fd (the (d_fds p))) (the (d_fds p)))\<rparr> else p)"

lemma debugadd_eq:
  assumes "dbg_ok ds"
  shows "debugadd True fd path ds = Some
    (if \<exists>p \<in> set ds. wants path p \<and> fd \<notin> subs p then EOK else if \<exists>p \<in> set ds. wants path p then EEXIST else EINVAL,
     map (add_sub fd path) ds)"
  unfolding debugadd_def
  by (subst class_loop_status [where m = "wants path" and hit = "\<lambda>p. fd \<notin> subs p" and e = EEXIST and h = "add_sub fd path"])
    (use assms in \<open>auto simp: debugadd_class_def wants_def subs_def add_sub_def dbg_ok_def Let_def\<close>)

lemma debugdel_eq:
  assumes "dbg_ok ds"
  shows "debugdel fd path ds = Some
    (if \<exists>p \<in> set ds. begins path (d_path p) \<and> fd \<in> subs p then EOK
     else if \<exists>p \<in> set ds. begins path (d_path p) then ENOENT else EINVAL,
     map (del_sub fd path) ds)"
  unfolding debugdel_def
  by (subst class_loop_status [where m = "\<lambda>p. begins path (d_path p)" and hit = "\<lambda>p. fd \<in> subs p" and e = ENOENT
        and h = "del_sub fd path"])
    (use assms in \<open>auto simp: debugdel_class_def subs_def del_sub_def dbg_ok_def Let_def\<close>)

lemma add_sub_subs: "subs (add_sub fd path p) = (if wants path p then insert fd (subs p) else subs p)"
  by (auto simp: add_sub_def subs_def)

lemma del_sub_subs:
  assumes "d_fds p = Some fds" and "distinct fds"
  shows "subs (del_sub fd path p) = (if begins path (d_path p) then subs p - {fd} else subs p)"
  using assms swap_delete_set(1) [OF assms(2)] index_of_less [of fd fds] by (auto simp: del_sub_def subs_def)

lemma subs_ok:
  assumes "dbg_ok ds"
  shows "dbg_ok (map (add_sub fd path) ds)" and "dbg_ok (map (del_sub fd path) ds)"
proof -
  have "\<exists>fds. d_fds (add_sub fd path p) = Some fds \<and> distinct fds"
    and "\<exists>fds. d_fds (del_sub fd path p) = Some fds \<and> distinct fds" if "p \<in> set ds" for p
  proof -
    obtain fds where p: "d_fds p = Some fds" "distinct fds" using assms \<open>p \<in> set ds\<close> by (auto simp: dbg_ok_def)
    show "\<exists>fds. d_fds (add_sub fd path p) = Some fds \<and> distinct fds" using p by (auto simp: add_sub_def subs_def)
    show "\<exists>fds. d_fds (del_sub fd path p) = Some fds \<and> distinct fds"
      using p swap_delete_set(2) [OF p(2)] index_of_less [of fd fds] by (auto simp: del_sub_def subs_def)
  qed
  then show "dbg_ok (map (add_sub fd path) ds)" and "dbg_ok (map (del_sub fd path) ds)" by (auto simp: dbg_ok_def)
qed

lemma begins_Nil [simp]: "begins [] s"
  by (simp add: begins_def)

text \<open>
  Debug subscriptions are a set for every class. While memory lasts, \<open>debug/add\<close> adds the connection to
  the classes with a description whose path begins with the argument and \<open>debug/del\<close> removes
  it from all whose path does, with the results the comments of the code promise: \<open>EINVAL\<close> when
  no class matches, \<open>EEXIST\<close> or \<open>ENOENT\<close> when nothing had to be done. A connection that ends is in no class when its
  descriptor is closed, and the other subscribers stay.
\<close>

theorem debug_subscriptions:
  assumes "dbg_ok (con_dbg st)"
  shows "(\<exists>ds. debugadd True fd path (con_dbg st) = Some
        (if \<exists>p \<in> set (con_dbg st). wants path p \<and> fd \<notin> subs p then EOK
         else if \<exists>p \<in> set (con_dbg st). wants path p then EEXIST else EINVAL, ds) \<and>
      dbg_ok ds \<and> map subs ds = map (\<lambda>p. if wants path p then insert fd (subs p) else subs p) (con_dbg st)) \<and>
    (\<exists>ds. debugdel fd path (con_dbg st) = Some
        (if \<exists>p \<in> set (con_dbg st). begins path (d_path p) \<and> fd \<in> subs p then EOK
         else if \<exists>p \<in> set (con_dbg st). begins path (d_path p) then ENOENT else EINVAL, ds) \<and>
      dbg_ok ds \<and> map subs ds = map (\<lambda>p. if begins path (d_path p) then subs p - {fd} else subs p) (con_dbg st)) \<and>
    (con_fault (hang_up fd st) = con_fault st \<and> dbg_ok (con_dbg (hang_up fd st)) \<and>
      map subs (con_dbg (hang_up fd st)) = map (\<lambda>p. subs p - {fd}) (con_dbg st) \<and>
      con_out (hang_up fd st) = con_out st @ [Removed fd])"
proof -
  have d: "map subs (map (del_sub fd path) (con_dbg st)) =
      map (\<lambda>p. if begins path (d_path p) then subs p - {fd} else subs p) (con_dbg st)" for path
    using assms del_sub_subs by (fastforce simp: dbg_ok_def)
  have h: "hang_up fd st = con_emit [Removed fd] (st\<lparr>con_dbg := map (del_sub fd []) (con_dbg st)\<rparr>)"
    by (simp add: hang_up_def debugdel_eq [OF assms] with_dbg_def)
  show ?thesis
    using d d [of "[]"] subs_ok [OF assms]
    unfolding debugadd_eq [OF assms] debugdel_eq [OF assms] h
    by (auto simp: add_sub_subs con_emit_def)
qed

theorem debug_subscriptions_witness:
  "map subs (con_dbg (hang_up 5 (console_of (switch_zero [] [])))) = map (\<lambda>p. subs p - {5}) dbg_table"
proof -
  have "dbg_ok (con_dbg (console_of (switch_zero [] [])))"
    by (simp add: console_of_def dbg_ok_def dbg_table_def dbg_def)
  from debug_subscriptions [OF this, of 5 "[]"] show ?thesis by (simp add: console_of_def)
qed

text \<open>The callbacks that one class has after a removal, and whether the removal found one.\<close>

definition event_found :: "nat \<Rightarrow> string \<Rightarrow> nat \<Rightarrow> dbgcl \<Rightarrow> bool" where
  "event_found fn path arg p \<longleftrightarrow> begins path (d_path p) \<and> event_index fn arg (d_fun p) (d_funarg p) < length (d_fun p)"

definition event_removed :: "nat \<Rightarrow> string \<Rightarrow> nat \<Rightarrow> dbgcl \<Rightarrow> dbgcl" where
  "event_removed fn path arg p =
     (if event_found fn path arg p then p\<lparr>d_fun := swap_delete (event_index fn arg (d_fun p) (d_funarg p)) (d_fun p)\<rparr> else p)"

lemma eventdel_map:
  "\<exists>rv'. class_loop (eventdel_class fn path arg) rv ds = Some (rv', map (event_removed fn path arg) ds) \<and>
     (rv = EOK \<or> (\<exists>p \<in> set ds. event_found fn path arg p) \<longrightarrow> rv' = EOK)"
proof (induction ds arbitrary: rv)
  case (Cons p ds)
  obtain r where r: "eventdel_class fn path arg rv p = Some (r, event_removed fn path arg p)"
    "rv = EOK \<or> event_found fn path arg p \<longrightarrow> r = EOK"
    by (cases "begins path (d_path p)"; cases "event_index fn arg (d_fun p) (d_funarg p) < length (d_fun p)")
      (simp_all add: eventdel_class_def event_removed_def event_found_def Let_def)
  then show ?case using Cons.IH [of r] by auto
qed simp

lemma swap_delete_first:
  assumes "distinct (f # fs)" and "fs \<noteq> []"
  shows "set (swap_delete 0 (f # fs)) = set fs"
  using swap_delete_set(1) [OF assms(1), of 0] assms by auto

lemma eventadd_full:
  assumes "p \<in> set ds" and "begins path (d_path p)" and "length (d_fun p) = 4" and "d_maxfun p = DBGCLSTEP" and "fn \<notin> set (d_fun p)"
  shows "class_loop (eventadd_class junk fn path arg) rv ds = None"
  using assms(1)
proof (induction ds arbitrary: rv)
  case (Cons q ds)
  have "eventadd_class junk fn path arg r p = None" for r
    using assms(2-5) by (simp add: eventadd_class_def DBGCLSTEP_def Let_def)
  then show ?case using Cons by (auto split: option.split)
qed simp

text \<open>
  C38: where the callbacks of plugins go wrong. Plugins register with the argument NULL. The search of
  \<open>eventdel\<close> stops at the first callback with the same function or the same argument: in every class in
  which another callback with that argument stands first, removing a callback removes
  the other one, reports success, and leaves the callback that was to go, in a library about to be unloaded. And no
  class can take a fifth callback: it is written behind the array, which has half the size it needs.
\<close>

theorem event_callbacks_confused:
  assumes "i < length ds" and "begins path (d_path (ds ! i))"
    and "d_fun (ds ! i) = f # fs" and "distinct (f # fs)" and "fn \<in> set fs" and "d_funarg (ds ! i) = arg # args"
    and "p \<in> set es" and "begins path (d_path p)" and "length (d_fun p) = 4" and "d_maxfun p = DBGCLSTEP" and "gn \<notin> set (d_fun p)"
  shows "(\<exists>ds'. eventdel fn path arg ds = Some (EOK, ds') \<and> set (d_fun (ds' ! i)) = set fs) \<and> fn \<in> set fs \<and> f \<notin> set fs \<and>
    eventadd junk gn path arg' es = None"
proof -
  have "f \<noteq> fn" "fs \<noteq> []" using assms(4,5) by auto
  then have z: "event_index fn arg (d_fun (ds ! i)) (d_funarg (ds ! i)) = 0" using assms(3,6) by simp
  then have found: "event_found fn path arg (ds ! i)" using assms(2,3) by (simp add: event_found_def)
  then have "set (d_fun (event_removed fn path arg (ds ! i))) = set fs"
    using z assms(3) swap_delete_first [OF assms(4) \<open>fs \<noteq> []\<close>] by (simp add: event_removed_def)
  moreover obtain rv where "eventdel fn path arg ds = Some (rv, map (event_removed fn path arg) ds)" "rv = EOK"
    using eventdel_map [of fn path arg EINVAL ds] found nth_mem [OF assms(1)] unfolding eventdel_def by blast
  moreover have "eventadd junk gn path arg' es = None" unfolding eventadd_def using assms(7-11) by (rule eventadd_full)
  ultimately show ?thesis using assms(1,4,5) by auto
qed

theorem event_callbacks_confused_witness:
  "(\<exists>ds'. eventdel 2 ''packet'' 0 [(dbg ''packet/in'' False)\<lparr>d_fun := [1, 2], d_funarg := [0, 0]\<rparr>] = Some (EOK, ds') \<and> set (d_fun (ds' ! 0)) = {2}) \<and>
   eventadd (\<lambda>_. 0) 5 ''packet'' 0 [(dbg ''packet/in'' False)\<lparr>d_fun := [1, 2, 3, 4], d_funarg := replicate 8 0, d_maxfun := 8\<rparr>] = None"
  using event_callbacks_confused [of 0 "[(dbg ''packet/in'' False)\<lparr>d_fun := [1, 2], d_funarg := [0, 0]\<rparr>]" "''packet''" 1 "[2]" 2 0 "[0]"
      "(dbg ''packet/in'' False)\<lparr>d_fun := [1, 2, 3, 4], d_funarg := replicate 8 0, d_maxfun := 8\<rparr>"
      "[(dbg ''packet/in'' False)\<lparr>d_fun := [1, 2, 3, 4], d_funarg := replicate 8 0, d_maxfun := 8\<rparr>]" 5 "\<lambda>_. 0" 0]
  by (simp add: DBGCLSTEP_def dbg_def begins_def)

text \<open>
  The list of commands. Registering appends and removing drops exactly the entries given,
  with the pointer to the end kept right, so that the linked list holds the commands in the
  order of registration; the walk ends after at most one step more than there are entries. The pointer goes wrong when the list
  becomes empty: an entry registered afterwards is not found.
\<close>

theorem command_list_refines:
  assumes "holds_list s xs"
  shows "(distinct (xs @ cl) \<longrightarrow> holds_list (addcl cl s) (xs @ cl)) \<and>
    (filter (\<lambda>x. x \<notin> set cl) xs \<noteq> [] \<longrightarrow>
       (\<exists>s'. delcl (Suc (length xs)) cl s = Some s' \<and> holds_list s' (filter (\<lambda>x. x \<notin> set cl) xs))) \<and>
    (xs = [c] \<and> b \<noteq> c \<longrightarrow> map_option (\<lambda>s. clh (addcl [b] s)) (delcl 2 [c] s) = Some None)"
proof (intro conjI impI)
  show "distinct (xs @ cl) \<Longrightarrow> holds_list (addcl cl s) (xs @ cl)" by (rule addcl_holds [OF assms])
  show "filter (\<lambda>x. x \<notin> set cl) xs \<noteq> [] \<Longrightarrow>
      \<exists>s'. delcl (Suc (length xs)) cl s = Some s' \<and> holds_list s' (filter (\<lambda>x. x \<notin> set cl) xs)"
    using delcl_holds [OF assms] by blast
  show "map_option (\<lambda>s. clh (addcl [b] s)) (delcl 2 [c] s) = Some None" if "xs = [c] \<and> b \<noteq> c"
    using assms that
    by (auto simp: holds_list_def end_link_def deref_def assign_def set_next_def numeral_2_eq_2)
qed

theorem command_list_refines_witness:
  "holds_list (addcl [1, 2, 3] clist_start) [1, 2, 3 :: nat] \<and>
   map_option (\<lambda>s. clh (addcl [7] s)) (delcl 2 [4] (addcl [4 :: nat] clist_start)) = Some None"
proof -
  have e: "holds_list (clist_start :: nat clist) []" by (simp add: holds_list_def clist_start_def deref_def end_link_def)
  have a: "holds_list (addcl [1, 2, 3] clist_start) ([] @ [1, 2, 3 :: nat])"
    using command_list_refines [OF e, of "[1, 2, 3]"] by simp
  have "holds_list (addcl [4] clist_start) [4 :: nat]" using command_list_refines [OF e, of "[4]"] by simp
  from command_list_refines [OF this, of "[]" 4 7] a show ?thesis by simp
qed

end
