(* ===== verification/Routes.thy ===== *)
theory Routes
  imports Prelude "HOL-Library.Product_Lexorder"
begin

text \<open>
  The routing table, the addresses and the packet filters of \<^verbatim>\<open>vde_router/vder_datalink.c\<close>.
  Addresses and masks are 32-bit words as they lie in memory, in network byte order; the
  machine is little-endian, so \<open>ntohl\<close> swaps bytes. Interfaces are numbered by their position
  in the list of the router; the singly linked lists of the code are lists.
\<close>

section \<open>Byte order\<close>

definition ntohl :: "u32 \<Rightarrow> u32" where
  "ntohl x = push_bit 24 (take_bit 8 x) OR push_bit 16 (take_bit 8 (drop_bit 8 x)) OR
     push_bit 8 (take_bit 8 (drop_bit 16 x)) OR drop_bit 24 x"

lemma bit_ntohl:
  assumes "n < 32"
  shows "bit (ntohl x) n = bit x (8 * (3 - n div 8) + n mod 8)"
proof -
  have hi: "\<not> bit x k" if "32 \<le> k" for k using that bit_imp_le_length [of x k] by auto
  consider "n < 8" | "8 \<le> n" "n < 16" | "16 \<le> n" "n < 24" | "24 \<le> n" by linarith
  then show ?thesis
  proof cases
    case 1
    then have "8 * (3 - n div 8) + n mod 8 = n + 24" by simp
    then show ?thesis using 1 by (auto simp: ntohl_def bit_simps add.commute)
  next
    case 2
    then have "n div 8 = 1" "n mod 8 = n - 8" by (auto simp: div_nat_eqI le_mod_geq)
    then show ?thesis using 2 hi by (auto simp: ntohl_def bit_simps)
  next
    case 3
    then have "n div 8 = 2" "n mod 8 = n - 16" by (auto simp: div_nat_eqI le_mod_geq)
    then show ?thesis using 3 hi by (auto simp: ntohl_def bit_simps)
  next
    case 4
    then have "n div 8 = 3" "n mod 8 = n - 24" using assms by (auto simp: div_nat_eqI le_mod_geq)
    then show ?thesis using 4 assms hi by (auto simp: ntohl_def bit_simps)
  qed
qed

lemma ntohl_and: "ntohl (x AND y) = ntohl x AND ntohl y"
  by (rule bit_word_eqI) (simp add: bit_ntohl bit_and_iff)

lemma ntohl_ntohl [simp]: "ntohl (ntohl x) = x"
proof (rule bit_word_eqI)
  fix n assume n: "n < LENGTH(32)"
  define m where "m = 8 * (3 - n div 8) + n mod 8"
  have d: "n div 8 \<le> 3" and m: "m < 32" "m div 8 = 3 - n div 8" "m mod 8 = n mod 8"
    using n by (auto simp: m_def)
  have "8 * (3 - m div 8) + m mod 8 = 8 * (n div 8) + n mod 8" using d m by simp
  then show "bit (ntohl (ntohl x)) n = bit x n"
    using n bit_ntohl [of n "ntohl x"] bit_ntohl [OF m(1), of x] unfolding m_def [symmetric] by simp
qed

lemma ntohl_eq_iff [simp]: "ntohl x = ntohl y \<longleftrightarrow> x = y"
  by (metis ntohl_ntohl)

section \<open>Routes\<close>

record route =
  dest_addr :: u32
  netmask :: u32
  gateway :: u32
  metric :: u16
  rt_iface :: nat

text \<open>Error numbers that the code stores in \<open>errno\<close>.\<close>

datatype rerrno = R_EHOSTUNREACH | R_EEXIST | R_EADDRINUSE | R_ENOENT | R_EINVAL

definition vder_get_route :: "u32 \<Rightarrow> route list \<Rightarrow> route option" where
  "vder_get_route address table =
     (let l_addr = ntohl address
      in find (\<lambda>cur. l_addr AND ntohl (netmask cur) = ntohl (dest_addr cur)) table)"

text \<open>The test at which the new route is put in front of \<open>cur\<close>.\<close>

definition route_before :: "route \<Rightarrow> route \<Rightarrow> bool" where
  "route_before cur ro \<longleftrightarrow>
     ntohl (netmask cur) < ntohl (netmask ro) \<or> netmask cur = netmask ro \<and> metric cur < metric ro"

fun insert_route :: "route \<Rightarrow> route list \<Rightarrow> route list" where
  "insert_route ro [] = [ro]"
| "insert_route ro (cur # rest) = (if route_before cur ro then ro # cur # rest else cur # insert_route ro rest)"

definition same_route :: "route \<Rightarrow> route \<Rightarrow> bool" where
  "same_route cur ro \<longleftrightarrow> dest_addr cur = dest_addr ro \<and> netmask cur = netmask ro \<and> metric cur = metric ro"

text \<open>
  The value returned (0 or -1), the value stored in \<open>errno\<close> if any, and the table. \<open>dst\<close> is the
  interface, if given. The variable \<open>ret\<close> is not set when the table was empty.
\<close>

definition vder_route_add ::
    "bool \<Rightarrow> u32 \<Rightarrow> u32 \<Rightarrow> u32 \<Rightarrow> u16 \<Rightarrow> nat option \<Rightarrow> route list \<Rightarrow> int \<times> rerrno option \<times> route list" where
  "vder_route_add mem address nm gw m dst table =
     (if \<not> mem then (- 1, None, table)
      else
        let l_addr = ntohl address AND ntohl nm;
            ifc = (case dst of Some i \<Rightarrow> Some i | None \<Rightarrow> map_option rt_iface (vder_get_route gw table))
        in case ifc of
             None \<Rightarrow> (- 1, Some R_EHOSTUNREACH, table)
           | Some i \<Rightarrow>
               let ro = \<lparr>dest_addr = ntohl l_addr, netmask = nm, gateway = gw, metric = m, rt_iface = i\<rparr>
               in if \<exists>cur \<in> set table. same_route cur ro then (- 1, Some R_EEXIST, table)
                  else if table = [] then (- 1, None, [ro])
                  else (0, None, insert_route ro table))"

fun delete_route :: "(route \<Rightarrow> bool) \<Rightarrow> route list \<Rightarrow> (int \<times> route list)" where
  "delete_route P [] = (- 1, [])"
| "delete_route P (cur # rest) =
     (if P cur then (0, rest) else case delete_route P rest of (r, rest') \<Rightarrow> (r, cur # rest'))"

definition vder_route_del :: "u32 \<Rightarrow> u32 \<Rightarrow> int \<Rightarrow> route list \<Rightarrow> int \<times> route list" where
  "vder_route_del address nm m =
     delete_route (\<lambda>cur. dest_addr cur = address \<and> netmask cur = nm \<and> int (unat (metric cur)) = m)"

definition vder_default_route :: "bool \<Rightarrow> u32 \<Rightarrow> int \<Rightarrow> route list \<Rightarrow> int \<times> rerrno option \<times> route list" where
  "vder_default_route mem gw m table =
     (case vder_get_route gw table of
        None \<Rightarrow> (- 22, None, table)
      | Some dst \<Rightarrow>
          if dest_addr dst = 0 \<or> gateway dst \<noteq> 0 then (- 22, None, table)
          else vder_route_add mem 0 0 gw (word_of_int m) (Some (rt_iface dst)) table)"

section \<open>Addresses\<close>

record ip4address =
  ip_address :: u32
  ip_netmask :: u32

definition vder_get_right_localip :: "ip4address list \<Rightarrow> u32 \<Rightarrow> u32" where
  "vder_get_right_localip addrs dst =
     (case find (\<lambda>cur. ip_address cur AND ip_netmask cur = dst AND ip_netmask cur) addrs of
        None \<Rightarrow> 0 | Some cur \<Rightarrow> ip_address cur)"

definition vder_get_netmask :: "ip4address list \<Rightarrow> u32 \<Rightarrow> u32" where
  "vder_get_netmask addrs localip =
     (case find (\<lambda>cur. ip_address cur = localip) addrs of None \<Rightarrow> 0 | Some cur \<Rightarrow> ip_netmask cur)"

definition vder_get_network :: "u32 \<Rightarrow> u32 \<Rightarrow> u32" where
  "vder_get_network localip nm = localip AND nm"

definition vder_get_broadcast :: "u32 \<Rightarrow> u32 \<Rightarrow> u32" where
  "vder_get_broadcast localip nm = localip OR NOT nm"

text \<open>\<open>addrs\<close> are the addresses of the interface \<open>i\<close>, \<open>table\<close> the routes of the router.\<close>

definition vder_iface_address_add ::
    "bool \<Rightarrow> bool \<Rightarrow> nat \<Rightarrow> u32 \<Rightarrow> u32 \<Rightarrow> ip4address list \<times> route list \<Rightarrow> int \<times> rerrno option \<times> ip4address list \<times> route list" where
  "vder_iface_address_add mem memrt i addr nm = (\<lambda>(addrs, table).
     if \<not> mem then (- 1, Some R_EINVAL, addrs, table)
     else if \<exists>cur \<in> set addrs. ip_address cur = addr then (- 1, Some R_EADDRINUSE, addrs, table)
     else (0, None, \<lparr>ip_address = addr, ip_netmask = nm\<rparr> # addrs,
           if addr \<noteq> - 1 then snd (snd (vder_route_add memrt addr nm 0 1 (Some i) table)) else table))"

text \<open>
  The loop of \<open>vder_iface_address_del\<close> frees the entry it has found and then reads its field \<open>next\<close>:
  \<open>None\<close> stands for this access to freed memory.
\<close>

definition vder_iface_address_del :: "u32 \<Rightarrow> ip4address list \<Rightarrow> (int \<times> rerrno) option" where
  "vder_iface_address_del addr addrs =
     (if \<exists>cur \<in> set addrs. ip_address cur = addr then None else Some (- 1, R_ENOENT))"

definition vder_ipaddress_is_local :: "u32 \<Rightarrow> ip4address list list \<Rightarrow> bool" where
  "vder_ipaddress_is_local addr ifs \<longleftrightarrow>
     (\<exists>addrs \<in> set ifs. \<exists>cur \<in> set addrs. ip_address cur = addr \<or> ip_address cur = - 1)"

definition vder_ipaddress_is_broadcast :: "u32 \<Rightarrow> ip4address list list \<Rightarrow> bool" where
  "vder_ipaddress_is_broadcast addr ifs \<longleftrightarrow>
     addr = - 1 \<or>
     (\<exists>addrs \<in> set ifs. \<exists>cur \<in> set addrs.
        ip_address cur AND ip_netmask cur = addr AND ip_netmask cur \<and> ip_netmask cur OR addr = 0xFFFFFFFF)"

section \<open>The table is sorted and finds the longest prefix\<close>

definition rank :: "route \<Rightarrow> u32 \<times> u16" where
  "rank r = (ntohl (netmask r), metric r)"

definition rt_matches :: "u32 \<Rightarrow> route \<Rightarrow> bool" where
  "rt_matches a r \<longleftrightarrow> a AND netmask r = dest_addr r"

definition rkey :: "route \<Rightarrow> u32 \<times> u32 \<times> u16" where
  "rkey r = (dest_addr r, netmask r, metric r)"

lemma same_route_rkey: "same_route cur ro \<longleftrightarrow> rkey ro = rkey cur"
  by (auto simp: same_route_def rkey_def)

definition routes_ok :: "route list \<Rightarrow> bool" where
  "routes_ok table \<longleftrightarrow> sorted_wrt (\<lambda>a b. rank b \<le> rank a) table \<and>
     (\<forall>r \<in> set table. dest_addr r AND netmask r = dest_addr r) \<and> distinct (map rkey table)"

lemma route_before_rank: "route_before cur ro \<longleftrightarrow> rank cur < rank ro"
  by (auto simp: route_before_def rank_def less_prod_def)

lemma vder_get_route_matches: "vder_get_route a table = find (rt_matches a) table"
  by (simp add: vder_get_route_def rt_matches_def [abs_def] Let_def flip: ntohl_and)

lemma set_insert_route [simp]: "set (insert_route ro table) = insert ro (set table)"
  by (induction table) auto

lemma sorted_insert_route:
  "sorted_wrt (\<lambda>a b. rank b \<le> rank a) table \<Longrightarrow> sorted_wrt (\<lambda>a b. rank b \<le> rank a) (insert_route ro table)"
  by (induction table) (auto simp: route_before_rank intro: less_imp_le order_trans)

lemma distinct_insert_route:
  "distinct (map f table) \<Longrightarrow> f ro \<notin> f ` set table \<Longrightarrow> distinct (map f (insert_route ro table))"
  by (induction table) auto

lemma insert_route_ok:
  assumes "routes_ok table" and "dest_addr ro AND netmask ro = dest_addr ro" and "\<not> (\<exists>cur \<in> set table. same_route cur ro)"
  shows "routes_ok (insert_route ro table)"
  using assms sorted_insert_route [of table ro]
    distinct_insert_route [of rkey table ro]
  by (auto simp: routes_ok_def same_route_rkey image_iff)

lemma route_add_ok:
  assumes "routes_ok table"
  shows "routes_ok (snd (snd (vder_route_add mem address nm gw m dst table)))"
proof -
  have d: "ntohl (ntohl address AND ntohl nm) = address AND nm" by (simp add: ntohl_and)
  have "routes_ok (insert_route ro table)"
    if "ro = \<lparr>dest_addr = address AND nm, netmask = nm, gateway = gw, metric = m, rt_iface = i\<rparr>"
      "\<not> (\<exists>cur \<in> set table. same_route cur ro)" for ro i
    using that by (intro insert_route_ok [OF assms]) (auto simp: and.assoc)
  moreover have "[ro] = insert_route ro []" for ro by simp
  ultimately show ?thesis
    using assms by (auto simp: vder_route_add_def d Let_def split: option.splits simp del: insert_route.simps)
qed

lemma set_delete_route: "set (snd (delete_route P table)) \<subseteq> set table"
  by (induction table) (auto split: prod.splits)

lemma snd_delete_route_Cons:
  "snd (delete_route P (cur # rest)) = (if P cur then rest else cur # snd (delete_route P rest))"
  by (simp split: prod.split)

lemma delete_route_ok: "routes_ok table \<Longrightarrow> routes_ok (snd (delete_route P table))"
proof (induction table)
  case (Cons r table)
  then have "routes_ok (snd (delete_route P table))" by (simp add: routes_ok_def)
  then show ?case using Cons.prems set_delete_route [of P table]
    unfolding routes_ok_def snd_delete_route_Cons by auto
qed simp

text \<open>The masks of networks: \<open>k\<close> ones and then zeros.\<close>

definition prefix_mask :: "nat \<Rightarrow> u32" where
  "prefix_mask k = push_bit (32 - k) (- 1)"

lemma prefix_mask_less: "k < l \<Longrightarrow> l \<le> 32 \<Longrightarrow> prefix_mask k < prefix_mask l"
proof (induction l)
  case (Suc l)
  have "\<forall>l \<in> set [0..<32]. prefix_mask l < prefix_mask (Suc l)" by code_simp
  then have "prefix_mask l < prefix_mask (Suc l)" using Suc.prems by simp
  then show ?case using Suc less_trans by (cases "k = l") auto
qed simp

text \<open>
  C18: routing. The operations keep the table sorted by mask and metric, with network addresses
  only and no entry twice. In such a table the route found for an address matches it, none is
  found only if none matches, and no matching route has a larger mask: for network masks it is the
  longest prefix. Among routes with the same mask the one with the largest metric is found, not
  the smallest.
\<close>

theorem longest_prefix_route:
  assumes "routes_ok table"
  shows "routes_ok (snd (snd (vder_route_add mem address nm gw m dst table))) \<and>
    routes_ok (snd (vder_route_del address nm mm table)) \<and>
    routes_ok (snd (snd (vder_default_route mem gw mm table))) \<and>
    routes_ok (snd (snd (snd (vder_iface_address_add mem memrt i address nm (addrs, table))))) \<and>
    (case vder_get_route a table of
       None \<Rightarrow> \<not> (\<exists>r \<in> set table. rt_matches a r)
     | Some r \<Rightarrow> r \<in> set table \<and> rt_matches a r \<and>
         (\<forall>s \<in> set table. rt_matches a s \<longrightarrow>
            ntohl (netmask s) \<le> ntohl (netmask r) \<and> (netmask s = netmask r \<longrightarrow> metric s \<le> metric r) \<and>
            (\<forall>k l. k \<le> 32 \<and> ntohl (netmask r) = prefix_mask k \<and> l \<le> 32 \<and> ntohl (netmask s) = prefix_mask l \<longrightarrow> l \<le> k)))"
proof (intro conjI)
  show "routes_ok (snd (snd (vder_route_add mem address nm gw m dst table)))" by (rule route_add_ok [OF assms])
  show "routes_ok (snd (vder_route_del address nm mm table))"
    unfolding vder_route_del_def by (rule delete_route_ok [OF assms])
  show "routes_ok (snd (snd (vder_default_route mem gw mm table)))"
    using assms by (simp add: vder_default_route_def route_add_ok split: option.split)
  show "routes_ok (snd (snd (snd (vder_iface_address_add mem memrt i address nm (addrs, table)))))"
    using assms by (simp add: vder_iface_address_add_def route_add_ok)
  have best: "ntohl (netmask s) \<le> ntohl (netmask r) \<and> (netmask s = netmask r \<longrightarrow> metric s \<le> metric r)"
    if f: "find (rt_matches a) table = Some r" and s: "s \<in> set table" "rt_matches a s" for r s
  proof -
    obtain j where j: "j < length table" "r = table ! j" "\<forall>i < j. \<not> rt_matches a (table ! i)"
      using f unfolding find_Some_iff by blast
    obtain k where k: "k < length table" "s = table ! k" using s(1) by (auto simp: in_set_conv_nth)
    have "j = k \<or> j < k" using j(3) k s(2) by (metis linorder_neqE_nat)
    then have "rank s \<le> rank r"
      using assms j k by (auto simp: routes_ok_def sorted_wrt_iff_nth_less)
    then show ?thesis by (auto simp: rank_def less_eq_prod_def)
  qed
  have longer: "l \<le> k" if "prefix_mask l \<le> prefix_mask k" "l \<le> 32" for k l
    using that prefix_mask_less [of k l] by (metis linorder_not_le)
  show "case vder_get_route a table of
       None \<Rightarrow> \<not> (\<exists>r \<in> set table. rt_matches a r)
     | Some r \<Rightarrow> r \<in> set table \<and> rt_matches a r \<and>
         (\<forall>s \<in> set table. rt_matches a s \<longrightarrow>
            ntohl (netmask s) \<le> ntohl (netmask r) \<and> (netmask s = netmask r \<longrightarrow> metric s \<le> metric r) \<and>
            (\<forall>k l. k \<le> 32 \<and> ntohl (netmask r) = prefix_mask k \<and> l \<le> 32 \<and> ntohl (netmask s) = prefix_mask l \<longrightarrow> l \<le> k))"
  proof (cases "find (rt_matches a) table")
    case None
    then have "\<not> (\<exists>r \<in> set table. rt_matches a r)" unfolding find_None_iff by blast
    then show ?thesis using None by (simp add: vder_get_route_matches)
  next
    case (Some r)
    have "r \<in> set table" "rt_matches a r" using Some by (auto simp: find_Some_iff)
    moreover have "l \<le> k" if "s \<in> set table" "rt_matches a s" "ntohl (netmask r) = prefix_mask k" "l \<le> 32"
        "ntohl (netmask s) = prefix_mask l" for s k l
      using best [OF Some that(1,2)] that longer by simp
    ultimately show ?thesis using best [OF Some] Some by (simp add: vder_get_route_matches)
  qed
qed

definition example_routes :: "route list" where
  "example_routes = [
     \<lparr>dest_addr = 0x0001a8c0, netmask = 0x00ffffff, gateway = 0, metric = 1, rt_iface = 0\<rparr>,
     \<lparr>dest_addr = 0x0000000a, netmask = 0x000000ff, gateway = 0, metric = 1, rt_iface = 1\<rparr>,
     \<lparr>dest_addr = 0, netmask = 0, gateway = 0x0101a8c0, metric = 1, rt_iface = 0\<rparr>]"

lemma example_routes_ok: "routes_ok example_routes"
  unfolding routes_ok_def by code_simp

theorem longest_prefix_route_witness:
  "case vder_get_route 0x0501a8c0 example_routes of
     None \<Rightarrow> False
   | Some r \<Rightarrow> netmask r = 0x00ffffff \<and> (\<forall>s \<in> set example_routes. rt_matches 0x0501a8c0 s \<longrightarrow> ntohl (netmask s) \<le> ntohl (netmask r))"
proof -
  have "vder_get_route 0x0501a8c0 example_routes = Some (hd example_routes)" by code_simp
  then show ?thesis
    using longest_prefix_route [OF example_routes_ok, where a = "0x0501a8c0"] by (simp add: example_routes_def)
qed

text \<open>
  The results of changing routes and addresses. A route is refused with the table unchanged when no
  memory is left, when the gateway cannot be reached and when it is there already, and is
  inserted otherwise; inserting into an empty table returns -1 all the same. Deleting removes
  exactly the first route with the address, mask and metric given, or reports that there is none.
\<close>

theorem route_changes_reported:
  "(case vder_route_add mem address nm gw m dst table of (ret, err, table') \<Rightarrow>
     (if \<not> mem then ret = - 1 \<and> table' = table
      else if dst = None \<and> vder_get_route gw table = None then ret = - 1 \<and> err = Some R_EHOSTUNREACH \<and> table' = table
      else if \<exists>r \<in> set table. rkey r = (address AND nm, nm, m) then ret = - 1 \<and> err = Some R_EEXIST \<and> table' = table
      else err = None \<and> ret = (if table = [] then - 1 else 0) \<and>
        (\<exists>ro. rkey ro = (address AND nm, nm, m) \<and> gateway ro = gw \<and> set table' = insert ro (set table) \<and>
           length table' = Suc (length table) \<and> filter (\<lambda>r. r \<noteq> ro) table' = filter (\<lambda>r. r \<noteq> ro) table))) \<and>
   (case vder_route_del address nm (int (unat m)) table of (ret, table') \<Rightarrow>
     if \<exists>r \<in> set table. rkey r = (address, nm, m)
     then ret = 0 \<and> (\<exists>as r bs. table = as @ r # bs \<and> rkey r = (address, nm, m) \<and>
            (\<forall>a \<in> set as. rkey a \<noteq> (address, nm, m)) \<and> table' = as @ bs)
     else ret = - 1 \<and> table' = table)"
proof (rule conjI)
  have del: "case delete_route P xs of (ret, ys) \<Rightarrow>
      if \<exists>r \<in> set xs. P r
      then ret = 0 \<and> (\<exists>as r bs. xs = as @ r # bs \<and> P r \<and> (\<forall>a \<in> set as. \<not> P a) \<and> ys = as @ bs)
      else ret = - 1 \<and> ys = xs" for P xs
  proof (induction xs)
    case (Cons x xs)
    show ?case
    proof (cases "P x")
      case True then show ?thesis by (auto intro: exI [of _ "[]"])
    next
      case False
      show ?thesis
      proof (cases "\<exists>r \<in> set xs. P r")
        case True
        then obtain as r bs ys where "delete_route P xs = (0, ys)" "xs = as @ r # bs" "P r" "\<forall>a \<in> set as. \<not> P a" "ys = as @ bs"
          using Cons.IH by (auto split: prod.splits)
        then show ?thesis using False by (auto intro!: exI [of _ "x # as"])
      qed (use False Cons.IH in \<open>auto split: prod.splits\<close>)
    qed
  qed simp
  have eq: "dest_addr c = address \<and> netmask c = nm \<and> int (unat (metric c)) = int (unat m) \<longleftrightarrow> rkey c = (address, nm, m)" for c
    by (auto simp: rkey_def simp flip: word_eq_iff_unsigned)
  show "case vder_route_del address nm (int (unat m)) table of (ret, table') \<Rightarrow>
     if \<exists>r \<in> set table. rkey r = (address, nm, m)
     then ret = 0 \<and> (\<exists>as r bs. table = as @ r # bs \<and> rkey r = (address, nm, m) \<and>
            (\<forall>a \<in> set as. rkey a \<noteq> (address, nm, m)) \<and> table' = as @ bs)
     else ret = - 1 \<and> table' = table"
    unfolding vder_route_del_def eq by (rule del)
  have d: "ntohl (ntohl address AND ntohl nm) = address AND nm" by (simp add: ntohl_and)
  have len: "length (insert_route ro xs) = Suc (length xs)" "filter (\<lambda>r. r \<noteq> ro) (insert_route ro xs) = filter (\<lambda>r. r \<noteq> ro) xs" for ro xs
    by (induction xs) auto
  define ifc where "ifc = (case dst of Some i \<Rightarrow> Some i | None \<Rightarrow> map_option rt_iface (vder_get_route gw table))"
  have none: "ifc = None \<longleftrightarrow> dst = None \<and> vder_get_route gw table = None" by (auto simp: ifc_def split: option.splits)
  show "case vder_route_add mem address nm gw m dst table of (ret, err, table') \<Rightarrow>
     (if \<not> mem then ret = - 1 \<and> table' = table
      else if dst = None \<and> vder_get_route gw table = None then ret = - 1 \<and> err = Some R_EHOSTUNREACH \<and> table' = table
      else if \<exists>r \<in> set table. rkey r = (address AND nm, nm, m) then ret = - 1 \<and> err = Some R_EEXIST \<and> table' = table
      else err = None \<and> ret = (if table = [] then - 1 else 0) \<and>
        (\<exists>ro. rkey ro = (address AND nm, nm, m) \<and> gateway ro = gw \<and> set table' = insert ro (set table) \<and>
           length table' = Suc (length table) \<and> filter (\<lambda>r. r \<noteq> ro) table' = filter (\<lambda>r. r \<noteq> ro) table))"
  proof (cases "mem \<and> ifc \<noteq> None")
    case False
    then show ?thesis using none by (auto simp: vder_route_add_def Let_def ifc_def [symmetric])
  next
    case True
    then obtain i where i: "ifc = Some i" by auto
    define ro where "ro = \<lparr>dest_addr = address AND nm, netmask = nm, gateway = gw, metric = m, rt_iface = i\<rparr>"
    have k: "rkey ro = (address AND nm, nm, m)" "gateway ro = gw" by (simp_all add: ro_def rkey_def)
    have "vder_route_add mem address nm gw m dst table =
        (if \<exists>r \<in> set table. rkey r = rkey ro then (- 1, Some R_EEXIST, table)
         else (if table = [] then - 1 else 0, None, insert_route ro table))"
      using True i unfolding vder_route_add_def Let_def ifc_def [symmetric] d ro_def [symmetric] same_route_rkey
      by (auto simp: ro_def [symmetric])
    then show ?thesis using True none k len [of ro table] by (auto intro!: exI [of _ ro])
  qed
qed

theorem route_changes_reported_witness:
  "fst (vder_route_add True 0x0a 0xff 0 1 (Some 0) []) = - 1 \<and> length (snd (snd (vder_route_add True 0x0a 0xff 0 1 (Some 0) []))) = 1"
  using route_changes_reported [where mem = True and address = "0x0a" and nm = "0xff" and gw = 0 and m = 1 and dst = "Some 0" and table = "[]"] by (auto split: prod.splits)

section \<open>Packet filters\<close>

datatype filter_action = filter_accept | filter_priority | filter_reject | filter_drop | filter_invalid

record filter_rule =
  src_iface :: "nat option"
  fl_proto :: u8
  fl_saddr :: ip4address
  fl_daddr :: ip4address
  fl_sport :: u16
  fl_dport :: u16
  fl_tos :: int
  fl_action :: filter_action
  fl_priority :: u8
  stats_packets :: u32
  stats_bytes :: u32

text \<open>What a rule looks at in a packet: the interface it came from and fields of its headers.\<close>

record fpacket =
  fp_src :: nat
  fp_protocol :: u8
  fp_tos :: u8
  fp_saddr :: u32
  fp_daddr :: u32
  fp_sport :: u16
  fp_dport :: u16

text \<open>The new rule is the first. Its priority is never stored: \<open>junk\<close> is what the memory held.\<close>

definition vder_filter_add ::
    "bool \<Rightarrow> u8 \<Rightarrow> nat option \<Rightarrow> u8 \<Rightarrow> ip4address \<Rightarrow> ip4address \<Rightarrow> int \<Rightarrow> u16 \<Rightarrow> u16 \<Rightarrow> filter_action \<Rightarrow> u8 \<Rightarrow>
     filter_rule list \<Rightarrow> int \<times> filter_rule list" where
  "vder_filter_add mem junk src proto saddr daddr tos sport dport action priority table =
     (if \<not> mem then (- 1, table)
      else (0, \<lparr>src_iface = src, fl_proto = proto, fl_saddr = saddr, fl_daddr = daddr, fl_sport = sport, fl_dport = dport,
                fl_tos = tos, fl_action = action, fl_priority = junk, stats_packets = 0, stats_bytes = 0\<rparr> # table))"

text \<open>The comparison of \<open>vder_filter_del\<close>, which leaves out the protocol.\<close>

definition same_filter :: "nat option \<Rightarrow> ip4address \<Rightarrow> ip4address \<Rightarrow> int \<Rightarrow> u16 \<Rightarrow> u16 \<Rightarrow> filter_rule \<Rightarrow> bool" where
  "same_filter src saddr daddr tos sport dport f \<longleftrightarrow>
     src_iface f = src \<and> fl_saddr f = saddr \<and> fl_daddr f = daddr \<and> fl_sport f = sport \<and> fl_dport f = dport \<and> fl_tos f = tos"

fun remove_first :: "('a \<Rightarrow> bool) \<Rightarrow> 'a list \<Rightarrow> 'a list option" where
  "remove_first P [] = None"
| "remove_first P (x # xs) = (if P x then Some xs else map_option (\<lambda>ys. x # ys) (remove_first P xs))"

definition vder_filter_del ::
    "nat option \<Rightarrow> u8 \<Rightarrow> ip4address \<Rightarrow> ip4address \<Rightarrow> int \<Rightarrow> u16 \<Rightarrow> u16 \<Rightarrow> filter_rule list \<Rightarrow> int \<times> rerrno option \<times> filter_rule list" where
  "vder_filter_del src proto saddr daddr tos sport dport table =
     (case remove_first (same_filter src saddr daddr tos sport dport) table of
        Some table' \<Rightarrow> (0, None, table')
      | None \<Rightarrow> (- 1, Some R_ENOENT, table))"

definition filter_matches :: "fpacket \<Rightarrow> filter_rule \<Rightarrow> bool" where
  "filter_matches p f \<longleftrightarrow>
     (case src_iface f of None \<Rightarrow> True | Some i \<Rightarrow> i = fp_src p) \<and>
     (fl_proto f = 0 \<or> fl_proto f = fp_protocol p) \<and>
     (fl_tos f < 0 \<or> word_of_int (fl_tos f) = fp_tos p) \<and>
     (ip_address (fl_saddr f) = 0 \<or> ip_address (fl_saddr f) = ip_netmask (fl_saddr f) AND fp_saddr p) \<and>
     (ip_address (fl_daddr f) = 0 \<or> ip_address (fl_daddr f) = ip_netmask (fl_daddr f) AND fp_daddr p) \<and>
     (fl_sport f = 0 \<or> fl_sport f = fp_sport p) \<and>
     (fl_dport f = 0 \<or> fl_dport f = fp_dport p)"

text \<open>The rule that decides, with its counters increased.\<close>

fun count_filter :: "fpacket \<Rightarrow> nat \<Rightarrow> filter_rule list \<Rightarrow> filter_rule option \<times> filter_rule list" where
  "count_filter p len [] = (None, [])"
| "count_filter p len (f # fs) =
     (if filter_matches p f
      then (Some f, f\<lparr>stats_packets := stats_packets f + 1, stats_bytes := stats_bytes f + word_of_nat len\<rparr> # fs)
      else case count_filter p len fs of (r, fs') \<Rightarrow> (r, f # fs'))"

text \<open>
  \<open>vder_filter\<close>: whether the packet is thrown away, its priority, whether the sender is told, and the
  table.
\<close>

definition vder_filter :: "fpacket \<Rightarrow> nat \<Rightarrow> u8 \<Rightarrow> filter_rule list \<Rightarrow> bool \<times> u8 \<times> bool \<times> filter_rule list" where
  "vder_filter p len prio table =
     (case count_filter p len table of
        (None, table') \<Rightarrow> (False, prio, False, table')
      | (Some f, table') \<Rightarrow>
          (case fl_action f of
             filter_priority \<Rightarrow> (False, fl_priority f, False, table')
           | filter_accept \<Rightarrow> (False, prio, False, table')
           | filter_reject \<Rightarrow> (True, prio, True, table')
           | filter_drop \<Rightarrow> (True, prio, False, table')
           | filter_invalid \<Rightarrow> (False, prio, False, table')))"

lemma count_filter_find: "fst (count_filter p len fs) = find (filter_matches p) fs"
  by (induction fs) (auto split: prod.split)

lemma count_filter_same:
  "map (\<lambda>f. f\<lparr>stats_packets := 0, stats_bytes := 0\<rparr>) (snd (count_filter p len fs)) = map (\<lambda>f. f\<lparr>stats_packets := 0, stats_bytes := 0\<rparr>) fs"
  by (induction fs) (auto split: prod.split)

text \<open>
  Filter rules. The first rule that matches a packet decides: whether it is dropped, whether
  its sender is told, and its priority; nothing but counters of rules changes, and a packet no rule matches passes. The rule added last comes first, and deleting it restores
  the table. But deleting ignores the protocol: with a newer rule that differs in nothing else,
  the newer rule goes.
\<close>

theorem filter_rules:
  "(case vder_filter p len prio table of (drop_it, prio', tell, table') \<Rightarrow>
      (drop_it \<longleftrightarrow> (\<exists>f. find (filter_matches p) table = Some f \<and> fl_action f \<in> {filter_reject, filter_drop})) \<and>
      (tell \<longleftrightarrow> (\<exists>f. find (filter_matches p) table = Some f \<and> fl_action f = filter_reject)) \<and>
      prio' = (case find (filter_matches p) table of Some f \<Rightarrow> if fl_action f = filter_priority then fl_priority f else prio | None \<Rightarrow> prio) \<and>
      map (\<lambda>f. f\<lparr>stats_packets := 0, stats_bytes := 0\<rparr>) table' = map (\<lambda>f. f\<lparr>stats_packets := 0, stats_bytes := 0\<rparr>) table) \<and>
   vder_filter_del src proto saddr daddr tos sport dport
     (snd (vder_filter_add True junk src proto saddr daddr tos sport dport act pr table)) = (0, None, table) \<and>
   snd (snd (vder_filter_del src 6 saddr daddr tos sport dport
     (snd (vder_filter_add True junk src 17 saddr daddr tos sport dport act pr
       (snd (vder_filter_add True junk src 6 saddr daddr tos sport dport act' pr' table)))))) =
     snd (vder_filter_add True junk src 6 saddr daddr tos sport dport act' pr' table)"
proof -
  obtain r t where c: "count_filter p len table = (r, t)" by (cases "count_filter p len table")
  then have "r = find (filter_matches p) table"
    "map (\<lambda>f. f\<lparr>stats_packets := 0, stats_bytes := 0\<rparr>) t = map (\<lambda>f. f\<lparr>stats_packets := 0, stats_bytes := 0\<rparr>) table"
    using count_filter_find [of p len table] count_filter_same [of p len table] by auto
  then show ?thesis
    by (auto simp: vder_filter_def c vder_filter_del_def vder_filter_add_def same_filter_def
        split: option.split filter_action.split)
qed

theorem filter_rules_witness:
  "snd (snd (vder_filter_del None 6 \<lparr>ip_address = 0, ip_netmask = 0\<rparr> \<lparr>ip_address = 0, ip_netmask = 0\<rparr> (- 1) 0 0
     (snd (vder_filter_add True 0 None 6 \<lparr>ip_address = 0, ip_netmask = 0\<rparr> \<lparr>ip_address = 0, ip_netmask = 0\<rparr> (- 1) 0 0 filter_drop 1 [])))) = []"
  using filter_rules [where table = "[]" and src = None and proto = 6 and saddr = "\<lparr>ip_address = 0, ip_netmask = 0\<rparr>"
      and daddr = "\<lparr>ip_address = 0, ip_netmask = 0\<rparr>" and tos = "- 1" and sport = 0 and dport = 0 and junk = 0
      and act = filter_drop and pr = 1]
  by simp

end
