(* ===== verification/Rqueue.thy ===== *)
theory Rqueue
  imports Prelude
begin

text \<open>
  The queues of an interface of the router, \<^verbatim>\<open>vde_router/vder_queue.c\<close> and the timed
  dequeues of \<^verbatim>\<open>vder_datalink.c\<close>: queues with an admission policy, 32 priority queues that
  share a semaphore, and the timer that releases packets at a fixed rate. A queue is linked from
  its head; here it is the list of its buffers, beside the counters the code keeps. Semaphores are numbers.
\<close>

section \<open>Queues\<close>

record vde_buff =
  b_data :: bytes
  b_src :: "nat option"
  b_priority :: u8

datatype policy =
    QPOLICY_UNLIMITED
  | QPOLICY_FIFO u32 u32 \<comment> \<open>limit, dropped\<close>
  | QPOLICY_RED u32 u32 u32 u32 u32 \<comment> \<open>min, max, limit, dropped, dropped by chance\<close>
  | QPOLICY_TOKEN u32 u32 u64 \<comment> \<open>limit, dropped, interval\<close>

datatype qtype = QTYPE_OUT | QTYPE_PRIO

record vder_queue =
  q_n :: u32
  q_size :: u32
  q_bufs :: "vde_buff list"
  q_type :: qtype
  q_prio_semaphore :: nat \<comment> \<open>the interface whose semaphore the pointer of a priority queue points to\<close>
  q_policy :: policy

definition queue_init :: "qtype \<Rightarrow> nat \<Rightarrow> vder_queue" where
  "queue_init ty vif = \<lparr>q_n = 0, q_size = 0, q_bufs = [], q_type = ty, q_prio_semaphore = vif, q_policy = QPOLICY_UNLIMITED\<rparr>"

text \<open>
  \<open>may_enqueue\<close> of the policies, with the counters of dropped packets. \<open>chance\<close> is whether the
  random number fell below the probability that random early detection computes.
\<close>

definition qunlimited_may_enqueue :: "bool \<times> policy" where
  "qunlimited_may_enqueue = (True, QPOLICY_UNLIMITED)"

definition qfifo_may_enqueue :: "u32 \<Rightarrow> u32 \<Rightarrow> u32 \<Rightarrow> bool \<times> policy" where
  "qfifo_may_enqueue sz limit d =
     (if limit > sz then (True, QPOLICY_FIFO limit d) else (False, QPOLICY_FIFO limit (d + 1)))"

definition qred_may_enqueue :: "bool \<Rightarrow> u32 \<Rightarrow> u32 \<Rightarrow> u32 \<Rightarrow> u32 \<Rightarrow> u32 \<Rightarrow> u32 \<Rightarrow> bool \<times> policy" where
  "qred_may_enqueue chance sz mn mx limit d pd =
     (if mn > sz then (True, QPOLICY_RED mn mx limit d pd)
      else if mx > sz \<or> limit > sz
      then (if chance then (False, QPOLICY_RED mn mx limit d (pd + 1)) else (True, QPOLICY_RED mn mx limit d pd))
      else (False, QPOLICY_RED mn mx limit (d + 1) pd))"

definition qtoken_may_enqueue :: "u32 \<Rightarrow> u32 \<Rightarrow> u32 \<Rightarrow> u64 \<Rightarrow> bool \<times> policy" where
  "qtoken_may_enqueue sz limit d iv =
     (if limit > sz then (True, QPOLICY_TOKEN limit d iv) else (False, QPOLICY_TOKEN limit (d + 1) iv))"

fun may_enqueue :: "bool \<Rightarrow> u32 \<Rightarrow> policy \<Rightarrow> bool \<times> policy" where
  "may_enqueue chance sz QPOLICY_UNLIMITED = qunlimited_may_enqueue"
| "may_enqueue chance sz (QPOLICY_FIFO limit d) = qfifo_may_enqueue sz limit d"
| "may_enqueue chance sz (QPOLICY_RED mn mx limit d pd) = qred_may_enqueue chance sz mn mx limit d pd"
| "may_enqueue chance sz (QPOLICY_TOKEN limit d iv) = qtoken_may_enqueue sz limit d iv"

lemmas may_enqueue_defs = qunlimited_may_enqueue_def qfifo_may_enqueue_def qred_may_enqueue_def qtoken_may_enqueue_def

fun is_token :: "policy \<Rightarrow> bool" where
  "is_token (QPOLICY_TOKEN _ _ _) = True"
| "is_token _ = False"

text \<open>\<open>enqueue\<close>: the queue, and whether a semaphore is posted.\<close>

definition enqueue :: "bool \<Rightarrow> vde_buff \<Rightarrow> vder_queue \<Rightarrow> vder_queue \<times> bool" where
  "enqueue chance b q =
     (case may_enqueue chance (q_size q) (q_policy q) of
        (False, pol) \<Rightarrow> (q\<lparr>q_policy := pol\<rparr>, False)
      | (True, pol) \<Rightarrow>
          (q\<lparr>q_policy := pol, q_bufs := q_bufs q @ [b], q_size := q_size q + word_of_nat (length (b_data b)), q_n := q_n q + 1\<rparr>,
           \<not> is_token pol))"

text \<open>
  Taking the first buffer; \<open>None\<close> is an access through \<open>NULL\<close>. When the counter reaches 0 the
  list is cut.
\<close>

definition take_head :: "vder_queue \<Rightarrow> (vde_buff \<times> vder_queue) option" where
  "take_head q =
     (case q_bufs q of
        [] \<Rightarrow> None
      | b # bs \<Rightarrow>
          Some (b, q\<lparr>q_n := q_n q - 1, q_size := q_size q - word_of_nat (length (b_data b)),
                     q_bufs := (if q_n q - 1 = 0 then [] else bs)\<rparr>))"

text \<open>An interface: the output queue and the priority queues, each with its semaphore.\<close>

definition PRIO_NUM :: nat where "PRIO_NUM = 32"

record iqueues =
  out_q :: vder_queue
  out_sem :: nat
  prio_q :: "vder_queue list"
  prio_sem :: nat

definition iqueues_init :: "nat \<Rightarrow> iqueues" where
  "iqueues_init vif = \<lparr>out_q = queue_init QTYPE_OUT vif, out_sem = 0, prio_q = replicate PRIO_NUM (queue_init QTYPE_PRIO vif), prio_sem = 0\<rparr>"

definition enqueue_out :: "bool \<Rightarrow> vde_buff \<Rightarrow> iqueues \<Rightarrow> iqueues" where
  "enqueue_out chance b s =
     (case enqueue chance b (out_q s) of (q, post) \<Rightarrow>
        s\<lparr>out_q := q, out_sem := out_sem s + (if post then 1 else 0)\<rparr>)"

text \<open>Queueing by priority; \<open>None\<close>: the queue was never set up.\<close>

definition enqueue_prio :: "bool \<Rightarrow> vde_buff \<Rightarrow> iqueues \<Rightarrow> iqueues option" where
  "enqueue_prio chance b s =
     (let i = unat (b_priority b)
      in if i < length (prio_q s)
         then (case enqueue chance b (prio_q s ! i) of (q, post) \<Rightarrow>
                 Some (s\<lparr>prio_q := (prio_q s)[i := q], prio_sem := prio_sem s + (if post then 1 else 0)\<rparr>))
         else None)"

text \<open>
  \<open>vder_sendto\<close>: without a buffer or an address (\<open>None\<close>) it fails; otherwise the addresses are
  written over the first bytes of the packet, behind the buffer when it is shorter than they are.
\<close>

definition vder_sendto :: "bool \<Rightarrow> bytes \<Rightarrow> vde_buff option \<Rightarrow> bytes option \<Rightarrow> iqueues \<Rightarrow> (errno \<times> iqueues) option" where
  "vder_sendto chance macaddr vb dst s =
     (case (vb, dst) of
        (Some b, Some d) \<Rightarrow>
          if length (b_data b) < 12 then None
          else map_option (Pair EOK) (enqueue_prio chance (b\<lparr>b_data := blit (blit (b_data b) 0 d) 6 macaddr\<rparr>) s)
      | _ \<Rightarrow> Some (EINVAL, s))"

text \<open>What the setup functions do to the queue: the packets and the semaphores stay as they are.\<close>

definition queue_setup :: "policy \<Rightarrow> vder_queue \<Rightarrow> vder_queue" where
  "queue_setup pol q = q\<lparr>q_policy := pol\<rparr>"

definition out_setup :: "policy \<Rightarrow> iqueues \<Rightarrow> iqueues" where
  "out_setup pol s = s\<lparr>out_q := queue_setup pol (out_q s)\<rparr>"

definition prio_setup :: "nat \<Rightarrow> policy \<Rightarrow> iqueues \<Rightarrow> iqueues" where
  "prio_setup i pol s = s\<lparr>prio_q := (prio_q s)[i := queue_setup pol (prio_q s ! i)]\<rparr>"

text \<open>
  The results of the two functions that take from the queues: they wait, they find nothing, they
  access \<open>NULL\<close>, or they return a buffer.
\<close>

datatype taken = Blocks | Empty iqueues | TakeFault | Taken vde_buff iqueues

definition dequeue_out :: "iqueues \<Rightarrow> taken" where
  "dequeue_out s =
     (if out_sem s = 0 then Blocks
      else let s1 = s\<lparr>out_sem := out_sem s - 1\<rparr>
           in if q_n (out_q s) = 0 then Empty s1
              else case take_head (out_q s) of
                     None \<Rightarrow> TakeFault
                   | Some (b, q) \<Rightarrow> Taken b (s1\<lparr>out_q := q\<rparr>))"

fun prio_scan :: "vder_queue list \<Rightarrow> (vde_buff \<times> vder_queue list) option option" where
  "prio_scan [] = Some None"
| "prio_scan (q # qs) =
     (if q_size q = 0 \<or> q_n q = 0
      then map_option (map_option (\<lambda>(b, qs'). (b, q # qs'))) (prio_scan qs)
      else map_option (\<lambda>(b, q'). Some (b, q' # qs)) (take_head q))"

definition prio_dequeue :: "iqueues \<Rightarrow> taken" where
  "prio_dequeue s =
     (if prio_sem s = 0 then Blocks
      else let s1 = s\<lparr>prio_sem := prio_sem s - 1\<rparr>
           in case prio_scan (prio_q s) of
                None \<Rightarrow> TakeFault
              | Some None \<Rightarrow> Empty s1
              | Some (Some (b, qs)) \<Rightarrow> Taken b (s1\<lparr>prio_q := qs\<rparr>))"

text \<open>One turn of the loop that moves packets from the priority queues to the output queue.\<close>

definition queuer_step :: "bool \<Rightarrow> iqueues \<Rightarrow> taken" where
  "queuer_step chance s =
     (case prio_dequeue s of Taken b s' \<Rightarrow> Taken b (enqueue_out chance b s') | r \<Rightarrow> r)"

section \<open>Order and counters\<close>

definition total :: "vde_buff list \<Rightarrow> nat" where
  "total bs = sum_list (map (\<lambda>b. length (b_data b)) bs)"

definition queue_ok :: "vder_queue \<Rightarrow> bool" where
  "queue_ok q \<longleftrightarrow> q_n q = word_of_nat (length (q_bufs q)) \<and> q_size q = word_of_nat (total (q_bufs q)) \<and>
     total (q_bufs q) < 2 ^ 32 \<and> (\<forall>b \<in> set (q_bufs q). b_data b \<noteq> [])"

definition iqueues_ok :: "iqueues \<Rightarrow> bool" where
  "iqueues_ok s \<longleftrightarrow> queue_ok (out_q s) \<and> \<not> is_token (q_policy (out_q s)) \<and> out_sem s = length (q_bufs (out_q s)) \<and>
     (\<forall>q \<in> set (prio_q s). queue_ok q \<and> \<not> is_token (q_policy q)) \<and>
     prio_sem s = sum_list (map (\<lambda>q. length (q_bufs q)) (prio_q s)) \<and> length (prio_q s) = PRIO_NUM"

lemma length_le_total: "\<forall>b \<in> set bs. b_data b \<noteq> [] \<Longrightarrow> length bs \<le> total bs"
  by (induction bs) (auto simp: total_def Suc_le_eq intro: add_le_mono [of 1, simplified])

lemma word32_zero: "m < 2 ^ 32 \<Longrightarrow> word_of_nat m = (0 :: u32) \<longleftrightarrow> m = 0"
  by (auto simp: word_of_nat_eq_0_iff dest: dvd_imp_le)

lemma queue_ok_empty:
  assumes "queue_ok q"
  shows "q_n q = 0 \<longleftrightarrow> q_bufs q = []" and "q_size q = 0 \<longleftrightarrow> q_bufs q = []"
proof -
  have l: "length (q_bufs q) \<le> total (q_bufs q)" using assms by (simp add: queue_ok_def length_le_total)
  then show "q_n q = 0 \<longleftrightarrow> q_bufs q = []"
    using assms word32_zero [of "length (q_bufs q)"] by (simp add: queue_ok_def)
  show "q_size q = 0 \<longleftrightarrow> q_bufs q = []"
    using assms l word32_zero [of "total (q_bufs q)"] by (auto simp: queue_ok_def total_def)
qed

lemma take_head_ok:
  assumes "queue_ok q" and "q_bufs q = b # bs"
  shows "\<exists>q'. take_head q = Some (b, q') \<and> queue_ok q' \<and> q_bufs q' = bs \<and> q_policy q' = q_policy q"
proof -
  have n: "q_n q - 1 = word_of_nat (length bs)" using assms by (simp add: queue_ok_def)
  have sz: "q_size q - word_of_nat (length (b_data b)) = word_of_nat (total bs)"
    using assms by (simp add: queue_ok_def total_def)
  have t: "total bs < 2 ^ 32" "\<forall>b \<in> set bs. b_data b \<noteq> []" using assms by (auto simp: queue_ok_def total_def)
  have "q_n q - 1 = 0 \<longleftrightarrow> bs = []"
    using n word32_zero [of "length bs"] length_le_total [OF t(2)] t(1) by simp
  then show ?thesis using n sz t assms(2) by (auto simp: take_head_def queue_ok_def)
qed

lemma may_enqueue_token: "may_enqueue chance sz pol = (a, pol') \<Longrightarrow> is_token pol' = is_token pol"
  by (cases pol) (auto simp: may_enqueue_defs split: if_splits)

lemma enqueue_ok:
  assumes "queue_ok q" and "b_data b \<noteq> []" and "total (q_bufs q) + length (b_data b) < 2 ^ 32"
  shows "queue_ok (fst (enqueue chance b q))"
    and "q_bufs (fst (enqueue chance b q)) = q_bufs q @ (if fst (may_enqueue chance (q_size q) (q_policy q)) then [b] else [])"
    and "is_token (q_policy (fst (enqueue chance b q))) = is_token (q_policy q)"
    and "snd (enqueue chance b q) \<longleftrightarrow> fst (may_enqueue chance (q_size q) (q_policy q)) \<and> \<not> is_token (q_policy q)"
  using assms may_enqueue_token [of chance "q_size q" "q_policy q"]
  by (auto simp: enqueue_def queue_ok_def total_def split: prod.split bool.split)

lemma prio_scan_first:
  assumes "\<forall>q \<in> set qs. queue_ok q"
  shows "if \<forall>q \<in> set qs. q_bufs q = [] then prio_scan qs = Some None
    else \<exists>i b bs q'. i < length qs \<and> (\<forall>j < i. q_bufs (qs ! j) = []) \<and> q_bufs (qs ! i) = b # bs \<and>
      prio_scan qs = Some (Some (b, qs[i := q'])) \<and> queue_ok q' \<and> q_bufs q' = bs \<and> q_policy q' = q_policy (qs ! i)"
  using assms
proof (induction qs)
  case (Cons q qs)
  show ?case
  proof (cases "q_bufs q")
    case (Cons b bs)
    obtain q' where "take_head q = Some (b, q')" "queue_ok q'" "q_bufs q' = bs" "q_policy q' = q_policy q"
      using take_head_ok [OF _ Cons] Cons.prems by auto
    then show ?thesis using Cons queue_ok_empty [of q] Cons.prems by (auto intro!: exI [of _ 0])
  next
    case Nil
    then have z: "q_size q = 0" using queue_ok_empty [of q] Cons.prems by simp
    show ?thesis
    proof (cases "\<forall>q \<in> set qs. q_bufs q = []")
      case True then show ?thesis using Cons Nil z by simp
    next
      case False
      have "\<forall>q \<in> set qs. queue_ok q" using Cons.prems by simp
      note IH = Cons.IH [OF this, unfolded if_not_P [OF False]]
      then obtain i b bs q' where "i < length qs" "\<forall>j < i. q_bufs (qs ! j) = []" "q_bufs (qs ! i) = b # bs"
        "prio_scan qs = Some (Some (b, qs[i := q']))" "queue_ok q'" "q_bufs q' = bs" "q_policy q' = q_policy (qs ! i)"
        by blast
      then have "Suc i < length (q # qs) \<and> (\<forall>j < Suc i. q_bufs ((q # qs) ! j) = []) \<and> q_bufs ((q # qs) ! Suc i) = b # bs \<and>
          prio_scan (q # qs) = Some (Some (b, (q # qs)[Suc i := q'])) \<and> queue_ok q' \<and> q_bufs q' = bs \<and>
          q_policy q' = q_policy ((q # qs) ! Suc i)"
        using Nil z by (auto simp: less_Suc_eq_0_disj)
      moreover have "\<not> (\<forall>q \<in> set (q # qs). q_bufs q = [])" using False by simp
      ultimately show ?thesis by (simp only: if_False) blast
    qed
  qed
qed simp

lemma sum_list_lengths_update:
  "i < length qs \<Longrightarrow> q_bufs (qs ! i) = b # bs \<Longrightarrow> q_bufs q' = bs \<Longrightarrow>
   Suc (sum_list (map (\<lambda>q. length (q_bufs q)) (qs[i := q']))) = sum_list (map (\<lambda>q. length (q_bufs q)) qs)"
  by (induction qs arbitrary: i) (auto split: nat.split)

lemma sum_list_lengths_append:
  "i < length qs \<Longrightarrow> length (q_bufs q') = length (q_bufs (qs ! i)) + d \<Longrightarrow>
   sum_list (map (\<lambda>q. length (q_bufs q)) (qs[i := q'])) = sum_list (map (\<lambda>q. length (q_bufs q)) qs) + d"
  by (induction qs arbitrary: i) (auto split: nat.split)

lemma iqueues_init_ok: "iqueues_ok (iqueues_init vif)"
  by (simp add: iqueues_ok_def iqueues_init_def queue_init_def queue_ok_def total_def PRIO_NUM_def)

text \<open>What can be sent: an Ethernet packet with one of the 32 priorities, while the counters of its queue do not wrap.\<close>

definition sendable :: "iqueues \<Rightarrow> bytes \<Rightarrow> bytes \<Rightarrow> vde_buff \<Rightarrow> bool" where
  "sendable s macaddr dst b \<longleftrightarrow> length dst = 6 \<and> length macaddr = 6 \<and> 12 \<le> length (b_data b) \<and> unat (b_priority b) < PRIO_NUM \<and>
     total (q_bufs (prio_q s ! unat (b_priority b))) + length (b_data b) < 2 ^ 32"

definition addressed :: "bytes \<Rightarrow> bytes \<Rightarrow> vde_buff \<Rightarrow> vde_buff" where
  "addressed macaddr dst b = b\<lparr>b_data := dst @ macaddr @ drop 12 (b_data b)\<rparr>"

lemma blit_addresses:
  "length d = 6 \<Longrightarrow> length m = 6 \<Longrightarrow> 12 \<le> length xs \<Longrightarrow> blit (blit xs 0 d) 6 m = d @ m @ drop 12 xs"
  by (simp add: blit_def)

lemma vder_sendto_enqueue:
  assumes "sendable s macaddr dst b" and "length (prio_q s) = PRIO_NUM"
  shows "vder_sendto chance macaddr (Some b) (Some dst) s =
    (let i = unat (b_priority b); (q, post) = enqueue chance (addressed macaddr dst b) (prio_q s ! i)
     in Some (EOK, s\<lparr>prio_q := (prio_q s)[i := q], prio_sem := prio_sem s + (if post then 1 else 0)\<rparr>))"
  using assms
  by (simp add: vder_sendto_def sendable_def enqueue_prio_def Let_def blit_addresses addressed_def split: prod.split)

lemma addressed_simps [simp]:
  "b_priority (addressed m d b) = b_priority b"
  "sendable s m d b \<Longrightarrow> length (b_data (addressed m d b)) = length (b_data b)"
  by (simp_all add: addressed_def sendable_def)

lemma sendable_data: "sendable s m d b \<Longrightarrow> b_data (addressed m d b) \<noteq> []"
  by (auto simp: addressed_def sendable_def)

lemma iqueues_update_ok:
  assumes "iqueues_ok s" and "queue_ok q" and "\<not> is_token (q_policy q)" and "i < length (prio_q s)"
    and "n = sum_list (map (\<lambda>q. length (q_bufs q)) ((prio_q s)[i := q]))"
  shows "iqueues_ok (s\<lparr>prio_q := (prio_q s)[i := q], prio_sem := n\<rparr>)"
  using assms by (auto simp: iqueues_ok_def dest!: set_update_subset_insert [THEN subsetD])

lemma sendto_ok:
  assumes ok: "iqueues_ok s" and b: "sendable s macaddr dst b"
  shows "\<exists>s'. vder_sendto chance macaddr (Some b) (Some dst) s = Some (EOK, s') \<and> iqueues_ok s' \<and> out_q s' = out_q s \<and>
    (let i = unat (b_priority b); q = prio_q s ! i
     in map q_bufs (prio_q s') =
          (map q_bufs (prio_q s))[i := q_bufs q @ (if fst (may_enqueue chance (q_size q) (q_policy q)) then [addressed macaddr dst b] else [])])"
proof -
  let ?i = "unat (b_priority b)" and ?b = "addressed macaddr dst b"
  have len: "length (prio_q s) = PRIO_NUM" and i: "?i < length (prio_q s)" using ok b by (simp_all add: iqueues_ok_def sendable_def)
  have q: "queue_ok (prio_q s ! ?i)" "\<not> is_token (q_policy (prio_q s ! ?i))" using ok i by (simp_all add: iqueues_ok_def)
  have room: "total (q_bufs (prio_q s ! ?i)) + length (b_data ?b) < 2 ^ 32" using b by (simp add: sendable_def addressed_def)
  note e = enqueue_ok [OF q(1) sendable_data [OF b] room, of chance]
  obtain q' post where q': "enqueue chance ?b (prio_q s ! ?i) = (q', post)" by fastforce
  have "length (q_bufs q') = length (q_bufs (prio_q s ! ?i)) + (if post then 1 else 0)"
    using e q(2) by (simp add: q')
  from sum_list_lengths_append [OF i this]
  have "iqueues_ok (s\<lparr>prio_q := (prio_q s)[?i := q'], prio_sem := prio_sem s + (if post then 1 else 0)\<rparr>)"
    using e(1,3) q(2) ok i by (intro iqueues_update_ok) (simp_all add: q' iqueues_ok_def)
  then show ?thesis using vder_sendto_enqueue [OF b len, of chance] e(2) i by (simp add: q' Let_def map_update)
qed

lemma prio_dequeue_ok:
  assumes ok: "iqueues_ok s"
  shows "if \<forall>q \<in> set (prio_q s). q_bufs q = [] then prio_dequeue s = Blocks
     else \<exists>i p bs s'. i < PRIO_NUM \<and> (\<forall>j < i. q_bufs (prio_q s ! j) = []) \<and> q_bufs (prio_q s ! i) = p # bs \<and>
       prio_dequeue s = Taken p s' \<and> iqueues_ok s' \<and> out_q s' = out_q s \<and>
       map q_bufs (prio_q s') = (map q_bufs (prio_q s))[i := bs]"
proof (cases "\<forall>q \<in> set (prio_q s). q_bufs q = []")
  case True
  then have "prio_sem s = 0" using ok by (simp add: iqueues_ok_def)
  then show ?thesis using True by (simp add: prio_dequeue_def)
next
  case False
  have po: "\<forall>q \<in> set (prio_q s). queue_ok q" using ok by (simp add: iqueues_ok_def)
  from prio_scan_first [OF po, unfolded if_not_P [OF False]] obtain i p bs q' where
    h: "i < length (prio_q s)" "\<forall>j < i. q_bufs (prio_q s ! j) = []" "q_bufs (prio_q s ! i) = p # bs"
    "prio_scan (prio_q s) = Some (Some (p, (prio_q s)[i := q']))" "queue_ok q'" "q_bufs q' = bs" "q_policy q' = q_policy (prio_q s ! i)"
    by blast
  have "prio_sem s \<noteq> 0" using ok False by (auto simp: iqueues_ok_def)
  then have d: "prio_dequeue s = Taken p (s\<lparr>prio_q := (prio_q s)[i := q'], prio_sem := prio_sem s - 1\<rparr>)"
    by (simp add: prio_dequeue_def h Let_def)
  have "iqueues_ok (s\<lparr>prio_q := (prio_q s)[i := q'], prio_sem := prio_sem s - 1\<rparr>)"
    using ok h sum_list_lengths_update [OF h(1,3,6)] by (intro iqueues_update_ok) (auto simp: iqueues_ok_def)
  then show ?thesis using False h d ok by (auto simp: iqueues_ok_def map_update intro!: exI [of _ i])
qed

lemma enqueue_out_ok:
  assumes ok: "iqueues_ok s" and "b_data b \<noteq> []" and "total (q_bufs (out_q s)) + length (b_data b) < 2 ^ 32"
  shows "iqueues_ok (enqueue_out chance b s) \<and> prio_q (enqueue_out chance b s) = prio_q s \<and>
    q_bufs (out_q (enqueue_out chance b s)) =
      q_bufs (out_q s) @ (if fst (may_enqueue chance (q_size (out_q s)) (q_policy (out_q s))) then [b] else [])"
proof -
  have o: "queue_ok (out_q s)" "\<not> is_token (q_policy (out_q s))" using ok by (simp_all add: iqueues_ok_def)
  from enqueue_ok [OF o(1) assms(2,3), of chance] o(2) ok show ?thesis
    by (auto simp: enqueue_out_def iqueues_ok_def split: prod.split)
qed

lemma queued_data: "iqueues_ok s \<Longrightarrow> q \<in> set (prio_q s) \<Longrightarrow> b \<in> set (q_bufs q) \<Longrightarrow> b_data b \<noteq> []"
  by (auto simp: iqueues_ok_def queue_ok_def)

text \<open>One turn of the scheduler.\<close>

definition room_out :: "iqueues \<Rightarrow> vde_buff \<Rightarrow> bool" where
  "room_out s p \<longleftrightarrow> total (q_bufs (out_q s)) + length (b_data p) < 2 ^ 32"

lemma queuer_ok:
  assumes ok: "iqueues_ok s"
  shows "if \<forall>q \<in> set (prio_q s). q_bufs q = [] then queuer_step chance s = Blocks
     else \<exists>i p bs s'. i < PRIO_NUM \<and> (\<forall>j < i. q_bufs (prio_q s ! j) = []) \<and> q_bufs (prio_q s ! i) = p # bs \<and>
       queuer_step chance s = Taken p s' \<and>
       (room_out s p \<longrightarrow> iqueues_ok s' \<and> map q_bufs (prio_q s') = (map q_bufs (prio_q s))[i := bs] \<and>
          q_bufs (out_q s') = q_bufs (out_q s) @ (if fst (may_enqueue chance (q_size (out_q s)) (q_policy (out_q s))) then [p] else []))"
proof (cases "\<forall>q \<in> set (prio_q s). q_bufs q = []")
  case True then show ?thesis using prio_dequeue_ok [OF ok] by (simp add: queuer_step_def)
next
  case False
  from prio_dequeue_ok [OF ok, unfolded if_not_P [OF False]] obtain i p bs s1 where
    h: "i < PRIO_NUM" "\<forall>j < i. q_bufs (prio_q s ! j) = []" "q_bufs (prio_q s ! i) = p # bs"
    "prio_dequeue s = Taken p s1" "iqueues_ok s1" "out_q s1 = out_q s" "map q_bufs (prio_q s1) = (map q_bufs (prio_q s))[i := bs]"
    by blast
  have "b_data p \<noteq> []" using queued_data [OF ok nth_mem, of i p] h(1,3) ok by (simp add: iqueues_ok_def)
  from enqueue_out_ok [OF h(5) this, of chance] have "room_out s p \<longrightarrow> iqueues_ok (enqueue_out chance p s1) \<and>
      prio_q (enqueue_out chance p s1) = prio_q s1 \<and> q_bufs (out_q (enqueue_out chance p s1)) =
        q_bufs (out_q s) @ (if fst (may_enqueue chance (q_size (out_q s)) (q_policy (out_q s))) then [p] else [])"
    by (simp add: h(6) room_out_def)
  moreover have "queuer_step chance s = Taken p (enqueue_out chance p s1)" by (simp add: queuer_step_def h(4))
  ultimately show ?thesis using False h(1-3,7) by auto
qed

lemma dequeue_out_ok:
  assumes ok: "iqueues_ok s"
  shows "case q_bufs (out_q s) of
       [] \<Rightarrow> dequeue_out s = Blocks
     | p # bs \<Rightarrow> \<exists>s'. dequeue_out s = Taken p s' \<and> iqueues_ok s' \<and> q_bufs (out_q s') = bs \<and> prio_q s' = prio_q s"
proof (cases "q_bufs (out_q s)")
  case Nil then show ?thesis using ok by (simp add: dequeue_out_def iqueues_ok_def)
next
  case (Cons p bs)
  have o: "queue_ok (out_q s)" using ok by (simp add: iqueues_ok_def)
  from take_head_ok [OF o Cons] obtain q' where "take_head (out_q s) = Some (p, q')" "queue_ok q'" "q_bufs q' = bs"
    "q_policy q' = q_policy (out_q s)" by blast
  then show ?thesis using Cons ok queue_ok_empty(1) [OF o] by (simp add: dequeue_out_def iqueues_ok_def)
qed

lemma queue_setup_simps [simp]:
  "q_bufs (queue_setup pol q) = q_bufs q" "q_size (queue_setup pol q) = q_size q" "q_policy (queue_setup pol q) = pol"
  "queue_ok (queue_setup pol q) = queue_ok q"
  by (simp_all add: queue_setup_def queue_ok_def)

lemma sum_list_lengths_setup:
  "i < length qs \<Longrightarrow> sum_list (map (\<lambda>q. length (q_bufs q)) (qs[i := queue_setup pol (qs ! i)])) = sum_list (map (\<lambda>q. length (q_bufs q)) qs)"
  using sum_list_lengths_append [of i qs "queue_setup pol (qs ! i)" 0] by simp

lemma setup_ok:
  assumes "iqueues_ok s" and "\<not> is_token pol"
  shows "iqueues_ok (out_setup pol s)" and "i < PRIO_NUM \<Longrightarrow> iqueues_ok (prio_setup i pol s)"
proof -
  show "iqueues_ok (out_setup pol s)" using assms by (simp add: out_setup_def iqueues_ok_def)
  assume i: "i < PRIO_NUM"
  then have l: "i < length (prio_q s)" using assms by (simp add: iqueues_ok_def)
  have "iqueues_ok (s\<lparr>prio_q := (prio_q s)[i := queue_setup pol (prio_q s ! i)], prio_sem := prio_sem s\<rparr>)"
    using assms l by (intro iqueues_update_ok) (simp_all add: iqueues_ok_def sum_list_lengths_setup)
  then show "iqueues_ok (prio_setup i pol s)" by (simp add: prio_setup_def)
qed

text \<open>
  The states of the queues of an interface while no queue has been given the token policy: from
  those of a new interface, by sending packets, turns of the scheduler, turns of the sender and
  changes of policy, in any order. The guards keep the 32-bit counters of bytes from wrapping.
\<close>

inductive iqueues_reach :: "nat \<Rightarrow> iqueues \<Rightarrow> bool" for vif where
  start: "iqueues_reach vif (iqueues_init vif)"
| send: "iqueues_reach vif s \<Longrightarrow> sendable s macaddr dst b \<Longrightarrow> vder_sendto chance macaddr (Some b) (Some dst) s = Some (rv, s') \<Longrightarrow>
    iqueues_reach vif s'"
| schedule: "iqueues_reach vif s \<Longrightarrow> queuer_step chance s = Taken p s' \<Longrightarrow> room_out s p \<Longrightarrow> iqueues_reach vif s'"
| transmit: "iqueues_reach vif s \<Longrightarrow> dequeue_out s = Taken p s' \<Longrightarrow> iqueues_reach vif s'"
| policy_out: "iqueues_reach vif s \<Longrightarrow> \<not> is_token pol \<Longrightarrow> iqueues_reach vif (out_setup pol s)"
| policy_prio: "iqueues_reach vif s \<Longrightarrow> i < PRIO_NUM \<Longrightarrow> \<not> is_token pol \<Longrightarrow> iqueues_reach vif (prio_setup i pol s)"

lemma iqueues_reach_ok: "iqueues_reach vif s \<Longrightarrow> iqueues_ok s"
proof (induction rule: iqueues_reach.induct)
  case start show ?case by (rule iqueues_init_ok)
next
  case (send s macaddr dst b chance rv s') then show ?case using sendto_ok [of s macaddr dst b chance] by auto
next
  case (schedule s chance p s') then show ?case using queuer_ok [of s chance] by (auto split: if_splits)
next
  case (transmit s p s') then show ?case using dequeue_out_ok [of s] by (auto split: list.splits)
qed (blast intro: setup_ok)+

text \<open>A packet queued while its queue has the token policy is not announced, and not when the policy changes either.\<close>

lemma token_then_unlimited:
  assumes ok: "iqueues_ok s" and b: "sendable s macaddr dst b" and room: "q_size (prio_q s ! unat (b_priority b)) < limit"
  shows "\<exists>s2. vder_sendto chance macaddr (Some b) (Some dst) (prio_setup (unat (b_priority b)) (QPOLICY_TOKEN limit 0 iv) s) = Some (EOK, s2) \<and>
    (let s3 = prio_setup (unat (b_priority b)) QPOLICY_UNLIMITED s2
     in (\<forall>q \<in> set (out_q s3 # prio_q s3). \<not> is_token (q_policy q)) \<and> prio_sem s3 = prio_sem s \<and>
        q_bufs (prio_q s3 ! unat (b_priority b)) = q_bufs (prio_q s ! unat (b_priority b)) @ [addressed macaddr dst b])"
proof -
  let ?i = "unat (b_priority b)" and ?b = "addressed macaddr dst b"
  let ?s1 = "prio_setup ?i (QPOLICY_TOKEN limit 0 iv) s"
  have len: "length (prio_q s) = PRIO_NUM" and i: "?i < length (prio_q s)" using ok b by (simp_all add: iqueues_ok_def sendable_def)
  have q1: "prio_q ?s1 ! ?i = queue_setup (QPOLICY_TOKEN limit 0 iv) (prio_q s ! ?i)" using i by (simp add: prio_setup_def)
  have b1: "sendable ?s1 macaddr dst b" using b q1 by (simp add: sendable_def)
  have l1: "length (prio_q ?s1) = PRIO_NUM" using len by (simp add: prio_setup_def)
  obtain q where q: "enqueue chance ?b (prio_q ?s1 ! ?i) = (q, False)" "q_bufs q = q_bufs (prio_q s ! ?i) @ [?b]"
    using room by (simp add: q1 enqueue_def qtoken_may_enqueue_def)
  have "vder_sendto chance macaddr (Some b) (Some dst) ?s1 = Some (EOK, s\<lparr>prio_q := (prio_q s)[?i := q]\<rparr>)"
    using vder_sendto_enqueue [OF b1 l1, of chance] unfolding Let_def q(1) by (simp add: prio_setup_def)
  moreover have "\<not> is_token (q_policy x)" if "x \<in> set ((prio_q s)[?i := queue_setup QPOLICY_UNLIMITED q])" for x
    using that ok by (auto simp: iqueues_ok_def dest!: set_update_subset_insert [THEN subsetD])
  ultimately show ?thesis using q(2) i ok by (simp add: prio_setup_def iqueues_ok_def)
qed

text \<open>
  C17: queues of an interface. As long as no queue of the interface has been given the token policy, whatever
  other policies are set and in whatever order packets are sent, scheduled and transmitted, the semaphores count the
  packets of the queues (while the 32-bit counters of bytes do not wrap). A packet sent gets its addresses and is queued
  behind those of its priority, or dropped by the policy, and nothing else changes; when a priority queue holds a packet
  the scheduler does not wait and moves the oldest packet of the most urgent queue to the end of
  the output queue, if the policy of this admits it; the sender takes them in this order.
  This fails once the token policy has been used: a packet queued under it and left when the policy is changed back
  is not counted, so that with nothing else queued the scheduler waits although a packet is there and no token policy is set.
\<close>

theorem priority_queues:
  assumes "iqueues_reach vif s" and "sendable s macaddr dst b"
  shows "out_sem s = length (q_bufs (out_q s)) \<and> prio_sem s = sum_list (map (\<lambda>q. length (q_bufs q)) (prio_q s)) \<and>
    (\<exists>s'. vder_sendto chance macaddr (Some b) (Some dst) s = Some (EOK, s') \<and> out_q s' = out_q s \<and>
      (let i = unat (b_priority b); q = prio_q s ! i
       in map q_bufs (prio_q s') =
            (map q_bufs (prio_q s))[i := q_bufs q @ (if fst (may_enqueue chance (q_size q) (q_policy q)) then [addressed macaddr dst b] else [])])) \<and>
    (if \<forall>q \<in> set (prio_q s). q_bufs q = [] then queuer_step chance s = Blocks
     else \<exists>i p bs s'. i < PRIO_NUM \<and> (\<forall>j < i. q_bufs (prio_q s ! j) = []) \<and> q_bufs (prio_q s ! i) = p # bs \<and>
       queuer_step chance s = Taken p s' \<and>
       (room_out s p \<longrightarrow> map q_bufs (prio_q s') = (map q_bufs (prio_q s))[i := bs] \<and>
          q_bufs (out_q s') = q_bufs (out_q s) @ (if fst (may_enqueue chance (q_size (out_q s)) (q_policy (out_q s))) then [p] else []))) \<and>
    (case q_bufs (out_q s) of
       [] \<Rightarrow> dequeue_out s = Blocks
     | p # bs \<Rightarrow> \<exists>s'. dequeue_out s = Taken p s' \<and> q_bufs (out_q s') = bs \<and> prio_q s' = prio_q s) \<and>
    ((\<forall>q \<in> set (prio_q s). q_bufs q = []) \<and> 0 < limit \<longrightarrow>
       (\<exists>s2. vder_sendto chance macaddr (Some b) (Some dst) (prio_setup (unat (b_priority b)) (QPOLICY_TOKEN limit 0 iv) s) = Some (EOK, s2) \<and>
         (let s3 = prio_setup (unat (b_priority b)) QPOLICY_UNLIMITED s2
          in (\<forall>q \<in> set (out_q s3 # prio_q s3). \<not> is_token (q_policy q)) \<and> prio_dequeue s3 = Blocks \<and>
             q_bufs (prio_q s3 ! unat (b_priority b)) = [addressed macaddr dst b])))"
proof (intro conjI impI)
  note ok = iqueues_reach_ok [OF assms(1)]
  show "out_sem s = length (q_bufs (out_q s))" "prio_sem s = sum_list (map (\<lambda>q. length (q_bufs q)) (prio_q s))"
    using ok by (simp_all add: iqueues_ok_def)
  show "\<exists>s'. vder_sendto chance macaddr (Some b) (Some dst) s = Some (EOK, s') \<and> out_q s' = out_q s \<and>
      (let i = unat (b_priority b); q = prio_q s ! i
       in map q_bufs (prio_q s') =
            (map q_bufs (prio_q s))[i := q_bufs q @ (if fst (may_enqueue chance (q_size q) (q_policy q)) then [addressed macaddr dst b] else [])])"
    using sendto_ok [OF ok assms(2), of chance] by blast
  show "if \<forall>q \<in> set (prio_q s). q_bufs q = [] then queuer_step chance s = Blocks
     else \<exists>i p bs s'. i < PRIO_NUM \<and> (\<forall>j < i. q_bufs (prio_q s ! j) = []) \<and> q_bufs (prio_q s ! i) = p # bs \<and>
       queuer_step chance s = Taken p s' \<and>
       (room_out s p \<longrightarrow> map q_bufs (prio_q s') = (map q_bufs (prio_q s))[i := bs] \<and>
          q_bufs (out_q s') = q_bufs (out_q s) @ (if fst (may_enqueue chance (q_size (out_q s)) (q_policy (out_q s))) then [p] else []))"
    using queuer_ok [OF ok, of chance] by (auto split: if_splits)
  show "case q_bufs (out_q s) of
       [] \<Rightarrow> dequeue_out s = Blocks
     | p # bs \<Rightarrow> \<exists>s'. dequeue_out s = Taken p s' \<and> q_bufs (out_q s') = bs \<and> prio_q s' = prio_q s"
    using dequeue_out_ok [OF ok] by (auto split: list.splits)
  assume e: "(\<forall>q \<in> set (prio_q s). q_bufs q = []) \<and> 0 < limit"
  let ?q = "prio_q s ! unat (b_priority b)"
  have "?q \<in> set (prio_q s)" using ok assms(2) by (simp add: iqueues_ok_def sendable_def)
  then have "q_bufs ?q = []" "queue_ok ?q" using e ok by (simp_all add: iqueues_ok_def)
  moreover have "prio_sem s = 0" using e ok by (simp add: iqueues_ok_def)
  ultimately show "\<exists>s2. vder_sendto chance macaddr (Some b) (Some dst) (prio_setup (unat (b_priority b)) (QPOLICY_TOKEN limit 0 iv) s) = Some (EOK, s2) \<and>
         (let s3 = prio_setup (unat (b_priority b)) QPOLICY_UNLIMITED s2
          in (\<forall>q \<in> set (out_q s3 # prio_q s3). \<not> is_token (q_policy q)) \<and> prio_dequeue s3 = Blocks \<and>
             q_bufs (prio_q s3 ! unat (b_priority b)) = [addressed macaddr dst b])"
    using token_then_unlimited [OF ok assms(2), of limit chance iv] queue_ok_empty(2) [of ?q] e by (auto simp: prio_dequeue_def Let_def)
qed

definition example_buff :: "u8 \<Rightarrow> vde_buff" where
  "example_buff p = \<lparr>b_data = replicate 60 p, b_src = None, b_priority = p\<rparr>"

theorem priority_queues_witness:
  "\<exists>s'. vder_sendto False [0, 2, 5, 0, 0, 1] (Some (example_buff 1)) (Some [1, 2, 3, 4, 5, 6]) (iqueues_init 0) = Some (EOK, s') \<and>
     map q_bufs (prio_q s') ! 1 = [example_buff 1\<lparr>b_data := [1, 2, 3, 4, 5, 6, 0, 2, 5, 0, 0, 1] @ replicate 48 1\<rparr>]"
proof -
  have "sendable (iqueues_init 0) [0, 2, 5, 0, 0, 1] [1, 2, 3, 4, 5, 6] (example_buff 1)"
    by (simp add: sendable_def example_buff_def PRIO_NUM_def iqueues_init_def queue_init_def total_def)
  from priority_queues [OF iqueues_reach.start this, of False 1 0] show ?thesis
    by (auto simp: Let_def iqueues_init_def queue_init_def PRIO_NUM_def example_buff_def addressed_def qunlimited_may_enqueue_def)
qed

section \<open>Timed release\<close>

text \<open>
  The queues with the token policy have an entry in a table of the router: the queue (by a
  number), the time of the last release and the interval, in microseconds. \<open>locked\<close>: the lock of the router is taken and no running
  function will release it.
\<close>

record timed =
  td_q :: nat
  td_last :: u64
  td_interval :: u32

record rtimers =
  rt_queues :: "nat \<Rightarrow> vder_queue"
  timed_dequeue :: "timed list"
  smallest_interval :: u32
  locked :: bool

datatype 'a outcome = Fault | Deadlock | Done 'a

fun bind_outcome :: "'a outcome \<Rightarrow> ('a \<Rightarrow> 'b outcome) \<Rightarrow> 'b outcome" where
  "bind_outcome Fault f = Fault"
| "bind_outcome Deadlock f = Deadlock"
| "bind_outcome (Done x) f = f x"

definition vderouter_init :: "(nat \<Rightarrow> vder_queue) \<Rightarrow> rtimers" where
  "vderouter_init qs = \<lparr>rt_queues = qs, timed_dequeue = [], smallest_interval = 100000, locked = False\<rparr>"

definition set_policy :: "nat \<Rightarrow> policy \<Rightarrow> rtimers \<Rightarrow> rtimers" where
  "set_policy k pol r = r\<lparr>rt_queues := (rt_queues r)(k := queue_setup pol (rt_queues r k))\<rparr>"

text \<open>Without memory (\<open>mem\<close> false) the function returns with the lock taken.\<close>

definition vder_timed_dequeue_add :: "bool \<Rightarrow> u64 \<Rightarrow> nat \<Rightarrow> u32 \<Rightarrow> rtimers \<Rightarrow> rtimers outcome" where
  "vder_timed_dequeue_add mem now k interval r =
     (if locked r then Deadlock
      else if \<not> mem then Done (r\<lparr>locked := True\<rparr>)
      else Done (r\<lparr>timed_dequeue := \<lparr>td_q = k, td_last = now, td_interval = interval\<rparr> # timed_dequeue r,
                   smallest_interval := (if smallest_interval r > interval then interval else smallest_interval r)\<rparr>))"

fun remove_timed :: "nat \<Rightarrow> timed list \<Rightarrow> timed list" where
  "remove_timed k [] = []"
| "remove_timed k (t # ts) = (if td_q t = k then ts else t # remove_timed k ts)"

definition vder_timed_dequeue_del :: "nat \<Rightarrow> rtimers \<Rightarrow> rtimers outcome" where
  "vder_timed_dequeue_del k r =
     (if locked r then Deadlock else Done (r\<lparr>timed_dequeue := remove_timed k (timed_dequeue r)\<rparr>))"

definition leave_token :: "nat \<Rightarrow> rtimers \<Rightarrow> rtimers outcome" where
  "leave_token k r = (if is_token (q_policy (rt_queues r k)) then vder_timed_dequeue_del k r else Done r)"

definition qunlimited_setup :: "nat \<Rightarrow> rtimers \<Rightarrow> rtimers outcome" where
  "qunlimited_setup k r = bind_outcome (leave_token k r) (\<lambda>r. Done (set_policy k QPOLICY_UNLIMITED r))"

definition qfifo_setup :: "nat \<Rightarrow> u32 \<Rightarrow> rtimers \<Rightarrow> rtimers outcome" where
  "qfifo_setup k limit r = bind_outcome (leave_token k r) (\<lambda>r. Done (set_policy k (QPOLICY_FIFO limit 0) r))"

definition qred_setup :: "nat \<Rightarrow> u32 \<Rightarrow> u32 \<Rightarrow> u32 \<Rightarrow> rtimers \<Rightarrow> rtimers outcome" where
  "qred_setup k mn mx limit r = bind_outcome (leave_token k r) (\<lambda>r. Done (set_policy k (QPOLICY_RED mn mx limit 0 0) r))"

definition IDEAL_PACKET_SIZE :: u32 where "IDEAL_PACKET_SIZE = 1500"

definition token_interval :: "u32 \<Rightarrow> u32" where
  "token_interval bitrate = (1000000 * IDEAL_PACKET_SIZE) div drop_bit 3 bitrate"

text \<open>\<open>Fault\<close>: a division by zero.\<close>

definition qtoken_setup :: "bool \<Rightarrow> u64 \<Rightarrow> nat \<Rightarrow> u32 \<Rightarrow> u32 \<Rightarrow> rtimers \<Rightarrow> rtimers outcome" where
  "qtoken_setup mem now k bitrate limit r =
     (if drop_bit 3 bitrate = 0 then Fault
      else bind_outcome (leave_token k r) (\<lambda>r1.
        vder_timed_dequeue_add mem now k (token_interval bitrate)
          (set_policy k (QPOLICY_TOKEN limit 0 (ucast (token_interval bitrate))) r1)))"

text \<open>
  The semaphores of the router: each output queue has one, the priority queues of an interface
  point to one they share. \<open>queue_semaphore\<close> is the one posted for a queue.
\<close>

datatype semaphore = Semaphore nat | Prio_semaphore nat

definition queue_semaphore :: "(nat \<Rightarrow> vder_queue) \<Rightarrow> nat \<Rightarrow> semaphore" where
  "queue_semaphore qs k = (if q_type (qs k) = QTYPE_OUT then Semaphore k else Prio_semaphore (q_prio_semaphore (qs k)))"

text \<open>
  \<open>vder_timer_loop\<close>: the inner loop for one entry, with the value of the semaphore posted; a pass over
  the table, with the semaphores; and passes at the times given. The arithmetic on times wraps at 64 bits.
\<close>

partial_function (option) timer_entry :: "u64 \<Rightarrow> u64 \<Rightarrow> nat \<Rightarrow> u64 \<Rightarrow> (nat \<times> u64) option" where
  "timer_entry now interval sem last_out =
     (if now > last_out + interval
      then let l = last_out + interval
           in timer_entry now interval (sem + 1) (if l > now then now else l)
      else Some (sem, last_out))"

fun timer_pass :: "(nat \<Rightarrow> vder_queue) \<Rightarrow> u64 \<Rightarrow> timed list \<Rightarrow> (semaphore \<Rightarrow> nat) \<Rightarrow> (timed list \<times> (semaphore \<Rightarrow> nat)) option" where
  "timer_pass qs now [] sems = Some ([], sems)"
| "timer_pass qs now (t # ts) sems =
     (let x = queue_semaphore qs (td_q t)
      in case timer_entry now (ucast (td_interval t)) (sems x) (td_last t) of
           None \<Rightarrow> None
         | Some (sem, l) \<Rightarrow> map_option (\<lambda>(ts', sems'). (t\<lparr>td_last := l\<rparr> # ts', sems')) (timer_pass qs now ts (sems(x := sem))))"

fun vder_timer_loop :: "(nat \<Rightarrow> vder_queue) \<Rightarrow> u64 list \<Rightarrow> timed list \<times> (semaphore \<Rightarrow> nat) \<Rightarrow> (timed list \<times> (semaphore \<Rightarrow> nat)) option" where
  "vder_timer_loop qs [] st = Some st"
| "vder_timer_loop qs (now # nows) (ts, sems) =
     (case timer_pass qs now ts sems of None \<Rightarrow> None | Some st \<Rightarrow> vder_timer_loop qs nows st)"

text \<open>The number of releases of an entry that are due at a time: the whole intervals that have gone by before it.\<close>

definition due :: "u64 \<Rightarrow> timed \<Rightarrow> nat" where
  "due now t = (if td_last t < now then (unat now - unat (td_last t) - 1) div unat (td_interval t) else 0)"

text \<open>Times are below \<open>2 ^ 63\<close> microseconds, some 290000 years: adding an interval does not wrap.\<close>

lemma unat_plus_interval:
  fixes l iv :: u64
  assumes "l < 2 ^ 63" and "iv < 2 ^ 32"
  shows "unat (l + iv) = unat l + unat iv"
proof -
  have "unat l < 2 ^ 63" "unat iv < 2 ^ 32" using assms by (simp_all add: word_less_nat_alt)
  then have "unat l + unat iv < 2 ^ LENGTH(64)" by simp
  then show ?thesis by (rule unat_add_lem [THEN iffD1])
qed

lemma div_pred_step:
  assumes "0 < iv" and "l + iv < (n :: nat)"
  shows "(n - l - 1) div iv = Suc ((n - (l + iv) - 1) div iv)"
proof -
  define k where "k = n - (l + iv) - 1"
  have "n - l - 1 = k + iv" using assms by (simp add: k_def)
  then show ?thesis unfolding k_def [symmetric] using assms(1) div_add_self2 [of iv k] by simp
qed

lemma timer_entry_rate:
  assumes "0 < iv" and "iv < 2 ^ 32" and "now < 2 ^ 63" and "l < 2 ^ 63"
  shows "\<exists>l'. timer_entry now iv sem l = Some (sem + (if l < now then (unat now - unat l - 1) div unat iv else 0), l') \<and>
    unat l' = unat l + (if l < now then (unat now - unat l - 1) div unat iv else 0) * unat iv \<and> l' < 2 ^ 63"
  using assms(4)
proof (induction "unat now - unat l" arbitrary: sem l rule: less_induct)
  case less
  have iv: "0 < unat iv" using assms(1) by (simp add: word_less_nat_alt)
  have u: "unat (l + iv) = unat l + unat iv" by (rule unat_plus_interval [OF less.prems assms(2)])
  show ?case
  proof (cases "now > l + iv")
    case False
    then have "(if l < now then (unat now - unat l - 1) div unat iv else 0) = 0"
      using u iv by (auto simp: word_less_nat_alt)
    then show ?thesis using False less.prems by (simp add: timer_entry.simps [of now iv sem l])
  next
    case True
    then have lt: "unat l + unat iv < unat now" by (simp add: word_less_nat_alt u)
    then have "l < now" and m: "unat now - unat (l + iv) < unat now - unat l" and n: "\<not> l + iv > now"
      using u iv by (auto simp: word_less_nat_alt)
    have "l + iv < 2 ^ 63" using True assms(3) by order
    from less.hyps [OF m this, of "sem + 1"] True
    obtain l' where h: "timer_entry now iv (sem + 1) (l + iv) = Some (sem + 1 + (unat now - unat (l + iv) - 1) div unat iv, l')"
      "unat l' = unat (l + iv) + (unat now - unat (l + iv) - 1) div unat iv * unat iv" "l' < 2 ^ 63" by auto
    have "timer_entry now iv sem l = timer_entry now iv (sem + 1) (l + iv)"
      using True n by (simp add: timer_entry.simps [of now iv sem l])
    then show ?thesis using h \<open>l < now\<close> div_pred_step [OF iv lt] by (simp add: u)
  qed
qed

text \<open>The table agrees with the policies: one entry for each queue with the token policy.\<close>

definition timers_ok :: "rtimers \<Rightarrow> bool" where
  "timers_ok r \<longleftrightarrow> distinct (map td_q (timed_dequeue r)) \<and>
     (\<forall>k. is_token (q_policy (rt_queues r k)) \<longleftrightarrow> k \<in> td_q ` set (timed_dequeue r)) \<and>
     (\<forall>t \<in> set (timed_dequeue r). 0 < td_interval t \<and> smallest_interval r \<le> td_interval t)"

lemma remove_timed_filter: "distinct (map td_q ts) \<Longrightarrow> remove_timed k ts = filter (\<lambda>t. td_q t \<noteq> k) ts"
  by (induction ts) (auto intro!: filter_True [symmetric] simp: image_iff)

lemma leave_token_ok:
  assumes "timers_ok r" and "\<not> locked r"
  shows "\<exists>r'. leave_token k r = Done r' \<and> rt_queues r' = rt_queues r \<and> \<not> locked r' \<and> smallest_interval r' = smallest_interval r \<and>
    timed_dequeue r' = filter (\<lambda>t. td_q t \<noteq> k) (timed_dequeue r)"
proof (cases "is_token (q_policy (rt_queues r k))")
  case True then show ?thesis
    using assms by (simp add: leave_token_def vder_timed_dequeue_del_def timers_ok_def remove_timed_filter)
next
  case False
  then have "k \<notin> td_q ` set (timed_dequeue r)" using assms by (simp add: timers_ok_def)
  then have "filter (\<lambda>t. td_q t \<noteq> k) (timed_dequeue r) = timed_dequeue r" by (auto intro!: filter_True)
  then show ?thesis using False assms by (simp add: leave_token_def)
qed

lemma set_policy_simps [simp]:
  "timed_dequeue (set_policy k pol r) = timed_dequeue r" "smallest_interval (set_policy k pol r) = smallest_interval r"
  "locked (set_policy k pol r) = locked r" "rt_queues (set_policy k pol r) = (rt_queues r)(k := queue_setup pol (rt_queues r k))"
  by (simp_all add: set_policy_def)

lemma leave_then_policy:
  assumes "timers_ok r" and "\<not> locked r" and "\<not> is_token pol"
  shows "\<exists>r'. bind_outcome (leave_token k r) (\<lambda>r. Done (set_policy k pol r)) = Done r' \<and> timers_ok r' \<and> \<not> locked r' \<and>
    q_policy (rt_queues r' k) = pol \<and> (\<forall>j. q_bufs (rt_queues r' j) = q_bufs (rt_queues r j)) \<and>
    timed_dequeue r' = filter (\<lambda>t. td_q t \<noteq> k) (timed_dequeue r)"
proof -
  from leave_token_ok [OF assms(1,2), of k] obtain r1 where "leave_token k r = Done r1" "rt_queues r1 = rt_queues r" "\<not> locked r1"
    "smallest_interval r1 = smallest_interval r" "timed_dequeue r1 = filter (\<lambda>t. td_q t \<noteq> k) (timed_dequeue r)" by blast
  then show ?thesis using assms by (auto simp: timers_ok_def distinct_map_filter)
qed

lemma token_interval_bounds:
  assumes "8 \<le> bitrate"
  shows "drop_bit 3 bitrate \<noteq> 0" and "unat (token_interval bitrate) = 1500000000 div (unat bitrate div 8)"
    and "2 \<le> unat (token_interval bitrate)"
proof -
  have u: "unat (drop_bit 3 bitrate) = unat bitrate div 8" by (simp add: drop_bit_eq_div unat_div_distrib)
  have b: "8 \<le> unat bitrate" "unat bitrate < 4294967296"
    using assms unsigned_less [of bitrate] by (simp_all add: word_le_nat_alt)
  then show "drop_bit 3 bitrate \<noteq> 0" using u by auto
  have "unat ((1000000 :: u32) * IDEAL_PACKET_SIZE) = 1500000000" by (simp add: IDEAL_PACKET_SIZE_def)
  then show i: "unat (token_interval bitrate) = 1500000000 div (unat bitrate div 8)"
    by (simp add: token_interval_def unat_div_distrib u)
  have "unat bitrate div 8 \<le> 536870911" "0 < unat bitrate div 8" using b by presburger+
  then have "2 * (unat bitrate div 8) \<le> 1500000000" by linarith
  then show "2 \<le> unat (token_interval bitrate)" using \<open>0 < unat bitrate div 8\<close> by (simp add: i less_eq_div_iff_mult_less_eq)
qed

text \<open>
  Policies and the timer table. While the lock of the router is free, every change of a policy
  returns, keeps the packets of all queues and keeps the table in agreement with the
  policies, with one entry per queue with the token policy; the interval of an entry is the time an
  ideal packet takes at the bit rate, at least 2 microseconds. Below 8 bits per second the setup divides by
  zero; when memory runs out it leaves the lock taken, and the next change of that policy
  waits for it for ever.
\<close>

theorem token_policies:
  assumes ok: "timers_ok r" and free: "\<not> locked r"
  shows "(\<forall>(f, pol) \<in> {(qunlimited_setup k, QPOLICY_UNLIMITED), (qfifo_setup k limit, QPOLICY_FIFO limit 0),
        (qred_setup k mn mx limit, QPOLICY_RED mn mx limit 0 0)}.
      \<exists>r'. f r = Done r' \<and> timers_ok r' \<and> \<not> locked r' \<and> q_policy (rt_queues r' k) = pol \<and>
        (\<forall>j. q_bufs (rt_queues r' j) = q_bufs (rt_queues r j)) \<and>
        timed_dequeue r' = filter (\<lambda>t. td_q t \<noteq> k) (timed_dequeue r)) \<and>
    (bitrate < 8 \<longrightarrow> qtoken_setup mem now k bitrate limit r = Fault) \<and>
    (8 \<le> bitrate \<longrightarrow> (\<exists>r' iv. qtoken_setup True now k bitrate limit r = Done r' \<and> timers_ok r' \<and> \<not> locked r' \<and>
        (\<forall>j. q_bufs (rt_queues r' j) = q_bufs (rt_queues r j)) \<and>
        timed_dequeue r' = \<lparr>td_q = k, td_last = now, td_interval = iv\<rparr> # filter (\<lambda>t. td_q t \<noteq> k) (timed_dequeue r) \<and>
        unat iv = 1500000000 div (unat bitrate div 8) \<and> 2 \<le> unat iv)) \<and>
    (8 \<le> bitrate \<longrightarrow> (\<exists>r'. qtoken_setup False now k bitrate limit r = Done r' \<and> qunlimited_setup k r' = Deadlock))"
proof (intro conjI impI)
  note lp = leave_then_policy [OF ok free]
  show "\<forall>(f, pol) \<in> {(qunlimited_setup k, QPOLICY_UNLIMITED), (qfifo_setup k limit, QPOLICY_FIFO limit 0),
        (qred_setup k mn mx limit, QPOLICY_RED mn mx limit 0 0)}.
      \<exists>r'. f r = Done r' \<and> timers_ok r' \<and> \<not> locked r' \<and> q_policy (rt_queues r' k) = pol \<and>
        (\<forall>j. q_bufs (rt_queues r' j) = q_bufs (rt_queues r j)) \<and>
        timed_dequeue r' = filter (\<lambda>t. td_q t \<noteq> k) (timed_dequeue r)"
    using lp [of QPOLICY_UNLIMITED k] lp [of "QPOLICY_FIFO limit 0" k] lp [of "QPOLICY_RED mn mx limit 0 0" k]
    by (simp add: qunlimited_setup_def qfifo_setup_def qred_setup_def)
  show "qtoken_setup mem now k bitrate limit r = Fault" if lt: "bitrate < 8"
    using lt by (simp add: qtoken_setup_def drop_bit_eq_div word_less_nat_alt unat_div_distrib word_unat_eq_iff)
  from leave_token_ok [OF ok free, of k] obtain r1 where r1: "leave_token k r = Done r1" "rt_queues r1 = rt_queues r" "\<not> locked r1"
    "smallest_interval r1 = smallest_interval r" "timed_dequeue r1 = filter (\<lambda>t. td_q t \<noteq> k) (timed_dequeue r)" by blast
  show "\<exists>r'. qtoken_setup False now k bitrate limit r = Done r' \<and> qunlimited_setup k r' = Deadlock" if ge: "8 \<le> bitrate"
    using r1 token_interval_bounds(1) [OF ge]
    by (simp add: qtoken_setup_def vder_timed_dequeue_add_def qunlimited_setup_def leave_token_def vder_timed_dequeue_del_def)
  show "\<exists>r' iv. qtoken_setup True now k bitrate limit r = Done r' \<and> timers_ok r' \<and> \<not> locked r' \<and>
        (\<forall>j. q_bufs (rt_queues r' j) = q_bufs (rt_queues r j)) \<and>
        timed_dequeue r' = \<lparr>td_q = k, td_last = now, td_interval = iv\<rparr> # filter (\<lambda>t. td_q t \<noteq> k) (timed_dequeue r) \<and>
        unat iv = 1500000000 div (unat bitrate div 8) \<and> 2 \<le> unat iv" if ge: "8 \<le> bitrate"
  proof -
    note b = token_interval_bounds [OF ge]
    have "0 < token_interval bitrate" using b(3) by (simp add: word_less_nat_alt)
    then show ?thesis using r1 b ok
      by (auto simp: qtoken_setup_def vder_timed_dequeue_add_def timers_ok_def distinct_map_filter)
  qed
qed

definition example_timers :: rtimers where
  "example_timers = vderouter_init (\<lambda>k. queue_init QTYPE_OUT 0)"

lemma example_timers_ok: "timers_ok example_timers" "\<not> locked example_timers"
  by (simp_all add: example_timers_def vderouter_init_def timers_ok_def queue_init_def)

theorem token_policies_witness:
  "\<exists>r' iv. qtoken_setup True 5 0 8000000 30000 example_timers = Done r' \<and> timers_ok r' \<and>
     timed_dequeue r' = [\<lparr>td_q = 0, td_last = 5, td_interval = iv\<rparr>] \<and> unat iv = 1500"
  using token_policies [OF example_timers_ok, where k = 0 and bitrate = 8000000 and limit = 30000 and now = 5
      and mn = 0 and mx = 0 and mem = True]
  by (auto simp: example_timers_def vderouter_init_def)

text \<open>
  Entries after a pass at \<open>now\<close>: each has advanced by the releases due. Passes compose.
\<close>

definition advanced :: "u64 \<Rightarrow> timed \<Rightarrow> timed \<Rightarrow> bool" where
  "advanced now t t' \<longleftrightarrow> td_q t' = td_q t \<and> td_interval t' = td_interval t \<and> td_last t' < 2 ^ 63 \<and>
     unat (td_last t') = unat (td_last t) + due now t * unat (td_interval t)"

definition releases :: "(nat \<Rightarrow> vder_queue) \<Rightarrow> u64 \<Rightarrow> timed list \<Rightarrow> semaphore \<Rightarrow> nat" where
  "releases qs now ts x = sum_list (map (due now) (filter (\<lambda>t. queue_semaphore qs (td_q t) = x) ts))"

definition entry_ok :: "timed \<Rightarrow> bool" where
  "entry_ok t \<longleftrightarrow> 0 < td_interval t \<and> td_last t < 2 ^ 63"

lemma due_advanced:
  assumes "advanced a t t'" and "a \<le> now" and "entry_ok t"
  shows "due now t = due a t + due now t'"
proof (cases "td_last t < a")
  case False
  then show ?thesis using assms(1) by (simp add: advanced_def due_def word_unat_eq_iff word_less_nat_alt)
next
  case True
  let ?iv = "unat (td_interval t)" and ?l = "unat (td_last t)"
  define n where "n = due a t"
  have iv: "0 < ?iv" using assms(3) by (simp add: entry_ok_def word_less_nat_alt)
  have n: "n = (unat a - ?l - 1) div ?iv" using True by (simp add: n_def due_def)
  then have "n * ?iv \<le> unat a - ?l - 1" by simp
  moreover have la: "?l < unat a" "unat a \<le> unat now" using True assms(2) by (simp_all add: word_less_nat_alt word_le_nat_alt)
  ultimately have lt: "?l + n * ?iv < unat now" by linarith
  have l': "unat (td_last t') = ?l + n * ?iv" "td_interval t' = td_interval t" using assms(1) by (simp_all add: advanced_def n_def)
  have "unat now - ?l - 1 = (unat now - (?l + n * ?iv) - 1) + n * ?iv" using lt by simp
  then have "(unat now - ?l - 1) div ?iv = n + (unat now - (?l + n * ?iv) - 1) div ?iv" using iv by simp
  moreover have "td_last t < now" "td_last t' < now" using la lt l' by (simp_all add: word_less_nat_alt)
  ultimately show ?thesis unfolding n_def [symmetric] using l' by (simp add: due_def)
qed

lemma advanced_trans:
  assumes "advanced a t t1" and "advanced now t1 t2" and "a \<le> now" and "entry_ok t"
  shows "advanced now t t2"
  using assms due_advanced [OF assms(1,3,4)] by (simp add: advanced_def algebra_simps)

lemma timer_pass_rate:
  assumes "\<forall>t \<in> set ts. entry_ok t" and "now < 2 ^ 63"
  shows "\<exists>ts'. timer_pass qs now ts sems = Some (ts', \<lambda>x. sems x + releases qs now ts x) \<and> list_all2 (advanced now) ts ts'"
  using assms(1)
proof (induction ts arbitrary: sems)
  case (Cons t ts)
  let ?x = "queue_semaphore qs (td_q t)" and ?iv = "ucast (td_interval t) :: u64"
  have t: "entry_ok t" and ts: "\<forall>t \<in> set ts. entry_ok t" using Cons.prems by simp_all
  have u: "unat ?iv = unat (td_interval t)" 
    by (simp add: unsigned_ucast_eq take_bit_nat_eq_self order_less_trans [OF unsigned_less [of "td_interval t"]])
  have "0 < ?iv" "?iv < 2 ^ 32" using t unsigned_less [of "td_interval t"] by (simp_all add: entry_ok_def word_less_nat_alt u)
  with timer_entry_rate [OF this assms(2), of "td_last t" "sems ?x"] t obtain l' where
    l': "timer_entry now ?iv (sems ?x) (td_last t) = Some (sems ?x + due now t, l')"
    "unat l' = unat (td_last t) + due now t * unat (td_interval t)" "l' < 2 ^ 63"
    unfolding due_def u entry_ok_def by blast
  from Cons.IH [OF ts, of "sems(?x := sems ?x + due now t)"] obtain ts' where
    h: "timer_pass qs now ts (sems(?x := sems ?x + due now t)) =
      Some (ts', \<lambda>x. (sems(?x := sems ?x + due now t)) x + releases qs now ts x)" "list_all2 (advanced now) ts ts'" by blast
  have "(\<lambda>x. (sems(?x := sems ?x + due now t)) x + releases qs now ts x) = (\<lambda>x. sems x + releases qs now (t # ts) x)"
    by (auto simp: releases_def)
  moreover have "advanced now t (t\<lparr>td_last := l'\<rparr>)" using l' by (simp add: advanced_def)
  ultimately show ?case using h l'(1) by (simp add: Let_def)
qed (simp add: releases_def)

lemma releases_Cons: "releases qs now (t # ts) x = (if queue_semaphore qs (td_q t) = x then due now t else 0) + releases qs now ts x"
  by (simp add: releases_def)

lemma releases_advanced:
  assumes "list_all2 (advanced a) ts ts'" and "a \<le> now" and "\<forall>t \<in> set ts. entry_ok t"
  shows "releases qs now ts x = releases qs a ts x + releases qs now ts' x \<and> (\<forall>t \<in> set ts'. entry_ok t)"
  using assms(1,3)
proof (induction ts arbitrary: ts')
  case (Cons t ts)
  from Cons.prems(1) obtain t' us where t': "ts' = t' # us" "advanced a t t'" "list_all2 (advanced a) ts us" by (auto simp: list_all2_Cons1)
  have e: "entry_ok t" and es: "\<forall>t \<in> set ts. entry_ok t" using Cons.prems(2) by simp_all
  have "td_q t' = td_q t" "entry_ok t'" using t'(2) e by (simp_all add: advanced_def entry_ok_def)
  then show ?case
    using due_advanced [OF t'(2) assms(2) e] Cons.IH [OF t'(3) es] by (simp add: t'(1) releases_Cons)
qed (simp add: releases_def)

lemma timer_loop_rate:
  assumes "\<forall>t \<in> set ts. entry_ok t" and "sorted (nows @ [now])" and "now < 2 ^ 63"
  shows "\<exists>ts'. vder_timer_loop qs (nows @ [now]) (ts, sems) = Some (ts', \<lambda>x. sems x + releases qs now ts x) \<and>
    list_all2 (advanced now) ts ts'"
  using assms(1,2)
proof (induction nows arbitrary: ts sems)
  case Nil then show ?case using timer_pass_rate [OF Nil(1) assms(3), of qs sems] by auto
next
  case (Cons a nows)
  have a: "a \<le> now" using Cons.prems(2) by simp
  then have "a < 2 ^ 63" using assms(3) by order
  from timer_pass_rate [OF Cons.prems(1) this, of qs sems] obtain ts1 where
    h: "timer_pass qs a ts sems = Some (ts1, \<lambda>x. sems x + releases qs a ts x)" "list_all2 (advanced a) ts ts1" by blast
  have e1: "\<forall>t \<in> set ts1. entry_ok t"
    using releases_advanced [OF h(2) a Cons.prems(1)] by blast
  have "sorted (nows @ [now])" using Cons.prems(2) by simp
  from Cons.IH [OF e1 this, of "\<lambda>x. sems x + releases qs a ts x"] obtain ts2 where
    g: "vder_timer_loop qs (nows @ [now]) (ts1, \<lambda>x. sems x + releases qs a ts x) =
      Some (ts2, \<lambda>x. sems x + releases qs a ts x + releases qs now ts1 x)" "list_all2 (advanced now) ts1 ts2" by blast
  have "list_all2 (advanced now) ts ts2"
    using h(2) g(2) Cons.prems(1) advanced_trans [OF _ _ a] unfolding list_all2_conv_all_nth by (metis nth_mem)
  moreover have "(\<lambda>x. sems x + releases qs a ts x + releases qs now ts1 x) = (\<lambda>x. sems x + releases qs now ts x)"
    using releases_advanced [OF h(2) a Cons.prems(1)] by (simp add: fun_eq_iff)
  ultimately show ?case using h(1) g(1) by simp
qed

text \<open>
  C19: rate of the timer. With the table in order and the clock and the times of the entries below \<open>2 ^ 63\<close> microseconds,
  the timer loop returns from every pass, whenever it
  looks at the clock. An entry causes, between the time it was made (or last advanced) and a pass, as many posts as
  whole intervals have gone by before that pass: the rate
  is that of the interval however late or irregular the passes are. The posts for an output queue go to its own
  semaphore; those for a priority queue to the semaphore that all priority queues of its interface
  share, which thus gets the sum of their rates. No other semaphore is posted.
\<close>

theorem timer_rate:
  assumes "timers_ok r" and "\<forall>t \<in> set (timed_dequeue r). td_last t < 2 ^ 63" and "sorted (nows @ [now])" and "now < 2 ^ 63"
  shows "\<exists>ts' sems'. vder_timer_loop (rt_queues r) (nows @ [now]) (timed_dequeue r, sems) = Some (ts', sems') \<and>
    (\<forall>k. q_type (rt_queues r k) = QTYPE_OUT \<longrightarrow> sems' (Semaphore k) = sems (Semaphore k) +
       (\<Sum>t\<leftarrow>filter (\<lambda>t. td_q t = k) (timed_dequeue r). due now t)) \<and>
    (\<forall>k. q_type (rt_queues r k) \<noteq> QTYPE_OUT \<longrightarrow> sems' (Semaphore k) = sems (Semaphore k)) \<and>
    (\<forall>i. sems' (Prio_semaphore i) = sems (Prio_semaphore i) +
       (\<Sum>t\<leftarrow>filter (\<lambda>t. q_type (rt_queues r (td_q t)) = QTYPE_PRIO \<and> q_prio_semaphore (rt_queues r (td_q t)) = i) (timed_dequeue r). due now t)) \<and>
    (\<forall>k. \<not> is_token (q_policy (rt_queues r k)) \<longrightarrow> filter (\<lambda>t. td_q t = k) (timed_dequeue r) = []) \<and>
    (\<forall>t \<in> set (timed_dequeue r). filter (\<lambda>u. td_q u = td_q t) (timed_dequeue r) = [t])"
proof -
  have "\<forall>t \<in> set (timed_dequeue r). entry_ok t" using assms(1,2) by (simp add: timers_ok_def entry_ok_def)
  from timer_loop_rate [OF this assms(3,4), of "rt_queues r" sems] obtain ts' where h:
    "vder_timer_loop (rt_queues r) (nows @ [now]) (timed_dequeue r, sems) = Some (ts', \<lambda>x. sems x + releases (rt_queues r) now (timed_dequeue r) x)"
    by blast
  have own: "filter (\<lambda>t. queue_semaphore (rt_queues r) (td_q t) = Semaphore k) (timed_dequeue r) =
      (if q_type (rt_queues r k) = QTYPE_OUT then filter (\<lambda>t. td_q t = k) (timed_dequeue r) else [])" for k
    by (auto simp: queue_semaphore_def filter_empty_conv intro!: filter_cong)
  have shared: "filter (\<lambda>t. queue_semaphore (rt_queues r) (td_q t) = Prio_semaphore i) (timed_dequeue r) =
      filter (\<lambda>t. q_type (rt_queues r (td_q t)) = QTYPE_PRIO \<and> q_prio_semaphore (rt_queues r (td_q t)) = i) (timed_dequeue r)" for i
    by (rule filter_cong) (auto simp: queue_semaphore_def intro: qtype.exhaust)
  have single: "filter (\<lambda>u. td_q u = td_q t) ts = [t]" if "distinct (map td_q ts)" "t \<in> set ts" for t and ts :: "timed list"
    using that by (induction ts) (auto simp: filter_empty_conv image_iff)
  have none: "filter (\<lambda>t. td_q t = k) (timed_dequeue r) = []" if "\<not> is_token (q_policy (rt_queues r k))" for k
    using that assms(1) by (auto simp: timers_ok_def filter_empty_conv)
  show ?thesis
    using h own shared none single [of "timed_dequeue r"] assms(1) by (auto simp: releases_def timers_ok_def)
qed

definition example_token :: rtimers where
  "example_token = \<lparr>rt_queues = \<lambda>k. (queue_init (if k < 2 then QTYPE_OUT else QTYPE_PRIO) 0)
       \<lparr>q_policy := if k \<in> {3, 4} then QPOLICY_TOKEN 9000 0 1500 else QPOLICY_UNLIMITED\<rparr>,
     timed_dequeue = [\<lparr>td_q = 4, td_last = 1000, td_interval = 1500\<rparr>, \<lparr>td_q = 3, td_last = 1000, td_interval = 3000\<rparr>],
     smallest_interval = 1500, locked = False\<rparr>"

theorem timer_rate_witness:
  "\<exists>ts' sems'. vder_timer_loop (rt_queues example_token) [1000, 4200, 7001] (timed_dequeue example_token, \<lambda>x. 0) = Some (ts', sems') \<and>
     sems' (Prio_semaphore 0) = 6 \<and> sems' (Semaphore 4) = 0"
proof -
  have "timers_ok example_token" by (auto simp: timers_ok_def example_token_def queue_init_def)
  moreover have "\<forall>t \<in> set (timed_dequeue example_token). td_last t < 2 ^ 63" by (simp add: example_token_def)
  ultimately have "\<exists>ts' sems'. vder_timer_loop (rt_queues example_token) [1000, 4200, 7001] (timed_dequeue example_token, \<lambda>x. 0) = Some (ts', sems') \<and>
     sems' (Prio_semaphore 0) = (\<Sum>t\<leftarrow>timed_dequeue example_token. due 7001 t) \<and> sems' (Semaphore 4) = 0"
    using timer_rate [of example_token "[1000, 4200]" 7001 "\<lambda>x. 0"] by (auto simp: example_token_def queue_init_def)
  then show ?thesis by (simp add: example_token_def due_def)
qed

end
