(* ===== verification/Arptree.thy ===== *)
theory Arptree
  imports Routes
begin

text \<open>
  The ARP table of an interface of the router, \<^verbatim>\<open>vde_router/vder_arp.c\<close>: a red-black tree with
  parent pointers, \<^verbatim>\<open>vde_router/rbtree.c\<close>. The store maps addresses to nodes; a node is an ARP entry with the tree
  node inside it, and the word that packs parent and colour is two fields. \<open>None\<close> as the
  result of an operation is an access through \<open>NULL\<close> or a loop that does not end; the theorems show that
  neither happens.
\<close>

section \<open>Nodes and rotations\<close>

record rb_node =
  rb_parent :: "nat option"
  rb_red :: bool
  rb_left :: "nat option"
  rb_right :: "nat option"
  ipaddr :: u32
  macaddr :: bytes

record arp_tree =
  node_at :: "nat \<Rightarrow> rb_node"
  rb_root :: "nat option"

definition upd_node :: "nat \<Rightarrow> (rb_node \<Rightarrow> rb_node) \<Rightarrow> arp_tree \<Rightarrow> arp_tree" where
  "upd_node a f s = s\<lparr>node_at := (node_at s)(a := f (node_at s a))\<rparr>"

definition rb_set_parent :: "nat \<Rightarrow> nat option \<Rightarrow> arp_tree \<Rightarrow> arp_tree" where
  "rb_set_parent a p = upd_node a (\<lambda>n. n\<lparr>rb_parent := p\<rparr>)"

definition rb_set_red :: "nat \<Rightarrow> bool \<Rightarrow> arp_tree \<Rightarrow> arp_tree" where
  "rb_set_red a c = upd_node a (\<lambda>n. n\<lparr>rb_red := c\<rparr>)"

definition rb_rotate_left :: "nat \<Rightarrow> arp_tree \<Rightarrow> arp_tree option" where
  "rb_rotate_left node s =
     (case rb_right (node_at s node) of
        None \<Rightarrow> None
      | Some right \<Rightarrow>
          let parent = rb_parent (node_at s node);
              rl = rb_left (node_at s right);
              s1 = upd_node node (\<lambda>n. n\<lparr>rb_right := rl\<rparr>) s;
              s2 = (case rl of None \<Rightarrow> s1 | Some c \<Rightarrow> rb_set_parent c (Some node) s1);
              s3 = upd_node right (\<lambda>n. n\<lparr>rb_left := Some node\<rparr>) s2;
              s4 = rb_set_parent right parent s3;
              s5 = (case parent of
                      Some p \<Rightarrow>
                        if rb_left (node_at s4 p) = Some node then upd_node p (\<lambda>n. n\<lparr>rb_left := Some right\<rparr>) s4
                        else upd_node p (\<lambda>n. n\<lparr>rb_right := Some right\<rparr>) s4
                    | None \<Rightarrow> s4\<lparr>rb_root := Some right\<rparr>)
          in Some (rb_set_parent node (Some right) s5))"

definition rb_rotate_right :: "nat \<Rightarrow> arp_tree \<Rightarrow> arp_tree option" where
  "rb_rotate_right node s =
     (case rb_left (node_at s node) of
        None \<Rightarrow> None
      | Some left \<Rightarrow>
          let parent = rb_parent (node_at s node);
              lr = rb_right (node_at s left);
              s1 = upd_node node (\<lambda>n. n\<lparr>rb_left := lr\<rparr>) s;
              s2 = (case lr of None \<Rightarrow> s1 | Some c \<Rightarrow> rb_set_parent c (Some node) s1);
              s3 = upd_node left (\<lambda>n. n\<lparr>rb_right := Some node\<rparr>) s2;
              s4 = rb_set_parent left parent s3;
              s5 = (case parent of
                      Some p \<Rightarrow>
                        if rb_right (node_at s4 p) = Some node then upd_node p (\<lambda>n. n\<lparr>rb_right := Some left\<rparr>) s4
                        else upd_node p (\<lambda>n. n\<lparr>rb_left := Some left\<rparr>) s4
                    | None \<Rightarrow> s4\<lparr>rb_root := Some left\<rparr>)
          in Some (rb_set_parent node (Some left) s5))"

section \<open>Insertion\<close>

definition is_red :: "arp_tree \<Rightarrow> nat option \<Rightarrow> bool" where
  "is_red s x = (case x of None \<Rightarrow> False | Some a \<Rightarrow> rb_red (node_at s a))"

text \<open>The end of a turn of the loop that rotates: the node with which the loop goes on.\<close>

definition turn_left_child :: "nat \<Rightarrow> nat \<Rightarrow> nat \<Rightarrow> arp_tree \<Rightarrow> (nat \<times> arp_tree) option" where
  "turn_left_child node parent gparent s =
     Option.bind (if rb_right (node_at s parent) = Some node
                  then map_option (\<lambda>s1. (parent, node, s1)) (rb_rotate_left parent s) else Some (node, parent, s))
       (\<lambda>(node1, parent1, s1).
          map_option (Pair node1) (rb_rotate_right gparent (rb_set_red gparent True (rb_set_red parent1 False s1))))"

definition turn_right_child :: "nat \<Rightarrow> nat \<Rightarrow> nat \<Rightarrow> arp_tree \<Rightarrow> (nat \<times> arp_tree) option" where
  "turn_right_child node parent gparent s =
     Option.bind (if rb_left (node_at s parent) = Some node
                  then map_option (\<lambda>s1. (parent, node, s1)) (rb_rotate_right parent s) else Some (node, parent, s))
       (\<lambda>(node1, parent1, s1).
          map_option (Pair node1) (rb_rotate_left gparent (rb_set_red gparent True (rb_set_red parent1 False s1))))"

definition recolour :: "nat \<Rightarrow> nat \<Rightarrow> nat \<Rightarrow> arp_tree \<Rightarrow> arp_tree" where
  "recolour uncle parent gparent s = rb_set_red gparent True (rb_set_red parent False (rb_set_red uncle False s))"

partial_function (option) rb_insert_color :: "nat \<Rightarrow> arp_tree \<Rightarrow> arp_tree option" where
  "rb_insert_color node s =
     (let blacken = (case rb_root s of None \<Rightarrow> None | Some r \<Rightarrow> Some (rb_set_red r False s))
      in case rb_parent (node_at s node) of
           None \<Rightarrow> blacken
         | Some parent \<Rightarrow>
             if \<not> rb_red (node_at s parent) then blacken
             else case rb_parent (node_at s parent) of
                    None \<Rightarrow> None
                  | Some gparent \<Rightarrow>
                      if rb_left (node_at s gparent) = Some parent
                      then (if is_red s (rb_right (node_at s gparent))
                            then rb_insert_color gparent (recolour (the (rb_right (node_at s gparent))) parent gparent s)
                            else Option.bind (turn_left_child node parent gparent s) (\<lambda>r. rb_insert_color (fst r) (snd r)))
                      else (if is_red s (rb_left (node_at s gparent))
                            then rb_insert_color gparent (recolour (the (rb_left (node_at s gparent))) parent gparent s)
                            else Option.bind (turn_right_child node parent gparent s) (\<lambda>r. rb_insert_color (fst r) (snd r))))"

text \<open>The pointer to a pointer with which the search for the place goes down.\<close>

datatype link = Root_link | Left_link nat | Right_link nat

fun at_link :: "link \<Rightarrow> arp_tree \<Rightarrow> nat option" where
  "at_link Root_link s = rb_root s"
| "at_link (Left_link a) s = rb_left (node_at s a)"
| "at_link (Right_link a) s = rb_right (node_at s a)"

fun set_link :: "link \<Rightarrow> nat \<Rightarrow> arp_tree \<Rightarrow> arp_tree" where
  "set_link Root_link x s = s\<lparr>rb_root := Some x\<rparr>"
| "set_link (Left_link a) x s = upd_node a (\<lambda>n. n\<lparr>rb_left := Some x\<rparr>) s"
| "set_link (Right_link a) x s = upd_node a (\<lambda>n. n\<lparr>rb_right := Some x\<rparr>) s"

definition rb_link_node :: "nat \<Rightarrow> nat option \<Rightarrow> link \<Rightarrow> arp_tree \<Rightarrow> arp_tree" where
  "rb_link_node node parent l s =
     set_link l node (upd_node node (\<lambda>n. n\<lparr>rb_parent := parent, rb_red := True, rb_left := None, rb_right := None\<rparr>) s)"

partial_function (option) arp_walk :: "u32 \<Rightarrow> link \<Rightarrow> nat option \<Rightarrow> arp_tree \<Rightarrow> ((link \<times> nat option) + nat) option" where
  "arp_walk hostorder_ip l parent s =
     (case at_link l s of
        None \<Rightarrow> Some (Inl (l, parent))
      | Some entry \<Rightarrow>
          if ntohl (ipaddr (node_at s entry)) > hostorder_ip then arp_walk hostorder_ip (Left_link entry) (Some entry) s
          else if ntohl (ipaddr (node_at s entry)) < hostorder_ip then arp_walk hostorder_ip (Right_link entry) (Some entry) s
          else Some (Inr entry))"

definition vder_add_arp_entry :: "nat \<Rightarrow> arp_tree \<Rightarrow> arp_tree option" where
  "vder_add_arp_entry p s =
     (case arp_walk (ntohl (ipaddr (node_at s p))) Root_link (rb_root s) s of
        None \<Rightarrow> None
      | Some (Inr entry) \<Rightarrow> Some (upd_node entry (\<lambda>n. n\<lparr>macaddr := macaddr (node_at s p)\<rparr>) s)
      | Some (Inl (l, parent)) \<Rightarrow> rb_insert_color p (rb_link_node p parent l s))"

partial_function (option) arp_search :: "u32 \<Rightarrow> nat option \<Rightarrow> arp_tree \<Rightarrow> nat option option" where
  "arp_search hostorder_ip node s =
     (case node of
        None \<Rightarrow> Some None
      | Some entry \<Rightarrow>
          if ntohl (ipaddr (node_at s entry)) > hostorder_ip then arp_search hostorder_ip (rb_left (node_at s entry)) s
          else if ntohl (ipaddr (node_at s entry)) < hostorder_ip then arp_search hostorder_ip (rb_right (node_at s entry)) s
          else Some (Some entry))"

definition vder_get_arp_entry :: "u32 \<Rightarrow> arp_tree \<Rightarrow> nat option option" where
  "vder_get_arp_entry addr s = arp_search (ntohl addr) (rb_root s) s"

section \<open>Trees in the store\<close>

lemma upd_node_simps [simp]: "node_at (upd_node a f s) = (node_at s)(a := f (node_at s a))" "rb_root (upd_node a f s) = rb_root s"
  by (simp_all add: upd_node_def)

text \<open>
  A tree of addresses with colours, and the way from a subtree up to the root: for each node on
  it, whether we came from the left or the right, and its other subtree.
\<close>

datatype rtree = Lf | Nd rtree bool nat rtree
datatype frame = FL bool nat rtree | FR rtree bool nat

fun addrs :: "rtree \<Rightarrow> nat list" where
  "addrs Lf = []"
| "addrs (Nd l c a r) = addrs l @ a # addrs r"

fun ptr_of :: "rtree \<Rightarrow> nat option" where
  "ptr_of Lf = None"
| "ptr_of (Nd l c a r) = Some a"

fun plug :: "frame list \<Rightarrow> rtree \<Rightarrow> rtree" where
  "plug [] t = t"
| "plug (FL c a r # k) t = plug k (Nd t c a r)"
| "plug (FR l c a # k) t = plug k (Nd l c a t)"

fun ctx_addrs :: "frame list \<Rightarrow> nat set" where
  "ctx_addrs [] = {}"
| "ctx_addrs (FL c a r # k) = insert a (set (addrs r) \<union> ctx_addrs k)"
| "ctx_addrs (FR l c a # k) = insert a (set (addrs l) \<union> ctx_addrs k)"

fun ctx_parent :: "frame list \<Rightarrow> nat option" where
  "ctx_parent [] = None"
| "ctx_parent (FL c a r # k) = Some a"
| "ctx_parent (FR l c a # k) = Some a"

fun tree_at :: "arp_tree \<Rightarrow> nat option \<Rightarrow> rtree \<Rightarrow> nat option \<Rightarrow> bool" where
  "tree_at s q Lf x \<longleftrightarrow> x = None"
| "tree_at s q (Nd l c a r) x \<longleftrightarrow> x = Some a \<and> rb_parent (node_at s a) = q \<and> rb_red (node_at s a) = c \<and>
     tree_at s (Some a) l (rb_left (node_at s a)) \<and> tree_at s (Some a) r (rb_right (node_at s a))"

fun ctx_at :: "arp_tree \<Rightarrow> frame list \<Rightarrow> nat option \<Rightarrow> bool" where
  "ctx_at s [] x \<longleftrightarrow> rb_root s = x"
| "ctx_at s (FL c a r # k) x \<longleftrightarrow> rb_left (node_at s a) = x \<and> rb_red (node_at s a) = c \<and> rb_parent (node_at s a) = ctx_parent k \<and>
     tree_at s (Some a) r (rb_right (node_at s a)) \<and> ctx_at s k (Some a)"
| "ctx_at s (FR l c a # k) x \<longleftrightarrow> rb_right (node_at s a) = x \<and> rb_red (node_at s a) = c \<and> rb_parent (node_at s a) = ctx_parent k \<and>
     tree_at s (Some a) l (rb_left (node_at s a)) \<and> ctx_at s k (Some a)"

fun ctx_distinct :: "frame list \<Rightarrow> bool" where
  "ctx_distinct [] = True"
| "ctx_distinct (FL c a r # k) \<longleftrightarrow> a \<notin> set (addrs r) \<and> a \<notin> ctx_addrs k \<and> distinct (addrs r) \<and> set (addrs r) \<inter> ctx_addrs k = {} \<and> ctx_distinct k"
| "ctx_distinct (FR l c a # k) \<longleftrightarrow> a \<notin> set (addrs l) \<and> a \<notin> ctx_addrs k \<and> distinct (addrs l) \<and> set (addrs l) \<inter> ctx_addrs k = {} \<and> ctx_distinct k"

text \<open>The store holds the tree \<open>t\<close> at the place that \<open>k\<close> describes.\<close>

definition holds :: "arp_tree \<Rightarrow> frame list \<Rightarrow> rtree \<Rightarrow> bool" where
  "holds s k t \<longleftrightarrow> tree_at s (ctx_parent k) t (ptr_of t) \<and> ctx_at s k (ptr_of t) \<and> distinct (addrs t) \<and>
     ctx_distinct k \<and> set (addrs t) \<inter> ctx_addrs k = {}"

lemma tree_at_ptr: "tree_at s q t x \<Longrightarrow> x = ptr_of t"
  by (cases t) auto

lemma tree_at_self: "tree_at s q t x \<Longrightarrow> tree_at s q t (ptr_of t)"
  by (cases t) auto

lemma holds_FL [simp]: "holds s (FL c a r # k) t \<longleftrightarrow> holds s k (Nd t c a r)"
  unfolding holds_def by (auto dest: tree_at_ptr intro: tree_at_self)

lemma holds_FR [simp]: "holds s (FR l c a # k) t \<longleftrightarrow> holds s k (Nd l c a t)"
  unfolding holds_def by (auto dest: tree_at_ptr intro: tree_at_self)

lemma holds_plug: "holds s k t \<longleftrightarrow> holds s [] (plug k t)"
  by (induction k t rule: plug.induct) auto

lemma tree_at_cong:
  "\<forall>a \<in> set (addrs t). node_at s' a = node_at s a \<Longrightarrow> tree_at s' q t x = tree_at s q t x"
  by (induction t arbitrary: q x) auto

lemma ctx_at_cong:
  "\<forall>a \<in> ctx_addrs k. node_at s' a = node_at s a \<Longrightarrow> rb_root s' = rb_root s \<Longrightarrow> ctx_at s' k x = ctx_at s k x"
proof (induction k arbitrary: x)
  case (Cons f k) then show ?case by (cases f) (auto simp: tree_at_cong [of _ s' s])
qed simp

lemma tree_at_reparent:
  assumes "tree_at s q t x" and "distinct (addrs t)"
    and "\<forall>a \<in> set (addrs t). node_at s' a = (if Some a = ptr_of t then (node_at s a)\<lparr>rb_parent := q'\<rparr> else node_at s a)"
  shows "tree_at s' q' t x"
proof (cases t)
  case (Nd l c a r)
  have "tree_at s' (Some a) l (rb_left (node_at s a)) = tree_at s (Some a) l (rb_left (node_at s a))"
    "tree_at s' (Some a) r (rb_right (node_at s a)) = tree_at s (Some a) r (rb_right (node_at s a))"
    using assms(2,3) Nd by (auto intro!: tree_at_cong)
  then show ?thesis using assms Nd by auto
qed (use assms in auto)

text \<open>The entries of the nodes are left alone.\<close>

definition same_entries :: "arp_tree \<Rightarrow> arp_tree \<Rightarrow> bool" where
  "same_entries s s' \<longleftrightarrow> (\<forall>a. ipaddr (node_at s' a) = ipaddr (node_at s a) \<and> macaddr (node_at s' a) = macaddr (node_at s a))"

lemma same_entries_trans: "same_entries s t \<Longrightarrow> same_entries t u \<Longrightarrow> same_entries s u"
  by (simp add: same_entries_def)

section \<open>Rotations\<close>

definition swap_node :: "rb_node \<Rightarrow> rb_node" where
  "swap_node n = n\<lparr>rb_left := rb_right n, rb_right := rb_left n\<rparr>"

definition mirror_tab :: "arp_tree \<Rightarrow> arp_tree" where
  "mirror_tab s = s\<lparr>node_at := \<lambda>a. swap_node (node_at s a)\<rparr>"

fun mirror :: "rtree \<Rightarrow> rtree" where
  "mirror Lf = Lf"
| "mirror (Nd l c a r) = Nd (mirror r) c a (mirror l)"

fun mirror_frame :: "frame \<Rightarrow> frame" where
  "mirror_frame (FL c a r) = FR (mirror r) c a"
| "mirror_frame (FR l c a) = FL c a (mirror l)"

lemma mirror_mirror [simp]: "mirror (mirror t) = t"
  by (induction t) auto

lemma mirror_frame_mirror [simp]: "mirror_frame (mirror_frame f) = f"
  by (cases f) auto

lemma mirror_tab_mirror [simp]: "mirror_tab (mirror_tab s) = s"
  by (simp add: mirror_tab_def swap_node_def)

lemma swap_node_simps [simp]: "rb_left (swap_node n) = rb_right n" "rb_right (swap_node n) = rb_left n"
  "rb_parent (swap_node n) = rb_parent n" "rb_red (swap_node n) = rb_red n" "ipaddr (swap_node n) = ipaddr n" "macaddr (swap_node n) = macaddr n"
  by (simp_all add: swap_node_def)

lemma mirror_tab_simps [simp]: "node_at (mirror_tab s) a = swap_node (node_at s a)" "rb_root (mirror_tab s) = rb_root s"
  by (simp_all add: mirror_tab_def)

lemma addrs_mirror [simp]: "set (addrs (mirror t)) = set (addrs t)" "distinct (addrs (mirror t)) = distinct (addrs t)" "ptr_of (mirror t) = ptr_of t"
  by (induction t) auto

lemma tree_at_mirror [simp]: "tree_at (mirror_tab s) q (mirror t) x = tree_at s q t x"
  by (induction t arbitrary: q x) auto

lemma ctx_mirror [simp]: "ctx_addrs (map mirror_frame k) = ctx_addrs k" "ctx_parent (map mirror_frame k) = ctx_parent k"
  "ctx_distinct (map mirror_frame k) = ctx_distinct k" "ctx_at (mirror_tab s) (map mirror_frame k) x = ctx_at s k x"
proof (induction k arbitrary: x)
  case (Cons f k)
  { case 1 then show ?case using Cons by (cases f) auto next
    case 2 then show ?case by (cases f) auto next
    case 3 then show ?case using Cons by (cases f) auto next
    case 4 then show ?case using Cons by (cases f) auto }
qed simp_all

lemma holds_mirror: "holds (mirror_tab s) (map mirror_frame k) (mirror t) \<longleftrightarrow> holds s k t"
  by (simp add: holds_def)

lemma swap_node_swap [simp]: "swap_node (swap_node n) = n"
  by (simp add: swap_node_def)

lemma rotate_right_mirror: "rb_rotate_right node s = map_option mirror_tab (rb_rotate_left node (mirror_tab s))"
proof -
  have u: "upd_node a f (mirror_tab s) = mirror_tab (upd_node a (\<lambda>n. swap_node (f (swap_node n))) s)" for a f s
    by (rule arp_tree.equality) (auto simp: fun_eq_iff)
  have v: "swap_node ((swap_node n)\<lparr>rb_left := x\<rparr>) = n\<lparr>rb_right := x\<rparr>" "swap_node ((swap_node n)\<lparr>rb_right := x\<rparr>) = n\<lparr>rb_left := x\<rparr>"
    "swap_node ((swap_node n)\<lparr>rb_parent := x\<rparr>) = n\<lparr>rb_parent := x\<rparr>" for n x by (simp_all add: swap_node_def)
  have w: "(mirror_tab s)\<lparr>rb_root := x\<rparr> = mirror_tab (s\<lparr>rb_root := x\<rparr>)" for s x by (simp add: mirror_tab_def)
  show ?thesis
    by (auto simp: v w rb_rotate_right_def rb_rotate_left_def Let_def rb_set_parent_def u split: option.split)
qed

text \<open>What a rotation does to the node above it, or to the root.\<close>

definition link_child :: "nat option \<Rightarrow> nat \<Rightarrow> nat \<Rightarrow> arp_tree \<Rightarrow> arp_tree" where
  "link_child parent old new s =
     (case parent of
        Some p \<Rightarrow>
          if rb_left (node_at s p) = Some old then upd_node p (\<lambda>n. n\<lparr>rb_left := Some new\<rparr>) s
          else upd_node p (\<lambda>n. n\<lparr>rb_right := Some new\<rparr>) s
      | None \<Rightarrow> s\<lparr>rb_root := Some new\<rparr>)"

lemma ctx_at_link_child:
  assumes "ctx_at s k (Some old)" and "ctx_distinct k" and "old \<notin> ctx_addrs k"
    and "\<forall>a \<in> ctx_addrs k. node_at s1 a = node_at s a" and "rb_root s1 = rb_root s"
  shows "ctx_at (link_child (ctx_parent k) old new s1) k (Some new)"
proof (cases k)
  case Nil then show ?thesis by (simp add: link_child_def)
next
  case (Cons f k')
  then show ?thesis
  proof (cases f)
    case (FL c q r)
    have "tree_at (link_child (ctx_parent k) old new s1) (Some q) r y = tree_at s (Some q) r y" for y
      using assms Cons FL by (intro tree_at_cong) (auto simp: link_child_def)
    moreover have "ctx_at (link_child (ctx_parent k) old new s1) k' y = ctx_at s k' y" for y
      using assms Cons FL by (intro ctx_at_cong) (auto simp: link_child_def)
    ultimately show ?thesis using assms Cons FL by (simp add: link_child_def)
  next
    case (FR l c q)
    have "tree_at (link_child (ctx_parent k) old new s1) (Some q) l y = tree_at s (Some q) l y" for y
      using assms Cons FR by (intro tree_at_cong) (auto simp: link_child_def)
    moreover have "ctx_at (link_child (ctx_parent k) old new s1) k' y = ctx_at s k' y" for y
      using assms Cons FR by (intro ctx_at_cong) (auto simp: link_child_def)
    moreover have "rb_left (node_at s q) \<noteq> Some old"
      using assms(1,3) Cons FR by (cases l) auto
    ultimately show ?thesis using assms Cons FR by (simp add: link_child_def)
  qed
qed

lemma link_child_other:
  "Some a \<noteq> parent \<Longrightarrow> node_at (link_child parent old new s) a = node_at s a"
  by (auto simp: link_child_def split: option.split)

lemma ctx_parent_in: "ctx_parent k = Some a \<Longrightarrow> a \<in> ctx_addrs k"
  by (cases k rule: ctx_parent.cases) auto

lemma rotate_left_holds:
  assumes "holds s k (Nd a cx x (Nd b cy y c))"
  shows "\<exists>s'. rb_rotate_left x s = Some s' \<and> holds s' k (Nd (Nd a cx x b) cy y c) \<and> same_entries s s'"
proof -
  let ?q = "ctx_parent k"
  have t: "rb_parent (node_at s x) = ?q" "rb_red (node_at s x) = cx" "rb_left (node_at s x) = ptr_of a" "rb_right (node_at s x) = Some y"
    "rb_red (node_at s y) = cy" "rb_left (node_at s y) = ptr_of b" "rb_right (node_at s y) = ptr_of c"
    "tree_at s (Some x) a (ptr_of a)" "tree_at s (Some y) b (ptr_of b)" "tree_at s (Some y) c (ptr_of c)"
    using assms by (auto simp: holds_def dest: tree_at_ptr intro: tree_at_self)
  have ds: "x \<noteq> y" "x \<notin> set (addrs a)" "x \<notin> set (addrs b)" "x \<notin> set (addrs c)" "y \<notin> set (addrs a)" "y \<notin> set (addrs b)" "y \<notin> set (addrs c)"
    "set (addrs a) \<inter> set (addrs b) = {}" "set (addrs b) \<inter> set (addrs c) = {}" "set (addrs a) \<inter> set (addrs c) = {}" "distinct (addrs b)"
    "x \<notin> ctx_addrs k" "y \<notin> ctx_addrs k" "ctx_distinct k" "(set (addrs a) \<union> set (addrs b) \<union> set (addrs c)) \<inter> ctx_addrs k = {}"
    using assms by (auto simp: holds_def)
  define s1 where "s1 = upd_node x (\<lambda>n. n\<lparr>rb_right := ptr_of b\<rparr>) s"
  define s2 where "s2 = (case ptr_of b of None \<Rightarrow> s1 | Some z \<Rightarrow> rb_set_parent z (Some x) s1)"
  define s4 where "s4 = rb_set_parent y ?q (upd_node y (\<lambda>n. n\<lparr>rb_left := Some x\<rparr>) s2)"
  define s' where "s' = rb_set_parent x (Some y) (link_child ?q x y s4)"
  have run: "rb_rotate_left x s = Some s'"
    unfolding rb_rotate_left_def t(4) option.case Let_def t s'_def s4_def s2_def s1_def link_child_def ..
  have bz: "z \<in> set (addrs b)" if "ptr_of b = Some z" for z using that by (cases b) auto
  have q: "?q \<noteq> Some z" if "z \<notin> ctx_addrs k" for z using that ctx_parent_in by blast
  have n4: "node_at s4 z = (if z = x then (node_at s x)\<lparr>rb_right := ptr_of b\<rparr>
      else if z = y then (node_at s y)\<lparr>rb_left := Some x, rb_parent := ?q\<rparr>
      else if Some z = ptr_of b then (node_at s z)\<lparr>rb_parent := Some x\<rparr> else node_at s z)" for z
    using ds bz by (auto simp: s4_def s2_def s1_def rb_set_parent_def split: option.split)
  have n': "node_at s' z = (if z = x then (node_at s x)\<lparr>rb_right := ptr_of b, rb_parent := Some y\<rparr>
      else if z = y then (node_at s y)\<lparr>rb_left := Some x, rb_parent := ?q\<rparr>
      else if Some z = ptr_of b then (node_at s z)\<lparr>rb_parent := Some x\<rparr> else node_at s z)" if "z \<notin> ctx_addrs k" for z
    using that q [OF that] q [of x] ds n4 link_child_other [of _ ?q x y s4] by (auto simp: s'_def rb_set_parent_def)
  have same: "node_at s' z = node_at s z" if z: "z \<in> set (addrs a) \<union> set (addrs c)" for z
  proof -
    have "z \<notin> ctx_addrs k" "z \<noteq> x" "z \<noteq> y" "z \<notin> set (addrs b)" using z ds by auto
    moreover from this have "Some z \<noteq> ptr_of b" using bz by metis
    ultimately show ?thesis using n' by simp
  qed
  have nb: "node_at s' z = (if Some z = ptr_of b then (node_at s z)\<lparr>rb_parent := Some x\<rparr> else node_at s z)" if z: "z \<in> set (addrs b)" for z
  proof -
    have "z \<notin> ctx_addrs k" "z \<noteq> x" "z \<noteq> y" using z ds by auto
    then show ?thesis using n' by simp
  qed
  have "tree_at s' (Some x) a (ptr_of a) = tree_at s (Some x) a (ptr_of a)" using same by (intro tree_at_cong) simp
  moreover have "tree_at s' (Some y) c (ptr_of c) = tree_at s (Some y) c (ptr_of c)" using same by (intro tree_at_cong) simp
  moreover have "tree_at s' (Some x) b (ptr_of b)" by (rule tree_at_reparent [OF t(9) ds(11)], rule ballI, rule nb)
  moreover have "ctx_at s' k (Some y)"
  proof -
    have "node_at s4 z = node_at s z" if z: "z \<in> ctx_addrs k" for z
    proof -
      have "z \<noteq> x" "z \<noteq> y" "z \<notin> set (addrs b)" using z ds by auto
      moreover from this have "Some z \<noteq> ptr_of b" using bz by metis
      ultimately show ?thesis using n4 by simp
    qed
    then have "\<forall>z \<in> ctx_addrs k. node_at s4 z = node_at s z" by simp
    moreover have "rb_root s4 = rb_root s" by (simp add: s4_def s2_def s1_def rb_set_parent_def split: option.split)
    moreover have "ctx_at s k (Some x)" using assms by (simp add: holds_def)
    ultimately have "ctx_at (link_child ?q x y s4) k (Some y)" using ds by (intro ctx_at_link_child) auto
    moreover have "ctx_at s' k (Some y) = ctx_at (link_child ?q x y s4) k (Some y)"
      using ds by (intro ctx_at_cong) (auto simp: s'_def rb_set_parent_def)
    ultimately show ?thesis by simp
  qed
  ultimately have "holds s' k (Nd (Nd a cx x b) cy y c)" using t ds n' assms by (auto simp: holds_def)
  moreover have "same_entries s s'"
    by (auto simp: same_entries_def s'_def s4_def s2_def s1_def rb_set_parent_def link_child_def split: option.split)
  ultimately show ?thesis using run by blast
qed

lemma rotate_right_holds:
  assumes "holds s k (Nd (Nd a cx x b) cy y c)"
  shows "\<exists>s'. rb_rotate_right y s = Some s' \<and> holds s' k (Nd a cx x (Nd b cy y c)) \<and> same_entries s s'"
proof -
  have "holds (mirror_tab s) (map mirror_frame k) (Nd (mirror c) cy y (Nd (mirror b) cx x (mirror a)))"
    using assms holds_mirror [of s k "Nd (Nd a cx x b) cy y c"] by simp
  from rotate_left_holds [OF this] obtain s' where s': "rb_rotate_left y (mirror_tab s) = Some s'"
    "holds s' (map mirror_frame k) (Nd (Nd (mirror c) cy y (mirror b)) cx x (mirror a))" "same_entries (mirror_tab s) s'" by blast
  have "holds (mirror_tab s') k (Nd a cx x (Nd b cy y c))"
    using s'(2) holds_mirror [of "mirror_tab s'" k "Nd a cx x (Nd b cy y c)"] by simp
  moreover have "same_entries s (mirror_tab s')" using s'(3) by (simp add: same_entries_def)
  ultimately show ?thesis using s'(1) by (simp add: rotate_right_mirror)
qed

section \<open>Colours\<close>

fun rd :: "rtree \<Rightarrow> bool" where
  "rd Lf = False"
| "rd (Nd l c a r) = c"

fun okc :: "rtree \<Rightarrow> bool" where
  "okc Lf = True"
| "okc (Nd l c a r) \<longleftrightarrow> okc l \<and> okc r \<and> (c \<longrightarrow> \<not> rd l \<and> \<not> rd r)"

fun bh :: "rtree \<Rightarrow> nat" where
  "bh Lf = 0"
| "bh (Nd l c a r) = (if c then bh l else Suc (bh l))"

fun okh :: "rtree \<Rightarrow> bool" where
  "okh Lf = True"
| "okh (Nd l c a r) \<longleftrightarrow> okh l \<and> okh r \<and> bh l = bh r"

definition red_black :: "rtree \<Rightarrow> bool" where
  "red_black t \<longleftrightarrow> okc t \<and> okh t \<and> \<not> rd t"

fun kred :: "frame list \<Rightarrow> bool" where
  "kred [] = False"
| "kred (FL c a r # k) = c"
| "kred (FR l c a # k) = c"

text \<open>A way to the root of a red-black tree, for a subtree of the black height \<open>h\<close>. The last node of the way is black.\<close>

fun okk :: "frame list \<Rightarrow> nat \<Rightarrow> bool" where
  "okk [] h = True"
| "okk (FL c a r # k) h \<longleftrightarrow> okc r \<and> okh r \<and> bh r = h \<and> (c \<longrightarrow> \<not> rd r \<and> k \<noteq> [] \<and> \<not> kred k) \<and> okk k (if c then h else Suc h)"
| "okk (FR l c a # k) h \<longleftrightarrow> okc l \<and> okh l \<and> bh l = h \<and> (c \<longrightarrow> \<not> rd l \<and> k \<noteq> [] \<and> \<not> kred k) \<and> okk k (if c then h else Suc h)"

lemma plug_ok: "okk k (bh t) \<Longrightarrow> okc t \<Longrightarrow> okh t \<Longrightarrow> (rd t \<longrightarrow> k \<noteq> [] \<and> \<not> kred k) \<Longrightarrow> red_black (plug k t)"
proof (induction k arbitrary: t)
  case (Cons f k) then show ?case by (cases f) (auto intro!: Cons.IH)
qed (simp add: red_black_def)

lemma addrs_plug: "addrs t = addrs u \<Longrightarrow> addrs (plug k t) = addrs (plug k u)"
proof (induction k arbitrary: t u)
  case (Cons f k) then show ?case by (cases f) (auto intro!: Cons.IH)
qed simp

lemma set_red_holds:
  assumes "holds s k (Nd l d a r)"
  shows "holds (rb_set_red a c s) k (Nd l c a r)"
proof -
  have n: "node_at (rb_set_red a c s) z = (if z = a then (node_at s a)\<lparr>rb_red := c\<rparr> else node_at s z)" for z
    by (simp add: rb_set_red_def)
  have "a \<notin> set (addrs l)" "a \<notin> set (addrs r)" "a \<notin> ctx_addrs k" using assms by (auto simp: holds_def)
  then have "tree_at (rb_set_red a c s) q l x = tree_at s q l x" "tree_at (rb_set_red a c s) q r x = tree_at s q r x"
    "ctx_at (rb_set_red a c s) k x = ctx_at s k x" for q x
    by (auto intro!: tree_at_cong ctx_at_cong simp: rb_set_red_def)
  then show ?thesis using assms by (simp add: holds_def n)
qed

lemma set_red_entries: "same_entries s (rb_set_red a c s)"
  by (simp add: same_entries_def rb_set_red_def)

lemma set_red_triv: "rb_red (node_at s a) = c \<Longrightarrow> rb_set_red a c s = s"
proof -
  assume "rb_red (node_at s a) = c"
  then have "(node_at s a)\<lparr>rb_red := c\<rparr> = node_at s a" by (cases "node_at s a") simp
  then show "rb_set_red a c s = s" by (simp add: rb_set_red_def upd_node_def)
qed

text \<open>What the store says about the nodes of a tree it holds.\<close>

lemma holds_root:
  assumes "holds s k (Nd l c a r)"
  shows "rb_parent (node_at s a) = ctx_parent k" "rb_red (node_at s a) = c" "rb_left (node_at s a) = ptr_of l" "rb_right (node_at s a) = ptr_of r"
  using assms by (auto simp: holds_def dest: tree_at_ptr)

lemma holds_top: "holds s [] t \<Longrightarrow> rb_root s = ptr_of t"
  by (simp add: holds_def)

lemma holds_distinct: "holds s k t \<Longrightarrow> distinct (addrs t)"
  by (simp add: holds_def)

lemma ptr_in: "ptr_of t = Some a \<Longrightarrow> a \<in> set (addrs t)"
  by (cases t) auto

section \<open>The turns of the loop\<close>

lemma turn_LL:
  assumes "holds s k (Nd (Nd (Nd l True n r) True p u1) False g u)"
  shows "\<exists>s'. turn_left_child n p g s = Some (n, s') \<and> holds s' k (Nd (Nd l True n r) False p (Nd u1 True g u)) \<and> same_entries s s'"
proof -
  have "rb_right (node_at s p) = ptr_of u1" using assms holds_root(4) [of s "FL False g u # k" "Nd l True n r" True p u1] by simp
  moreover have "ptr_of u1 \<noteq> Some n" using holds_distinct [OF assms] ptr_in [of u1 n] by auto
  moreover have "holds (rb_set_red p False s) k (Nd (Nd (Nd l True n r) False p u1) False g u)"
    using assms set_red_holds [of s "FL False g u # k" "Nd l True n r" True p u1 False] by simp
  from set_red_holds [OF this, of True] have "holds (rb_set_red g True (rb_set_red p False s)) k (Nd (Nd (Nd l True n r) False p u1) True g u)" .
  note rotate_right_holds [OF this]
  ultimately show ?thesis using set_red_entries same_entries_trans unfolding turn_left_child_def by (auto; blast)
qed

lemma turn_LR:
  assumes "holds s k (Nd (Nd u1 True p (Nd l True n r)) False g u)"
  shows "\<exists>s'. turn_left_child n p g s = Some (p, s') \<and> holds s' k (Nd (Nd u1 True p l) False n (Nd r True g u)) \<and> same_entries s s'"
proof -
  have e: "rb_right (node_at s p) = Some n" using assms holds_root(4) [of s "FL False g u # k" u1 True p "Nd l True n r"] by simp
  have "holds s (FL False g u # k) (Nd u1 True p (Nd l True n r))" using assms by simp
  from rotate_left_holds [OF this] obtain s1 where s1: "rb_rotate_left p s = Some s1"
    "holds s1 (FL False g u # k) (Nd (Nd u1 True p l) True n r)" "same_entries s s1" by blast
  have "holds (rb_set_red n False s1) k (Nd (Nd (Nd u1 True p l) False n r) False g u)"
    using set_red_holds [OF s1(2), of False] by simp
  from rotate_right_holds [OF set_red_holds [OF this, of True]] obtain s2 where
    "rb_rotate_right g (rb_set_red g True (rb_set_red n False s1)) = Some s2" "holds s2 k (Nd (Nd u1 True p l) False n (Nd r True g u))"
    "same_entries (rb_set_red g True (rb_set_red n False s1)) s2" by blast
  then show ?thesis using e s1 set_red_entries same_entries_trans unfolding turn_left_child_def by (auto; blast)
qed

lemma turn_RR:
  assumes "holds s k (Nd u False g (Nd u1 True p (Nd l True n r)))"
  shows "\<exists>s'. turn_right_child n p g s = Some (n, s') \<and> holds s' k (Nd (Nd u True g u1) False p (Nd l True n r)) \<and> same_entries s s'"
proof -
  have "rb_left (node_at s p) = ptr_of u1" using assms holds_root(3) [of s "FR u False g # k" u1 True p "Nd l True n r"] by simp
  moreover have "ptr_of u1 \<noteq> Some n" using holds_distinct [OF assms] ptr_in [of u1 n] by auto
  moreover have "holds (rb_set_red p False s) k (Nd u False g (Nd u1 False p (Nd l True n r)))"
    using assms set_red_holds [of s "FR u False g # k" u1 True p "Nd l True n r" False] by simp
  from set_red_holds [OF this, of True] have "holds (rb_set_red g True (rb_set_red p False s)) k (Nd u True g (Nd u1 False p (Nd l True n r)))" .
  note rotate_left_holds [OF this]
  ultimately show ?thesis using set_red_entries same_entries_trans unfolding turn_right_child_def by (auto; blast)
qed

lemma turn_RL:
  assumes "holds s k (Nd u False g (Nd (Nd l True n r) True p u1))"
  shows "\<exists>s'. turn_right_child n p g s = Some (p, s') \<and> holds s' k (Nd (Nd u True g l) False n (Nd r True p u1)) \<and> same_entries s s'"
proof -
  have e: "rb_left (node_at s p) = Some n" using assms holds_root(3) [of s "FR u False g # k" "Nd l True n r" True p u1] by simp
  have "holds s (FR u False g # k) (Nd (Nd l True n r) True p u1)" using assms by simp
  from rotate_right_holds [OF this] obtain s1 where s1: "rb_rotate_right p s = Some s1"
    "holds s1 (FR u False g # k) (Nd l True n (Nd r True p u1))" "same_entries s s1" by blast
  have "holds (rb_set_red n False s1) k (Nd u False g (Nd l False n (Nd r True p u1)))"
    using set_red_holds [OF s1(2), of False] by simp
  from rotate_left_holds [OF set_red_holds [OF this, of True]] obtain s2 where
    "rb_rotate_left g (rb_set_red g True (rb_set_red n False s1)) = Some s2" "holds s2 k (Nd (Nd u True g l) False n (Nd r True p u1))"
    "same_entries (rb_set_red g True (rb_set_red n False s1)) s2" by blast
  then show ?thesis using e s1 set_red_entries same_entries_trans unfolding turn_right_child_def by (auto; blast)
qed

section \<open>The loop\<close>

text \<open>What the loop promises: it ends, and the tree is a red-black tree with the same nodes in the same order.\<close>

definition rebalances :: "nat \<Rightarrow> arp_tree \<Rightarrow> rtree \<Rightarrow> bool" where
  "rebalances n s t \<longleftrightarrow> (\<exists>s' t'. rb_insert_color n s = Some s' \<and> holds s' [] t' \<and> red_black t' \<and> addrs t' = addrs t \<and> same_entries s s')"

lemma rebalances_step:
  assumes "rb_insert_color n s = rb_insert_color m u" and "rebalances m u t'" and "same_entries s u" and "addrs t' = addrs t"
  shows "rebalances n s t"
  using assms same_entries_trans unfolding rebalances_def by metis

lemma same_entries_refl: "same_entries s s"
  by (simp add: same_entries_def)

lemma ctx_red: "holds s k t \<Longrightarrow> ctx_parent k = Some q \<Longrightarrow> rb_red (node_at s q) = kred k"
  by (cases k rule: ctx_parent.cases) (auto simp: holds_def)

lemma plug_node: "t \<noteq> Lf \<Longrightarrow> plug k t \<noteq> Lf"
  by (induction k t rule: plug.induct) auto

lemma loop_ends:
  assumes h: "holds s k t" and t: "ptr_of t = Some n" and ok: "okc t" "okh t" "okk k (bh t)" and k: "k \<noteq> []" "\<not> kred k"
  shows "rebalances n s (plug k t)"
proof -
  have rb: "red_black (plug k t)" using ok k by (intro plug_ok) auto
  have hp: "holds s [] (plug k t)" using h holds_plug by blast
  obtain q where q: "ctx_parent k = Some q" using k(1) by (cases k rule: ctx_parent.cases) auto
  obtain l c r where tn: "t = Nd l c n r" using t by (cases t) auto
  have "plug k t \<noteq> Lf" using plug_node tn by simp
  then obtain pl pr a where p: "plug k t = Nd pl False a pr" using rb by (cases "plug k t") (auto simp: red_black_def)
  have "rb_root s = Some a" "rb_red (node_at s a) = False" using hp p holds_top [OF hp] holds_root(2) [of s "[]"] by auto
  moreover have "rb_parent (node_at s n) = Some q" using h tn q holds_root(1) by metis
  moreover have "\<not> rb_red (node_at s q)" using ctx_red [OF h q] k(2) by simp
  ultimately have "rb_insert_color n s = Some s"
    using set_red_triv [of s a False] by (simp add: rb_insert_color.simps [of n s])
  then show ?thesis using hp rb same_entries_refl by (auto simp: rebalances_def)
qed

lemma loop_root:
  assumes h: "holds s [] (Nd l c n r)" and ok: "okc l" "okc r" "okh l" "okh r" "bh l = bh r"
  shows "rebalances n s (Nd l c n r)"
proof -
  have "rb_insert_color n s = Some (rb_set_red n False s)"
    using holds_root [OF h] holds_top [OF h] by (simp add: rb_insert_color.simps [of n s])
  moreover have "holds (rb_set_red n False s) [] (Nd l False n r)" using set_red_holds [OF h] .
  ultimately show ?thesis unfolding rebalances_def using ok set_red_entries by (fastforce simp: red_black_def)
qed

lemma uncle_colour:
  assumes "holds s k (Nd l c g r)"
  shows "is_red s (rb_left (node_at s g)) = rd l" "is_red s (rb_right (node_at s g)) = rd r"
proof -
  show "is_red s (rb_left (node_at s g)) = rd l"
    using assms holds_root(3) [OF assms] holds_root(2) [of s "FL c g r # k"] by (cases l) (auto simp: is_red_def)
  show "is_red s (rb_right (node_at s g)) = rd r"
    using assms holds_root(4) [OF assms] holds_root(2) [of s "FR l c g # k"] by (cases r) (auto simp: is_red_def)
qed

lemma recolour_holds:
  assumes "holds s k (Nd (Nd a c p b) d g (Nd e f u h))"
  shows "holds (recolour u p g s) k (Nd (Nd a False p b) True g (Nd e False u h))"
    and "holds (recolour p u g s) k (Nd (Nd a False p b) True g (Nd e False u h))"
proof -
  have 1: "holds (rb_set_red u False s) k (Nd (Nd a c p b) d g (Nd e False u h))"
    using assms set_red_holds [of s "FR (Nd a c p b) d g # k" e f u h False] by simp
  have "holds (rb_set_red p False (rb_set_red u False s)) k (Nd (Nd a False p b) d g (Nd e False u h))"
    using 1 set_red_holds [of "rb_set_red u False s" "FL d g (Nd e False u h) # k" a c p b False] by simp
  then show "holds (recolour u p g s) k (Nd (Nd a False p b) True g (Nd e False u h))" by (simp add: recolour_def set_red_holds)
  have 2: "holds (rb_set_red p False s) k (Nd (Nd a False p b) d g (Nd e f u h))"
    using assms set_red_holds [of s "FL d g (Nd e f u h) # k" a c p b False] by simp
  have "holds (rb_set_red u False (rb_set_red p False s)) k (Nd (Nd a False p b) d g (Nd e False u h))"
    using 2 set_red_holds [of "rb_set_red p False s" "FR (Nd a False p b) d g # k" e f u h False] by simp
  then show "holds (recolour p u g s) k (Nd (Nd a False p b) True g (Nd e False u h))" by (simp add: recolour_def set_red_holds)
qed

lemma recolour_entries: "same_entries s (recolour x y z s)"
  using set_red_entries same_entries_trans unfolding recolour_def by blast

text \<open>One turn for each place of the node below its grandparent.\<close>

lemma insert_color_left:
  assumes h: "holds s k (Nd (Nd a True p b) False g u)" and n: "n \<in> {ptr_of a, ptr_of b}" "n = Some m"
  shows "rb_insert_color m s =
    (if rd u then rb_insert_color g (recolour (the (ptr_of u)) p g s)
     else Option.bind (turn_left_child m p g s) (\<lambda>r. rb_insert_color (fst r) (snd r)))"
proof -
  have hp: "holds s (FL False g u # k) (Nd a True p b)" using h by simp
  have "rb_parent (node_at s m) = Some p"
    using hp n holds_root(1) [of s "FL True p b # FL False g u # k"] holds_root(1) [of s "FR a True p # FL False g u # k"]
    by (cases a; cases b) auto
  then show ?thesis
    using holds_root [OF hp] holds_root [OF h] uncle_colour [OF h] by (simp add: rb_insert_color.simps [of m s])
qed

lemma insert_color_right:
  assumes h: "holds s k (Nd u False g (Nd a True p b))" and n: "n \<in> {ptr_of a, ptr_of b}" "n = Some m"
  shows "rb_insert_color m s =
    (if rd u then rb_insert_color g (recolour (the (ptr_of u)) p g s)
     else Option.bind (turn_right_child m p g s) (\<lambda>r. rb_insert_color (fst r) (snd r)))"
proof -
  have hp: "holds s (FR u False g # k) (Nd a True p b)" using h by simp
  have "rb_parent (node_at s m) = Some p"
    using hp n holds_root(1) [of s "FL True p b # FR u False g # k"] holds_root(1) [of s "FR a True p # FR u False g # k"]
    by (cases a; cases b) auto
  moreover have "ptr_of u \<noteq> Some p" using holds_distinct [OF h] ptr_in [of u p] by auto
  ultimately show ?thesis
    using holds_root [OF hp] holds_root [OF h] uncle_colour [OF h] by (simp add: rb_insert_color.simps [of m s])
qed

text \<open>What the loop promises for a red node below a way \<open>k\<close>.\<close>

definition way_rebalances :: "frame list \<Rightarrow> bool" where
  "way_rebalances k \<longleftrightarrow> (\<forall>s l n r. holds s k (Nd l True n r) \<longrightarrow> okc (Nd l True n r) \<longrightarrow> okh (Nd l True n r) \<longrightarrow> okk k (bh l) \<longrightarrow>
     rebalances n s (plug k (Nd l True n r)))"

lemma way_rebalancesD:
  "way_rebalances k \<Longrightarrow> holds s k (Nd l True n r) \<Longrightarrow> okc (Nd l True n r) \<Longrightarrow> okh (Nd l True n r) \<Longrightarrow> okk k (bh l) \<Longrightarrow>
   rebalances n s (plug k (Nd l True n r))"
  by (simp add: way_rebalances_def)

lemma way_rebalances_LL:
  assumes IH: "way_rebalances k'"
  shows "way_rebalances (FL True p b # FL False g u # k')"
  unfolding way_rebalances_def
proof (intro allI impI)
  fix s l n r
  define k where k: "k = FL True p b # FL False g u # k'"
  assume "holds s (FL True p b # FL False g u # k') (Nd l True n r)" "okc (Nd l True n r)" "okh (Nd l True n r)" "okk (FL True p b # FL False g u # k') (bh l)"
  then have prems: "holds s k (Nd l True n r)" "okc (Nd l True n r)" "okh (Nd l True n r)" "okk k (bh l)" by (simp_all only: k)
  have h: "holds s k' (Nd (Nd (Nd l True n r) True p b) False g u)" using prems(1) k by simp
  note e = insert_color_left [OF h, of "Some n" n, simplified]
  show "rebalances n s (plug (FL True p b # FL False g u # k') (Nd l True n r))"
  proof (cases "rd u")
    case True
    then obtain ul w ur where u: "u = Nd ul True w ur" by (cases u) auto
    have "rebalances g (recolour w p g s) (plug k' (Nd (Nd (Nd l True n r) False p b) True g (Nd ul False w ur)))"
      using prems recolour_holds(1) [OF h [unfolded u]] k u by (intro way_rebalancesD [OF IH]) auto
    from rebalances_step [OF _ this recolour_entries] show ?thesis using e u k True by (simp add: addrs_plug)
  next
    case False
    from turn_LL [OF h] obtain s' where s': "turn_left_child n p g s = Some (n, s')"
      "holds s' k' (Nd (Nd l True n r) False p (Nd b True g u))" "same_entries s s'" by blast
    have "rebalances n s' (plug (FL False p (Nd b True g u) # k') (Nd l True n r))"
      using prems s'(2) k False by (intro loop_ends) auto
    from rebalances_step [OF _ this s'(3)] show ?thesis using e s'(1) k False by (simp add: addrs_plug)
  qed
qed

lemma way_rebalances_LR:
  assumes IH: "way_rebalances k'"
  shows "way_rebalances (FR a True p # FL False g u # k')"
  unfolding way_rebalances_def
proof (intro allI impI)
  fix s l n r
  define k where k: "k = FR a True p # FL False g u # k'"
  assume "holds s (FR a True p # FL False g u # k') (Nd l True n r)" "okc (Nd l True n r)" "okh (Nd l True n r)" "okk (FR a True p # FL False g u # k') (bh l)"
  then have prems: "holds s k (Nd l True n r)" "okc (Nd l True n r)" "okh (Nd l True n r)" "okk k (bh l)" by (simp_all only: k)
  have h: "holds s k' (Nd (Nd a True p (Nd l True n r)) False g u)" using prems(1) k by simp
  note e = insert_color_left [OF h, of "Some n" n, simplified]
  show "rebalances n s (plug (FR a True p # FL False g u # k') (Nd l True n r))"
  proof (cases "rd u")
    case True
    then obtain ul w ur where u: "u = Nd ul True w ur" by (cases u) auto
    have "rebalances g (recolour w p g s) (plug k' (Nd (Nd a False p (Nd l True n r)) True g (Nd ul False w ur)))"
      using prems recolour_holds(1) [OF h [unfolded u]] k u by (intro way_rebalancesD [OF IH]) auto
    from rebalances_step [OF _ this recolour_entries] show ?thesis using e u k True by (simp add: addrs_plug)
  next
    case False
    from turn_LR [OF h] obtain s' where s': "turn_left_child n p g s = Some (p, s')"
      "holds s' k' (Nd (Nd a True p l) False n (Nd r True g u))" "same_entries s s'" by blast
    have "rebalances p s' (plug (FL False n (Nd r True g u) # k') (Nd a True p l))"
      using prems s'(2) k False by (intro loop_ends) auto
    from rebalances_step [OF _ this s'(3)] show ?thesis using e s'(1) k False by (simp add: addrs_plug)
  qed
qed

lemma way_rebalances_RR:
  assumes IH: "way_rebalances k'"
  shows "way_rebalances (FR a True p # FR u False g # k')"
  unfolding way_rebalances_def
proof (intro allI impI)
  fix s l n r
  define k where k: "k = FR a True p # FR u False g # k'"
  assume "holds s (FR a True p # FR u False g # k') (Nd l True n r)" "okc (Nd l True n r)" "okh (Nd l True n r)" "okk (FR a True p # FR u False g # k') (bh l)"
  then have prems: "holds s k (Nd l True n r)" "okc (Nd l True n r)" "okh (Nd l True n r)" "okk k (bh l)" by (simp_all only: k)
  have h: "holds s k' (Nd u False g (Nd a True p (Nd l True n r)))" using prems(1) k by simp
  note e = insert_color_right [OF h, of "Some n" n, simplified]
  show "rebalances n s (plug (FR a True p # FR u False g # k') (Nd l True n r))"
  proof (cases "rd u")
    case True
    then obtain ul w ur where u: "u = Nd ul True w ur" by (cases u) auto
    have "rebalances g (recolour w p g s) (plug k' (Nd (Nd ul False w ur) True g (Nd a False p (Nd l True n r))))"
      using prems recolour_holds(2) [OF h [unfolded u]] k u by (intro way_rebalancesD [OF IH]) auto
    from rebalances_step [OF _ this recolour_entries] show ?thesis using e u k True by (simp add: addrs_plug)
  next
    case False
    from turn_RR [OF h] obtain s' where s': "turn_right_child n p g s = Some (n, s')"
      "holds s' k' (Nd (Nd u True g a) False p (Nd l True n r))" "same_entries s s'" by blast
    have "rebalances n s' (plug (FR (Nd u True g a) False p # k') (Nd l True n r))"
      using prems s'(2) k False by (intro loop_ends) auto
    from rebalances_step [OF _ this s'(3)] show ?thesis using e s'(1) k False by (simp add: addrs_plug)
  qed
qed

lemma way_rebalances_RL:
  assumes IH: "way_rebalances k'"
  shows "way_rebalances (FL True p b # FR u False g # k')"
  unfolding way_rebalances_def
proof (intro allI impI)
  fix s l n r
  define k where k: "k = FL True p b # FR u False g # k'"
  assume "holds s (FL True p b # FR u False g # k') (Nd l True n r)" "okc (Nd l True n r)" "okh (Nd l True n r)" "okk (FL True p b # FR u False g # k') (bh l)"
  then have prems: "holds s k (Nd l True n r)" "okc (Nd l True n r)" "okh (Nd l True n r)" "okk k (bh l)" by (simp_all only: k)
  have h: "holds s k' (Nd u False g (Nd (Nd l True n r) True p b))" using prems(1) k by simp
  note e = insert_color_right [OF h, of "Some n" n, simplified]
  show "rebalances n s (plug (FL True p b # FR u False g # k') (Nd l True n r))"
  proof (cases "rd u")
    case True
    then obtain ul w ur where u: "u = Nd ul True w ur" by (cases u) auto
    have "rebalances g (recolour w p g s) (plug k' (Nd (Nd ul False w ur) True g (Nd (Nd l True n r) False p b)))"
      using prems recolour_holds(2) [OF h [unfolded u]] k u by (intro way_rebalancesD [OF IH]) auto
    from rebalances_step [OF _ this recolour_entries] show ?thesis using e u k True by (simp add: addrs_plug)
  next
    case False
    from turn_RL [OF h] obtain s' where s': "turn_right_child n p g s = Some (p, s')"
      "holds s' k' (Nd (Nd u True g l) False n (Nd r True p b))" "same_entries s s'" by blast
    have "rebalances p s' (plug (FR (Nd u True g l) False n # k') (Nd r True p b))"
      using prems s'(2) k False by (intro loop_ends) auto
    from rebalances_step [OF _ this s'(3)] show ?thesis using e s'(1) k False by (simp add: addrs_plug)
  qed
qed

lemma all_ways_rebalance: "okk k h \<Longrightarrow> way_rebalances k"
proof (induction k arbitrary: h rule: length_induct)
  case (1 k)
  consider (top) "k = []" | (black) "k \<noteq> []" "\<not> kred k"
    | (LL) p b g u k' where "k = FL True p b # FL False g u # k'" | (LR) a p g u k' where "k = FR a True p # FL False g u # k'"
    | (RL) p b g u k' where "k = FL True p b # FR u False g # k'" | (RR) a p g u k' where "k = FR a True p # FR u False g # k'"
    using 1(2) by (cases k rule: kred.cases; cases "tl k" rule: kred.cases) auto
  then show ?case
  proof cases
    case top then show ?thesis using loop_root by (fastforce simp: way_rebalances_def)
  next
    case black then show ?thesis by (auto simp: way_rebalances_def intro!: loop_ends)
  next
    case LL
    then have "way_rebalances k'" using 1(2) by (intro 1(1) [rule_format, of k' "Suc h"]) auto
    then show ?thesis using LL way_rebalances_LL by simp
  next
    case LR
    then have "way_rebalances k'" using 1(2) by (intro 1(1) [rule_format, of k' "Suc h"]) auto
    then show ?thesis using LR way_rebalances_LR by simp
  next
    case RL
    then have "way_rebalances k'" using 1(2) by (intro 1(1) [rule_format, of k' "Suc h"]) auto
    then show ?thesis using RL way_rebalances_RL by simp
  next
    case RR
    then have "way_rebalances k'" using 1(2) by (intro 1(1) [rule_format, of k' "Suc h"]) auto
    then show ?thesis using RR way_rebalances_RR by simp
  qed
qed

lemma insert_color_rebalances:
  "holds s k (Nd l True n r) \<Longrightarrow> okc (Nd l True n r) \<Longrightarrow> okh (Nd l True n r) \<Longrightarrow> okk k (bh l) \<Longrightarrow> rebalances n s (plug k (Nd l True n r))"
  using way_rebalancesD all_ways_rebalance by blast

section \<open>The search\<close>

text \<open>Nodes before and after a place, in the order of the tree, and the pointer that leads to it.\<close>

fun before :: "frame list \<Rightarrow> nat list" where
  "before [] = []"
| "before (FL c a r # k) = before k"
| "before (FR l c a # k) = before k @ addrs l @ [a]"

fun behind :: "frame list \<Rightarrow> nat list" where
  "behind [] = []"
| "behind (FL c a r # k) = a # addrs r @ behind k"
| "behind (FR l c a # k) = behind k"

fun link_of :: "frame list \<Rightarrow> link" where
  "link_of [] = Root_link"
| "link_of (FL c a r # k) = Left_link a"
| "link_of (FR l c a # k) = Right_link a"

lemma addrs_split: "addrs (plug k t) = before k @ addrs t @ behind k"
  by (induction k t rule: plug.induct) auto

lemma ctx_addrs_eq: "ctx_addrs k = set (before k) \<union> set (behind k)"
  by (induction k rule: ctx_addrs.induct) auto

lemma at_link_of: "holds s k t \<Longrightarrow> at_link (link_of k) s = ptr_of t"
  by (cases k rule: link_of.cases) (auto simp: holds_def dest: tree_at_ptr)

definition key :: "arp_tree \<Rightarrow> nat \<Rightarrow> u32" where
  "key s a = ntohl (ipaddr (node_at s a))"

abbreviation keys_sorted :: "arp_tree \<Rightarrow> nat list \<Rightarrow> bool" where
  "keys_sorted s as \<equiv> sorted_wrt (\<lambda>a b. key s a < key s b) as"

lemma arp_search_node:
  "arp_search ip (Some a) s =
     (if key s a > ip then arp_search ip (rb_left (node_at s a)) s
      else if key s a < ip then arp_search ip (rb_right (node_at s a)) s else Some (Some a))"
  by (simp add: arp_search.simps [of ip "Some a"] key_def)

lemma arp_walk_node:
  "at_link l s = Some a \<Longrightarrow> arp_walk ip l q s =
     (if key s a > ip then arp_walk ip (Left_link a) (Some a) s
      else if key s a < ip then arp_walk ip (Right_link a) (Some a) s else Some (Inr a))"
  by (simp add: arp_walk.simps [of ip l] key_def)

text \<open>The walk ends at the entry with the address, or at the empty place where it belongs.\<close>

definition place :: "arp_tree \<Rightarrow> u32 \<Rightarrow> frame list \<Rightarrow> bool" where
  "place s ip k \<longleftrightarrow> (\<forall>a \<in> set (before k). key s a < ip) \<and> (\<forall>a \<in> set (behind k). ip < key s a)"

lemma arp_walk_ends:
  assumes "holds s k t" and "keys_sorted s (addrs t)" and "place s ip k" and "t = Lf \<longrightarrow> q = ctx_parent k"
  shows "(\<exists>e \<in> set (addrs t). key s e = ip \<and> arp_walk ip (link_of k) q s = Some (Inr e)) \<or>
    (\<exists>k'. arp_walk ip (link_of k) q s = Some (Inl (link_of k', ctx_parent k')) \<and> plug k' Lf = plug k t \<and> place s ip k')"
  using assms
proof (induction t arbitrary: k q)
  case Lf
  then have "at_link (link_of k) s = None" using at_link_of by fastforce
  then have "arp_walk ip (link_of k) q s = Some (Inl (link_of k, ctx_parent k))" using Lf.prems by (simp add: arp_walk.simps [of ip "link_of k"])
  then show ?case using Lf.prems(3) by blast
next
  case (Nd l c a r)
  have at: "at_link (link_of k) s = Some a" using at_link_of [OF Nd.prems(1)] by simp
  have ord: "keys_sorted s (addrs l)" "keys_sorted s (addrs r)" "\<forall>x \<in> set (addrs l). key s x < key s a" "\<forall>x \<in> set (addrs r). key s a < key s x"
    using Nd.prems(2) by (auto simp: sorted_wrt_append)
  consider (lt) "ip < key s a" | (gt) "key s a < ip" | (eq) "key s a = ip" by (metis linorder_neqE)
  then show ?case
  proof cases
    case lt
    have "arp_walk ip (link_of k) q s = arp_walk ip (link_of (FL c a r # k)) (Some a) s"
      using arp_walk_node [OF at] lt by simp
    moreover have "place s ip (FL c a r # k)" using Nd.prems(3) lt ord(4) by (auto simp: place_def)
    ultimately show ?thesis using Nd.IH(1) [of "FL c a r # k" "Some a"] Nd.prems(1) ord(1) by auto
  next
    case gt
    have "arp_walk ip (link_of k) q s = arp_walk ip (link_of (FR l c a # k)) (Some a) s"
      using arp_walk_node [OF at] gt by (auto dest: order.asym)
    moreover have "place s ip (FR l c a # k)" using Nd.prems(3) gt ord(3) by (auto simp: place_def)
    ultimately show ?thesis using Nd.IH(2) [of "FR l c a # k" "Some a"] Nd.prems(1) ord(2) by auto
  next
    case eq
    then have "arp_walk ip (link_of k) q s = Some (Inr a)" using arp_walk_node [OF at] by simp
    then show ?thesis using eq by auto
  qed
qed

lemma arp_search_ends:
  assumes "tree_at s q t x" and "keys_sorted s (addrs t)"
  shows "arp_search ip x s = Some (find (\<lambda>a. key s a = ip) (addrs t))"
  using assms
proof (induction t arbitrary: q x)
  case (Nd l c a r)
  have ord: "keys_sorted s (addrs l)" "keys_sorted s (addrs r)" "\<forall>y \<in> set (addrs l). key s y < key s a" "\<forall>y \<in> set (addrs r). key s a < key s y"
    using Nd.prems(2) by (auto simp: sorted_wrt_append)
  have no: "find P ys = None" if "\<forall>y \<in> set ys. \<not> P y" for P and ys :: "nat list" using that by (simp add: find_None_iff)
  have ap: "find P (ys @ zs) = (case find P ys of None \<Rightarrow> find P zs | z \<Rightarrow> z)" for P and ys zs :: "nat list" by (induction ys) auto
  consider (lt) "ip < key s a" | (gt) "key s a < ip" | (eq) "key s a = ip" by (metis linorder_neqE)
  then show ?case
  proof cases
    case lt
    then have "find (\<lambda>b. key s b = ip) (a # addrs r) = None" using ord(4) by (intro no) auto
    moreover have "arp_search ip x s = arp_search ip (rb_left (node_at s a)) s" using lt Nd.prems(1) arp_search_node by simp
    ultimately show ?thesis using Nd.IH(1) [of "Some a" "rb_left (node_at s a)"] Nd.prems(1) ord(1) by (auto simp: ap split: option.split)
  next
    case gt
    then have "find (\<lambda>b. key s b = ip) (addrs l) = None" using ord(3) by (intro no) auto
    moreover have "arp_search ip x s = arp_search ip (rb_right (node_at s a)) s" using gt Nd.prems(1) by (auto simp: arp_search_node dest: order.asym)
    ultimately show ?thesis using Nd.IH(2) [of "Some a" "rb_right (node_at s a)"] Nd.prems(1) ord(2) gt by (auto simp: ap)
  next
    case eq
    then have "find (\<lambda>b. key s b = ip) (addrs l) = None" using ord(3) by (intro no) auto
    then show ?thesis using eq Nd.prems(1) by (simp add: arp_search_node ap)
  qed
qed (simp add: arp_search.simps)

section \<open>Linking a new node\<close>

lemma red_black_plug: "red_black (plug k t) \<Longrightarrow> okk k (bh t) \<and> okc t \<and> okh t \<and> (rd t \<longrightarrow> k \<noteq> [] \<and> \<not> kred k)"
proof (induction k arbitrary: t)
  case Nil then show ?case by (simp add: red_black_def)
next
  case (Cons f k)
  then show ?case by (cases f) (fastforce dest!: Cons.IH split: if_splits)+
qed

lemma link_node_holds:
  assumes h: "holds s k Lf" and p: "p \<notin> ctx_addrs k"
  shows "holds (rb_link_node p (ctx_parent k) (link_of k) s) k (Nd Lf True p Lf)"
    and "same_entries s (rb_link_node p (ctx_parent k) (link_of k) s)"
proof -
  let ?s = "rb_link_node p (ctx_parent k) (link_of k) s"
  have np: "node_at ?s p = (node_at s p)\<lparr>rb_parent := ctx_parent k, rb_red := True, rb_left := None, rb_right := None\<rparr>"
    using p by (cases k rule: link_of.cases) (auto simp: rb_link_node_def)
  have same: "node_at ?s a = node_at s a" if "a \<noteq> p" "Some a \<noteq> ctx_parent k" for a
    using that by (cases k rule: link_of.cases) (auto simp: rb_link_node_def)
  have h': "ctx_at s k None" "ctx_distinct k" using h by (auto simp: holds_def)
  have "ctx_at ?s k (Some p)"
  proof (cases k rule: link_of.cases)
    case 1 then show ?thesis by (simp add: rb_link_node_def)
  next
    case (2 c a r k')
    have "tree_at ?s (Some a) r y = tree_at s (Some a) r y" "ctx_at ?s k' y = ctx_at s k' y" for y
      using 2 p h' by (auto intro!: tree_at_cong ctx_at_cong same simp: rb_link_node_def)
    then show ?thesis using 2 p h' by (simp add: rb_link_node_def)
  next
    case (3 l c a k')
    have "tree_at ?s (Some a) l y = tree_at s (Some a) l y" "ctx_at ?s k' y = ctx_at s k' y" for y
      using 3 p h' by (auto intro!: tree_at_cong ctx_at_cong same simp: rb_link_node_def)
    then show ?thesis using 3 p h' by (simp add: rb_link_node_def)
  qed
  then show "holds ?s k (Nd Lf True p Lf)" using np h' p by (simp add: holds_def)
  show "same_entries s ?s" by (cases k rule: link_of.cases) (auto simp: same_entries_def rb_link_node_def)
qed

section \<open>The table as a map\<close>

text \<open>
  The nodes \<open>A\<close> of the table are those of a red-black tree, ordered by address in host byte
  order, and their entries are the pairs of the map \<open>m\<close>.
\<close>

definition entries_of :: "arp_tree \<Rightarrow> nat set \<Rightarrow> (u32 \<rightharpoonup> bytes) \<Rightarrow> bool" where
  "entries_of s A m \<longleftrightarrow> (\<forall>a \<in> A. m (ipaddr (node_at s a)) = Some (macaddr (node_at s a))) \<and> dom m = (\<lambda>a. ipaddr (node_at s a)) ` A"

definition arp_table :: "arp_tree \<Rightarrow> nat set \<Rightarrow> (u32 \<rightharpoonup> bytes) \<Rightarrow> bool" where
  "arp_table s A m \<longleftrightarrow> (\<exists>t. holds s [] t \<and> red_black t \<and> keys_sorted s (addrs t) \<and> A = set (addrs t)) \<and> entries_of s A m"

lemma key_cong: "same_entries s s' \<Longrightarrow> key s' = key s"
  by (auto simp: key_def same_entries_def)

lemma entries_of_cong: "same_entries s s' \<Longrightarrow> entries_of s' A m = entries_of s A m"
  by (simp add: entries_of_def same_entries_def)

lemma keys_inj: "keys_sorted s as \<Longrightarrow> a \<in> set as \<Longrightarrow> b \<in> set as \<Longrightarrow> key s a = key s b \<Longrightarrow> a = b"
proof (induction as)
  case (Cons c as) then show ?case by (metis less_irrefl set_ConsD sorted_wrt.simps(2))
qed simp

lemma entries_insert:
  assumes "entries_of s A m" and "m (ipaddr (node_at s p)) = None"
  shows "entries_of s (insert p A) (m(ipaddr (node_at s p) \<mapsto> macaddr (node_at s p)))"
proof -
  have "ipaddr (node_at s a) \<noteq> ipaddr (node_at s p)" if "a \<in> A" for a using assms that unfolding entries_of_def by force
  then show ?thesis using assms(1) by (simp add: entries_of_def)
qed

lemma entries_update:
  assumes "entries_of s A m" and "e \<in> A" and "\<forall>a \<in> A. ipaddr (node_at s a) = ipaddr (node_at s e) \<longrightarrow> a = e"
  shows "entries_of (upd_node e (\<lambda>n. n\<lparr>macaddr := mac\<rparr>) s) A (m(ipaddr (node_at s e) \<mapsto> mac))"
proof -
  let ?s = "upd_node e (\<lambda>n. n\<lparr>macaddr := mac\<rparr>) s"
  have ip: "ipaddr (node_at ?s a) = ipaddr (node_at s a)" for a by simp
  have "(m(ipaddr (node_at s e) \<mapsto> mac)) (ipaddr (node_at ?s a)) = Some (macaddr (node_at ?s a))" if "a \<in> A" for a
    using assms that by (cases "a = e") (auto simp: entries_of_def)
  moreover have "dom (m(ipaddr (node_at s e) \<mapsto> mac)) = (\<lambda>a. ipaddr (node_at ?s a)) ` A"
    using assms(1,2) unfolding ip by (auto simp: entries_of_def)
  ultimately show ?thesis by (simp add: entries_of_def)
qed

lemma update_in_place:
  assumes "holds s [] t"
  shows "holds (upd_node e (\<lambda>n. n\<lparr>macaddr := mac\<rparr>) s) [] t" and "key (upd_node e (\<lambda>n. n\<lparr>macaddr := mac\<rparr>) s) = key s"
proof -
  have "tree_at (upd_node e (\<lambda>n. n\<lparr>macaddr := mac\<rparr>) s) q t x = tree_at s q t x" for q t x by (induction t arbitrary: q x) auto
  then show "holds (upd_node e (\<lambda>n. n\<lparr>macaddr := mac\<rparr>) s) [] t" using assms by (simp add: holds_def)
  show "key (upd_node e (\<lambda>n. n\<lparr>macaddr := mac\<rparr>) s) = key s" by (auto simp: key_def)
qed

lemma new_node:
  assumes h: "holds s [] (plug k Lf)" and rb: "red_black (plug k Lf)" and ord: "keys_sorted s (addrs (plug k Lf))"
    and p: "p \<notin> set (addrs (plug k Lf))" and place: "place s (key s p) k"
  obtains s' t where "rb_insert_color p (rb_link_node p (ctx_parent k) (link_of k) s) = Some s'" "holds s' [] t" "red_black t"
    "keys_sorted s' (addrs t)" "set (addrs t) = insert p (set (addrs (plug k Lf)))" "same_entries s s'"
proof -
  let ?l = "rb_link_node p (ctx_parent k) (link_of k) s"
  have hk: "holds s k Lf" using h holds_plug by blast
  have "p \<notin> ctx_addrs k" using p by (simp add: addrs_split ctx_addrs_eq)
  note link = link_node_holds [OF hk this]
  have "okk k 0" using red_black_plug [OF rb] by simp
  with link(1) have "rebalances p ?l (plug k (Nd Lf True p Lf))" by (intro insert_color_rebalances) auto
  then obtain s' t where s': "rb_insert_color p ?l = Some s'" "holds s' [] t" "red_black t" "addrs t = addrs (plug k (Nd Lf True p Lf))" "same_entries ?l s'"
    unfolding rebalances_def by blast
  have same: "same_entries s s'" using link(2) s'(5) same_entries_trans by blast
  have "keys_sorted s (addrs t)" using s'(4) ord place by (auto simp: addrs_split place_def sorted_wrt_append)
  then show ?thesis using that s' same key_cong [OF same] by (auto simp: addrs_split)
qed

lemma add_arp_entry_updates:
  assumes tab: "arp_table s A m" and p: "p \<notin> A"
  shows "\<exists>s'. vder_add_arp_entry p s = Some s' \<and>
    arp_table s' (if m (ipaddr (node_at s p)) = None then insert p A else A) (m(ipaddr (node_at s p) \<mapsto> macaddr (node_at s p)))"
proof -
  let ?ip = "ipaddr (node_at s p)"
  obtain t where t: "holds s [] t" "red_black t" "keys_sorted s (addrs t)" "A = set (addrs t)" and m: "entries_of s A m"
    using tab by (auto simp: arp_table_def)
  have e: "vder_add_arp_entry p s = (case arp_walk (key s p) (link_of []) (rb_root s) s of
        None \<Rightarrow> None
      | Some (Inr entry) \<Rightarrow> Some (upd_node entry (\<lambda>n. n\<lparr>macaddr := macaddr (node_at s p)\<rparr>) s)
      | Some (Inl (l, parent)) \<Rightarrow> rb_insert_color p (rb_link_node p parent l s))"
    by (simp add: vder_add_arp_entry_def key_def)
  have q: "t = Lf \<longrightarrow> rb_root s = ctx_parent []" using holds_top [OF t(1)] by auto
  have pl: "place s (key s p) []" by (simp add: place_def)
  consider (old) a where "a \<in> A" "key s a = key s p" "arp_walk (key s p) (link_of []) (rb_root s) s = Some (Inr a)"
    | (new) k where "arp_walk (key s p) (link_of []) (rb_root s) s = Some (Inl (link_of k, ctx_parent k))" "plug k Lf = t" "place s (key s p) k"
    using arp_walk_ends [OF t(1,3) pl q] t(4) by auto
  then show ?thesis
  proof cases
    case old
    have ip: "ipaddr (node_at s a) = ?ip" using old(2) by (simp add: key_def)
    have uniq: "\<forall>b \<in> A. ipaddr (node_at s b) = ipaddr (node_at s a) \<longrightarrow> b = a"
      using keys_inj [OF t(3)] old(1) t(4) by (auto simp: key_def)
    have "m ?ip \<noteq> None" using m old(1) ip by (metis entries_of_def option.distinct(1))
    moreover have "arp_table (upd_node a (\<lambda>n. n\<lparr>macaddr := macaddr (node_at s p)\<rparr>) s) A (m(?ip \<mapsto> macaddr (node_at s p)))"
      using t update_in_place [OF t(1)] entries_update [OF m old(1) uniq] ip unfolding arp_table_def by auto
    ultimately show ?thesis using e old(3) by auto
  next
    case new
    obtain s' t' where s': "rb_insert_color p (rb_link_node p (ctx_parent k) (link_of k) s) = Some s'" "holds s' [] t'" "red_black t'"
      "keys_sorted s' (addrs t')" "set (addrs t') = insert p A" "same_entries s s'"
      using new_node [of s k p] t p new(2,3) by metis
    have "\<forall>a \<in> A. key s a \<noteq> key s p" using new(2,3) t(4) by (fastforce simp: addrs_split place_def)
    then have "?ip \<notin> dom m" using m by (auto simp: entries_of_def key_def)
    then have no: "m ?ip = None" by (simp add: domIff)
    have "entries_of s' (insert p A) (m(?ip \<mapsto> macaddr (node_at s p)))"
      using entries_insert [OF m no] entries_of_cong [OF s'(6)] by simp
    then have "arp_table s' (insert p A) (m(?ip \<mapsto> macaddr (node_at s p)))" using s' unfolding arp_table_def by metis
    then show ?thesis using e new(1) s'(1) no by simp
  qed
qed

lemma get_arp_entry_looks_up:
  assumes "arp_table s A m"
  shows "\<exists>r. vder_get_arp_entry ip s = Some r \<and> map_option (\<lambda>a. macaddr (node_at s a)) r = m ip \<and> set_option r \<subseteq> A"
proof -
  obtain t where t: "holds s [] t" "keys_sorted s (addrs t)" "A = set (addrs t)" and m: "entries_of s A m"
    using assms by (auto simp: arp_table_def)
  have "tree_at s None t (rb_root s)" using t(1) by (simp add: holds_def)
  from arp_search_ends [OF this t(2)] have "vder_get_arp_entry ip s = Some (find (\<lambda>a. key s a = ntohl ip) (addrs t))"
    by (simp add: vder_get_arp_entry_def)
  moreover have "find (\<lambda>a. key s a = ntohl ip) (addrs t) = find (\<lambda>a. ipaddr (node_at s a) = ip) (addrs t)" by (simp add: key_def)
  moreover have "map_option (\<lambda>a. macaddr (node_at s a)) (find (\<lambda>a. ipaddr (node_at s a) = ip) (addrs t)) = m ip"
  proof (cases "find (\<lambda>a. ipaddr (node_at s a) = ip) (addrs t)")
    case None
    then have "\<forall>a \<in> A. ipaddr (node_at s a) \<noteq> ip" using t(3) by (simp add: find_None_iff)
    then have "ip \<notin> dom m" using m by (auto simp: entries_of_def)
    then show ?thesis using None by (simp add: domIff)
  next
    case (Some a)
    then have "a \<in> A" "ipaddr (node_at s a) = ip" using t(3) unfolding find_Some_iff by auto
    then show ?thesis using Some m by (auto simp: entries_of_def)
  qed
  moreover have "set_option (find (\<lambda>a. ipaddr (node_at s a) = ip) (addrs t)) \<subseteq> A"
    using t(3) by (auto simp: find_Some_iff in_set_conv_nth)
  ultimately show ?thesis by simp
qed

section \<open>Learning addresses\<close>

fun learn_all :: "(nat \<Rightarrow> 'k \<Rightarrow> 'v \<Rightarrow> 's \<Rightarrow> 's option) \<Rightarrow> (nat \<times> 'k \<times> 'v) list \<Rightarrow> 's \<Rightarrow> 's option" where
  "learn_all learn [] s = Some s"
| "learn_all learn ((p, k, v) # es) s = Option.bind (learn p k v s) (learn_all learn es)"

text \<open>
  The contract of an address table whose entries live in memory of the caller: \<open>tab s A m\<close> says that the
  entries at \<open>A\<close> are the map \<open>m\<close>. Adding an entry at a fresh place updates the map, and a lookup returns what the
  map says.
\<close>

locale address_table =
  fixes tab :: "'s \<Rightarrow> nat set \<Rightarrow> ('k \<rightharpoonup> 'v) \<Rightarrow> bool"
    and learn :: "nat \<Rightarrow> 'k \<Rightarrow> 'v \<Rightarrow> 's \<Rightarrow> 's option"
    and get :: "'k \<Rightarrow> 's \<Rightarrow> nat option option"
    and val :: "'s \<Rightarrow> nat \<Rightarrow> 'v"
  assumes learn_updates: "tab s A m \<Longrightarrow> p \<notin> A \<Longrightarrow> \<exists>s' A'. learn p k v s = Some s' \<and> tab s' A' (m(k \<mapsto> v)) \<and> A' \<subseteq> insert p A"
    and get_looks_up: "tab s A m \<Longrightarrow> \<exists>r. get k s = Some r \<and> map_option (val s) r = m k"
begin

lemma learn_all_updates:
  "tab s A m \<Longrightarrow> distinct (map fst es) \<Longrightarrow> set (map fst es) \<inter> A = {} \<Longrightarrow>
   \<exists>s' A'. learn_all learn es s = Some s' \<and> tab s' A' (m ++ map_of (rev (map snd es)))"
proof (induction es arbitrary: s A m)
  case (Cons e es)
  obtain p k v where e: "e = (p, k, v)" by (cases e) auto
  have "p \<notin> A" using Cons.prems(3) e by auto
  from learn_updates [OF Cons.prems(1) this] obtain s1 A1 where
    s1: "learn p k v s = Some s1" "tab s1 A1 (m(k \<mapsto> v))" "A1 \<subseteq> insert p A" by blast
  have "distinct (map fst es)" "set (map fst es) \<inter> A1 = {}" using Cons.prems(2,3) e s1(3) by auto
  then obtain s' A' where s': "learn_all learn es s1 = Some s'" "tab s' A' (m(k \<mapsto> v) ++ map_of (rev (map snd es)))"
    using Cons.IH [OF s1(2)] by blast
  have "m(k \<mapsto> v) ++ map_of (rev (map snd es)) = m ++ map_of (rev (map snd (e # es)))" by (simp add: e)
  moreover have "learn_all learn (e # es) s = Some s'" using e s1(1) s'(1) by simp
  ultimately show ?case using s'(2) by metis
qed auto

lemma get_after_learn_all:
  assumes "tab s A Map.empty" and "distinct (map fst es)" and "set (map fst es) \<inter> A = {}"
  shows "\<exists>s'. learn_all learn es s = Some s' \<and> (\<forall>k. \<exists>r. get k s' = Some r \<and> map_option (val s') r = map_of (rev (map snd es)) k)"
proof -
  obtain s' A' where s': "learn_all learn es s = Some s'" "tab s' A' (Map.empty ++ map_of (rev (map snd es)))"
    using learn_all_updates [OF assms] by blast
  then show ?thesis using get_looks_up [OF s'(2)] by simp
qed

end

text \<open>\<open>vder_parse_arp\<close> fills in a new entry and adds it to the table.\<close>

definition arp_learn :: "nat \<Rightarrow> u32 \<Rightarrow> bytes \<Rightarrow> arp_tree \<Rightarrow> arp_tree option" where
  "arp_learn ae ip mac s = vder_add_arp_entry ae (upd_node ae (\<lambda>n. n\<lparr>macaddr := mac, ipaddr := ip\<rparr>) s)"

lemma fresh_node_table:
  assumes "arp_table s A m" and "p \<notin> A"
  shows "arp_table (upd_node p f s) A m"
proof -
  obtain t where t: "holds s [] t" "red_black t" "keys_sorted s (addrs t)" "A = set (addrs t)" and m: "entries_of s A m"
    using assms(1) by (auto simp: arp_table_def)
  have same: "\<forall>a \<in> A. node_at (upd_node p f s) a = node_at s a" using assms(2) by auto
  have "tree_at (upd_node p f s) q t x = tree_at s q t x" for q x using same t(4) by (intro tree_at_cong) simp
  then have "holds (upd_node p f s) [] t" using t(1) by (simp add: holds_def)
  moreover have "keys_sorted (upd_node p f s) (addrs t)"
    using t(3) by (rule sorted_wrt_mono_rel [rotated]) (use same t(4) in \<open>simp add: key_def\<close>)
  moreover have "entries_of (upd_node p f s) A m" using m same by (simp add: entries_of_def cong: image_cong)
  ultimately show ?thesis using t(2,4) unfolding arp_table_def by blast
qed

lemma arp_learn_updates:
  assumes "arp_table s A m" and "p \<notin> A"
  shows "\<exists>s' A'. arp_learn p ip mac s = Some s' \<and> arp_table s' A' (m(ip \<mapsto> mac)) \<and> A' \<subseteq> insert p A"
  using add_arp_entry_updates [OF fresh_node_table [OF assms] assms(2), of "\<lambda>n. n\<lparr>macaddr := mac, ipaddr := ip\<rparr>"]
  by (fastforce simp: arp_learn_def split: if_splits)

interpretation arp: address_table arp_table arp_learn vder_get_arp_entry "\<lambda>s a. macaddr (node_at s a)"
proof
  show "\<exists>s' A'. arp_learn p k v s = Some s' \<and> arp_table s' A' (m(k \<mapsto> v)) \<and> A' \<subseteq> insert p A"
    if "arp_table s A m" "p \<notin> A" for s A m p k v using that by (rule arp_learn_updates)
  show "\<exists>r. vder_get_arp_entry k s = Some r \<and> map_option (\<lambda>a. macaddr (node_at s a)) r = m k"
    if "arp_table s A m" for s A m k using get_arp_entry_looks_up [OF that] by blast
qed

definition no_node :: rb_node where
  "no_node = \<lparr>rb_parent = None, rb_red = False, rb_left = None, rb_right = None, ipaddr = 0, macaddr = []\<rparr>"

definition arp_empty :: "(nat \<Rightarrow> rb_node) \<Rightarrow> arp_tree" where
  "arp_empty mem = \<lparr>node_at = mem, rb_root = None\<rparr>"

lemma arp_empty_table: "arp_table (arp_empty mem) {} Map.empty"
  unfolding arp_table_def
  by (intro conjI exI [of _ Lf]) (simp_all add: arp_empty_def holds_def red_black_def entries_of_def)

section \<open>The searches by other keys\<close>

partial_function (option) mac_walk :: "(rb_node \<Rightarrow> nat option) \<Rightarrow> bytes \<Rightarrow> nat option \<Rightarrow> arp_tree \<Rightarrow> nat option option" where
  "mac_walk child mac node s =
     (case node of
        None \<Rightarrow> Some None
      | Some entry \<Rightarrow>
          if macaddr (node_at s entry) = mac then Some (Some entry) else mac_walk child mac (child (node_at s entry)) s)"

definition vder_arp_get_record_by_macaddr :: "bytes \<Rightarrow> arp_tree \<Rightarrow> nat option option" where
  "vder_arp_get_record_by_macaddr mac s =
     Option.bind (mac_walk rb_left mac (rb_root s) s)
       (\<lambda>found. case found of Some e \<Rightarrow> Some (Some e) | None \<Rightarrow> mac_walk rb_right mac (rb_root s) s)"

text \<open>Whether the vector is full, and what was stored in it.\<close>

partial_function (option) neighbor_walk ::
    "(rb_node \<Rightarrow> nat option) \<Rightarrow> int \<Rightarrow> u32 list \<Rightarrow> nat option \<Rightarrow> arp_tree \<Rightarrow> (bool \<times> u32 list) option" where
  "neighbor_walk child vector_size neighbors node s =
     (case node of
        None \<Rightarrow> Some (False, neighbors)
      | Some entry \<Rightarrow>
          let neighbors1 = neighbors @ [ipaddr (node_at s entry)]
          in if int (length neighbors1) = vector_size then Some (True, neighbors1)
             else neighbor_walk child vector_size neighbors1 (child (node_at s entry)) s)"

definition vder_arp_get_neighbors :: "int \<Rightarrow> arp_tree \<Rightarrow> (int \<times> u32 list) option" where
  "vder_arp_get_neighbors vector_size s =
     (if vector_size \<le> 0 then Some (- 22, [])
      else Option.bind (neighbor_walk rb_left vector_size [] (rb_root s) s)
        (\<lambda>(full, ns). if full then Some (int (length ns), ns)
           else case rb_root s of
                  None \<Rightarrow> Some (int (length ns), ns)
                | Some node \<Rightarrow>
                    map_option (\<lambda>(full, ns). (int (length ns), ns)) (neighbor_walk rb_right vector_size ns (rb_right (node_at s node)) s)))"

fun left_spine :: "rtree \<Rightarrow> nat list" where
  "left_spine Lf = []"
| "left_spine (Nd l c a r) = a # left_spine l"

fun right_spine :: "rtree \<Rightarrow> nat list" where
  "right_spine Lf = []"
| "right_spine (Nd l c a r) = a # right_spine r"

lemma mac_walk_spines:
  assumes "tree_at s q t x"
  shows "mac_walk rb_left mac x s = Some (find (\<lambda>a. macaddr (node_at s a) = mac) (left_spine t))"
    and "mac_walk rb_right mac x s = Some (find (\<lambda>a. macaddr (node_at s a) = mac) (right_spine t))"
  using assms by (induction t arbitrary: q x) (auto simp: mac_walk.simps [of _ mac])

lemma neighbor_walk_step:
  "length ns < n \<Longrightarrow> neighbor_walk child (int n) ns (Some a) s =
     (if length ns + 1 = n then Some (True, ns @ [ipaddr (node_at s a)])
      else neighbor_walk child (int n) (ns @ [ipaddr (node_at s a)]) (child (node_at s a)) s)"
  by (auto simp: neighbor_walk.simps [of child "int n" ns])

text \<open>A walk fills the vector with what fits of its nodes.\<close>

definition fills :: "nat \<Rightarrow> u32 list \<Rightarrow> u32 list \<Rightarrow> (bool \<times> u32 list) option \<Rightarrow> bool" where
  "fills n ns ys r \<longleftrightarrow> r = Some (n \<le> length ns + length ys, ns @ take (n - length ns) ys)"

lemma neighbor_walk_left:
  "tree_at s q t x \<Longrightarrow> length ns < n \<Longrightarrow>
   fills n ns (map (\<lambda>a. ipaddr (node_at s a)) (left_spine t)) (neighbor_walk rb_left (int n) ns x s)"
proof (induction t arbitrary: q x ns)
  case (Nd l c a r)
  show ?case
  proof (cases "length ns + 1 = n")
    case True then show ?thesis using Nd.prems neighbor_walk_step [OF Nd.prems(2)] by (auto simp: fills_def)
  next
    case False
    then have "length (ns @ [ipaddr (node_at s a)]) < n" using Nd.prems(2) by simp
    from Nd.IH(1) [OF _ this, of "Some a"] show ?thesis
      using False Nd.prems neighbor_walk_step [OF Nd.prems(2)] by (auto simp: fills_def take_Cons' )
  qed
qed (simp add: fills_def neighbor_walk.simps)

lemma neighbor_walk_right:
  "tree_at s q t x \<Longrightarrow> length ns < n \<Longrightarrow>
   fills n ns (map (\<lambda>a. ipaddr (node_at s a)) (right_spine t)) (neighbor_walk rb_right (int n) ns x s)"
proof (induction t arbitrary: q x ns)
  case (Nd l c a r)
  show ?case
  proof (cases "length ns + 1 = n")
    case True then show ?thesis using Nd.prems neighbor_walk_step [OF Nd.prems(2)] by (auto simp: fills_def)
  next
    case False
    then have "length (ns @ [ipaddr (node_at s a)]) < n" using Nd.prems(2) by simp
    from Nd.IH(2) [OF _ this, of "Some a"] show ?thesis
      using False Nd.prems neighbor_walk_step [OF Nd.prems(2)] by (auto simp: fills_def take_Cons' )
  qed
qed (simp add: fills_def neighbor_walk.simps)

lemma neighbors_spines:
  assumes h: "holds s [] t" and n: "0 < n"
  shows "vder_arp_get_neighbors (int n) s =
    (let ns = take n (map (\<lambda>a. ipaddr (node_at s a)) (left_spine t @ tl (right_spine t))) in Some (int (length ns), ns))"
proof (cases t)
  case Lf
  then show ?thesis using h n by (simp add: vder_arp_get_neighbors_def holds_def neighbor_walk.simps)
next
  case (Nd l c a r)
  let ?ip = "\<lambda>a. ipaddr (node_at s a)"
  have t: "tree_at s None t (rb_root s)" "rb_root s = Some a" "tree_at s (Some a) r (rb_right (node_at s a))"
    using h Nd by (auto simp: holds_def)
  have L: "neighbor_walk rb_left (int n) [] (rb_root s) s = Some (n \<le> length (left_spine t), take n (map ?ip (left_spine t)))"
    using neighbor_walk_left [OF t(1), of "[]" n] n by (simp add: fills_def)
  show ?thesis
  proof (cases "n \<le> length (left_spine t)")
    case True then show ?thesis using L n by (simp add: vder_arp_get_neighbors_def Let_def)
  next
    case False
    then have "neighbor_walk rb_right (int n) (map ?ip (left_spine t)) (rb_right (node_at s a)) s =
      Some (n \<le> length (left_spine t) + length (right_spine r), map ?ip (left_spine t) @ take (n - length (left_spine t)) (map ?ip (right_spine r)))"
      using neighbor_walk_right [OF t(3), of "map ?ip (left_spine t)" n] by (simp add: fills_def)
    moreover have "take n (map ?ip (left_spine t @ tl (right_spine t))) = map ?ip (left_spine t) @ take (n - length (left_spine t)) (map ?ip (right_spine r))"
      using False Nd by (cases n) auto
    moreover have "take n (map ?ip (left_spine t)) = map ?ip (left_spine t)" using False by simp
    ultimately show ?thesis using L n False t(2) by (simp only: vder_arp_get_neighbors_def Let_def) simp
  qed
qed

section \<open>Properties\<close>

definition example_node :: "u32 \<Rightarrow> u8 \<Rightarrow> rb_node" where
  "example_node ip b = no_node\<lparr>ipaddr := ntohl ip, macaddr := [b, b, b, b, b, b]\<rparr>"

definition example_mac :: "u8 \<Rightarrow> bytes" where
  "example_mac b = [2, 0, 0, 0, 0, b]"

definition example_learned :: "(nat \<times> u32 \<times> bytes) list" where
  "example_learned = [(1, ntohl 20, example_mac 20), (2, ntohl 10, example_mac 10), (3, ntohl 30, example_mac 30), (4, ntohl 15, example_mac 15)]"

text \<open>
  C20: the ARP table. While the table holds a red-black tree ordered by address, adding an entry at a
  new place returns, the table again holds such a tree, and the table as a map is updated with the address and
  the Ethernet address of the entry: an address that is known keeps its node. A lookup then returns,
  with what the map says.
\<close>

theorem arp_table_refines:
  assumes "arp_table s A m" and "p \<notin> A"
  shows "\<exists>s'. vder_add_arp_entry p s = Some s' \<and>
    arp_table s' (if m (ipaddr (node_at s p)) = None then insert p A else A) (m(ipaddr (node_at s p) \<mapsto> macaddr (node_at s p))) \<and>
    (\<forall>ip. \<exists>r. vder_get_arp_entry ip s' = Some r \<and>
       map_option (\<lambda>a. macaddr (node_at s' a)) r = (m(ipaddr (node_at s p) \<mapsto> macaddr (node_at s p))) ip)"
  using add_arp_entry_updates [OF assms] get_arp_entry_looks_up by meson

theorem arp_table_refines_witness:
  "\<exists>s'. vder_add_arp_entry 1 (arp_empty (\<lambda>_. example_node 20 7)) = Some s' \<and> (\<exists>a. vder_get_arp_entry (ntohl 20) s' = Some (Some a) \<and> macaddr (node_at s' a) = [7, 7, 7, 7, 7, 7])"
proof -
  have e: "ipaddr (node_at (arp_empty (\<lambda>_. example_node 20 7)) 1) = ntohl 20" "macaddr (node_at (arp_empty (\<lambda>_. example_node 20 7)) 1) = [7, 7, 7, 7, 7, 7]"
    by (simp_all add: arp_empty_def example_node_def no_node_def)
  obtain s' r where "vder_add_arp_entry 1 (arp_empty (\<lambda>_. example_node 20 7)) = Some s'" "vder_get_arp_entry (ntohl 20) s' = Some r"
    "map_option (\<lambda>a. macaddr (node_at s' a)) r = Some [7, 7, 7, 7, 7, 7]"
    using arp_table_refines [OF arp_empty_table, of 1 "\<lambda>_. example_node 20 7"] unfolding e by (metis empty_iff fun_upd_same)
  then show ?thesis by auto
qed

text \<open>
  C21: learning addresses. From an empty table, every sequence of addresses can be learned, whatever their order, and then
  a lookup of an address returns the Ethernet address learned last for it, or nothing when it was never
  learned.
\<close>

theorem arp_learns:
  assumes "distinct (map fst es)"
  shows "\<exists>s'. learn_all arp_learn es (arp_empty mem) = Some s' \<and>
    (\<forall>ip. \<exists>r. vder_get_arp_entry ip s' = Some r \<and> map_option (\<lambda>a. macaddr (node_at s' a)) r = map_of (rev (map snd es)) ip)"
  using arp.get_after_learn_all [OF arp_empty_table assms] by simp

theorem arp_learns_witness:
  "\<exists>s' a. learn_all arp_learn example_learned (arp_empty (\<lambda>_. no_node)) = Some s' \<and>
    vder_get_arp_entry (ntohl 15) s' = Some (Some a) \<and> macaddr (node_at s' a) = example_mac 15 \<and> vder_get_arp_entry (ntohl 16) s' = Some None"
proof -
  have "distinct (map fst example_learned)" by (simp add: example_learned_def)
  from arp_learns [OF this, of "\<lambda>_. no_node"] obtain s' where s': "learn_all arp_learn example_learned (arp_empty (\<lambda>_. no_node)) = Some s'"
    "\<And>ip. \<exists>r. vder_get_arp_entry ip s' = Some r \<and> map_option (\<lambda>a. macaddr (node_at s' a)) r = map_of (rev (map snd example_learned)) ip" by blast
  have m: "map_of (rev (map snd example_learned)) (ntohl 15) = Some (example_mac 15)" "map_of (rev (map snd example_learned)) (ntohl 16) = None"
    by (simp_all add: example_learned_def)
  show ?thesis using s'(1) s'(2) [of "ntohl 15"] s'(2) [of "ntohl 16"] unfolding m by auto
qed

definition example_arp :: arp_tree where
  "example_arp =
     \<lparr>node_at = (\<lambda>_. no_node)
        (1 := \<lparr>rb_parent = None, rb_red = False, rb_left = Some 2, rb_right = Some 3, ipaddr = ntohl 20, macaddr = example_mac 20\<rparr>,
         2 := \<lparr>rb_parent = Some 1, rb_red = False, rb_left = None, rb_right = Some 4, ipaddr = ntohl 10, macaddr = example_mac 10\<rparr>,
         3 := \<lparr>rb_parent = Some 1, rb_red = False, rb_left = None, rb_right = None, ipaddr = ntohl 30, macaddr = example_mac 30\<rparr>,
         4 := \<lparr>rb_parent = Some 2, rb_red = True, rb_left = None, rb_right = None, ipaddr = ntohl 15, macaddr = example_mac 15\<rparr>),
      rb_root = Some 1\<rparr>"

text \<open>
  C40: the searches by Ethernet address and the list of neighbours follow the left spine and the right
  spine of the tree. They visit no other entries: in the witness the fourth entry is known by its
  address and found by neither. The list never exceeds the vector it is given.
\<close>

theorem arp_spines:
  assumes "holds s [] t" and "0 < n"
  shows "vder_arp_get_record_by_macaddr mac s = Some (find (\<lambda>a. macaddr (node_at s a) = mac) (left_spine t @ right_spine t)) \<and>
    vder_arp_get_neighbors (int n) s =
      (let ns = take n (map (\<lambda>a. ipaddr (node_at s a)) (left_spine t @ tl (right_spine t))) in Some (int (length ns), ns))"
proof -
  have t: "tree_at s None t (rb_root s)" using assms(1) by (simp add: holds_def)
  have "find P (xs @ ys) = (case find P xs of None \<Rightarrow> find P ys | z \<Rightarrow> z)" for P and xs ys :: "nat list" by (induction xs) auto
  then show ?thesis
    using mac_walk_spines [OF t] neighbors_spines [OF assms] by (simp add: vder_arp_get_record_by_macaddr_def split: option.split)
qed

lemma example_arp_holds: "holds example_arp [] (Nd (Nd Lf False 2 (Nd Lf True 4 Lf)) False 1 (Nd Lf False 3 Lf))"
  by (simp add: holds_def example_arp_def)

lemma example_arp_learned: "learn_all arp_learn example_learned (arp_empty (\<lambda>_. no_node)) = Some example_arp"
  by (simp add: example_learned_def arp_learn_def arp_empty_def vder_add_arp_entry_def arp_walk.simps rb_insert_color.simps rb_link_node_def
    upd_node_def rb_set_red_def recolour_def is_red_def no_node_def example_arp_def fun_upd_twist)

theorem arp_spines_witness:
  "learn_all arp_learn example_learned (arp_empty (\<lambda>_. no_node)) = Some example_arp \<and>
   macaddr (node_at example_arp 4) = example_mac 15 \<and> vder_arp_get_record_by_macaddr (example_mac 15) example_arp = Some None \<and>
   vder_arp_get_neighbors 9 example_arp = Some (3, [ntohl 20, ntohl 10, ntohl 30])"
  using example_arp_learned arp_spines [OF example_arp_holds, of 9 "example_mac 15"] by (simp add: Let_def example_mac_def example_arp_def)

end
