(* ===== verification/Ipheader.thy ===== *)
theory Ipheader
  imports Routes
begin

text \<open>
  Ethernet and IP headers as bytes in a buffer, as \<^verbatim>\<open>vde_l3/vde_l3.c\<close> and
  \<^verbatim>\<open>vde_router/vder_packet.c\<close> read and write them: an Ethernet header of 14 bytes, then the IP
  header of 20 bytes. Fields of two and four bytes are accessed as the little-endian
  machine does it; \<open>htons\<close> and \<open>ntohl\<close> swap bytes.
\<close>

section \<open>Fields\<close>

definition get16 :: "nat \<Rightarrow> bytes \<Rightarrow> u16" where
  "get16 i d = ucast (d ! i) OR push_bit 8 (ucast (d ! Suc i))"

definition put16 :: "nat \<Rightarrow> u16 \<Rightarrow> bytes \<Rightarrow> bytes" where
  "put16 i w d = d[i := ucast w, Suc i := ucast (drop_bit 8 w)]"

definition get32 :: "nat \<Rightarrow> bytes \<Rightarrow> u32" where
  "get32 i d = ucast (d ! i) OR push_bit 8 (ucast (d ! (i + 1))) OR push_bit 16 (ucast (d ! (i + 2))) OR push_bit 24 (ucast (d ! (i + 3)))"

definition put32 :: "nat \<Rightarrow> u32 \<Rightarrow> bytes \<Rightarrow> bytes" where
  "put32 i w d = d[i := ucast w, i + 1 := ucast (drop_bit 8 w), i + 2 := ucast (drop_bit 16 w), i + 3 := ucast (drop_bit 24 w)]"

definition htons :: "u16 \<Rightarrow> u16" where
  "htons w = push_bit 8 w OR drop_bit 8 w"

lemma length_put [simp]: "length (put16 i w d) = length d" "length (put32 i u d) = length d"
  by (simp_all add: put16_def put32_def)

lemma get16_put16:
  assumes "Suc i < length d"
  shows "get16 i (put16 i w d) = w"
  using assms by (intro bit_word_eqI) (auto simp: get16_def put16_def bit_simps)

lemma get32_put32:
  assumes "i + 3 < length d"
  shows "get32 i (put32 i w d) = w"
proof (rule bit_word_eqI)
  fix n assume "n < LENGTH(32)"
  then show "bit (get32 i (put32 i w d)) n = bit w n"
    using assms by (cases "24 \<le> n"; cases "16 \<le> n") (auto simp: get32_def put32_def bit_simps nth_list_update)
qed

lemma put32_get32_bytes:
  assumes "i + 3 < length d" and "get32 i d = get32 j e" and "k < 4"
  shows "d ! (i + k) = e ! (j + k)"
proof (rule bit_word_eqI)
  fix n assume n: "n < LENGTH(8)"
  have hi: "\<not> bit (x :: u8) m" if "8 \<le> m" for x m using that bit_imp_le_length [of x m] by auto
  have "bit (get32 i d) (8 * k + n) = bit (d ! (i + k)) n" for i and d :: bytes
  proof -
    consider "k = 0" | "k = 1" | "k = 2" | "k = 3" using assms(3) by linarith
    then show ?thesis using n hi by cases (auto simp: get32_def bit_simps)
  qed
  then show "bit (d ! (i + k)) n = bit (e ! (j + k)) n" using assms(2) by metis
qed

section \<open>The checksum\<close>

fun sum_bytes :: "nat \<Rightarrow> u32 \<Rightarrow> bytes \<Rightarrow> u32" where
  "sum_bytes i acc [] = acc"
| "sum_bytes i acc (b # bs) = sum_bytes (Suc i) (acc + (if odd i then ucast b else push_bit 8 (ucast b))) bs"

definition net_checksum :: "bytes \<Rightarrow> u16" where
  "net_checksum buf =
     (let s = sum_bytes 0 0 buf;
          carry = drop_bit 16 (s AND 0xFFFF0000);
          low = s AND 0x0000FFFF
      in ucast (NOT (low + carry)))"

definition iphdr :: "bytes \<Rightarrow> bytes" where
  "iphdr d = take 20 (drop 14 d)"

text \<open>\<open>iph->check = htons (ip_checksum (iph))\<close>, where \<open>ip_checksum\<close> first clears the field.\<close>

definition ip_checksum :: "bytes \<Rightarrow> bytes \<times> u16" where
  "ip_checksum d = (let d1 = put16 24 0 d in (d1, net_checksum (iphdr d1)))"

definition store_checksum :: "bytes \<Rightarrow> bytes" where
  "store_checksum d = (case ip_checksum d of (d1, c) \<Rightarrow> put16 24 (htons c) d1)"

text \<open>Forwarding decreases the time to live and increases the checksum field; whether the packet lives on.\<close>

definition decrease_ttl :: "bytes \<Rightarrow> bytes \<times> bool" where
  "decrease_ttl d =
     (let d1 = d[22 := d ! 22 - 1];
          d2 = put16 24 (get16 24 d1 + 1) d1
      in (d2, 1 \<le> d2 ! 22))"

text \<open>The checksum of the standard: the 16-bit numbers of the header add up to 0 modulo $2^{16}-1$.\<close>

fun word_sum :: "bytes \<Rightarrow> nat" where
  "word_sum [] = 0"
| "word_sum [a] = 256 * unat a"
| "word_sum (a # b # bs) = 256 * unat a + unat b + word_sum bs"

definition header_valid :: "bytes \<Rightarrow> bool" where
  "header_valid d \<longleftrightarrow> word_sum (iphdr d) mod 65535 = 0"

lemma u8_bound: "unat (b :: u8) < 256"
  using unsigned_less [of b] by simp

lemma u16_bound: "unat (w :: u16) < 65536"
  using unsigned_less [of w] by simp

lemma unat_byte: "unat (ucast (b :: u8) :: u32) = unat b"
  using u8_bound [of b] by (simp add: unsigned_ucast_eq take_bit_eq_mod)

lemma unat_high_byte: "unat (push_bit 8 (ucast (b :: u8)) :: u32) = 256 * unat b"
proof -
  show ?thesis using u8_bound [of b] by (simp add: push_bit_eq_mult unat_word_ariths unat_byte)
qed

lemma word_sum_bound: "word_sum bs \<le> 65535 * ((length bs + 1) div 2)"
proof (induction bs rule: word_sum.induct)
  case (2 a)
  then show ?case using u8_bound [of a] by simp
next
  case (3 a b bs)
  then show ?case using u8_bound [of a] u8_bound [of b] by simp
qed simp

lemma sum_bytes_word_sum:
  assumes "even i" and "unat acc + word_sum bs < 2 ^ 32"
  shows "unat (sum_bytes i acc bs) = unat acc + word_sum bs"
  using assms
proof (induction bs arbitrary: i acc rule: word_sum.induct)
  case (2 a)
  then show ?case by (simp add: unat_word_ariths unat_high_byte)
next
  case (3 a b bs)
  let ?s = "acc + push_bit 8 (ucast a) + ucast b"
  have "unat ?s = unat acc + 256 * unat a + unat b"
    using 3(3) by (simp add: unat_word_ariths unat_high_byte unat_byte)
  then show ?case using 3(1) [of "Suc (Suc i)" ?s] 3(2,3) by simp
qed simp

lemma net_checksum_nat:
  assumes "length bs \<le> 65536"
  shows "unat (net_checksum bs) = 65535 - (word_sum bs mod 65536 + word_sum bs div 65536) mod 65536"
proof -
  define s where "s = sum_bytes 0 0 bs"
  have "65535 * ((length bs + 1) div 2) \<le> 65535 * 32768" using assms by simp
  then have "word_sum bs < 2 ^ 32" using word_sum_bound [of bs] by simp
  then have s: "unat s = word_sum bs" using sum_bytes_word_sum [of 0 0 bs] by (simp add: s_def)
  have low: "s AND 0x0000FFFF = take_bit 16 s" by (simp add: take_bit_eq_mask mask_numeral)
  have carry: "drop_bit 16 (s AND 0xFFFF0000) = drop_bit 16 s"
  proof -
    have "(0xFFFF0000 :: u32) = NOT (mask 16)" by (simp add: mask_numeral)
    moreover have "drop_bit 16 (s AND NOT (mask 16)) = drop_bit 16 s"
      by (rule bit_word_eqI) (auto simp: bit_simps dest: bit_imp_le_length)
    ultimately show ?thesis by (simp only:)
  qed
  have not: "ucast (NOT x) = NOT (ucast x :: u16)" for x :: u32 by (rule bit_word_eqI) (simp add: bit_simps)
  have "unat (take_bit 16 s + drop_bit 16 s) = unat s mod 65536 + unat s div 65536"
  proof -
    have "unat s < 2 ^ 32" using unsigned_less [of s] by simp
    then have "unat s mod 65536 + unat s div 65536 < 2 ^ 32" by simp
    then show ?thesis by (simp add: unat_word_ariths unsigned_take_bit_eq unsigned_drop_bit_eq take_bit_eq_mod drop_bit_eq_div)
  qed
  then have "unat (ucast (take_bit 16 s + drop_bit 16 s) :: u16) = (unat s mod 65536 + unat s div 65536) mod 65536"
    by (simp add: unsigned_ucast_eq take_bit_eq_mod)
  moreover have "unat (NOT w) = 65535 - unat w" for w :: u16
  proof -
    have "NOT w = - 1 - w" by (simp add: not_eq_complement)
    moreover have "unat (- 1 - w) = unat (- 1 :: u16) - unat w" by (rule unat_sub) simp
    ultimately show ?thesis by (simp add: unsigned_minus_1_eq_mask mask_eq_exp_minus_1)
  qed
  ultimately show ?thesis unfolding net_checksum_def Let_def s_def [symmetric] low carry not by (simp add: s)
qed

text \<open>A stored checksum makes the sum 0 exactly if adding the carry does not carry again.\<close>

lemma net_checksum_valid:
  assumes "length bs \<le> 65536"
  shows "(word_sum bs + unat (net_checksum bs)) mod 65535 = 0 \<longleftrightarrow> word_sum bs mod 65536 + word_sum bs div 65536 < 65536"
proof -
  define h l where "h = word_sum bs div 65536" and "l = word_sum bs mod 65536"
  have "65535 * ((length bs + 1) div 2) \<le> 65535 * 32768" using assms by simp
  then have "word_sum bs < 2147483648" using word_sum_bound [of bs] by simp
  then have h: "h < 65536" unfolding h_def by (intro less_mult_imp_div_less) simp
  have l: "l < 65536" by (simp add: l_def)
  have S: "word_sum bs = 65535 * h + (l + h)" using div_mult_mod_eq [of "word_sum bs" 65536] unfolding h_def l_def by linarith
  have c: "unat (net_checksum bs) = 65535 - (l + h) mod 65536" by (simp add: net_checksum_nat [OF assms] h_def l_def)
  show ?thesis
  proof (cases "l + h < 65536")
    case True
    then have "word_sum bs + unat (net_checksum bs) = 65535 * (h + 1)" unfolding c S by simp
    then show ?thesis using True by (simp add: h_def l_def)
  next
    case False
    then obtain m where m: "l + h = 65536 + m" using le_Suc_ex [of 65536 "l + h"] by auto
    then have "(l + h) mod 65536 = m" "m \<le> 65534" using h l by simp_all
    then have "word_sum bs + unat (net_checksum bs) = 1 + 65535 * (h + 2)" unfolding c S using m by simp
    then have "(word_sum bs + unat (net_checksum bs)) mod 65535 = 1" by (simp only: mod_mult_self2) simp
    then show ?thesis using False by (simp add: h_def l_def)
  qed
qed

lemma iphdr_map: "34 \<le> length d \<Longrightarrow> iphdr d = map (nth d) [14..<34]"
  by (intro nth_equalityI) (auto simp: iphdr_def simp del: upt_rec_numeral)

lemma word_sum_iphdr:
  assumes "34 \<le> length d"
  shows "word_sum (iphdr d) = (\<Sum>i \<in> {14, 16, 18, 20, 22, 24, 26, 28, 30, 32}. 256 * unat (d ! i) + unat (d ! Suc i))"
  by (simp add: iphdr_map [OF assms])

lemma htons_bytes: "ucast (htons c) = (ucast (drop_bit 8 c) :: u8)" "ucast (drop_bit 8 (htons c)) = (ucast c :: u8)"
  by (intro bit_word_eqI, auto simp: htons_def bit_simps dest: bit_imp_le_length)+

lemma unat_u16_bytes: "256 * unat (ucast (drop_bit 8 c) :: u8) + unat (ucast c :: u8) = unat (c :: u16)"
proof -
  have "unat c < 65536" using unsigned_less [of c] by simp
  then show ?thesis by (simp add: unsigned_ucast_eq take_bit_eq_mod drop_bit_eq_div unat_div_distrib)
qed

lemma store_checksum_sum:
  assumes "34 \<le> length d"
  shows "word_sum (iphdr (store_checksum d)) = word_sum (iphdr (put16 24 0 d)) + unat (net_checksum (iphdr (put16 24 0 d)))"
proof -
  define c where "c = net_checksum (iphdr (put16 24 0 d))"
  have e: "store_checksum d = d[24 := ucast (drop_bit 8 c), 25 := ucast c]"
    by (simp add: store_checksum_def ip_checksum_def Let_def c_def [symmetric])
      (simp add: put16_def htons_bytes list_update_swap [of 24 25])
  have z: "put16 24 0 d = d[24 := 0, 25 := 0]" by (simp add: put16_def)
  show ?thesis using assms unat_u16_bytes [of c] unfolding e c_def [symmetric]
    by (simp add: word_sum_iphdr z)
qed

lemma get16_bytes: "ucast (get16 i d) = d ! i" "ucast (drop_bit 8 (get16 i d)) = d ! Suc i"
  by (intro bit_word_eqI, auto simp: get16_def bit_simps dest: bit_imp_le_length)+

lemma unat_get16: "unat (get16 i d) = unat (d ! i) + 256 * unat (d ! Suc i)"
  using unat_u16_bytes [of "get16 i d"] by (simp add: get16_bytes)

lemma decrease_ttl_bytes:
  assumes "34 \<le> length d"
  shows "fst (decrease_ttl d) = d[22 := d ! 22 - 1, 24 := ucast (get16 24 d + 1), 25 := ucast (drop_bit 8 (get16 24 d + 1))]"
    and "snd (decrease_ttl d) \<longleftrightarrow> d ! 22 \<noteq> 1"
proof -
  have "get16 24 (d[22 := d ! 22 - 1]) = get16 24 d" by (simp add: get16_def)
  then show "fst (decrease_ttl d) = d[22 := d ! 22 - 1, 24 := ucast (get16 24 d + 1), 25 := ucast (drop_bit 8 (get16 24 d + 1))]"
    by (simp add: decrease_ttl_def Let_def put16_def)
  have "1 \<le> x - 1 \<longleftrightarrow> x \<noteq> 1" for x :: u8 by (simp add: word_le_nat_alt Suc_le_eq unat_gt_0)
  then show "snd (decrease_ttl d) \<longleftrightarrow> d ! 22 \<noteq> 1" using assms by (simp add: decrease_ttl_def Let_def put16_def)
qed

lemma decrease_ttl_valid:
  assumes l: "34 \<le> length d" and v: "header_valid d" and t: "d ! 22 \<noteq> 0" and c: "get16 24 d \<noteq> 0xFFFF"
  shows "header_valid (fst (decrease_ttl d))"
proof -
  define w where "w = get16 24 d + 1"
  define a b where "a = unat (d ! 24)" and "b = unat (d ! 25)"
  have ab: "a < 256" "b < 256" by (simp_all add: a_def b_def u8_bound)
  have g: "unat (get16 24 d) = a + 256 * b" by (simp add: unat_get16 a_def b_def)
  have "unat (get16 24 d) \<noteq> 65535" using c word_unat_eq_iff [of "get16 24 d" "0xFFFF"] by simp
  then have w: "unat w = a + 256 * b + 1" using ab g by (simp add: w_def unat_word_ariths)
  have x: "unat (ucast w :: u8) = unat w mod 256" "unat (ucast (drop_bit 8 w) :: u8) = unat w div 256"
    using less_mult_imp_div_less [of "unat w" 256 256] u16_bound [of w]
    by (simp_all add: unsigned_ucast_eq take_bit_eq_mod drop_bit_eq_div unat_div_distrib)
  have t1: "unat (d ! 22) = unat (d ! 22 - 1) + 1" using t by (simp add: unat_minus_one unat_gt_0)
  have new: "word_sum (iphdr (fst (decrease_ttl d))) + 256 + 256 * a + b = word_sum (iphdr d) + 256 * unat (ucast w :: u8) + unat (ucast (drop_bit 8 w) :: u8)"
    using l t1 by (simp add: decrease_ttl_bytes [OF l] word_sum_iphdr w_def [symmetric] a_def b_def)
  show ?thesis
  proof (cases "a = 255")
    case True
    then have "unat w = 256 * (b + 1)" using w by simp
    then have "word_sum (iphdr (fst (decrease_ttl d))) + 65535 = word_sum (iphdr d)" using new x True by simp
    then show ?thesis using v unfolding header_valid_def by (metis mod_add_self2)
  next
    case False
    then have "unat w mod 256 = a + 1" "unat w div 256 = b" using w ab by simp_all
    then show ?thesis using v new x by (simp add: header_valid_def)
  qed
qed

text \<open>
  C24: checksums. The checksum stored in a header makes the header valid exactly if the sum and its carry
  add up without a second carry, because the code folds the carry only once. Forwarding keeps a valid
  header valid: adding 1 to the field in the byte order of the machine is the update that a time to live one
  smaller requires, with the carry between its bytes going around, for every field but \<open>0xFFFF\<close>,
  which no standard sender stores. A packet whose time to live is 1 is not forwarded; one with 0 is, with 255.
\<close>

theorem checksum_maintained:
  assumes "34 \<le> length d"
  shows "(header_valid (store_checksum d) \<longleftrightarrow>
      word_sum (iphdr (put16 24 0 d)) mod 65536 + word_sum (iphdr (put16 24 0 d)) div 65536 < 65536) \<and>
    (header_valid d \<and> d ! 22 \<noteq> 0 \<and> get16 24 d \<noteq> 0xFFFF \<longrightarrow> header_valid (fst (decrease_ttl d))) \<and>
    fst (decrease_ttl d) ! 22 = d ! 22 - 1 \<and> (\<forall>i. i \<notin> {22, 24, 25} \<longrightarrow> fst (decrease_ttl d) ! i = d ! i) \<and>
    (snd (decrease_ttl d) \<longleftrightarrow> d ! 22 \<noteq> 1)"
proof -
  have "length (iphdr (put16 24 0 d)) \<le> 65536" by (simp add: iphdr_def)
  from net_checksum_valid [OF this] have "header_valid (store_checksum d) \<longleftrightarrow>
      word_sum (iphdr (put16 24 0 d)) mod 65536 + word_sum (iphdr (put16 24 0 d)) div 65536 < 65536"
    by (simp add: header_valid_def store_checksum_sum [OF assms])
  then show ?thesis using assms decrease_ttl_valid [OF assms] by (auto simp: decrease_ttl_bytes)
qed

definition example_ip :: bytes where
  "example_ip = [0, 0xAA, 10, 0, 0, 1, 0, 0xAA, 10, 0, 0, 2, 8, 0,
     0x45, 0, 0, 28, 0, 0, 0x40, 0, 64, 17, 0x25, 0xCF, 10, 0, 1, 1, 10, 0, 0, 2, 1, 2, 3, 4, 5, 6, 7, 8]"

theorem checksum_maintained_witness:
  "header_valid example_ip \<and> header_valid (store_checksum example_ip) \<and> header_valid (fst (decrease_ttl example_ip)) \<and>
   fst (decrease_ttl example_ip) ! 22 = 63"
proof -
  have l: "34 \<le> length example_ip" by (simp add: example_ip_def)
  have "iphdr example_ip = [0x45, 0, 0, 28, 0, 0, 0x40, 0, 64, 17, 0x25, 0xCF, 10, 0, 1, 1, 10, 0, 0, 2]"
    by (simp add: iphdr_def example_ip_def)
  then have v: "header_valid example_ip" by (simp add: header_valid_def)
  have "iphdr (put16 24 0 example_ip) = [0x45, 0, 0, 28, 0, 0, 0x40, 0, 64, 17, 0, 0, 10, 0, 1, 1, 10, 0, 0, 2]"
    by (simp add: iphdr_def example_ip_def put16_def)
  then have z: "word_sum (iphdr (put16 24 0 example_ip)) mod 65536 + word_sum (iphdr (put16 24 0 example_ip)) div 65536 < 65536" by simp
  have "unat (get16 24 example_ip) \<noteq> unat (0xFFFF :: u16)" by (simp add: unat_get16 example_ip_def)
  then have c: "get16 24 example_ip \<noteq> 0xFFFF" by metis
  have "example_ip ! 22 = 64" by (simp add: example_ip_def)
  then show ?thesis using v z c checksum_maintained [OF l] by simp
qed

end
