(* ===== verification/L3.thy ===== *)
theory L3
  imports Ipheader
begin

text \<open>
  The layer 3 switch \<^verbatim>\<open>vde_l3\<close>: a small IP router between switches. Its state is the structure
  \<open>VDEROUTER\<close>; interfaces are numbered by their position in the list. Addresses in the state are in host order
  except those of the ARP table, which are as they lie in a packet. \<open>sent\<close> collects the frames
  that were handed to \<open>vde_send\<close>, with the number of the interface. \<open>None\<close> as the result
  of an operation is an access through \<open>NULL\<close>.
\<close>

section \<open>State\<close>

record l3buff =
  l_data :: bytes
  l_len :: nat

text \<open>The routing policies of an interface with their private data; times are seconds and microseconds.\<close>

record tc_tbf =
  t_qlen :: u32
  t_limit :: u32
  t_latency :: u32
  t_rate :: u32
  t_dropped :: u32
  t_mtu :: u32
  t_delta :: nat
  t_last_out :: nat

datatype l3policy =
    Ufifo
  | Pfifo u32 u32 u32 \<comment> \<open>qlen, limit, dropped\<close>
  | Bfifo u32 u32 u32
  | Tbf tc_tbf

record l3iface =
  i_mac :: bytes
  i_ipaddr :: u32
  i_nm :: u32
  q_out :: "l3buff list"
  i_policy :: l3policy

record l3route =
  network :: u32
  nm :: u32
  gw :: u32

record l3 =
  interfaces :: "l3iface list"
  route_table :: "l3route list"
  arp_table :: "(bytes \<times> u32) list"
  default_gw :: u32
  ident :: u16
  sent :: "(nat \<times> bytes) list"

section \<open>Queues\<close>

definition ufifo_enqueue :: "l3buff \<Rightarrow> l3iface \<Rightarrow> l3iface" where
  "ufifo_enqueue b v = v\<lparr>q_out := q_out v @ [b]\<rparr>"

definition pfifo_enqueue :: "l3buff \<Rightarrow> u32 \<Rightarrow> u32 \<Rightarrow> u32 \<Rightarrow> l3iface \<Rightarrow> int \<times> l3iface" where
  "pfifo_enqueue b qlen limit d v =
     (if qlen < limit then (1, (ufifo_enqueue b v)\<lparr>i_policy := Pfifo (qlen + 1) limit d\<rparr>)
      else (0, v\<lparr>i_policy := Pfifo qlen limit (d + 1)\<rparr>))"

definition bfifo_enqueue :: "l3buff \<Rightarrow> u32 \<Rightarrow> u32 \<Rightarrow> u32 \<Rightarrow> l3iface \<Rightarrow> int \<times> l3iface" where
  "bfifo_enqueue b qlen limit d v =
     (if unat qlen + l_len b < unat limit
      then (1, (ufifo_enqueue b v)\<lparr>i_policy := Bfifo (qlen + word_of_nat (l_len b)) limit d\<rparr>)
      else (0, v\<lparr>i_policy := Bfifo qlen limit (d + 1)\<rparr>))"

text \<open>The interval between packets, in 32 bits.\<close>

definition tbf_interval :: "u32 \<Rightarrow> u32 \<Rightarrow> nat" where
  "tbf_interval mtu rate = unat (1000000 * mtu div rate)"

definition tbf_enqueue :: "l3buff \<Rightarrow> tc_tbf \<Rightarrow> l3iface \<Rightarrow> int \<times> l3iface" where
  "tbf_enqueue b t v =
     (if t_qlen t < t_limit t
      then let t1 = t\<lparr>t_qlen := t_qlen t + word_of_nat (l_len b)\<rparr>;
               m = word_of_nat (l_len b);
               t2 = (if l_len b > unat (t_mtu t)
                     then t1\<lparr>t_mtu := m, t_delta := tbf_interval m (t_rate t),
                             t_limit := (if t_latency t \<noteq> 0 then (t_rate t div m) * t_latency t else t_limit t)\<rparr>
                     else t1)
           in (1, (ufifo_enqueue b v)\<lparr>i_policy := Tbf t2\<rparr>)
      else (0, v\<lparr>i_policy := Tbf (t\<lparr>t_dropped := t_dropped t + 1\<rparr>)\<rparr>))"

definition l3_enqueue :: "l3buff \<Rightarrow> l3iface \<Rightarrow> int \<times> l3iface" where
  "l3_enqueue b v =
     (case i_policy v of
        Ufifo \<Rightarrow> (1, ufifo_enqueue b v)
      | Pfifo qlen limit d \<Rightarrow> pfifo_enqueue b qlen limit d v
      | Bfifo qlen limit d \<Rightarrow> bfifo_enqueue b qlen limit d v
      | Tbf t \<Rightarrow> tbf_enqueue b t v)"

text \<open>\<open>ufifo_dequeue\<close>: the bytes sent and the interface.\<close>

definition ufifo_dequeue :: "l3iface \<Rightarrow> (bytes \<times> l3iface) option" where
  "ufifo_dequeue v =
     (case q_out v of
        [] \<Rightarrow> None
      | b # bs \<Rightarrow> Some (take (l_len b) (l_data b), v\<lparr>q_out := bs\<rparr>))"

definition pfifo_dequeue :: "u32 \<Rightarrow> u32 \<Rightarrow> u32 \<Rightarrow> l3iface \<Rightarrow> (bytes \<times> l3iface) option" where
  "pfifo_dequeue qlen limit d v =
     map_option (\<lambda>(f, v1). (f, v1\<lparr>i_policy := Pfifo (if qlen > 0 then qlen - 1 else qlen) limit d\<rparr>)) (ufifo_dequeue v)"

text \<open>After the dequeue, \<open>vif->q_out\<close> is the packet behind the one that was sent.\<close>

definition bfifo_dequeue :: "u32 \<Rightarrow> u32 \<Rightarrow> u32 \<Rightarrow> l3iface \<Rightarrow> (bytes \<times> l3iface) option" where
  "bfifo_dequeue qlen limit d v =
     (case ufifo_dequeue v of
        None \<Rightarrow> None
      | Some (f, v1) \<Rightarrow>
          if qlen > 0
          then (case q_out v1 of
                  [] \<Rightarrow> None
                | b # bs \<Rightarrow> Some (f, v1\<lparr>i_policy := Bfifo (qlen - word_of_nat (l_len b)) limit d\<rparr>))
          else Some (f, v1))"

text \<open>
  Times are microseconds. The loop of \<open>tbf_dequeue\<close> subtracts the largest packet size from the
  bytes sent; \<open>now\<close> is stored if it runs at all.
\<close>

function tbf_drain :: "nat \<Rightarrow> nat \<Rightarrow> nat \<Rightarrow> nat \<Rightarrow> (nat \<times> nat) option" where
  "tbf_drain now mtu bytes_out last_out =
     (if bytes_out < mtu then Some (bytes_out, last_out)
      else if mtu = 0 then None
      else tbf_drain now mtu (bytes_out - mtu) now)"
  by auto
termination by (relation "measure (\<lambda>(now, mtu, b, l). b)") auto

declare tbf_drain.simps [simp del]

definition tbf_dequeue :: "nat \<Rightarrow> tc_tbf \<Rightarrow> l3iface \<Rightarrow> (bytes option \<times> l3iface) option" where
  "tbf_dequeue now t v =
     (if now < t_last_out t + t_delta t then Some (None, v)
      else case ufifo_dequeue v of
             None \<Rightarrow> None
           | Some (f, v1) \<Rightarrow>
               let len = unat (word_of_nat (l_len (hd (q_out v))) :: u32)
               in case tbf_drain now (unat (t_mtu t)) len (t_last_out t) of
                    None \<Rightarrow> None
                  | Some (b, l) \<Rightarrow> Some (Some f, v1\<lparr>i_policy := Tbf (t\<lparr>t_qlen := t_qlen t - word_of_nat len, t_last_out := l\<rparr>)\<rparr>))"

definition l3_dequeue :: "nat \<Rightarrow> l3iface \<Rightarrow> (bytes option \<times> l3iface) option" where
  "l3_dequeue now v =
     (case i_policy v of
        Ufifo \<Rightarrow> map_option (\<lambda>(f, v). (Some f, v)) (ufifo_dequeue v)
      | Pfifo qlen limit d \<Rightarrow> map_option (\<lambda>(f, v). (Some f, v)) (pfifo_dequeue qlen limit d v)
      | Bfifo qlen limit d \<Rightarrow> map_option (\<lambda>(f, v). (Some f, v)) (bfifo_dequeue qlen limit d v)
      | Tbf t \<Rightarrow> tbf_dequeue now t v)"

text \<open>The initialisation of the policies, with the arguments already read.\<close>

definition pfifo_init :: "u32 \<Rightarrow> l3iface \<Rightarrow> l3iface" where
  "pfifo_init limit v = v\<lparr>i_policy := Pfifo 0 limit 0\<rparr>"

definition bfifo_init :: "u32 \<Rightarrow> l3iface \<Rightarrow> l3iface" where
  "bfifo_init limit v = v\<lparr>i_policy := Bfifo 0 limit 0\<rparr>"

text \<open>\<open>rate\<close> is in bits per second, with the suffix applied; \<open>None\<close>: refused.\<close>

definition tbf_init :: "nat \<Rightarrow> u32 \<Rightarrow> u32 \<Rightarrow> u32 \<Rightarrow> l3iface \<Rightarrow> l3iface option" where
  "tbf_init now rate latency limit v =
     (if rate < 5000 then None
      else let r = drop_bit 3 rate
           in Some (v\<lparr>i_policy := Tbf \<lparr>t_qlen = 0, t_limit = (if latency \<noteq> 0 then (r div 1000) * latency else limit),
                  t_latency = latency, t_rate = r, t_dropped = 0, t_mtu = 1000, t_delta = tbf_interval 1000 r, t_last_out = now\<rparr>\<rparr>))"

section \<open>Tables\<close>

definition get_arp_entry :: "u32 \<Rightarrow> (bytes \<times> u32) list \<Rightarrow> bytes option" where
  "get_arp_entry ip table = map_option fst (find (\<lambda>a. snd a = ip) table)"

definition add_arp_entry :: "bytes \<Rightarrow> u32 \<Rightarrow> l3 \<Rightarrow> l3" where
  "add_arp_entry mac ip s = s\<lparr>arp_table := arp_table s @ [(mac, ip)]\<rparr>"

text \<open>The number of the first interface with a property.\<close>

fun first_iface :: "(l3iface \<Rightarrow> bool) \<Rightarrow> l3iface list \<Rightarrow> nat option" where
  "first_iface P [] = None"
| "first_iface P (v # vs) = (if P v then Some 0 else map_option Suc (first_iface P vs))"

definition get_iface_by_ipaddr :: "u32 \<Rightarrow> l3 \<Rightarrow> nat option" where
  "get_iface_by_ipaddr addr s = first_iface (\<lambda>v. i_ipaddr v = addr) (interfaces s)"

definition is_neightbor :: "u32 \<Rightarrow> l3 \<Rightarrow> nat option" where
  "is_neightbor addr s = first_iface (\<lambda>v. i_ipaddr v AND i_nm v = addr AND i_nm v) (interfaces s)"

fun gateway_scan :: "u32 \<Rightarrow> u32 \<Rightarrow> u32 \<Rightarrow> l3route list \<Rightarrow> u32" where
  "gateway_scan addr res max_netmask [] = res"
| "gateway_scan addr res max_netmask (r # rs) =
     (if network r AND nm r = addr AND nm r \<and> nm r > max_netmask then gateway_scan addr (gw r) (nm r) rs
      else gateway_scan addr res max_netmask rs)"

definition get_gateway :: "u32 \<Rightarrow> l3 \<Rightarrow> u32" where
  "get_gateway addr s =
     (let res = gateway_scan addr 0 0 (route_table s)
      in if res = 0 then default_gw s else res)"

fun valid_scan :: "u32 \<Rightarrow> nat \<Rightarrow> u32 \<Rightarrow> u32" where
  "valid_scan m 0 valid = 0"
| "valid_scan m (Suc i) valid = (let v = valid + push_bit i 1 in if m = v then m else valid_scan m i v)"

definition valid_nm :: "u32 \<Rightarrow> u32" where
  "valid_nm m = valid_scan m 32 0"

definition unicast_ip :: "u32 \<Rightarrow> u32" where
  "unicast_ip ip = (if ip AND 0xE0000000 = 0xE0000000 then 0 else ip)"

text \<open>
  The commands that change routes and addresses, with the numbers already read from the command;
  a refused default gateway leaves 0 behind.
\<close>

definition route_default :: "u32 \<Rightarrow> l3 \<Rightarrow> l3" where
  "route_default addr s = s\<lparr>default_gw := unicast_ip addr\<rparr>"

fun update_route :: "l3route \<Rightarrow> l3route list \<Rightarrow> l3route list" where
  "update_route new [] = [new]"
| "update_route new (r # rs) =
     (if network new = network r \<and> nm new = nm r then r\<lparr>gw := gw new\<rparr> # rs else r # update_route new rs)"

definition route_net :: "u32 \<Rightarrow> u32 \<Rightarrow> u32 \<Rightarrow> l3 \<Rightarrow> l3" where
  "route_net addr msk g s =
     s\<lparr>route_table := update_route \<lparr>network = unicast_ip addr, nm = valid_nm msk, gw = unicast_ip g\<rparr> (route_table s)\<rparr>"

definition ifconfig_set :: "nat \<Rightarrow> u32 \<Rightarrow> u32 option \<Rightarrow> l3 \<Rightarrow> l3" where
  "ifconfig_set i addr msk s =
     (if i < length (interfaces s) \<and> unicast_ip addr \<noteq> 0
      then let v = (interfaces s ! i)\<lparr>i_ipaddr := unicast_ip addr\<rparr>;
               v' = (case msk of None \<Rightarrow> v | Some m \<Rightarrow> if valid_nm m = 0 then v else v\<lparr>i_nm := valid_nm m\<rparr>)
           in s\<lparr>interfaces := (interfaces s)[i := v']\<rparr>
      else s)"

section \<open>Packets\<close>

definition slice :: "nat \<Rightarrow> nat \<Rightarrow> bytes \<Rightarrow> bytes" where
  "slice i n d = take n (drop i d)"

definition vdebuff_alloc :: "nat \<Rightarrow> bytes" where
  "vdebuff_alloc n = put16 12 (htons 0x0800) (replicate (n + 1) 0)"

definition raw_send :: "nat \<Rightarrow> bytes \<Rightarrow> l3 \<Rightarrow> l3" where
  "raw_send i f s = s\<lparr>sent := sent s @ [(i, f)]\<rparr>"

definition arp_query_frame :: "l3iface \<Rightarrow> u32 \<Rightarrow> bytes" where
  "arp_query_frame v tgt =
     (let d0 = vdebuff_alloc 60;
          d1 = blit d0 0 (replicate 6 0xFF);
          d2 = blit d1 6 (i_mac v);
          d3 = put16 12 (htons 0x0806) d2;
          d4 = put16 14 (htons 1) d3;
          d5 = put16 16 (htons 0x0800) d4;
          d6 = d5[18 := 6, 19 := 4];
          d7 = put16 20 (htons 1) d6;
          d8 = blit d7 22 (i_mac v);
          d9 = put32 28 (ntohl (i_ipaddr v)) d8;
          d10 = blit d9 32 (replicate 6 0)
      in take 60 (put32 38 (ntohl tgt) d10))"

definition arp_query :: "nat \<Rightarrow> u32 \<Rightarrow> l3 \<Rightarrow> l3" where
  "arp_query i tgt s = raw_send i (arp_query_frame (interfaces s ! i) tgt) s"

definition arp_reply_data :: "l3iface \<Rightarrow> bytes \<Rightarrow> bytes" where
  "arp_reply_data v d =
     (let d1 = blit (blit d 6 (slice 0 6 d)) 0 (slice 6 6 d);
          d2 = blit d1 6 (i_mac v);
          d3 = put16 20 (htons 2) d2;
          d4 = blit (blit d3 22 (slice 32 6 d3)) 32 (slice 22 6 d3);
          d5 = blit d4 22 (i_mac v)
      in blit (blit d5 28 (slice 38 4 d5)) 38 (slice 28 4 d5))"

definition arp_reply :: "nat \<Rightarrow> l3buff \<Rightarrow> l3 \<Rightarrow> l3" where
  "arp_reply i b s = raw_send i (take (l_len b) (arp_reply_data (interfaces s ! i) (l_data b))) s"

text \<open>
  \<open>is_arp_pending\<close> is always 0, so a reply is only learned. The entry is allocated (\<open>mem\<close>: there is
  memory for it) and written without a check.
\<close>

definition parse_arp :: "bool \<Rightarrow> l3buff \<Rightarrow> l3 \<Rightarrow> (int \<times> l3) option" where
  "parse_arp mem b s =
     (case get_iface_by_ipaddr (ntohl (get32 38 (l_data b))) s of
        None \<Rightarrow> Some (- 1, s)
      | Some i \<Rightarrow>
          if \<not> mem then None
          else let s1 = add_arp_entry (slice 22 6 (l_data b)) (get32 28 (l_data b)) s
               in if htons (get16 20 (l_data b)) = 1 then Some (0, arp_reply i b s1) else Some (- 1, s1))"

definition enqueue_on :: "nat \<Rightarrow> l3buff \<Rightarrow> l3 \<Rightarrow> int \<times> l3" where
  "enqueue_on i b s = (case l3_enqueue b (interfaces s ! i) of (r, v) \<Rightarrow> (r, s\<lparr>interfaces := (interfaces s)[i := v]\<rparr>))"

definition neightbor_send :: "nat \<Rightarrow> l3buff \<Rightarrow> l3 \<Rightarrow> int \<times> l3" where
  "neightbor_send i b s =
     (case get_arp_entry (get32 30 (l_data b)) (arp_table s) of
        Some mac \<Rightarrow> enqueue_on i (b\<lparr>l_data := blit (blit (l_data b) 6 (i_mac (interfaces s ! i))) 0 mac\<rparr>) s
      | None \<Rightarrow> (0, arp_query i (ntohl (get32 30 (l_data b))) s))"

definition gateway_send :: "l3buff \<Rightarrow> u32 \<Rightarrow> l3 \<Rightarrow> (int \<times> l3) option" where
  "gateway_send b g s =
     (case is_neightbor g s of
        None \<Rightarrow> None
      | Some i \<Rightarrow>
          Some (case get_arp_entry (ntohl g) (arp_table s) of
                  Some mac \<Rightarrow> enqueue_on i (b\<lparr>l_data := blit (blit (l_data b) 6 (i_mac (interfaces s ! i))) 0 mac\<rparr>) s
                | None \<Rightarrow> (0, arp_query i g s)))"

definition ip_send :: "l3buff \<Rightarrow> l3 \<Rightarrow> (int \<times> l3) option" where
  "ip_send b s =
     (let daddr = ntohl (get32 30 (l_data b))
      in case is_neightbor daddr s of
           Some i \<Rightarrow> Some (neightbor_send i b s)
         | None \<Rightarrow>
             let g = get_gateway daddr s
             in if g \<noteq> 0 then gateway_send b g s else Some (- 1, s))"

definition ip_forward :: "l3buff \<Rightarrow> l3 \<Rightarrow> (int \<times> l3) option" where
  "ip_forward b s =
     (case decrease_ttl (l_data b) of (d, alive) \<Rightarrow>
        if alive then ip_send (b\<lparr>l_data := d\<rparr>) s else Some (- 1, s))"

text \<open>\<open>ip_output\<close>: the header is made new; \<open>sizeof\<close> of the Ethernet header is 14.\<close>

definition ip_output :: "l3buff \<Rightarrow> u32 \<Rightarrow> u8 \<Rightarrow> l3 \<Rightarrow> (int \<times> l3) option" where
  "ip_output b dst protocol s =
     (let d0 = (l_data b)[14 := 0x45, 15 := 0];
          d1 = put16 20 (htons 0x4000) d0;
          d2 = put16 16 (htons (word_of_nat (l_len b) - 14)) d1;
          d3 = put16 18 0 d2;
          d4 = d3[23 := protocol, 22 := 64];
          d5 = store_checksum d4;
          oif = (case is_neightbor dst s of Some i \<Rightarrow> Some i | None \<Rightarrow> is_neightbor (get_gateway dst s) s)
      in case oif of
           None \<Rightarrow> Some (- 1, s)
         | Some i \<Rightarrow>
             let d6 = put32 26 (ntohl (i_ipaddr (interfaces s ! i))) d5;
                 d7 = put32 30 (ntohl dst) d6
             in ip_send (b\<lparr>l_data := store_checksum d7\<rparr>) s)"

definition ip_output_ready :: "l3buff \<Rightarrow> l3 \<Rightarrow> (int \<times> l3) option" where
  "ip_output_ready b s = ip_output b (ntohl (get32 30 (l_data b))) (l_data b ! 23) s"

text \<open>The ICMP checksum covers the rest of the packet; \<open>len - 34\<close> is positive for packets that come here.\<close>

definition echo_data :: "l3buff \<Rightarrow> bytes" where
  "echo_data b =
     (let d = l_data b;
          d1 = blit (blit d 26 (slice 30 4 d)) 30 (slice 26 4 d);
          d2 = d1[34 := 0];
          d3 = put16 36 0 d2;
          d4 = put16 36 (htons (net_checksum (slice 34 (l_len b - 34) d3))) d3
      in store_checksum d4)"

definition parse_icmp :: "l3buff \<Rightarrow> l3 \<Rightarrow> (int \<times> l3) option" where
  "parse_icmp b s =
     (let b1 = (if l_data b ! 34 = 8 then b\<lparr>l_data := echo_data b\<rparr> else b)
      in map_option (\<lambda>(r, s1). (1, s1)) (ip_output_ready b1 s))"

definition unreachable_data :: "u16 \<Rightarrow> bytes" where
  "unreachable_data idn =
     (let d0 = (vdebuff_alloc 42)[34 := 3, 35 := 2];
          d1 = put16 38 idn d0;
          d2 = put16 40 0 d1;
          d3 = put16 36 0 d2
      in put16 36 (htons (net_checksum (slice 34 8 d3))) d3)"

definition service_unreachable :: "l3buff \<Rightarrow> l3 \<Rightarrow> (int \<times> l3) option" where
  "service_unreachable b s =
     (let s1 = s\<lparr>ident := (if ident s + 1 = 0xFFFF then 0 else ident s + 1)\<rparr>
      in ip_output \<lparr>l_data = unreachable_data (ident s), l_len = 42\<rparr> (ntohl (get32 26 (l_data b))) 1 s1)"

definition ip_input :: "l3buff \<Rightarrow> l3 \<Rightarrow> (int \<times> l3) option" where
  "ip_input b s =
     (if l_data b ! 14 \<noteq> 0x45 then Some (- 1, s)
      else if l_data b ! 23 = 1 then parse_icmp b s
      else service_unreachable b s)"

text \<open>The memory for an ARP entry (\<open>mem\<close>: there is some) is not checked.\<close>

definition learn_source :: "bool \<Rightarrow> bytes \<Rightarrow> l3 \<Rightarrow> l3 option" where
  "learn_source mem d s =
     (if get_arp_entry (get32 26 d) (arp_table s) = None
      then if mem then Some (add_arp_entry (slice 6 6 d) (get32 26 d) s) else None
      else Some s)"

definition parse_ip :: "bool \<Rightarrow> l3buff \<Rightarrow> l3 \<Rightarrow> (int \<times> l3) option" where
  "parse_ip mem b s =
     (case learn_source mem (l_data b) s of
        None \<Rightarrow> None
      | Some s1 \<Rightarrow>
          if get_iface_by_ipaddr (ntohl (get32 30 (l_data b))) s1 \<noteq> None then ip_input b s1 else ip_forward b s1)"

definition is_multicast_mac :: "bytes \<Rightarrow> bool" where
  "is_multicast_mac mac \<longleftrightarrow> mac ! 0 AND 1 \<noteq> 0 \<and> mac ! 2 AND 0x5E \<noteq> 0"

text \<open>The two halves of the main loop: a frame arrives at an interface; an interface can send.\<close>

definition l3_receive :: "bool \<Rightarrow> nat \<Rightarrow> bytes \<Rightarrow> l3 \<Rightarrow> (int \<times> l3) option" where
  "l3_receive mem i frame s =
     (let d = blit (vdebuff_alloc 1550) 0 frame;
          b = \<lparr>l_data = d, l_len = length frame\<rparr>;
          v = interfaces s ! i
      in if memcmp (slice 0 6 d) (i_mac v) = 0 \<or> is_multicast_mac (slice 0 6 d) \<and> memcmp (slice 6 6 d) (i_mac v) \<noteq> 0
         then (if get16 12 d = htons 0x0806 then parse_arp mem b s
               else if get16 12 d = htons 0x0800 then parse_ip mem b s
               else Some (0, s))
         else Some (0, s))"

definition l3_transmit :: "nat \<Rightarrow> nat \<Rightarrow> l3 \<Rightarrow> l3 option" where
  "l3_transmit now i s =
     (if q_out (interfaces s ! i) = [] then Some s
      else case l3_dequeue now (interfaces s ! i) of
             None \<Rightarrow> None
           | Some (None, v) \<Rightarrow> Some (s\<lparr>interfaces := (interfaces s)[i := v]\<rparr>)
           | Some (Some f, v) \<Rightarrow> Some (raw_send i f (s\<lparr>interfaces := (interfaces s)[i := v]\<rparr>)))"

section \<open>Routes\<close>

definition l3_matches :: "u32 \<Rightarrow> l3route \<Rightarrow> bool" where
  "l3_matches addr r \<longleftrightarrow> network r AND nm r = addr AND nm r"

text \<open>The first of the matching routes with the largest mask, if this exceeds \<open>mx\<close>.\<close>

definition first_largest :: "u32 \<Rightarrow> u32 \<Rightarrow> l3route list \<Rightarrow> l3route \<Rightarrow> bool" where
  "first_largest addr mx rs r \<longleftrightarrow> (\<exists>as bs. rs = as @ r # bs \<and> l3_matches addr r \<and> mx < nm r \<and>
     (\<forall>a \<in> set as. l3_matches addr a \<longrightarrow> nm a < nm r) \<and> (\<forall>b \<in> set bs. l3_matches addr b \<longrightarrow> nm b \<le> nm r))"

lemma gateway_scan_first_largest:
  "(\<forall>r \<in> set rs. l3_matches addr r \<longrightarrow> nm r \<le> mx) \<and> gateway_scan addr res mx rs = res \<or>
   (\<exists>r. first_largest addr mx rs r \<and> gateway_scan addr res mx rs = gw r)"
proof (induction rs arbitrary: res mx)
  case (Cons x rs)
  show ?case
  proof (cases "l3_matches addr x \<and> mx < nm x")
    case False
    have "first_largest addr mx (x # rs) r" if "first_largest addr mx rs r" for r
    proof -
      from that obtain as bs where "rs = as @ r # bs \<and> l3_matches addr r \<and> mx < nm r \<and>
        (\<forall>a \<in> set as. l3_matches addr a \<longrightarrow> nm a < nm r) \<and> (\<forall>b \<in> set bs. l3_matches addr b \<longrightarrow> nm b \<le> nm r)"
        unfolding first_largest_def by blast
      then show ?thesis unfolding first_largest_def using False by (intro exI [of _ "x # as"] exI [of _ bs]) auto
    qed
    then show ?thesis using False Cons.IH [of mx res] by (auto simp: l3_matches_def)
  next
    case True
    then have e: "gateway_scan addr res mx (x # rs) = gateway_scan addr (gw x) (nm x) rs" by (simp add: l3_matches_def)
    have "first_largest addr mx (x # rs) r" if "first_largest addr (nm x) rs r" for r
    proof -
      from that obtain as bs where "rs = as @ r # bs \<and> l3_matches addr r \<and> nm x < nm r \<and>
        (\<forall>a \<in> set as. l3_matches addr a \<longrightarrow> nm a < nm r) \<and> (\<forall>b \<in> set bs. l3_matches addr b \<longrightarrow> nm b \<le> nm r)"
        unfolding first_largest_def by blast
      then show ?thesis unfolding first_largest_def using True by (intro exI [of _ "x # as"] exI [of _ bs]) auto
    qed
    moreover have "first_largest addr mx (x # rs) x" if "\<forall>r \<in> set rs. l3_matches addr r \<longrightarrow> nm r \<le> nm x"
      unfolding first_largest_def using that True by (intro exI [of _ "[]"] exI [of _ rs]) auto
    ultimately show ?thesis using e Cons.IH [of "nm x" "gw x"] by metis
  qed
qed simp

lemma prefix_mask_step: "k < 32 \<Longrightarrow> prefix_mask k + push_bit (31 - k) 1 = prefix_mask (Suc k)"
proof -
  have "\<forall>k \<in> set [0..<32]. prefix_mask k + push_bit (31 - k) 1 = prefix_mask (Suc k)" by code_simp
  then show "k < 32 \<Longrightarrow> prefix_mask k + push_bit (31 - k) 1 = prefix_mask (Suc k)" by simp
qed

lemma valid_scan_prefix:
  "n \<le> 32 \<Longrightarrow> valid_scan m n (prefix_mask (32 - n)) = (if \<exists>k. 32 - n < k \<and> k \<le> 32 \<and> m = prefix_mask k then m else 0)"
proof (induction n)
  case (Suc n)
  then have "Suc (31 - n) = 32 - n" by simp
  with Suc have s: "prefix_mask (32 - Suc n) + push_bit n 1 = prefix_mask (32 - n)"
    using prefix_mask_step [of "31 - n"] by simp
  have lt: "32 - Suc n < k \<longleftrightarrow> 32 - n \<le> k" for k using Suc.prems by arith
  have "(\<exists>k. 32 - Suc n < k \<and> k \<le> 32 \<and> m = prefix_mask k) \<longleftrightarrow> m = prefix_mask (32 - n) \<or> (\<exists>k. 32 - n < k \<and> k \<le> 32 \<and> m = prefix_mask k)"
    unfolding lt by (auto simp: le_less)
  then show ?case using Suc unfolding valid_scan.simps Let_def s by auto
qed auto

lemma valid_nm_prefix: "valid_nm m = (if \<exists>k. 1 \<le> k \<and> k \<le> 32 \<and> m = prefix_mask k then m else 0)"
proof -
  have "prefix_mask 0 = 0" by code_simp
  then show ?thesis using valid_scan_prefix [of 32 m] by (simp add: valid_nm_def Suc_le_eq)
qed

definition route_keys :: "l3 \<Rightarrow> (u32 \<times> u32) list" where
  "route_keys s = map (\<lambda>r. (network r, nm r)) (route_table s)"

lemma update_route_keys:
  "map (\<lambda>r. (network r, nm r)) (update_route new rs) = map (\<lambda>r. (network r, nm r)) rs @
     (if (network new, nm new) \<in> (\<lambda>r. (network r, nm r)) ` set rs then [] else [(network new, nm new)])"
  by (induction rs) auto

text \<open>
  C25: the next hop. Exactly the network masks are accepted as masks of routes, and a route that is set again keeps its place, so that no network is in the table
  twice. The gateway of an address is that of the route with the longest matching
  prefix, the first if there are several, and the default gateway if no route matches
  or the route has no gateway.
\<close>

theorem gateway_longest_prefix:
  assumes "distinct (route_keys s)" and "\<forall>r \<in> set (route_table s). valid_nm (nm r) = nm r"
  shows "distinct (route_keys (route_net net msk g s)) \<and> (\<forall>r \<in> set (route_table (route_net net msk g s)). valid_nm (nm r) = nm r) \<and>
    (if \<forall>r \<in> set (route_table s). l3_matches addr r \<longrightarrow> nm r = 0 then get_gateway addr s = default_gw s
     else \<exists>r k. first_largest addr 0 (route_table s) r \<and> get_gateway addr s = (if gw r = 0 then default_gw s else gw r) \<and>
       1 \<le> k \<and> k \<le> 32 \<and> nm r = prefix_mask k \<and>
       (\<forall>t \<in> set (route_table s). l3_matches addr t \<longrightarrow> (\<exists>l \<le> k. nm t = prefix_mask l)))"
proof (intro conjI)
  show "distinct (route_keys (route_net net msk g s))"
    using assms(1) by (auto simp: route_keys_def route_net_def update_route_keys)
  have upd: "nm ` set (update_route new rs) \<subseteq> insert (nm new) (nm ` set rs)" for new rs by (induction rs) auto
  have v: "valid_nm (valid_nm msk) = valid_nm msk" by (auto simp: valid_nm_prefix)
  show "\<forall>r \<in> set (route_table (route_net net msk g s)). valid_nm (nm r) = nm r"
  proof
    fix r assume "r \<in> set (route_table (route_net net msk g s))"
    then have "nm r \<in> insert (valid_nm msk) (nm ` set (route_table s))"
      using upd [of "\<lparr>network = unicast_ip net, nm = valid_nm msk, gw = unicast_ip g\<rparr>" "route_table s"] by (auto simp: route_net_def)
    then show "valid_nm (nm r) = nm r" using v assms(2) by auto
  qed
  have masks: "\<exists>k \<le> 32. nm r = prefix_mask k \<and> (nm r \<noteq> 0 \<longrightarrow> 1 \<le> k)" if r: "r \<in> set (route_table s)" for r
  proof (cases "nm r = 0")
    case True
    have "prefix_mask 0 = 0" by code_simp
    then show ?thesis using True by auto
  next
    case False
    then show ?thesis using assms(2) r valid_nm_prefix [of "nm r"] by (auto split: if_splits)
  qed
  have longer: "l \<le> k" if "prefix_mask l \<le> prefix_mask k" "l \<le> 32" for k l
    using that prefix_mask_less [of k l] by (metis linorder_not_le)
  show "if \<forall>r \<in> set (route_table s). l3_matches addr r \<longrightarrow> nm r = 0 then get_gateway addr s = default_gw s
     else \<exists>r k. first_largest addr 0 (route_table s) r \<and> get_gateway addr s = (if gw r = 0 then default_gw s else gw r) \<and>
       1 \<le> k \<and> k \<le> 32 \<and> nm r = prefix_mask k \<and>
       (\<forall>t \<in> set (route_table s). l3_matches addr t \<longrightarrow> (\<exists>l \<le> k. nm t = prefix_mask l))"
  proof (cases "\<forall>r \<in> set (route_table s). l3_matches addr r \<longrightarrow> nm r = 0")
    case True
    then have "\<not> first_largest addr 0 (route_table s) r" for r by (auto simp: first_largest_def)
    then have "gateway_scan addr 0 0 (route_table s) = 0" using gateway_scan_first_largest [of "route_table s" addr 0 0] by blast
    then show ?thesis using True by (simp add: get_gateway_def)
  next
    case False
    then obtain r where r: "first_largest addr 0 (route_table s) r" "gateway_scan addr 0 0 (route_table s) = gw r"
      using gateway_scan_first_largest [of "route_table s" addr 0 0] by auto
    then have g: "get_gateway addr s = (if gw r = 0 then default_gw s else gw r)" by (simp add: get_gateway_def Let_def)
    have m: "r \<in> set (route_table s)" "nm r \<noteq> 0" "\<forall>t \<in> set (route_table s). l3_matches addr t \<longrightarrow> nm t \<le> nm r"
      using r(1) by (auto simp: first_largest_def) (meson order.strict_implies_order)
    then obtain k where k: "1 \<le> k" "k \<le> 32" "nm r = prefix_mask k" using masks [OF m(1)] by blast
    have "\<exists>l \<le> k. nm t = prefix_mask l" if t: "t \<in> set (route_table s)" "l3_matches addr t" for t
      using masks [OF t(1)] m(3) t k(3) longer by metis
    then show ?thesis using False r(1) g k by (simp only: if_False) blast
  qed
qed

definition example_l3 :: l3 where
  "example_l3 = \<lparr>
     interfaces = [
       \<lparr>i_mac = [0, 0xAA, 10, 0, 0, 1], i_ipaddr = 0x0a000001, i_nm = 0xffffff00, q_out = [], i_policy = Ufifo\<rparr>,
       \<lparr>i_mac = [0, 0xAA, 10, 0, 1, 1], i_ipaddr = 0x0a000101, i_nm = 0xffffff00, q_out = [], i_policy = Pfifo 0 10 0\<rparr>],
     route_table = [\<lparr>network = 0xc0a80000, nm = 0xffff0000, gw = 0x0a000102\<rparr>, \<lparr>network = 0xc0a80100, nm = 0xffffff00, gw = 0x0a000003\<rparr>],
     arp_table = [([2, 0, 0, 0, 0, 2], 0x0200000a), ([2, 0, 0, 0, 1, 2], 0x0201000a)],
     default_gw = 0x0a000102, ident = 0, sent = []\<rparr>"

theorem gateway_longest_prefix_witness:
  "distinct (route_keys (route_net 0xac100000 0xffff0000 0x0a000003 example_l3)) \<and>
   (\<exists>r. first_largest 0xc0a80105 0 (route_table example_l3) r) \<and> get_gateway 0xc0a80105 example_l3 = 0x0a000003"
proof -
  have d: "distinct (route_keys example_l3)" "\<forall>r \<in> set (route_table example_l3). valid_nm (nm r) = nm r" by code_simp+
  have n: "\<not> (\<forall>r \<in> set (route_table example_l3). l3_matches 0xc0a80105 r \<longrightarrow> nm r = 0)" by code_simp
  have "get_gateway 0xc0a80105 example_l3 = 0x0a000003" by code_simp
  then show ?thesis
    using gateway_longest_prefix [OF d, of "0xac100000" "0xffff0000" "0x0a000003" "0xc0a80105", unfolded if_not_P [OF n]] by blast
qed

section \<open>Safety\<close>

text \<open>What no packet changes: the interfaces but for their queues, the routes. Learned addresses have six bytes.\<close>

definition net_of :: "l3iface \<Rightarrow> bytes \<times> u32 \<times> u32" where
  "net_of v = (i_mac v, i_ipaddr v, i_nm v)"

definition l3_step :: "l3 \<Rightarrow> l3 \<Rightarrow> bool" where
  "l3_step s s' \<longleftrightarrow> map net_of (interfaces s') = map net_of (interfaces s) \<and> route_table s' = route_table s \<and>
     default_gw s' = default_gw s \<and> (\<exists>new. arp_table s' = arp_table s @ new \<and> (\<forall>a \<in> set new. length (fst a) = 6)) \<and>
     (\<exists>out. sent s' = sent s @ out)"

definition l3_ok :: "l3 \<Rightarrow> bool" where
  "l3_ok s \<longleftrightarrow> (\<forall>v \<in> set (interfaces s). length (i_mac v) = 6) \<and> (\<forall>a \<in> set (arp_table s). length (fst a) = 6) \<and>
     (\<forall>g \<in> insert (default_gw s) (gw ` set (route_table s)). g = 0 \<or> is_neightbor g s \<noteq> None)"

lemma first_iface_cong:
  assumes "map f vs = map f ws" and "\<And>v w. f v = f w \<Longrightarrow> P v = P w"
  shows "first_iface P vs = first_iface P ws"
  using assms(1)
proof (induction vs arbitrary: ws)
  case (Cons v vs)
  then obtain w ws' where "ws = w # ws'" "f v = f w" "map f vs = map f ws'" by auto
  moreover from this have "first_iface P vs = first_iface P ws'" by (intro Cons.IH)
  moreover have "P v = P w" by (rule assms(2)) (rule \<open>f v = f w\<close>)
  ultimately show ?case by simp
qed simp

lemma first_iface_Some: "first_iface P vs = Some i \<Longrightarrow> i < length vs \<and> P (vs ! i) \<and> (\<forall>j < i. \<not> P (vs ! j))"
  by (induction vs arbitrary: i) (auto split: if_splits simp: less_Suc_eq_0_disj)

lemma l3_step_refl [simp, intro]: "l3_step s s"
  by (simp add: l3_step_def)

lemma l3_step_trans: "l3_step s t \<Longrightarrow> l3_step t u \<Longrightarrow> l3_step s u"
  by (auto simp: l3_step_def)

lemma l3_step_neightbor: "l3_step s s' \<Longrightarrow> is_neightbor a s' = is_neightbor a s"
  unfolding is_neightbor_def l3_step_def by (rule first_iface_cong [where f = net_of]) (auto simp: net_of_def)

lemma l3_step_ok: "l3_step s s' \<Longrightarrow> l3_ok s \<Longrightarrow> l3_ok s'"
proof -
  assume st: "l3_step s s'" and ok: "l3_ok s"
  have "i_mac ` set (interfaces s') = i_mac ` set (interfaces s)"
  proof -
    have "fst ` set (map net_of (interfaces s')) = fst ` set (map net_of (interfaces s))" using st by (simp only: l3_step_def)
    then show ?thesis by (simp add: image_image net_of_def)
  qed
  then have "\<forall>v \<in> set (interfaces s'). length (i_mac v) = 6" using ok unfolding l3_ok_def by (metis image_iff)
  moreover have "\<forall>a \<in> set (arp_table s'). length (fst a) = 6" using st ok unfolding l3_ok_def l3_step_def by (metis UnE set_append)
  ultimately show "l3_ok s'" using st ok by (simp add: l3_ok_def l3_step_neightbor [OF st]) (simp add: l3_step_def)
qed

lemma length_blit_fits: "off + length src \<le> n \<Longrightarrow> length dst = n \<Longrightarrow> length (blit dst off src) = n"
  by simp

lemma raw_send_step [intro]: "l3_step s (raw_send i f s)"
  by (simp add: l3_step_def raw_send_def)

lemma arp_query_step [intro]: "l3_step s (arp_query i t s)"
  by (simp add: arp_query_def raw_send_step)

lemma add_arp_step: "length mac = 6 \<Longrightarrow> l3_step s (add_arp_entry mac ip s)"
  by (simp add: l3_step_def add_arp_entry_def)

lemma l3_enqueue_net: "net_of (snd (l3_enqueue b v)) = net_of v"
  by (simp add: l3_enqueue_def ufifo_enqueue_def pfifo_enqueue_def bfifo_enqueue_def tbf_enqueue_def Let_def net_of_def
      split: l3policy.split)

lemma enqueue_on_step: "l3_step s (snd (enqueue_on i b s))"
proof -
  have "map net_of ((interfaces s)[i := snd (l3_enqueue b (interfaces s ! i))]) = map net_of (interfaces s)"
    by (cases "i < length (interfaces s)") (simp_all add: map_update l3_enqueue_net list_update_same_conv list_update_beyond)
  then show ?thesis by (auto simp: enqueue_on_def l3_step_def split: prod.split)
qed

lemma neightbor_send_step: "l3_step s (snd (neightbor_send i b s))"
  by (auto simp: neightbor_send_def enqueue_on_step split: option.split)

lemma length_vdebuff [simp]: "length (vdebuff_alloc n) = n + 1"
  by (simp add: vdebuff_alloc_def)

lemma example_l3_ok: "l3_ok example_l3"
  unfolding l3_ok_def by code_simp

section \<open>Forwarding\<close>

text \<open>
  The reference. The next hop of an address is the address itself on a network of the router, else the gateway;
  the frame that leaves has the addresses of the two ends, the header with a time to live one
  less, and everything else as it came. \<open>learned\<close> is the state with the sender in the ARP table, if it was not there;
  \<open>no_room\<close>: its entry cannot be allocated.
\<close>

definition next_hop :: "u32 \<Rightarrow> l3 \<Rightarrow> u32 option" where
  "next_hop addr s =
     (if is_neightbor addr s \<noteq> None then Some addr else if get_gateway addr s = 0 then None else Some (get_gateway addr s))"

definition routed :: "bytes \<Rightarrow> bytes \<Rightarrow> bytes \<Rightarrow> bytes" where
  "routed dst src frame = dst @ src @ drop 12 (fst (decrease_ttl frame))"

lemma frame_pad:
  assumes "length frame \<le> 1548"
  obtains pad where "blit (vdebuff_alloc 1550) 0 frame = frame @ pad" "length pad = 1551 - length frame"
  using assms by (simp add: blit_def)

lemma get_append: "Suc i < length xs \<Longrightarrow> get16 i (xs @ ys) = get16 i xs" "i + 3 < length xs \<Longrightarrow> get32 i (xs @ ys) = get32 i xs"
  by (simp_all add: get16_def get32_def nth_append)

lemma slice_append: "i + n \<le> length xs \<Longrightarrow> slice i n (xs @ ys) = slice i n xs"
  by (simp add: slice_def)

lemma decrease_ttl_append:
  assumes "34 \<le> length xs"
  shows "decrease_ttl (xs @ ys) = (fst (decrease_ttl xs) @ ys, snd (decrease_ttl xs))"
  using assms by (intro prod_eqI) (simp_all add: decrease_ttl_bytes get_append nth_append list_update_append)

lemma blit_macs:
  assumes "length dst = 6" and "length src = 6" and "12 \<le> length xs"
  shows "take (length xs) (blit (blit (xs @ ys) 6 src) 0 dst) = dst @ src @ drop 12 xs"
  using assms by (simp add: blit_def drop_append)

lemma length_decrease_ttl [simp]: "length (fst (decrease_ttl d)) = length d"
  by (simp add: decrease_ttl_def Let_def)

lemma get32_decrease_ttl: "34 \<le> length d \<Longrightarrow> 26 \<le> i \<Longrightarrow> get32 i (fst (decrease_ttl d)) = get32 i d"
  by (simp add: decrease_ttl_bytes get32_def)

definition learned :: "bytes \<Rightarrow> l3 \<Rightarrow> l3" where
  "learned d s =
     (if get_arp_entry (get32 26 d) (arp_table s) = None then add_arp_entry (slice 6 6 d) (get32 26 d) s else s)"

definition no_room :: "bool \<Rightarrow> bytes \<Rightarrow> l3 \<Rightarrow> bool" where
  "no_room mem d s \<longleftrightarrow> \<not> mem \<and> get_arp_entry (get32 26 d) (arp_table s) = None"

lemma learn_source_learned: "learn_source mem d s = (if no_room mem d s then None else Some (learned d s))"
  by (simp add: learn_source_def learned_def no_room_def)

lemma is_neightbor_learn [simp]: "is_neightbor a (learned d s) = is_neightbor a s"
  "get_gateway a (learned d s) = get_gateway a s" "interfaces (learned d s) = interfaces s"
  "get_iface_by_ipaddr a (learned d s) = get_iface_by_ipaddr a s"
  by (simp_all add: learned_def add_arp_entry_def is_neightbor_def get_gateway_def get_iface_by_ipaddr_def Let_def)

lemma learned_append:
  assumes "34 \<le> length xs"
  shows "learned (xs @ ys) s = learned xs s" and "no_room mem (xs @ ys) s = no_room mem xs s"
  using assms by (simp_all add: learned_def no_room_def get_append slice_append)

lemma learned_macs:
  assumes "34 \<le> length d" and "\<forall>a \<in> set (arp_table s). length (fst a) = 6" and "get_arp_entry ip (arp_table (learned d s)) = Some mac"
  shows "length mac = 6"
proof -
  have "\<forall>a \<in> set (arp_table (learned d s)). length (fst a) = 6"
    using assms(1,2) by (simp add: learned_def add_arp_entry_def slice_def)
  moreover from assms(3) obtain a where "find (\<lambda>a. snd a = ip) (arp_table (learned d s)) = Some a" "mac = fst a" by (auto simp: get_arp_entry_def)
  moreover from this have "a \<in> set (arp_table (learned d s))" unfolding find_Some_iff by (metis nth_mem)
  ultimately show ?thesis by blast
qed

text \<open>
  C22: forwarding. A frame for the router's own Ethernet address that carries an IP packet for
  another host is routed: unless its time to live is 1 or no route exists, it is put on the queue
  of the interface that leads to the next hop, rewritten as the reference says, if the address of the next
  hop is known; otherwise the packet is lost and an ARP request for the next hop is sent. The sender is
  learned in all cases. A gateway that is not on a network of the router is an access through \<open>NULL\<close>, and
  so is an entry for the sender that cannot be allocated.
\<close>

theorem l3_forwards:
  assumes macs: "\<forall>v \<in> set (interfaces s). length (i_mac v) = 6" "\<forall>a \<in> set (arp_table s). length (fst a) = 6"
    and i: "i < length (interfaces s)" and len: "34 \<le> length frame" "length frame \<le> 1548"
    and us: "slice 0 6 frame = i_mac (interfaces s ! i)" and ip: "get16 12 frame = htons 0x0800"
    and other: "get_iface_by_ipaddr (ntohl (get32 30 frame)) s = None"
  shows "\<exists>pad. l3_receive mem i frame s =
    (let s1 = learned frame s
     in if no_room mem frame s then None
        else if frame ! 22 = 1 then Some (- 1, s1)
        else case next_hop (ntohl (get32 30 frame)) s of
          None \<Rightarrow> Some (- 1, s1)
        | Some hop \<Rightarrow>
            (case is_neightbor hop s of
               None \<Rightarrow> None
             | Some out \<Rightarrow>
                 Some (case get_arp_entry (ntohl hop) (arp_table s1) of
                         None \<Rightarrow> (0, arp_query out hop s1)
                       | Some mac \<Rightarrow>
                           enqueue_on out \<lparr>l_data = routed mac (i_mac (interfaces s ! out)) frame @ pad, l_len = length frame\<rparr> s1)))"
proof -
  from frame_pad [OF len(2)] obtain pad where d: "blit (vdebuff_alloc 1550) 0 frame = frame @ pad" .
  let ?s1 = "learned frame s" and ?x = "fst (decrease_ttl frame)" and ?a = "ntohl (get32 30 frame)"
  let ?b = "\<lparr>l_data = ?x @ pad, l_len = length frame\<rparr>"
  have rx: "l3_receive mem i frame s = parse_ip mem \<lparr>l_data = frame @ pad, l_len = length frame\<rparr> s"
    using len us ip by (simp add: l3_receive_def d Let_def slice_append get_append htons_def)
  also have "\<dots> = (if no_room mem frame s then None else ip_forward \<lparr>l_data = frame @ pad, l_len = length frame\<rparr> ?s1)"
    using len other by (simp add: parse_ip_def learn_source_learned learned_append get_append)
  also have "ip_forward \<lparr>l_data = frame @ pad, l_len = length frame\<rparr> ?s1 = (if frame ! 22 = 1 then Some (- 1, ?s1) else ip_send ?b ?s1)"
    using len by (simp add: ip_forward_def decrease_ttl_append decrease_ttl_bytes(2))
  finally have e: "l3_receive mem i frame s = (if no_room mem frame s then None else if frame ! 22 = 1 then Some (- 1, ?s1) else ip_send ?b ?s1)" .
  have g: "get32 30 (?x @ pad) = get32 30 frame" using len by (simp add: get_append get32_decrease_ttl)
  have bytes: "blit (blit (?x @ pad) 6 (i_mac (interfaces s ! out))) 0 mac = routed mac (i_mac (interfaces s ! out)) frame @ pad"
    if "length mac = 6" "out < length (interfaces s)" for mac out
    using that macs(1) len by (simp add: blit_def routed_def)
  have out: "out < length (interfaces s)" if "is_neightbor a s = Some out" for a out
    using first_iface_Some [of _ "interfaces s" out] that unfolding is_neightbor_def by blast
  have macs1: "length mac = 6" if "get_arp_entry a (arp_table ?s1) = Some mac" for a mac
    using learned_macs [OF len(1) macs(2) that] .
  have send: "ip_send ?b ?s1 =
     (case next_hop ?a s of
          None \<Rightarrow> Some (- 1, ?s1)
        | Some hop \<Rightarrow>
            (case is_neightbor hop s of
               None \<Rightarrow> None
             | Some out \<Rightarrow>
                 Some (case get_arp_entry (ntohl hop) (arp_table ?s1) of
                         None \<Rightarrow> (0, arp_query out hop ?s1)
                       | Some mac \<Rightarrow>
                           enqueue_on out \<lparr>l_data = routed mac (i_mac (interfaces s ! out)) frame @ pad, l_len = length frame\<rparr> ?s1)))"
  proof (cases "is_neightbor ?a s")
    case (Some out)
    then show ?thesis using bytes macs1 out [OF Some]
      by (simp add: ip_send_def neightbor_send_def next_hop_def g Let_def split: option.split)
  next
    case None
    then show ?thesis using bytes macs1 out
      by (simp add: ip_send_def gateway_send_def next_hop_def g Let_def split: option.split)
  qed
  then show ?thesis using e by (intro exI [of _ pad]) (simp add: Let_def)
qed

theorem l3_forwards_witness:
  "\<exists>pad. l3_receive False 0 [0, 0xAA, 10, 0, 0, 1, 2, 0, 0, 0, 0, 2, 8, 0, 0x45, 0, 0, 20, 0, 0, 0x40, 0, 64, 17, 0x24, 0xD7, 10, 0, 0, 2, 10, 0, 1, 2] example_l3 =
    Some (enqueue_on 1 \<lparr>l_data = [2, 0, 0, 0, 1, 2, 0, 0xAA, 10, 0, 1, 1, 8, 0, 0x45, 0, 0, 20, 0, 0, 0x40, 0, 63, 17, 0x25, 0xD7, 10, 0, 0, 2, 10, 0, 1, 2] @ pad,
      l_len = 34\<rparr> example_l3)"
proof -
  let ?f = "[0, 0xAA, 10, 0, 0, 1, 2, 0, 0, 0, 0, 2, 8, 0, 0x45, 0, 0, 20, 0, 0, 0x40, 0, 64, 17, 0x24, 0xD7, 10, 0, 0, 2, 10, 0, 1, 2] :: bytes"
  have m: "\<forall>v \<in> set (interfaces example_l3). length (i_mac v) = 6" "\<forall>a \<in> set (arp_table example_l3). length (fst a) = 6"
    by (simp_all add: example_l3_def)
  have i: "0 < length (interfaces example_l3)" "34 \<le> length ?f" "length ?f \<le> 1548" by (simp_all add: example_l3_def)
  have u: "slice 0 6 ?f = i_mac (interfaces example_l3 ! 0)" "get16 12 ?f = htons 0x0800"
    "get_iface_by_ipaddr (ntohl (get32 30 ?f)) example_l3 = None" by code_simp+
  have n: "next_hop (ntohl (get32 30 ?f)) example_l3 = Some 0x0a000102" "is_neightbor 0x0a000102 example_l3 = Some 1"
    "learned ?f example_l3 = example_l3" "get_arp_entry (ntohl 0x0a000102) (arp_table example_l3) = Some [2, 0, 0, 0, 1, 2]"
    "routed [2, 0, 0, 0, 1, 2] (i_mac (interfaces example_l3 ! 1)) ?f =
      [2, 0, 0, 0, 1, 2, 0, 0xAA, 10, 0, 1, 1, 8, 0, 0x45, 0, 0, 20, 0, 0, 0x40, 0, 63, 17, 0x25, 0xD7, 10, 0, 0, 2, 10, 0, 1, 2]"
    "?f ! 22 \<noteq> 1" "\<not> no_room False ?f example_l3" by code_simp+
  have len: "length ?f = 34" by simp
  from l3_forwards [OF m i u, of False] show ?thesis unfolding n len Let_def if_not_P [OF n(6)] if_not_P [OF n(7)] option.case .
qed

section \<open>ARP\<close>

lemma put16_append:
  "i = length xs \<Longrightarrow> put16 i w (xs @ [p, q] @ ys) = xs @ [ucast w, ucast (drop_bit 8 w)] @ ys"
  by (simp add: put16_def list_update_append)

lemma arp_reply_parts:
  assumes "length a = 6" "length b = 6" "length c = 8" "length sm = 6" "length sa = 4" "length dm = 6" "length da = 4" "length (i_mac v) = 6"
  shows "arp_reply_data v (a @ b @ c @ [p, q] @ sm @ sa @ dm @ da @ r) = b @ i_mac v @ c @ [0, 2] @ i_mac v @ da @ sm @ sa @ r"
proof -
  have h: "ucast (htons 2) = (0 :: u8)" "ucast (drop_bit 8 (htons 2)) = (2 :: u8)" by (simp_all add: htons_bytes)
  have 1: "blit (blit (a @ b @ c @ [p, q] @ sm @ sa @ dm @ da @ r) 6 (slice 0 6 (a @ b @ c @ [p, q] @ sm @ sa @ dm @ da @ r)))
      0 (slice 6 6 (a @ b @ c @ [p, q] @ sm @ sa @ dm @ da @ r)) = b @ a @ c @ [p, q] @ sm @ sa @ dm @ da @ r"
    using assms by (simp add: blit_def slice_def)
  have 2: "blit (b @ a @ c @ [p, q] @ sm @ sa @ dm @ da @ r) 6 (i_mac v) = (b @ i_mac v @ c) @ [p, q] @ sm @ sa @ dm @ da @ r"
    using assms by (simp add: blit_def)
  have 3: "put16 20 (htons 2) ((b @ i_mac v @ c) @ [p, q] @ sm @ sa @ dm @ da @ r) = b @ i_mac v @ c @ [0, 2] @ sm @ sa @ dm @ da @ r"
    using assms put16_append [of 20 "b @ i_mac v @ c"] by (simp add: h)
  show ?thesis unfolding arp_reply_data_def Let_def 1 2 3 using assms by (simp add: blit_def slice_def)
qed

lemma slices:
  assumes "42 \<le> length f"
  shows "f = slice 0 6 f @ slice 6 6 f @ slice 12 8 f @ [f ! 20, f ! 21] @ slice 22 6 f @ slice 28 4 f @ slice 32 6 f @ slice 38 4 f @ drop 42 f"
proof -
  have cut: "drop i f = slice i n f @ drop (i + n) f" for i n
    unfolding slice_def by (metis append_take_drop_id drop_drop add.commute)
  have two: "slice 20 2 f = [f ! 20, f ! 21]"
    using assms by (simp add: slice_def numeral_2_eq_2 take_Suc_conv_app_nth)
  show ?thesis
    using cut [of 0 6] cut [of 6 6] cut [of 12 8] cut [of 20 2] cut [of 22 6] cut [of 28 4] cut [of 32 6] cut [of 38 4] two by simp
qed

text \<open>
  C27: ARP. A packet that asks for an address of the router is answered with the Ethernet address of the interface
  that has this address, to the host that asked, on that interface, and the host is learned; replies
  are learned; everything else is ignored. Without memory for the entry it is an access through \<open>NULL\<close>.
\<close>

theorem l3_arp_answered:
  assumes macs: "\<forall>v \<in> set (interfaces s). length (i_mac v) = 6"
    and len: "42 \<le> length frame" "length frame \<le> 1548" and arp: "get16 12 frame = htons 0x0806"
    and us: "slice 0 6 frame = i_mac (interfaces s ! i) \<or> is_multicast_mac (slice 0 6 frame) \<and> memcmp (slice 6 6 frame) (i_mac (interfaces s ! i)) \<noteq> 0"
  shows "l3_receive mem i frame s =
    (case get_iface_by_ipaddr (ntohl (get32 38 frame)) s of
       None \<Rightarrow> Some (- 1, s)
     | Some own \<Rightarrow>
         if \<not> mem then None else
         let s1 = add_arp_entry (slice 22 6 frame) (get32 28 frame) s; mac = i_mac (interfaces s ! own)
         in if htons (get16 20 frame) = 1
            then Some (0, raw_send own (slice 6 6 frame @ mac @ slice 12 8 frame @ [0, 2] @ mac @ slice 38 4 frame @
                     slice 22 6 frame @ slice 28 4 frame @ drop 42 frame) s1)
            else Some (- 1, s1))"
proof -
  from frame_pad [OF len(2)] obtain pad where d: "blit (vdebuff_alloc 1550) 0 frame = frame @ pad" .
  let ?b = "\<lparr>l_data = frame @ pad, l_len = length frame\<rparr>"
  have rx: "l3_receive mem i frame s = parse_arp mem ?b s"
    using len us arp by (auto simp: l3_receive_def d Let_def slice_append get_append)
  have reply: "take (length frame) (arp_reply_data (interfaces s ! own) (frame @ pad)) =
      slice 6 6 frame @ i_mac (interfaces s ! own) @ slice 12 8 frame @ [0, 2] @ i_mac (interfaces s ! own) @ slice 38 4 frame @
      slice 22 6 frame @ slice 28 4 frame @ drop 42 frame" if "own < length (interfaces s)" for own
  proof -
    have p: "frame @ pad = slice 0 6 frame @ slice 6 6 frame @ slice 12 8 frame @ [frame ! 20, frame ! 21] @ slice 22 6 frame @ slice 28 4 frame @
        slice 32 6 frame @ slice 38 4 frame @ (drop 42 frame @ pad)"
      using slices [OF len(1)] by (metis append.assoc)
    have l: "length (slice j n frame) = n" if "j + n \<le> 42" for j n using that len(1) by (simp add: slice_def)
    have m: "length (i_mac (interfaces s ! own)) = 6" using macs that by simp
    let ?x = "slice 6 6 frame @ i_mac (interfaces s ! own) @ slice 12 8 frame @ [0, 2] @ i_mac (interfaces s ! own) @ slice 38 4 frame @
      slice 22 6 frame @ slice 28 4 frame @ drop 42 frame"
    have "arp_reply_data (interfaces s ! own) (frame @ pad) = ?x @ pad" unfolding p using m by (subst arp_reply_parts) (simp_all add: l)
    moreover have "length ?x = length frame" using len(1) m by (simp add: l)
    ultimately show ?thesis by (metis append_eq_conv_conj)
  qed
  have own: "own < length (interfaces s)" if "get_iface_by_ipaddr a s = Some own" for a own
    using first_iface_Some [of _ "interfaces s" own] that unfolding get_iface_by_ipaddr_def by blast
  show ?thesis unfolding rx using len reply own
    by (auto simp: parse_arp_def Let_def get_append slice_append arp_reply_def add_arp_entry_def split: option.split)
qed

theorem l3_arp_answered_witness:
  "l3_receive True 0 ([0xFF, 0xFF, 0xFF, 0xFF, 0xFF, 0xFF, 2, 0, 0, 0, 0, 9, 8, 6, 0, 1, 8, 0, 6, 4, 0, 1, 2, 0, 0, 0, 0, 9, 10, 0, 0, 9, 0, 0, 0, 0, 0, 0, 10, 0, 0, 1]) example_l3 =
   Some (0, raw_send 0 [2, 0, 0, 0, 0, 9, 0, 0xAA, 10, 0, 0, 1, 8, 6, 0, 1, 8, 0, 6, 4, 0, 2, 0, 0xAA, 10, 0, 0, 1, 10, 0, 0, 1, 2, 0, 0, 0, 0, 9, 10, 0, 0, 9]
     (add_arp_entry [2, 0, 0, 0, 0, 9] 0x0900000a example_l3))"
proof -
  let ?f = "[0xFF, 0xFF, 0xFF, 0xFF, 0xFF, 0xFF, 2, 0, 0, 0, 0, 9, 8, 6, 0, 1, 8, 0, 6, 4, 0, 1, 2, 0, 0, 0, 0, 9, 10, 0, 0, 9, 0, 0, 0, 0, 0, 0, 10, 0, 0, 1] :: bytes"
  have m: "\<forall>v \<in> set (interfaces example_l3). length (i_mac v) = 6" by (simp add: example_l3_def)
  have l: "42 \<le> length ?f" "length ?f \<le> 1548" by simp_all
  have t: "get16 12 ?f = htons 0x0806" by code_simp
  have u: "slice 0 6 ?f = i_mac (interfaces example_l3 ! 0) \<or>
      is_multicast_mac (slice 0 6 ?f) \<and> memcmp (slice 6 6 ?f) (i_mac (interfaces example_l3 ! 0)) \<noteq> 0" by code_simp
  have o: "get_iface_by_ipaddr (ntohl (get32 38 ?f)) example_l3 = Some 0" "htons (get16 20 ?f) = 1" "get32 28 ?f = 0x0900000a"
    "i_mac (interfaces example_l3 ! 0) = [0, 0xAA, 10, 0, 0, 1]" by code_simp+
  show ?thesis using l3_arp_answered [OF m l t u, of True] by (simp add: o slice_def)
qed

section \<open>Queue policies\<close>

lemma tbf_drain_mod:
  "0 < mtu \<Longrightarrow> tbf_drain now mtu b l = Some (b mod mtu, if b < mtu then l else now)"
proof (induction now mtu b l rule: tbf_drain.induct)
  case (1 now mtu b l)
  then show ?case by (cases "b < mtu") (simp_all add: le_mod_geq tbf_drain.simps [of now mtu b l] not_less)
qed

text \<open>
  Queue policies. When an interface with packets queued can send, the oldest goes out. With the unlimited policy and the policy that counts packets
  nothing else happens but that the count follows the queue, and a packet is
  accepted exactly if fewer than the limit are queued. With the policy that counts bytes, sending the last packet is an
  access through \<open>NULL\<close>, and the count is decreased by the length of another packet. The token
  bucket does not send before its interval is over, but only a packet of the largest size starts a new interval:
  smaller packets are not slowed down.
\<close>

theorem l3_queue_policies:
  assumes i: "i < length (interfaces s)" and q: "q_out (interfaces s ! i) = b # bs" and len: "l_len b < 2 ^ 32"
  shows "let v = interfaces s ! i;
      sends = (\<lambda>v'. l3_transmit now i s = Some (raw_send i (take (l_len b) (l_data b)) (s\<lparr>interfaces := (interfaces s)[i := v']\<rparr>)))
    in case i_policy v of
         Ufifo \<Rightarrow> sends (v\<lparr>q_out := bs\<rparr>) \<and> l3_enqueue p v = (1, v\<lparr>q_out := q_out v @ [p]\<rparr>)
       | Pfifo qlen limit d \<Rightarrow> unat qlen = length (q_out v) \<longrightarrow>
           (\<exists>qlen'. unat qlen' = length bs \<and> sends (v\<lparr>q_out := bs, i_policy := Pfifo qlen' limit d\<rparr>)) \<and>
           (if length (q_out v) < unat limit
            then \<exists>qlen'. unat qlen' = length (q_out v @ [p]) \<and> l3_enqueue p v = (1, v\<lparr>q_out := q_out v @ [p], i_policy := Pfifo qlen' limit d\<rparr>)
            else l3_enqueue p v = (0, v\<lparr>i_policy := Pfifo qlen limit (d + 1)\<rparr>))
       | Bfifo qlen limit d \<Rightarrow> 0 < qlen \<longrightarrow>
           (case bs of
              [] \<Rightarrow> l3_transmit now i s = None
            | c # cs \<Rightarrow> sends (v\<lparr>q_out := bs, i_policy := Bfifo (qlen - word_of_nat (l_len c)) limit d\<rparr>))
       | Tbf t \<Rightarrow> 0 < t_mtu t \<longrightarrow>
           (if now < t_last_out t + t_delta t then l3_transmit now i s = Some s
            else \<exists>t'. sends (v\<lparr>q_out := bs, i_policy := Tbf t'\<rparr>) \<and> t_qlen t' = t_qlen t - word_of_nat (l_len b) \<and>
              t_last_out t' = (if l_len b < unat (t_mtu t) then t_last_out t else now))"
proof -
  let ?v = "interfaces s ! i"
  have u: "ufifo_dequeue ?v = Some (take (l_len b) (l_data b), ?v\<lparr>q_out := bs\<rparr>)" by (simp add: ufifo_dequeue_def q)
  have len': "unat (word_of_nat (l_len b) :: u32) = l_len b" using len by (simp add: unat_of_nat)
  have same: "s\<lparr>interfaces := (interfaces s)[i := ?v]\<rparr> = s" by simp
  show ?thesis
  proof (cases "i_policy ?v")
    case Ufifo
    then show ?thesis by (simp add: l3_transmit_def l3_dequeue_def u q l3_enqueue_def ufifo_enqueue_def)
  next
    case (Pfifo qlen limit d)
    have down: "unat (qlen - 1) = length bs" "0 < qlen" if "unat qlen = Suc (length bs)"
    proof -
      have "qlen \<noteq> 0" using that by auto
      then show "unat (qlen - 1) = length bs" "0 < qlen" using that by (simp_all add: unat_minus_one word_less_nat_alt)
    qed
    have up: "unat (qlen + 1) = unat qlen + 1" if "unat qlen < unat limit"
    proof -
      have "unat limit < 2 ^ 32" using unsigned_less [of limit] by simp
      then show ?thesis using that by (simp add: unat_word_ariths)
    qed
    show ?thesis using down up Pfifo
      by (auto simp: Let_def l3_transmit_def l3_dequeue_def pfifo_dequeue_def u q l3_enqueue_def pfifo_enqueue_def ufifo_enqueue_def word_less_nat_alt)
  next
    case (Bfifo qlen limit d)
    then show ?thesis by (auto simp: Let_def l3_transmit_def l3_dequeue_def bfifo_dequeue_def u q split: list.split)
  next
    case (Tbf t)
    then show ?thesis using same
      by (auto simp: Let_def l3_transmit_def l3_dequeue_def tbf_dequeue_def u q len' tbf_drain_mod word_less_nat_alt)
  qed
qed

definition example_queued :: l3 where
  "example_queued = example_l3\<lparr>interfaces := [
     \<lparr>i_mac = [0, 0xAA, 10, 0, 0, 1], i_ipaddr = 0x0a000001, i_nm = 0xffffff00,
      q_out = [\<lparr>l_data = [1, 2, 3], l_len = 2\<rparr>], i_policy = Bfifo 2 100 0\<rparr>]\<rparr>"

theorem l3_queue_policies_witness: "l3_transmit 0 0 example_queued = None"
proof -
  have "0 < length (interfaces example_queued)" "q_out (interfaces example_queued ! 0) = \<lparr>l_data = [1, 2, 3], l_len = 2\<rparr> # []"
    "i_policy (interfaces example_queued ! 0) = Bfifo 2 100 0" by (simp_all add: example_queued_def)
  then show ?thesis
    using l3_queue_policies [of 0 example_queued "\<lparr>l_data = [1, 2, 3], l_len = 2\<rparr>" "[]" 0 undefined] by (simp add: Let_def)
qed

section \<open>Echo\<close>

text \<open>Writing fields of a packet changes nothing else.\<close>

definition changed_only :: "nat set \<Rightarrow> bytes \<Rightarrow> bytes \<Rightarrow> bool" where
  "changed_only S d d' \<longleftrightarrow> length d' = length d \<and> (\<forall>k < length d. k \<notin> S \<longrightarrow> d' ! k = d ! k)"

lemma changed_only_trans: "changed_only S d e \<Longrightarrow> changed_only T e f \<Longrightarrow> changed_only (S \<union> T) d f"
  by (auto simp: changed_only_def)

lemma changed_only_mono: "changed_only S d e \<Longrightarrow> S \<subseteq> T \<Longrightarrow> changed_only T d e"
  by (auto simp: changed_only_def)

lemma changed_only_update: "changed_only {i} d (d[i := x])"
  by (auto simp: changed_only_def nth_list_update)

lemma changed_only_put: "changed_only {i..<i + 2} d (put16 i w d)" "changed_only {i..<i + 4} d (put32 i u d)"
  by (auto simp: changed_only_def put16_def put32_def nth_list_update)

lemma changed_only_checksum: "changed_only {24..<26} d (store_checksum d)"
proof -
  have "changed_only ({24..<24 + 2} \<union> {24..<24 + 2}) d (store_checksum d)"
    unfolding store_checksum_def ip_checksum_def Let_def prod.case
    by (rule changed_only_trans changed_only_put)+
  then show ?thesis by simp
qed

lemma changed_only_blit: "off + length src \<le> length d \<Longrightarrow> changed_only {off..<off + length src} d (blit d off src)"
  by (auto simp: changed_only_def blit_def nth_append min_def)

lemma changed_only_get: "changed_only S d d' \<Longrightarrow> {i..<i + 4} \<inter> S = {} \<Longrightarrow> i + 4 \<le> length d \<Longrightarrow> get32 i d' = get32 i d"
  unfolding changed_only_def get32_def by (auto simp: disjoint_iff)

lemma changed_only_slice:
  assumes "changed_only S d d'" and "{i..<i + n} \<inter> S = {}"
  shows "slice i n d' = slice i n d"
  using assms by (intro nth_equalityI) (auto simp: slice_def changed_only_def disjoint_iff)

lemma word_sum_field:
  assumes "4 \<le> length p"
  shows "word_sum (p[2 := ucast (drop_bit 8 c), 3 := ucast c]) = word_sum (p[2 := 0, 3 := 0]) + unat (c :: u16)"
proof -
  obtain a b x y r where "p = a # b # x # y # r" using assms by (auto simp: numeral_eq_Suc Suc_le_length_iff)
  then show ?thesis using unat_u16_bytes [of c] by simp
qed

lemma ip_output_data:
  assumes nb: "(case is_neightbor dst s of Some i \<Rightarrow> Some i | None \<Rightarrow> is_neightbor (get_gateway dst s) s) = Some out"
    and l: "34 \<le> length (l_data b)"
  shows "\<exists>d. ip_output b dst p s = ip_send (b\<lparr>l_data := d\<rparr>) s \<and> changed_only {14..<34} (l_data b) d \<and>
    d ! 22 = 64 \<and> d ! 23 = p \<and> get32 26 d = ntohl (i_ipaddr (interfaces s ! out)) \<and> get32 30 d = ntohl dst"
proof -
  define d0 where "d0 = (l_data b)[14 := 0x45, 15 := 0]"
  define d3 where "d3 = put16 18 0 (put16 16 (htons (word_of_nat (l_len b) - 14)) (put16 20 (htons 0x4000) d0))"
  define d4 where "d4 = d3[23 := p, 22 := 64]"
  define d6 where "d6 = put32 26 (ntohl (i_ipaddr (interfaces s ! out))) (store_checksum d4)"
  define d7 where "d7 = put32 30 (ntohl dst) d6"
  have c: "changed_only {24..<26} d7 (store_checksum d7)" "changed_only {30..<34} d6 d7" "changed_only {26..<30} (store_checksum d4) d6"
    "changed_only {24..<26} d4 (store_checksum d4)"
    unfolding d7_def d6_def using changed_only_checksum changed_only_put(2) [where i = 30] changed_only_put(2) [where i = 26] by simp_all
  have "changed_only ({14} \<union> {15} \<union> {20..<20 + 2} \<union> {16..<16 + 2} \<union> {18..<18 + 2} \<union> {23} \<union> {22}) (l_data b) d4"
    unfolding d4_def d3_def d0_def by (rule changed_only_trans changed_only_update changed_only_put)+
  from changed_only_trans [OF changed_only_trans [OF changed_only_trans [OF changed_only_trans [OF this c(4)] c(3)] c(2)] c(1)]
  have all: "changed_only {14..<34} (l_data b) (store_checksum d7)" by (rule changed_only_mono) auto
  have len: "length d4 = length (l_data b)" by (simp add: d4_def d3_def d0_def)
  have "changed_only {24..<34} d4 (store_checksum d7)"
    using changed_only_trans [OF changed_only_trans [OF changed_only_trans [OF c(4) c(3)] c(2)] c(1)] by (rule changed_only_mono) auto
  then have "store_checksum d7 ! 22 = d4 ! 22" "store_checksum d7 ! 23 = d4 ! 23" using l len by (simp_all add: changed_only_def)
  then have b: "store_checksum d7 ! 22 = 64" "store_checksum d7 ! 23 = p" using l len by (simp_all add: d4_def)
  have l6: "length d6 = length (l_data b)" "length (store_checksum d4) = length (l_data b)" using c len by (simp_all add: changed_only_def)
  have "get32 30 (store_checksum d7) = get32 30 d7" by (rule changed_only_get [OF c(1)]) (use l l6 in \<open>auto simp: d7_def\<close>)
  then have g30: "get32 30 (store_checksum d7) = ntohl dst" using l l6 by (simp add: d7_def get32_put32)
  have "get32 26 (store_checksum d7) = get32 26 d6"
    using changed_only_trans [OF c(2) c(1)] by (rule changed_only_get) (use l l6 in auto)
  then have g26: "get32 26 (store_checksum d7) = ntohl (i_ipaddr (interfaces s ! out))" using l l6 by (simp add: d6_def get32_put32)
  have "ip_output b dst p s = ip_send (b\<lparr>l_data := store_checksum d7\<rparr>) s"
    unfolding ip_output_def Let_def nb option.case d7_def d6_def d4_def d3_def d0_def by simp
  then show ?thesis using all b g26 g30 by blast
qed

lemma find_append_None: "find P xs = None \<Longrightarrow> find P (xs @ ys) = find P ys"
  by (induction xs) (auto split: if_splits)

lemma slice_update: "i \<le> j \<Longrightarrow> slice i n (d[j := x]) = (slice i n d)[j - i := x]"
  by (simp add: slice_def drop_update_swap take_update_swap)

lemma get32_slice: "i + 4 \<le> length d \<Longrightarrow> j + 4 \<le> length e \<Longrightarrow> slice i 4 d = slice j 4 e \<Longrightarrow> get32 i d = get32 j e"
proof -
  assume l: "i + 4 \<le> length d" "j + 4 \<le> length e" and eq: "slice i 4 d = slice j 4 e"
  have "d ! (i + k) = e ! (j + k)" if "k < 4" for k
    using arg_cong [OF eq, of "\<lambda>x. x ! k"] that l by (simp add: slice_def)
  from this [of 0] this [of 1] this [of 2] this [of 3] show ?thesis by (simp add: get32_def)
qed

text \<open>The packet as it is after the code has turned a request into a reply.\<close>

lemma echo_data_parts:
  assumes n: "42 \<le> l_len b" "l_len b \<le> length (l_data b)"
  defines "q \<equiv> (slice 34 (l_len b - 34) (l_data b))[0 := 0, 2 := 0, 3 := 0]"
  shows "changed_only ({24..<35} \<union> {36..<38}) (l_data b) (echo_data b)"
    and "get32 30 (echo_data b) = get32 26 (l_data b)"
    and "slice 34 (l_len b - 34) (echo_data b) = q[2 := ucast (drop_bit 8 (net_checksum q)), 3 := ucast (net_checksum q)]"
proof -
  let ?d = "l_data b"
  define d1 where "d1 = blit (blit ?d 26 (slice 30 4 ?d)) 30 (slice 26 4 ?d)"
  define d3 where "d3 = put16 36 0 (d1[34 := 0])"
  define c where "c = net_checksum (slice 34 (l_len b - 34) d3)"
  define d4 where "d4 = put16 36 (htons c) d3"
  have e: "echo_data b = store_checksum d4" by (simp add: echo_data_def Let_def d4_def c_def d3_def d1_def)
  have l: "length (slice j 4 ?d) = 4" if "j \<le> 38" for j using that n by (simp add: slice_def)
  have 1: "changed_only {26..<34} ?d d1"
  proof -
    have "changed_only ({26..<26 + length (slice 30 4 ?d)} \<union> {30..<30 + length (slice 26 4 ?d)}) ?d d1"
      unfolding d1_def using n l by (intro changed_only_trans [OF changed_only_blit changed_only_blit]) simp_all
    then show ?thesis using l by (elim changed_only_mono) auto
  qed
  have 3: "changed_only ({34} \<union> {36..<36 + 2} \<union> {36..<36 + 2} \<union> {24..<26}) d1 (echo_data b)"
    unfolding e d4_def d3_def by (rule changed_only_trans changed_only_update changed_only_put changed_only_checksum)+
  from changed_only_trans [OF 1 3] show "changed_only ({24..<35} \<union> {36..<38}) ?d (echo_data b)" by (rule changed_only_mono) auto
  have len1: "length d1 = length ?d" using 1 by (simp add: changed_only_def)
  have "get32 30 (echo_data b) = get32 30 d1" by (rule changed_only_get [OF 3]) (use n len1 in auto)
  also have "\<dots> = get32 26 ?d"
    by (rule get32_slice) (use n len1 l in \<open>auto simp: d1_def slice_def blit_def\<close>)
  finally show "get32 30 (echo_data b) = get32 26 ?d" .
  have q: "slice 34 (l_len b - 34) d3 = q"
  proof -
    have "slice 34 (l_len b - 34) d1 = slice 34 (l_len b - 34) ?d" by (rule changed_only_slice [OF 1]) auto
    then show ?thesis by (simp add: d3_def put16_def slice_update q_def)
  qed
  have "slice 34 (l_len b - 34) (echo_data b) = slice 34 (l_len b - 34) d4"
    unfolding e by (rule changed_only_slice [OF changed_only_checksum]) auto
  also have "\<dots> = q[2 := ucast (drop_bit 8 c), 3 := ucast c]"
    by (simp add: d4_def put16_def slice_update q htons_bytes)
  finally show "slice 34 (l_len b - 34) (echo_data b) = q[2 := ucast (drop_bit 8 (net_checksum q)), 3 := ucast (net_checksum q)]"
    by (simp add: c_def q)
qed

text \<open>
  C26: echo. An ICMP echo request to an address of the router from a host on one of its networks is answered:
  a reply of the same length is put on the queue of the interface that leads to the host, addressed to the sender by its
  IP and the Ethernet address learned for it, with a fresh header and the data sent back unchanged. The ICMP checksum of the reply is
  valid exactly if folding the carry once is enough. The source of the reply is the
  address of that interface, not the address that was asked. (The entry for the sender is allocated, where it is new.)
\<close>

theorem l3_echo_answered:
  assumes macs: "\<forall>v \<in> set (interfaces s). length (i_mac v) = 6" "\<forall>a \<in> set (arp_table s). length (fst a) = 6"
    and len: "42 \<le> length frame" "length frame \<le> 1548"
    and us: "slice 0 6 frame = i_mac (interfaces s ! i)" and ip: "get16 12 frame = htons 0x0800"
    and own: "get_iface_by_ipaddr (ntohl (get32 30 frame)) s \<noteq> None"
    and icmp: "frame ! 14 = 0x45" "frame ! 23 = 1" "frame ! 34 = 8"
    and src: "is_neightbor (ntohl (get32 26 frame)) s = Some out"
  shows "\<exists>b mac. get_arp_entry (get32 26 frame) (arp_table (learned frame s)) = Some mac \<and>
    l3_receive True i frame s = Some (1, snd (enqueue_on out b (learned frame s))) \<and> l_len b = length frame \<and>
    slice 0 6 (l_data b) = mac \<and> slice 6 6 (l_data b) = i_mac (interfaces s ! out) \<and>
    get32 30 (l_data b) = get32 26 frame \<and> get32 26 (l_data b) = ntohl (i_ipaddr (interfaces s ! out)) \<and> l_data b ! 22 = 64 \<and>
    (let q = (drop 34 frame)[0 := 0, 2 := 0, 3 := 0]; p = slice 34 (length frame - 34) (l_data b)
     in p ! 0 = 0 \<and> p ! 1 = frame ! 35 \<and> drop 4 p = drop 38 frame \<and>
        (word_sum p mod 65535 = 0 \<longleftrightarrow> word_sum q mod 65536 + word_sum q div 65536 < 65536))"
proof -
  from frame_pad [OF len(2)] obtain pad where d: "blit (vdebuff_alloc 1550) 0 frame = frame @ pad" "length pad = 1551 - length frame" .
  let ?s1 = "learned frame s" and ?b = "\<lparr>l_data = frame @ pad, l_len = length frame\<rparr>"
  let ?e = "echo_data ?b"
  have rx: "l3_receive True i frame s = ip_input ?b ?s1"
    using len us ip own
    by (simp add: l3_receive_def d Let_def slice_append get_append htons_def parse_ip_def learn_source_learned learned_append no_room_def)
  note p = echo_data_parts [of ?b]
  have ch: "changed_only ({24..<35} \<union> {36..<38}) (frame @ pad) ?e" and to: "get32 30 ?e = get32 26 frame"
    using p(1,2) len by (simp_all add: get_append)
  have le: "length ?e = 1551" "?e ! 23 = 1" using ch d(2) len icmp by (auto simp: changed_only_def nth_append)
  have nb: "(case is_neightbor (ntohl (get32 26 frame)) ?s1 of Some i \<Rightarrow> Some i
      | None \<Rightarrow> is_neightbor (get_gateway (ntohl (get32 26 frame)) ?s1) ?s1) = Some out" using src by simp
  from ip_output_data [OF nb, of "?b\<lparr>l_data := ?e\<rparr>" 1] le obtain x where
    x: "ip_output (?b\<lparr>l_data := ?e\<rparr>) (ntohl (get32 26 frame)) 1 ?s1 = ip_send (?b\<lparr>l_data := x\<rparr>) ?s1" "changed_only {14..<34} ?e x"
    "x ! 22 = 64" "get32 26 x = ntohl (i_ipaddr (interfaces s ! out))" "get32 30 x = get32 26 frame" by auto
  obtain mac where mac: "get_arp_entry (get32 26 frame) (arp_table ?s1) = Some mac"
  proof (cases "get_arp_entry (get32 26 frame) (arp_table s)")
    case (Some m) then show ?thesis using that by (simp add: learned_def)
  next
    case None
    then have "find (\<lambda>a. snd a = get32 26 frame) (arp_table s @ [(slice 6 6 frame, get32 26 frame)]) = Some (slice 6 6 frame, get32 26 frame)"
      by (subst find_append_None) (simp_all add: get_arp_entry_def)
    then show ?thesis using that None by (simp add: learned_def add_arp_entry_def get_arp_entry_def)
  qed
  have out: "out < length (interfaces s)" using first_iface_Some [OF src [unfolded is_neightbor_def]] by simp
  let ?m = "i_mac (interfaces s ! out)"
  have lm: "length mac = 6" "length ?m = 6" using learned_macs [OF _ macs(2) mac] macs(1) out len by simp_all
  define D where "D = blit (blit x 6 ?m) 0 mac"
  have lx: "length x = 1551" using x(2) le by (simp add: changed_only_def)
  have res: "l3_receive True i frame s = Some (1, snd (enqueue_on out (?b\<lparr>l_data := D\<rparr>) ?s1))"
  proof -
    have "ip_send (?b\<lparr>l_data := x\<rparr>) ?s1 = Some (enqueue_on out (?b\<lparr>l_data := D\<rparr>) ?s1)"
      using src mac by (simp add: ip_send_def x(5) Let_def neightbor_send_def D_def)
    moreover have "parse_icmp ?b ?s1 = map_option (\<lambda>(r, s1). (1, s1)) (ip_send (?b\<lparr>l_data := x\<rparr>) ?s1)"
      using len icmp le(2) x(1) by (simp add: parse_icmp_def ip_output_ready_def to nth_append)
    moreover have "ip_input ?b ?s1 = parse_icmp ?b ?s1" using len icmp by (simp add: ip_input_def nth_append)
    ultimately show ?thesis by (simp add: rx split: prod.split)
  qed
  have cD: "changed_only {0..<12} x D"
  proof -
    have "changed_only ({6..<6 + length ?m} \<union> {0..<0 + length mac}) x D"
      unfolding D_def using lm lx by (intro changed_only_trans [OF changed_only_blit changed_only_blit]) simp_all
    then show ?thesis using lm by (elim changed_only_mono) auto
  qed
  have hd: "slice 0 6 D = mac" "slice 6 6 D = ?m" using lm lx by (simp_all add: D_def slice_def blit_def)
  have g: "get32 30 D = get32 26 frame" "get32 26 D = ntohl (i_ipaddr (interfaces s ! out))" "D ! 22 = 64"
    using changed_only_get [OF cD, of 30] changed_only_get [OF cD, of 26] cD lx x by (auto simp: changed_only_def)
  define q where "q = (drop 34 frame)[0 := 0, 2 := 0, 3 := 0]"
  have pay: "slice 34 (length frame - 34) D = q[2 := ucast (drop_bit 8 (net_checksum q)), 3 := ucast (net_checksum q)]"
  proof -
    have "slice 34 (length frame - 34) D = slice 34 (length frame - 34) x" by (rule changed_only_slice [OF cD]) auto
    also have "\<dots> = slice 34 (length frame - 34) ?e" by (rule changed_only_slice [OF x(2)]) auto
    also have "slice 34 (length frame - 34) (frame @ pad) = drop 34 frame" using len by (simp add: slice_def)
    then have "slice 34 (length frame - 34) ?e = q[2 := ucast (drop_bit 8 (net_checksum q)), 3 := ucast (net_checksum q)]"
      using p(3) len by (simp add: q_def)
    finally show ?thesis .
  qed
  have "length q \<le> 65536" "8 \<le> length q" using len by (simp_all add: q_def)
  moreover have "q[2 := 0, 3 := 0] = q" by (simp add: q_def list_update_swap)
  ultimately have "word_sum (slice 34 (length frame - 34) D) mod 65535 = 0 \<longleftrightarrow> word_sum q mod 65536 + word_sum q div 65536 < 65536"
    unfolding pay using net_checksum_valid [of q] word_sum_field [of q "net_checksum q"] by simp
  moreover have "slice 34 (length frame - 34) D ! 0 = 0" "slice 34 (length frame - 34) D ! 1 = frame ! 35"
    "drop 4 (slice 34 (length frame - 34) D) = drop 38 frame"
    using len unfolding pay q_def by simp_all
  ultimately show ?thesis using mac res hd g
    by (intro exI [of _ "?b\<lparr>l_data := D\<rparr>"] exI [of _ mac]) (simp add: Let_def q_def)
qed

theorem l3_echo_answered_witness:
  "\<exists>b. l3_receive True 0 [0, 0xAA, 10, 0, 0, 1, 2, 0, 0, 0, 0, 2, 8, 0, 0x45, 0, 0, 28, 0, 0, 0x40, 0, 64, 1, 0x26, 0xDD,
        10, 0, 0, 2, 10, 0, 0, 1, 8, 0, 0, 0, 0, 1, 0, 2] example_l3 = Some (1, snd (enqueue_on 0 b example_l3)) \<and>
     slice 0 6 (l_data b) = [2, 0, 0, 0, 0, 2] \<and> get32 30 (l_data b) = 0x0200000a \<and> word_sum (slice 34 8 (l_data b)) mod 65535 = 0"
proof -
  let ?f = "[0, 0xAA, 10, 0, 0, 1, 2, 0, 0, 0, 0, 2, 8, 0, 0x45, 0, 0, 28, 0, 0, 0x40, 0, 64, 1, 0x26, 0xDD,
        10, 0, 0, 2, 10, 0, 0, 1, 8, 0, 0, 0, 0, 1, 0, 2] :: bytes"
  have m: "\<forall>v \<in> set (interfaces example_l3). length (i_mac v) = 6" "\<forall>a \<in> set (arp_table example_l3). length (fst a) = 6"
    by (simp_all add: example_l3_def)
  have l: "42 \<le> length ?f" "length ?f \<le> 1548" by simp_all
  have u: "slice 0 6 ?f = i_mac (interfaces example_l3 ! 0)" "get16 12 ?f = htons 0x0800"
    "get_iface_by_ipaddr (ntohl (get32 30 ?f)) example_l3 \<noteq> None" by code_simp+
  have i: "?f ! 14 = 0x45" "?f ! 23 = 1" "?f ! 34 = 8" by simp_all
  have n: "is_neightbor (ntohl (get32 26 ?f)) example_l3 = Some 0" by code_simp
  have r: "learned ?f example_l3 = example_l3" "get32 26 ?f = 0x0200000a" by code_simp+
  have a: "get_arp_entry 0x0200000a (arp_table example_l3) = Some [2, 0, 0, 0, 0, 2]" by code_simp
  have q: "(drop 34 ?f)[0 := 0, 2 := 0, 3 := 0] = [0, 0, 0, 0, 0, 1, 0, 2]" "length ?f - 34 = 8" by simp_all
  from l3_echo_answered [OF m l u i n, unfolded r q Let_def]
  obtain b mac where b: "get_arp_entry 0x0200000a (arp_table example_l3) = Some mac"
      "l3_receive True 0 ?f example_l3 = Some (1, snd (enqueue_on 0 b example_l3))" "slice 0 6 (l_data b) = mac" "get32 30 (l_data b) = 0x0200000a"
      "word_sum (slice 34 8 (l_data b)) mod 65535 = 0 \<longleftrightarrow>
        word_sum [0, 0, 0, 0, 0, 1, 0, 2] mod 65536 + word_sum [0, 0, 0, 0, 0, 1, 0, 2] div 65536 < 65536"
    by (elim exE conjE) (rule that)
  have "word_sum [0, 0, 0, 0, 0, 1, 0, 2] = 3" by simp
  then have w: "word_sum [0, 0, 0, 0, 0, 1, 0, 2] mod 65536 + word_sum [0, 0, 0, 0, 0, 1, 0, 2] div 65536 < 65536" by (simp only:)
  have m: "mac = [2, 0, 0, 0, 0, 2]" using b(1) a by simp
  show ?thesis by (intro exI [of _ b] conjI b(2) b(3) [unfolded m] b(4) b(5) [THEN iffD2, OF w])
qed

section \<open>Faults\<close>

text \<open>
  The reference of the faults: the two frames that make the router access memory through \<open>NULL\<close>, and what
  makes the sending of a packet fail. A gateway is off the net if no interface is on its network.
\<close>

definition off_net_gateway :: "u32 \<Rightarrow> l3 \<Rightarrow> bool" where
  "off_net_gateway addr s \<longleftrightarrow> (case next_hop addr s of None \<Rightarrow> False | Some g \<Rightarrow> is_neightbor g s = None)"

definition accepted :: "nat \<Rightarrow> bytes \<Rightarrow> l3 \<Rightarrow> bool" where
  "accepted i d s \<longleftrightarrow> memcmp (slice 0 6 d) (i_mac (interfaces s ! i)) = 0 \<or>
     is_multicast_mac (slice 0 6 d) \<and> memcmp (slice 6 6 d) (i_mac (interfaces s ! i)) \<noteq> 0"

definition receive_fault :: "bool \<Rightarrow> nat \<Rightarrow> bytes \<Rightarrow> l3 \<Rightarrow> bool" where
  "receive_fault mem i d s \<longleftrightarrow> accepted i d s \<and>
     (if get16 12 d = htons 0x0806 then \<not> mem \<and> get_iface_by_ipaddr (ntohl (get32 38 d)) s \<noteq> None
      else get16 12 d = htons 0x0800 \<and>
        (no_room mem d s \<or>
         get_iface_by_ipaddr (ntohl (get32 30 d)) s = None \<and> d ! 22 \<noteq> 1 \<and> off_net_gateway (ntohl (get32 30 d)) s))"

definition transmit_fault :: "nat \<Rightarrow> l3iface \<Rightarrow> bool" where
  "transmit_fault now v \<longleftrightarrow>
     (case i_policy v of
        Bfifo qlen limit d \<Rightarrow> 0 < qlen \<and> length (q_out v) = 1
      | Tbf t \<Rightarrow> q_out v \<noteq> [] \<and> t_last_out t + t_delta t \<le> now \<and> t_mtu t = 0
      | _ \<Rightarrow> False)"

lemma get_gateway_ok:
  assumes "l3_ok s" and "get_gateway a s \<noteq> 0"
  shows "is_neightbor (get_gateway a s) s \<noteq> None"
proof -
  have "gateway_scan a res mx rs \<in> insert res (gw ` set rs)" for res mx rs by (induction rs arbitrary: res mx) auto
  from this [of 0 0 "route_table s"] show ?thesis using assms by (auto simp: get_gateway_def l3_ok_def Let_def split: if_splits)
qed

lemma l3_ok_on_net: "l3_ok s \<Longrightarrow> \<not> off_net_gateway a s"
  using get_gateway_ok [of s a] by (auto simp: off_net_gateway_def next_hop_def)

lemma ip_send_None: "ip_send b s = None \<longleftrightarrow> off_net_gateway (ntohl (get32 30 (l_data b))) s"
  by (auto simp: ip_send_def gateway_send_def off_net_gateway_def next_hop_def Let_def split: option.split)

lemma ip_forward_None:
  assumes "34 \<le> length (l_data b)"
  shows "ip_forward b s = None \<longleftrightarrow> l_data b ! 22 \<noteq> 1 \<and> off_net_gateway (ntohl (get32 30 (l_data b))) s"
  using assms ip_send_None [of "b\<lparr>l_data := fst (decrease_ttl (l_data b))\<rparr>" s] decrease_ttl_bytes(2) [of "l_data b"]
  by (auto simp: ip_forward_def get32_decrease_ttl split: prod.split)

text \<open>Packets of the router itself are only sent when an interface leads to the destination or its gateway.\<close>

lemma ip_output_returns:
  assumes "34 \<le> length (l_data b)"
  shows "ip_output b dst p s \<noteq> None"
proof (cases "case is_neightbor dst s of Some i \<Rightarrow> Some i | None \<Rightarrow> is_neightbor (get_gateway dst s) s")
  case None then show ?thesis by (simp add: ip_output_def Let_def)
next
  case (Some out)
  from ip_output_data [OF this assms, of p] obtain d where "ip_output b dst p s = ip_send (b\<lparr>l_data := d\<rparr>) s" "get32 30 d = ntohl dst" by blast
  moreover have "\<not> off_net_gateway dst s" using Some by (auto simp: off_net_gateway_def next_hop_def split: option.splits)
  ultimately show ?thesis using ip_send_None [of "b\<lparr>l_data := d\<rparr>" s] by simp
qed

lemma length_echo_data: "38 \<le> length (l_data b) \<Longrightarrow> length (echo_data b) = length (l_data b)"
  using changed_only_checksum by (simp add: echo_data_def Let_def changed_only_def slice_def)

lemma ip_input_returns:
  assumes "38 \<le> length (l_data b)"
  shows "ip_input b s \<noteq> None"
proof -
  have "34 \<le> length (l_data (if l_data b ! 34 = 8 then b\<lparr>l_data := echo_data b\<rparr> else b))"
    using assms by (simp add: length_echo_data)
  then have "parse_icmp b s \<noteq> None" unfolding parse_icmp_def Let_def ip_output_ready_def option.map_disc_iff by (rule ip_output_returns)
  moreover have "service_unreachable b s \<noteq> None"
    unfolding service_unreachable_def Let_def by (rule ip_output_returns) (simp add: unreachable_data_def Let_def)
  ultimately show ?thesis by (simp add: ip_input_def)
qed

text \<open>What arrives changes only queues, the ARP table (by entries at its end) and what has been sent.\<close>

definition steps :: "l3 \<Rightarrow> (int \<times> l3) option \<Rightarrow> bool" where
  "steps s r \<longleftrightarrow> (case r of None \<Rightarrow> True | Some x \<Rightarrow> l3_step s (snd x))"

lemma steps_simps [simp]: "steps s None" "steps s (Some x) = l3_step s (snd x)"
  by (simp_all add: steps_def)

lemma steps_trans: "l3_step s t \<Longrightarrow> steps t r \<Longrightarrow> steps s r"
  by (auto simp: steps_def intro: l3_step_trans split: option.splits)

lemma ip_send_steps: "steps s (ip_send b s)"
  by (simp add: ip_send_def gateway_send_def Let_def enqueue_on_step neightbor_send_step arp_query_step split: option.split)

lemma ip_output_steps: "steps s (ip_output b dst p s)"
  using ip_send_steps [of s] unfolding ip_output_def Let_def by (simp split: option.split)

lemma ip_input_steps: "steps s (ip_input b s)"
proof -
  let ?s = "s\<lparr>ident := (if ident s + 1 = 0xFFFF then 0 else ident s + 1)\<rparr>"
  have "l3_step s ?s" by (simp add: l3_step_def)
  then have "steps s (service_unreachable b s)"
    unfolding service_unreachable_def Let_def by (rule steps_trans) (rule ip_output_steps)
  moreover have "steps s (map_option (\<lambda>(r, s1). (1, s1)) x)" if "steps s x" for x
    using that by (cases x) auto
  then have "steps s (parse_icmp b s)"
    unfolding parse_icmp_def Let_def ip_output_ready_def using ip_output_steps by blast
  ultimately show ?thesis by (simp add: ip_input_def)
qed

lemma ip_forward_steps: "steps s (ip_forward b s)"
  using ip_send_steps [of s] by (simp add: ip_forward_def split: prod.split)

lemma learned_step: "12 \<le> length d \<Longrightarrow> l3_step s (learned d s)"
  using add_arp_step [of "slice 6 6 d"] by (simp add: learned_def slice_def)

lemma parse_ip_steps:
  assumes "12 \<le> length (l_data b)"
  shows "steps s (parse_ip mem b s)"
  using steps_trans [OF learned_step [OF assms]] ip_input_steps ip_forward_steps
  by (simp add: parse_ip_def learn_source_learned)

lemma parse_arp_steps:
  assumes "28 \<le> length (l_data b)"
  shows "steps s (parse_arp mem b s)"
proof -
  have "l3_step s (add_arp_entry (slice 22 6 (l_data b)) (get32 28 (l_data b)) s)"
    using assms by (simp add: add_arp_step slice_def)
  then show ?thesis
    using l3_step_trans [OF _ raw_send_step] by (simp add: parse_arp_def Let_def arp_reply_def split: option.split)
qed

lemma parse_ip_None:
  assumes "38 \<le> length (l_data b)"
  shows "parse_ip mem b s = None \<longleftrightarrow> no_room mem (l_data b) s \<or>
    get_iface_by_ipaddr (ntohl (get32 30 (l_data b))) s = None \<and> l_data b ! 22 \<noteq> 1 \<and> off_net_gateway (ntohl (get32 30 (l_data b))) s"
proof -
  have "off_net_gateway a (learned d s) = off_net_gateway a s" for a d by (simp add: off_net_gateway_def next_hop_def)
  then show ?thesis
    using assms ip_input_returns [OF assms, of "learned (l_data b) s"] ip_forward_None [of b "learned (l_data b) s"]
    by (cases "get_iface_by_ipaddr (ntohl (get32 30 (l_data b))) s = None") (auto simp: parse_ip_def learn_source_learned)
qed

lemma l3_transmit_None:
  "l3_transmit now i s = None \<longleftrightarrow> transmit_fault now (interfaces s ! i)"
proof (cases "q_out (interfaces s ! i)")
  case Nil then show ?thesis by (simp add: l3_transmit_def transmit_fault_def split: l3policy.split)
next
  case (Cons b bs)
  have z: "tbf_drain now 0 n l = None" for n l by (simp add: tbf_drain.simps [of now 0])
  have p: "tbf_drain now (unat m) n l \<noteq> None" if "m \<noteq> 0" for m :: u32 and n l
    using tbf_drain_mod [of "unat m" now n l] that by (simp add: word_unat_eq_iff)
  show ?thesis
  proof (cases "i_policy (interfaces s ! i)")
    case (Tbf t)
    obtain x l where "t_mtu t \<noteq> 0 \<Longrightarrow>
        tbf_drain now (unat (t_mtu t)) (unat (word_of_nat (l_len b) :: u32)) (t_last_out t) = Some (x, l)"
      using p [of "t_mtu t"] by fastforce
    then show ?thesis using Tbf Cons z
      by (cases "t_mtu t = 0") (simp_all add: l3_transmit_def l3_dequeue_def tbf_dequeue_def ufifo_dequeue_def transmit_fault_def Let_def not_less)
  qed (use Cons in \<open>auto simp: l3_transmit_def l3_dequeue_def ufifo_dequeue_def pfifo_dequeue_def bfifo_dequeue_def transmit_fault_def split: list.splits if_splits\<close>)
qed

lemma steps_keeps_arp:
  assumes "l3_step s s'" and "get_arp_entry ip (arp_table s) = Some mac"
  shows "get_arp_entry ip (arp_table s') = Some mac"
proof -
  have keep: "find P xs = Some x \<Longrightarrow> find P (xs @ ys) = Some x" for P and xs ys :: "(bytes \<times> u32) list" and x
    by (induction xs) (auto split: if_splits)
  obtain new where "arp_table s' = arp_table s @ new" using assms(1) by (auto simp: l3_step_def)
  then show ?thesis using keep assms(2) by (fastforce simp: get_arp_entry_def)
qed

text \<open>
  C23: the faults of the router. (Buffers for packets are taken to be available.) A frame of at most 1548 bytes makes the router access memory through \<open>NULL\<close>
  exactly if the router accepts it and it is an ARP packet for one of its addresses or
  an IP packet from an unknown host, and the new ARP entry cannot be allocated, or if it is a packet in transit, alive, whose gateway is not
  on the network of an interface; so with memory and every gateway on a connected network, none does. After every
  other frame the entries of the ARP table (even one that is out of date), the routes and the addresses are as before and what was sent stays sent. The sending
  of a packet fails exactly if it is the only packet of a queue with the policy \<open>bfifo\<close> that counts bytes, or
  if the largest packet of a token bucket is 0 (it starts at 1000).
\<close>

theorem l3_faults:
  assumes "length frame \<le> 1548"
  shows "(l3_receive mem i frame s = None \<longleftrightarrow> receive_fault mem i (blit (vdebuff_alloc 1550) 0 frame) s) \<and>
    (mem \<and> l3_ok s \<longrightarrow> l3_receive mem i frame s \<noteq> None) \<and>
    (\<forall>n s'. l3_receive mem i frame s = Some (n, s') \<longrightarrow> l3_step s s' \<and> (l3_ok s \<longrightarrow> l3_ok s') \<and>
       (\<forall>ip mac. get_arp_entry ip (arp_table s) = Some mac \<longrightarrow> get_arp_entry ip (arp_table s') = Some mac)) \<and>
    (l3_transmit now j s = None \<longleftrightarrow> transmit_fault now (interfaces s ! j))"
proof (intro conjI impI allI)
  let ?d = "blit (vdebuff_alloc 1550) 0 frame" and ?b = "\<lparr>l_data = blit (vdebuff_alloc 1550) 0 frame, l_len = length frame\<rparr>"
  have l: "length ?d = 1551" using assms by simp
  have "parse_arp mem ?b s = None \<longleftrightarrow> \<not> mem \<and> get_iface_by_ipaddr (ntohl (get32 38 ?d)) s \<noteq> None"
    by (auto simp: parse_arp_def Let_def split: option.split)
  then show f: "l3_receive mem i frame s = None \<longleftrightarrow> receive_fault mem i ?d s"
    using parse_ip_None [of ?b mem s] l by (auto simp: l3_receive_def receive_fault_def accepted_def Let_def)
  show "l3_receive mem i frame s \<noteq> None" if "mem \<and> l3_ok s"
    unfolding f using that l3_ok_on_net [of s] by (simp add: receive_fault_def no_room_def)
  have st: "steps s (l3_receive mem i frame s)"
    using parse_ip_steps [of ?b s mem] parse_arp_steps [of ?b s mem] l by (simp add: l3_receive_def Let_def)
  fix n s'
  assume "l3_receive mem i frame s = Some (n, s')"
  then show step: "l3_step s s'" using st by simp
  show "l3_ok s'" if "l3_ok s" by (rule l3_step_ok [OF step that])
  show "get_arp_entry ip (arp_table s') = Some mac" if "get_arp_entry ip (arp_table s) = Some mac" for ip mac
    by (rule steps_keeps_arp [OF step that])
qed (rule l3_transmit_None)

theorem l3_faults_witness:
  "l3_receive True 0 (replicate 60 0) example_l3 \<noteq> None \<and> l3_transmit 0 0 example_queued = None"
proof -
  have l: "length (replicate 60 (0 :: u8)) \<le> 1548" by simp
  have "transmit_fault 0 (interfaces example_queued ! 0)" by (simp add: transmit_fault_def example_queued_def)
  then show ?thesis using l3_faults [OF l, of True 0 example_l3 0 0] l3_faults [OF l, of True 0 example_queued 0 0] example_l3_ok by metis
qed

section \<open>Order of the packets\<close>

text \<open>
  The contract of a routing policy, as the packet path and the main loop use it: a packet is appended to the queue or
  dropped, as the result says, and sending takes the first packet. \<open>policy_run\<close>
  is an interface at work: packets come in, and the interface gets the chance to send. It collects
  what was sent and what was accepted.
\<close>

datatype qop = Arrives l3buff | May_send

definition wire :: "l3buff \<Rightarrow> bytes" where
  "wire b = take (l_len b) (l_data b)"

fun policy_run ::
    "(l3buff \<Rightarrow> l3iface \<Rightarrow> int \<times> l3iface) \<Rightarrow> (l3iface \<Rightarrow> (bytes option \<times> l3iface) option) \<Rightarrow> qop list \<Rightarrow> l3iface \<Rightarrow>
     (bytes list \<times> l3buff list \<times> l3iface) option" where
  "policy_run enq deq [] v = Some ([], [], v)"
| "policy_run enq deq (Arrives b # ops) v =
     (case enq b v of (r, v1) \<Rightarrow>
        map_option (\<lambda>(out, acc, v'). (out, if r = 1 then b # acc else acc, v')) (policy_run enq deq ops v1))"
| "policy_run enq deq (May_send # ops) v =
     (if q_out v = [] then policy_run enq deq ops v
      else case deq v of
             None \<Rightarrow> None
           | Some (None, v1) \<Rightarrow> policy_run enq deq ops v1
           | Some (Some f, v1) \<Rightarrow> map_option (\<lambda>(out, acc, v'). (f # out, acc, v')) (policy_run enq deq ops v1))"

locale out_policy =
  fixes enq :: "l3buff \<Rightarrow> l3iface \<Rightarrow> int \<times> l3iface"
    and deq :: "l3iface \<Rightarrow> (bytes option \<times> l3iface) option"
    and installed :: "l3iface \<Rightarrow> bool"
  assumes enq_law: "installed v \<Longrightarrow> enq b v = (r, v') \<Longrightarrow> installed v' \<and> q_out v' = (if r = 1 then q_out v @ [b] else q_out v)"
    and deq_law: "installed v \<Longrightarrow> q_out v = b # bs \<Longrightarrow>
      \<exists>v'. installed v' \<and> (deq v = Some (Some (wire b), v') \<and> q_out v' = bs \<or> deq v = Some (None, v') \<and> q_out v' = q_out v)"
begin

lemma fifo:
  assumes "installed v"
  shows "\<exists>out acc v'. policy_run enq deq ops v = Some (out, acc, v') \<and> installed v' \<and>
    out @ map wire (q_out v') = map wire (q_out v) @ map wire acc"
  using assms
proof (induction ops arbitrary: v)
  case (Cons x ops)
  show ?case
  proof (cases x)
    case (Arrives b)
    obtain r v1 where e: "enq b v = (r, v1)" by fastforce
    have q: "installed v1" "q_out v1 = (if r = 1 then q_out v @ [b] else q_out v)" using enq_law [OF Cons.prems e] by blast+
    from Cons.IH [OF q(1)] obtain out acc v' where "policy_run enq deq ops v1 = Some (out, acc, v')" "installed v'"
      "out @ map wire (q_out v') = map wire (q_out v1) @ map wire acc" by blast
    then show ?thesis using Arrives e q(2) by (cases "r = 1") auto
  next
    case May_send
    show ?thesis
    proof (cases "q_out v")
      case Nil then show ?thesis using Cons.IH [OF Cons.prems] May_send by simp
    next
      case (Cons b bs)
      from deq_law [OF \<open>installed v\<close> Cons] obtain v1 where v1: "installed v1"
        "deq v = Some (Some (wire b), v1) \<and> q_out v1 = bs \<or> deq v = Some (None, v1) \<and> q_out v1 = q_out v" by blast
      from Cons.IH [OF v1(1)] obtain out acc v' where "policy_run enq deq ops v1 = Some (out, acc, v')" "installed v'"
        "out @ map wire (q_out v') = map wire (q_out v1) @ map wire acc" by blast
      then show ?thesis using v1(2) May_send Cons by auto
    qed
  qed
qed simp

end

interpretation uf: out_policy l3_enqueue "l3_dequeue now" "\<lambda>v. i_policy v = Ufifo" for now
  by unfold_locales (auto simp: l3_enqueue_def ufifo_enqueue_def l3_dequeue_def ufifo_dequeue_def wire_def)

interpretation pf: out_policy l3_enqueue "l3_dequeue now" "\<lambda>v. \<exists>qlen limit d. i_policy v = Pfifo qlen limit d" for now
  by unfold_locales
    (auto simp: l3_enqueue_def pfifo_enqueue_def ufifo_enqueue_def l3_dequeue_def pfifo_dequeue_def ufifo_dequeue_def wire_def split: if_splits)

text \<open>
  C39: order of the packets. With the unlimited policy and the policy that counts packets, an interface sends the packets it
  has accepted in the order of their arrival, each once and unchanged, whatever the order in which packets arrive
  and are sent; what it has not sent yet is in its queue.
\<close>

theorem l3_order_kept:
  assumes "i_policy v = Ufifo \<or> i_policy v = Pfifo qlen limit d"
  shows "\<exists>out acc v'. policy_run l3_enqueue (l3_dequeue now) ops v = Some (out, acc, v') \<and>
    out @ map wire (q_out v') = map wire (q_out v) @ map wire acc"
  using assms uf.fifo [of v now ops] pf.fifo [of v now ops] by blast

theorem l3_order_kept_witness:
  "\<exists>out acc v'. policy_run l3_enqueue (l3_dequeue 0) [Arrives \<lparr>l_data = [1, 2], l_len = 2\<rparr>, Arrives \<lparr>l_data = [3], l_len = 1\<rparr>, May_send]
     (interfaces example_l3 ! 1) = Some (out, acc, v') \<and> out @ map wire (q_out v') = map wire acc"
proof -
  have "i_policy (interfaces example_l3 ! 1) = Ufifo \<or> i_policy (interfaces example_l3 ! 1) = Pfifo 0 10 0" "q_out (interfaces example_l3 ! 1) = []"
    by (simp_all add: example_l3_def)
  then show ?thesis
    using l3_order_kept [where v = "interfaces example_l3 ! 1" and now = 0
        and ops = "[Arrives \<lparr>l_data = [1, 2], l_len = 2\<rparr>, Arrives \<lparr>l_data = [3], l_len = 1\<rparr>, May_send]"] by simp
qed

end
