(* ===== verification/Spec2Isabelle.thy ===== *)
theory Spec2Isabelle
  imports Forwarding Spanning Commands Datasock NsCodec NsTunnel Wirefilter Console Routes Rqueue Arptree L3
begin

text \<open>
  \<^bold>\<open>VDE: a virtual Ethernet switch and its companions.\<close>

  The repository holds \<^verbatim>\<open>vde_switch\<close>, a user-level Ethernet switch with VLANs and a
  spanning tree protocol (\<^verbatim>\<open>src/vde-2/src/vde_switch\<close>), and programs around it: a tunnel through
  DNS queries (\<^verbatim>\<open>vde_over_ns\<close>), a filter that delays and disturbs a cable (\<^verbatim>\<open>wirefilter.c\<close>),
  two routers (\<^verbatim>\<open>vde_router\<close>, \<^verbatim>\<open>vde_l3\<close>), plugs, terminals and libraries. This development models the switch nearly whole, with
  the tunnel's data path, the queues of the wire filter, the tables and queues of the first router and the packet
  path of the second, and proves what makes them correct. Where the code
  does not do what it means to, the exact behaviour is proved.

  \<^bold>\<open>The switch and how its parts interact.\<close> The main loop of \<^verbatim>\<open>vde_switch.c\<close> waits for
  descriptors and hands each to the module that registered its type. \<^verbatim>\<open>datasock.c\<close> accepts
  connections, asks \<^verbatim>\<open>port.c\<close> for endpoints and gives it the packets it receives. \<^verbatim>\<open>port.c\<close> keeps
  the ports, the VLANs as bit arrays over the ports (\<^verbatim>\<open>bitarray.h\<close>), and forwards packets by the
  MAC table of \<^verbatim>\<open>hash.c\<close>; it gives BPDUs to \<^verbatim>\<open>fstp.c\<close>, which in turn blocks and releases ports and flushes the
  MAC table. \<^verbatim>\<open>qtimer.c\<close> calls the garbage collector of the table and the hello of the spanning
  tree. \<^verbatim>\<open>consmgmt.c\<close> reads commands from connections and scripts and calls the operations of the other parts.

  \<^bold>\<open>The routers.\<close> \<^verbatim>\<open>vde_router\<close> has for each interface a receiving thread, 32 queues by priority, a thread that moves packets to the
  output queue and one that sends them; a timer thread releases packets at the rate of a token policy. Routes
  and packet filters are lists, the ARP table of an interface is a red-black tree. \<^verbatim>\<open>vde_l3\<close> does all in one loop: a
  packet is received, answered, dropped or put on the queue of an interface, whose policy says when it is sent.

  \<^bold>\<open>Theories, bottom up.\<close>
  \<^item> \<open>Prelude\<close>: machine types, \<open>errno\<close>, \<open>memcmp\<close>, \<open>blit\<close> (\<open>memcpy\<close> and \<open>memmove\<close> on buffers), lemmas on lists, options
    and words. \<open>Cstring\<close>: \<open>atoi\<close> and \<open>sscanf\<close> as the commands use them.
  \<^item> \<open>Bitarray\<close> (\<^verbatim>\<open>bitarray.h\<close>): words of 64 bits; the locale \<open>bit_set\<close> is the contract of a set of
    small numbers, interpreted by \<open>ba_check\<close>, \<open>ba_set\<close>, \<open>ba_clr\<close>; refinement of finite sets, the loops visit the
    elements in order, the counted variant keeps its count.
  \<^item> \<open>Qtimer\<close> (\<^verbatim>\<open>qtimer.c\<close>): the array of timers and the alarm handler; when callbacks run.
  \<^item> \<open>Hash\<close> (\<^verbatim>\<open>hash.c\<close>): chains in an array; the locale \<open>mac_table\<close> is the contract of the table
    (look up after learn and purge) that the switch relies on, interpreted by the code's operations; learning with
    minimum persistence, exact deletions, resizing. The rounding loop is a partial function: it diverges on negative sizes.
  \<^item> \<open>Portbase\<close>, \<open>Fstp\<close>, \<open>Port\<close> (\<^verbatim>\<open>port.c\<close>, \<^verbatim>\<open>fstp.c\<close>): the record \<open>switch\<close> holds the static variables of
    both files; one definition for each function. Packets are bytes in a buffer with four bytes of
    room in front, because the code adds and removes VLAN tags in place. \<open>outs\<close> lists what was sent and what modules
    were told; \<open>fault\<close> records an access outside of memory (\<open>NULL\<close>, an index out of range).
  \<^item> \<open>Invariant\<close>, \<open>Consistency\<close>, \<open>Operations\<close>, \<open>Dynamics\<close>: \<open>struct_ok\<close>, which every function keeps
    at every moment, and \<open>switch_wf\<close>, which holds between operations: the forwarding sets, the spanning tree
    sets and the MAC table only name active ports that belong to the VLAN. One lemma for each operation.
  \<^item> \<open>System\<close> (\<^verbatim>\<open>main\<close> of \<^verbatim>\<open>vde_switch.c\<close>): options, initialisation, the operations as a datatype with \<open>perform\<close>, and the
    inductive predicate \<open>reachable\<close>; the invariant holds in every reachable state. \<open>allowed\<close> names what is left out: removing VLAN 0,
    reducing the number of ports across a word, and allocations that fail where the code does not look. Each is proved
    to fault (\<open>vlanremove_default_faults\<close>, \<open>setnumports_shrink_faults\<close>, \<open>allocation_failures_fault\<close>).
  \<^item> \<open>Example\<close>: a concrete switch with four ports at which the theorems are instantiated.
  \<^item> \<open>Forwarding\<close>: \<open>forward_spec\<close> is the reference of a learning VLAN switch; \<open>handle_in_packet\<close>
    refines it, bytes and order included; isolation of VLANs, learning, hub mode.
  \<^item> \<open>Spanning\<close>: BPDUs as bytes and back, the comparison as a lexicographic order, the election of
    a root. \<open>Commands\<close>: access control and closing.
  \<^item> \<open>Mainloop\<close> (\<^verbatim>\<open>vde_switch.c\<close>): modules, types, the poll array with its permutation, private data in an explicit heap;
    the locale \<open>quiet_io\<close> is what the loop needs of a handler in order to serve every ready descriptor once,
    interpreted in \<open>Datasock\<close> (\<^verbatim>\<open>datasock.c\<close>) by the handler of data sockets.
  \<^item> \<open>Console\<close> (\<^verbatim>\<open>consmgmt.c\<close>): the linked list of commands, the command tables of all modules, the interpreter
    with scripts, debug classes and event callbacks. A line
    finds its command in the table, and a script performs the operations of its lines in order.
  \<^item> \<open>NsCodec\<close>, \<open>NsTunnel\<close> (\<^verbatim>\<open>vde_over_ns\<close>): data as host names and text records, fragments and
    reassembly, the queue of waiting queries.
  \<^item> \<open>Wirefilter\<close> (\<^verbatim>\<open>wirefilter.c\<close>): the heap of delayed packets, with the locale \<open>delay_queue\<close> as its contract, and the
    splitting of a byte stream into packets, with a reference parser.
  \<^item> \<open>Routes\<close>, \<open>Rqueue\<close> (\<^verbatim>\<open>vder_datalink.c\<close>, \<^verbatim>\<open>vder_queue.c\<close>): the sorted routing table finds the longest prefix; the queues of an interface as a state
    machine (\<open>iqueues_reach\<close>) with its semaphores, which count the packets as long as no token policy is used; the timer, whose
    rate is exact. A semaphore belongs to an output queue or, shared, to the priority queues of an interface.
  \<^item> \<open>Arptree\<close> (\<^verbatim>\<open>vder_arp.c\<close>, \<^verbatim>\<open>rbtree.c\<close>): insertion into red-black trees with parent pointers in an explicit store; the
    tree stays balanced and ordered and implements a map.
  \<^item> \<open>Ipheader\<close>, \<open>L3\<close> (\<^verbatim>\<open>vde_l3\<close>): checksums against the ones' complement sum, the routing of packets against a
    reference, ARP, echo, the queue policies with the locale \<open>out_policy\<close> as their contract, and the exact conditions under which a packet or
    a transmission faults.

  \<^bold>\<open>Conventions.\<close> A C function on static variables is a function from state to state;
  results that are \<open>errno\<close> values are the datatype \<open>errno\<close>. Integers have the width of the code
  where wrap-around can happen (words) and are \<open>nat\<close> or \<open>int\<close> where the code keeps them small.
  Whether \<open>malloc\<close> succeeds, what system calls return and what the clock says are arguments: for operations that allocate
  several times, one argument for each allocation or the number of those that succeed.
  \<open>None\<close>, \<open>fault\<close> or a result named for it stand for an access outside of memory, after which nothing more is claimed; for operations that can call \<open>exit\<close>, \<open>None\<close> is the end of the program.
  Loops are structural recursion, have a termination proof, or are partial functions proved to return a value (the rounding of sizes,
  the loop of the timer, the walks and the rebalancing of trees). Bounds: \<open>delcl\<close> takes a number of steps, of which one more than
  the list has entries is proved to be enough; \<open>handle_cmd\<close> takes the number of files that can still be opened,
  which bounds the nesting of scripts in the program too.

  \<^bold>\<open>Not modelled.\<close> Commands that only print (their text and result are an argument of the console);
  the loading of plugins and what plugins do, except that their packet filters are arbitrary functions that read the packet (those of the
  repository do not write to it) and that the plugin commands may change the event callbacks;
  signals, daemon mode, pid files, sockets and devices beyond their answers (\<^verbatim>\<open>tuntap.c\<close>, \<^verbatim>\<open>sockutils.c\<close>); \<^verbatim>\<open>packetq.c\<close>,
  which is compiled only with an option that nothing sets; the random disturbances of \<^verbatim>\<open>wirefilter.c\<close>,
  which compute with floating point numbers; whole DNS messages. The client libraries, plugs, terminals and front ends
  are wrappers around system calls. Of the routers: the reading of commands and options, DHCP, OLSR, the library that opens interfaces,
  the UDP and ICMP code of \<^verbatim>\<open>vde_router\<close>, the loading of queue policies, and \<^verbatim>\<open>vde_l3\<close> without memory for packet buffers. \<^verbatim>\<open>slirpvde\<close> is third-party code; the kernel modules run in another environment.
\<close>

end
